(* ===== verification/Mag_Prelude.thy ===== *)
theory Mag_Prelude
  imports Main "HOL-Library.Word" "HOL-Library.Multiset"
begin

text \<open>
  Shared material of the magneto development: the machine types, the error codes of
  \<^verbatim>\<open>src/src/error_no.h\<close>, the outcome type of code that can crash, the collections the
  component proofs draw on, and generic lemmas on lists updated by index.
\<close>

section \<open>Machine types\<close>

type_synonym u16 = "16 word"
type_synonym u32 = "32 word"
type_synonym u64 = "64 word"
type_synonym byte = "8 word"

text \<open>File descriptors and times are C++ \<^verbatim>\<open>int\<close>/\<^verbatim>\<open>time_t\<close> values that the modelled
  code only compares, adds and stores; they are unbounded integers here.\<close>

type_synonym fd = int
type_synonym msec = int
type_synonym sec = int

text \<open>Conversion of a \<^verbatim>\<open>size_t\<close> or \<^verbatim>\<open>int64_t\<close> to a C++ \<^verbatim>\<open>int\<close>: the low 32 bits,
  read in two's complement.\<close>

definition to_int32 :: "int \<Rightarrow> int" where
  "to_int32 x = sint (word_of_int x :: u32)"

section \<open>Error codes\<close>

definition kOk :: int where "kOk = 0"
definition kPartial :: int where "kPartial = -1"
definition kTimeout :: int where "kTimeout = -2"
definition kIO :: int where "kIO = -3"
definition kBroken :: int where "kBroken = -4"
definition kEncode :: int where "kEncode = -5"
definition kDecode :: int where "kDecode = -6"
definition kSwapCtx :: int where "kSwapCtx = -7"
definition kQueueBusy :: int where "kQueueBusy = -8"
definition kNotFound :: int where "kNotFound = -9"
definition kOther :: int where "kOther = -100"

section \<open>Outcomes of code that can crash\<close>

text \<open>A run of a member function either returns or dies: a null dereference, an integer
  division by zero, an access past the end of a vector, a read through a pointer whose target
  is gone, a failed \<^verbatim>\<open>XFC_ASSERT\<close>. \<open>NoReturn\<close> stands for a call that has not returned.\<close>

datatype crash = NullDeref | DivByZero | OutOfRange | Dangling | NoReturn | AssertFail

type_synonym 'a outcome = "crash + 'a"

definition obind :: "'a outcome \<Rightarrow> ('a \<Rightarrow> 'b outcome) \<Rightarrow> 'b outcome" where
  "obind r f = (case r of Inl e \<Rightarrow> Inl e | Inr x \<Rightarrow> f x)"

lemma obind_simps [simp]: "obind (Inl e) f = Inl e" "obind (Inr x) f = f x"
  by (simp_all add: obind_def)

lemma obind_Inr_iff: "obind r f = Inr y \<longleftrightarrow> (\<exists>x. r = Inr x \<and> f x = Inr y)"
  by (cases r) simp_all

fun ofold :: "('a \<Rightarrow> 's \<Rightarrow> 's outcome) \<Rightarrow> 'a list \<Rightarrow> 's \<Rightarrow> 's outcome" where
  "ofold f [] s = Inr s"
| "ofold f (x # xs) s = obind (f x s) (ofold f xs)"

text \<open>An invariant of the rounds of a loop is one of the loop.\<close>

lemma ofold_inv:
  assumes "ofold f xs s = Inr s'" "I s" "\<And>x s s'. x \<in> set xs \<Longrightarrow> I s \<Longrightarrow> f x s = Inr s' \<Longrightarrow> I s'"
  shows "I s'"
  using assms by (induction xs arbitrary: s) (auto simp: obind_Inr_iff)

lemma ofold_not: "(\<And>x s. f x s \<noteq> Inl e) \<Longrightarrow> ofold f xs s \<noteq> Inl e"
proof (induction xs arbitrary: s)
  case (Cons x xs)
  then show ?case by (cases "f x s") (auto simp: obind_def)
qed simp

section \<open>Collections\<close>

named_theorems error_codes \<open>the definitions of the error codes\<close>
named_theorems list_upd \<open>how reads see writes by index\<close>

lemmas [error_codes] = kOk_def kPartial_def kTimeout_def kIO_def kBroken_def kEncode_def
  kDecode_def kSwapCtx_def kQueueBusy_def kNotFound_def kOther_def

lemma error_codes_distinct [simp]:
  "kOk \<noteq> kPartial" "kOk \<noteq> kTimeout" "kOk \<noteq> kBroken" "kOk \<noteq> kEncode" "kOk \<noteq> kDecode"
  "kOk \<noteq> kQueueBusy" "kOk \<noteq> kNotFound" "kOk \<noteq> kOther"
  "kPartial \<noteq> kOk" "kTimeout \<noteq> kOk" "kBroken \<noteq> kOk" "kEncode \<noteq> kOk" "kDecode \<noteq> kOk"
  "kQueueBusy \<noteq> kOk" "kNotFound \<noteq> kOk" "kOther \<noteq> kOk"
  by (simp_all add: error_codes)

section \<open>Lists updated by index\<close>

lemma nth_update_eq [list_upd]:
  "i < length xs \<Longrightarrow> xs[i := x] ! j = (if j = i then x else xs ! j)"
  by (simp add: nth_list_update)

lemma distinct_nth_inj:
  "distinct xs \<Longrightarrow> i < length xs \<Longrightarrow> j < length xs \<Longrightarrow> xs ! i = xs ! j \<Longrightarrow> i = j"
  by (simp add: nth_eq_iff_index_eq)

lemma mset_swap_update:
  "i < length xs \<Longrightarrow> j < length xs \<Longrightarrow> mset (xs[i := xs ! j, j := xs ! i]) = mset xs"
  by (rule mset_swap)

lemma distinct_swap_update:
  assumes "i < length xs" "j < length xs"
  shows "distinct (xs[i := xs ! j, j := xs ! i]) \<longleftrightarrow> distinct xs"
  using assms by (rule distinct_swap)

lemma set_swap_update:
  assumes "i < length xs" "j < length xs"
  shows "set (xs[i := xs ! j, j := xs ! i]) = set xs"
  using mset_swap_update [OF assms] by (metis mset_eq_setD)

lemma to_int32_small: "- (2 ^ 31) \<le> x \<Longrightarrow> x < 2 ^ 31 \<Longrightarrow> to_int32 x = x"
  by (simp add: to_int32_def sint_sbintrunc' signed_take_bit_int_eq_self)

end
