(* ===== verification/Timer_Heap.thy ===== *)
theory Timer_Heap
  imports Mag_Prelude
begin

text \<open>
  The binary heap \<^verbatim>\<open>HeapBase\<close> of \<^verbatim>\<open>deps/public-cpp/include/public-cpp/heap.hpp\<close>, which the
  event driver keeps its timeouts in. The array holds pointers to nodes; a node carries its
  own index in the array, and the pointer (\<^verbatim>\<open>sign\<close>) is the handle a client later updates
  or erases the entry by. Nodes are addressed by positive numbers, so that 0 is the null
  sign. The operations are shown to keep the heap order and the index back-pointers and to
  implement a map from live signs to values with access to a least entry.
\<close>

section \<open>State\<close>

datatype heap_category = MinHeap | MaxHeap

record 'v heap_base =
  init_size_heap :: nat
  num_items :: nat
  size_container :: nat
  heap_items :: "nat list"
  node_index :: "nat \<Rightarrow> nat"
  node_val :: "nat \<Rightarrow> 'v"
  next_node :: nat
  heap_inited :: bool

definition heap_new :: "nat \<Rightarrow> 'v heap_base" where
  "heap_new n = \<lparr>init_size_heap = n, num_items = 0, size_container = 0, heap_items = [],
     node_index = (\<lambda>_. 0), node_val = (\<lambda>_. undefined), next_node = 1, heap_inited = False\<rparr>"

section \<open>Operations\<close>

definition heap_Compare :: "heap_category \<Rightarrow> ('v \<Rightarrow> 'k::linorder) \<Rightarrow> 'v \<Rightarrow> 'v \<Rightarrow> bool" where
  "heap_Compare order feature a b =
     (case order of MinHeap \<Rightarrow> feature a < feature b | MaxHeap \<Rightarrow> feature a > feature b)"

definition heap_Init :: "'v heap_base \<Rightarrow> 'v heap_base" where
  "heap_Init h = h\<lparr>num_items := 0, size_container := init_size_heap h,
     heap_items := [next_node h ..< next_node h + init_size_heap h],
     next_node := next_node h + init_size_heap h, heap_inited := True\<rparr>"

text \<open>The macro \<^verbatim>\<open>XFC_RAII_INIT\<close>: initialise on first use.\<close>

definition heap_raii :: "'v heap_base \<Rightarrow> 'v heap_base" where
  "heap_raii h = (if heap_inited h then h else heap_Init h)"

definition heap_Resize :: "'v heap_base \<Rightarrow> 'v heap_base" where
  "heap_Resize h = h\<lparr>heap_items := heap_items h @ [next_node h ..< next_node h + size_container h],
     next_node := next_node h + size_container h,
     size_container := 2 * size_container h\<rparr>"

text \<open>\<^verbatim>\<open>heap_items_[i] = node; node->index = i\<close>\<close>

definition heap_place :: "nat \<Rightarrow> nat \<Rightarrow> 'v heap_base \<Rightarrow> 'v heap_base" where
  "heap_place i node h = h\<lparr>heap_items := (heap_items h)[i := node],
     node_index := (node_index h)(node := i)\<rparr>"

function heap_upstairs :: "('v \<Rightarrow> 'v \<Rightarrow> bool) \<Rightarrow> nat \<Rightarrow> nat \<Rightarrow> 'v heap_base \<Rightarrow> 'v heap_base \<times> nat" where
  "heap_upstairs cmp node i h =
     (if 1 < i \<and> cmp (node_val h node) (node_val h (heap_items h ! (i div 2)))
      then heap_upstairs cmp node (i div 2) (heap_place i (heap_items h ! (i div 2)) h)
      else (h, i))"
  by pat_completeness auto
termination
  by (relation "measure (\<lambda>(cmp, node, i, h). i)") auto

text \<open>The smaller child of \<^verbatim>\<open>pos\<close>, whose left child \<^verbatim>\<open>2 * pos\<close> exists.\<close>

definition heap_min_child :: "('v \<Rightarrow> 'v \<Rightarrow> bool) \<Rightarrow> 'v heap_base \<Rightarrow> nat \<Rightarrow> nat" where
  "heap_min_child cmp h pos =
     (let iter = 2 * pos in
      if iter = num_items h
         \<or> cmp (node_val h (heap_items h ! iter)) (node_val h (heap_items h ! (iter + 1)))
      then iter else iter + 1)"

text \<open>Slot 0 of the array is not in use and no caller passes \<^verbatim>\<open>pos = 0\<close>
  (\<^verbatim>\<open>AdjustNode_\<close> is called with node indices, which are positive); the guard on it makes the
  function total.\<close>

function heap_downstairs :: "('v \<Rightarrow> 'v \<Rightarrow> bool) \<Rightarrow> nat \<Rightarrow> nat \<Rightarrow> 'v heap_base \<Rightarrow> 'v heap_base \<times> nat" where
  "heap_downstairs cmp node pos h =
     (if pos = 0 \<or> num_items h < 2 * pos then (h, pos)
      else let m = heap_min_child cmp h pos in
        if cmp (node_val h node) (node_val h (heap_items h ! m)) then (h, pos)
        else heap_downstairs cmp node m (heap_place pos (heap_items h ! m) h))"
  by pat_completeness auto
termination
  by (relation "measure (\<lambda>(cmp, node, pos, h). num_items h - pos)")
    (auto simp: heap_min_child_def heap_place_def Let_def split: if_splits)

definition heap_AdjustNode :: "('v \<Rightarrow> 'v \<Rightarrow> bool) \<Rightarrow> nat \<Rightarrow> 'v heap_base \<Rightarrow> 'v heap_base" where
  "heap_AdjustNode cmp index h =
     (if num_items h < index then h
      else let node = heap_items h ! index in
        if 1 < index \<and> cmp (node_val h node) (node_val h (heap_items h ! (index div 2)))
        then (case heap_upstairs cmp node index h of (h', i) \<Rightarrow> heap_place i node h')
        else (case heap_downstairs cmp node index h of (h', i) \<Rightarrow> heap_place i node h'))"

definition heap_Insert :: "('v \<Rightarrow> 'v \<Rightarrow> bool) \<Rightarrow> 'v \<Rightarrow> 'v heap_base \<Rightarrow> 'v heap_base \<times> nat" where
  "heap_Insert cmp val h0 =
     (let h1 = heap_raii h0;
          h2 = (if num_items h1 + 1 = size_container h1 then heap_Resize h1 else h1);
          n = num_items h2 + 1;
          new_item = heap_items h2 ! n;
          h3 = h2\<lparr>num_items := n, node_val := (node_val h2)(new_item := val)\<rparr>
      in case heap_upstairs cmp new_item n h3 of (h4, i) \<Rightarrow> (heap_place i new_item h4, new_item))"

definition heap_Update :: "('v \<Rightarrow> 'v \<Rightarrow> bool) \<Rightarrow> nat \<Rightarrow> 'v \<Rightarrow> 'v heap_base \<Rightarrow> 'v heap_base" where
  "heap_Update cmp sign val h0 =
     (let h = heap_raii h0
      in heap_AdjustNode cmp (node_index h sign) (h\<lparr>node_val := (node_val h)(sign := val)\<rparr>))"

definition heap_UpdateTop :: "('v \<Rightarrow> 'v \<Rightarrow> bool) \<Rightarrow> 'v \<Rightarrow> 'v heap_base \<Rightarrow> 'v heap_base" where
  "heap_UpdateTop cmp val h0 =
     (let h = heap_raii h0 in
      if num_items h = 0 then h
      else heap_AdjustNode cmp 1 (h\<lparr>node_val := (node_val h)(heap_items h ! 1 := val)\<rparr>))"

definition heap_Refresh :: "('v \<Rightarrow> 'v \<Rightarrow> bool) \<Rightarrow> nat \<Rightarrow> 'v heap_base \<Rightarrow> 'v heap_base" where
  "heap_Refresh cmp sign h0 = (let h = heap_raii h0 in heap_AdjustNode cmp (node_index h sign) h)"

definition heap_RefreshTop :: "('v \<Rightarrow> 'v \<Rightarrow> bool) \<Rightarrow> 'v heap_base \<Rightarrow> 'v heap_base" where
  "heap_RefreshTop cmp h0 = heap_AdjustNode cmp 1 (heap_raii h0)"

definition heap_Erase :: "('v \<Rightarrow> 'v \<Rightarrow> bool) \<Rightarrow> nat \<Rightarrow> 'v heap_base \<Rightarrow> 'v heap_base" where
  "heap_Erase cmp sign h0 =
     (let h = heap_raii h0 in
      if num_items h = 0 then h
      else let i = node_index h sign;
               n = num_items h;
               items = ((heap_items h)[i := heap_items h ! n])[n := sign];
               h' = h\<lparr>heap_items := items, num_items := n - 1,
                      node_index := (node_index h)(items ! i := i)\<rparr>
           in heap_AdjustNode cmp i h')"

definition heap_Top :: "'v heap_base \<Rightarrow> 'v option" where
  "heap_Top h = (if num_items h \<noteq> 0 then Some (node_val h (heap_items h ! 1)) else None)"

definition heap_Pop :: "('v \<Rightarrow> 'v \<Rightarrow> bool) \<Rightarrow> 'v heap_base \<Rightarrow> 'v heap_base" where
  "heap_Pop cmp h0 = (let h = heap_raii h0 in heap_Erase cmp (heap_items h ! 1) h)"

definition heap_Clear :: "'v heap_base \<Rightarrow> 'v heap_base" where
  "heap_Clear h = h\<lparr>num_items := 0\<rparr>"

declare heap_upstairs.simps [simp del] heap_downstairs.simps [simp del]

section \<open>Invariant and abstraction\<close>

text \<open>The live nodes are those in slots 1 to \<^verbatim>\<open>num_items_\<close>.\<close>

definition heap_live :: "'v heap_base \<Rightarrow> nat set" where
  "heap_live h = {heap_items h ! i | i. 1 \<le> i \<and> i \<le> num_items h}"

definition heap_map :: "'v heap_base \<Rightarrow> (nat \<rightharpoonup> 'v)" where
  "heap_map h = (\<lambda>n. if n \<in> heap_live h then Some (node_val h n) else None)"

definition heap_alloc :: "'v heap_base \<Rightarrow> bool" where
  "heap_alloc h \<longleftrightarrow> num_items h < size_container h \<and> length (heap_items h) = size_container h
     \<and> distinct (heap_items h) \<and> set (heap_items h) \<subseteq> {1..<next_node h}"

definition heap_indexed :: "'v heap_base \<Rightarrow> bool" where
  "heap_indexed h \<longleftrightarrow> (\<forall>i. 1 \<le> i \<and> i \<le> num_items h \<longrightarrow> node_index h (heap_items h ! i) = i)"

definition heap_ordered :: "('v \<Rightarrow> 'v \<Rightarrow> bool) \<Rightarrow> 'v heap_base \<Rightarrow> bool" where
  "heap_ordered cmp h \<longleftrightarrow> (\<forall>i. 2 \<le> i \<and> i \<le> num_items h \<longrightarrow>
     \<not> cmp (node_val h (heap_items h ! i)) (node_val h (heap_items h ! (i div 2))))"

definition heap_wf :: "('v \<Rightarrow> 'v \<Rightarrow> bool) \<Rightarrow> 'v heap_base \<Rightarrow> bool" where
  "heap_wf cmp h \<longleftrightarrow> (if heap_inited h
     then heap_alloc h \<and> heap_indexed h \<and> heap_ordered cmp h
     else num_items h = 0 \<and> 1 \<le> init_size_heap h \<and> 1 \<le> next_node h)"


section \<open>Moving a node through the array\<close>

text \<open>
  While a node travels, the array has a hole at some slot \<^verbatim>\<open>i\<close>: the node belongs there but
  is written only when the loop stops. The predicates below speak of the array with the hole
  filled.
\<close>

definition hole_val :: "nat \<Rightarrow> nat \<Rightarrow> 'v heap_base \<Rightarrow> nat \<Rightarrow> 'v" where
  "hole_val node i h j = node_val h (if j = i then node else heap_items h ! j)"

definition hole_ok :: "nat \<Rightarrow> nat \<Rightarrow> 'v heap_base \<Rightarrow> bool" where
  "hole_ok node i h \<longleftrightarrow> 1 \<le> i \<and> i \<le> num_items h
     \<and> heap_alloc (h\<lparr>heap_items := (heap_items h)[i := node]\<rparr>)
     \<and> (\<forall>j. 1 \<le> j \<and> j \<le> num_items h \<and> j \<noteq> i \<longrightarrow> node_index h (heap_items h ! j) = j)"

definition hole_live :: "nat \<Rightarrow> nat \<Rightarrow> 'v heap_base \<Rightarrow> nat set" where
  "hole_live node i h = insert node {heap_items h ! j | j. 1 \<le> j \<and> j \<le> num_items h \<and> j \<noteq> i}"

lemma heap_place_frame [simp]:
  "num_items (heap_place i n h) = num_items h"
  "size_container (heap_place i n h) = size_container h"
  "node_val (heap_place i n h) = node_val h"
  "next_node (heap_place i n h) = next_node h"
  "heap_inited (heap_place i n h) = heap_inited h"
  "init_size_heap (heap_place i n h) = init_size_heap h"
  "heap_items (heap_place i n h) = (heap_items h)[i := n]"
  "node_index (heap_place i n h) = (node_index h)(n := i)"
  by (simp_all add: heap_place_def)

lemma hole_ok_length: "hole_ok node i h \<Longrightarrow> num_items h < length (heap_items h)"
  by (simp add: hole_ok_def heap_alloc_def)

lemma hole_swap:
  assumes "i < length xs" "k < length xs" "k \<noteq> i"
  shows "(xs[i := xs ! k])[k := n] = (xs[i := n])[i := (xs[i := n]) ! k, k := (xs[i := n]) ! i]"
  using assms by simp

lemma hole_distinct:
  assumes ok: "hole_ok node i h" and j: "j < length (heap_items h)" "j \<noteq> i"
  shows "heap_items h ! j \<noteq> node"
proof
  assume eq: "heap_items h ! j = node"
  have d: "distinct ((heap_items h)[i := node])" and i: "i < length (heap_items h)"
    using ok by (auto simp: hole_ok_def heap_alloc_def)
  from i j eq have "(heap_items h)[i := node] ! i = (heap_items h)[i := node] ! j"
    by (simp add: nth_list_update)
  with distinct_nth_inj [OF d, of i j] i j have "i = j" by simp
  with j show False by simp
qed

lemma hole_items_inj:
  assumes ok: "hole_ok node i h" and "j < length (heap_items h)" "j \<noteq> i"
    and "k < length (heap_items h)" "k \<noteq> i" and "heap_items h ! j = heap_items h ! k"
  shows "j = k"
proof -
  have "distinct ((heap_items h)[i := node])"
    using ok by (simp add: hole_ok_def heap_alloc_def)
  from distinct_nth_inj [OF this, of j k] assms show ?thesis
    by (simp add: nth_list_update)
qed

lemma hole_move:
  assumes ok: "hole_ok node i h" and k: "1 \<le> k" "k \<le> num_items h" "k \<noteq> i"
  shows "hole_ok node k (heap_place i (heap_items h ! k) h)"
proof -
  let ?xs = "heap_items h" and ?h' = "heap_place i (heap_items h ! k) h"
  have len: "num_items h < length ?xs" by (rule hole_ok_length [OF ok])
  have i: "1 \<le> i" "i \<le> num_items h" using ok by (auto simp: hole_ok_def)
  have lt: "i < length ?xs" "k < length ?xs" using len i k by auto
  have al: "heap_alloc (h\<lparr>heap_items := ?xs[i := node]\<rparr>)"
    using ok by (simp add: hole_ok_def)
  let ?A = "?xs[i := node]"
  have sw: "(?xs[i := ?xs ! k])[k := node] = ?A[i := ?A ! k, k := ?A ! i]"
    using lt k(3) by (rule hole_swap)
  have "i < length ?A" "k < length ?A" using lt by auto
  note swap = distinct_swap_update [OF this] set_swap_update [OF this]
  have "distinct ((?xs[i := ?xs ! k])[k := node])"
    "set ((?xs[i := ?xs ! k])[k := node]) \<subseteq> {1..<next_node h}"
    using al unfolding sw swap by (simp_all add: heap_alloc_def)
  then have "heap_alloc (?h'\<lparr>heap_items := (heap_items ?h')[k := node]\<rparr>)"
    using al by (simp add: heap_alloc_def)
  moreover have "node_index ?h' (heap_items ?h' ! j) = j"
    if j: "1 \<le> j" "j \<le> num_items h" "j \<noteq> k" for j
  proof (cases "j = i")
    case True
    with lt show ?thesis by simp
  next
    case False
    have "?xs ! j \<noteq> ?xs ! k"
      using hole_items_inj [OF ok, of j k] j False k len by auto
    with False j ok show ?thesis by (simp add: hole_ok_def)
  qed
  ultimately show ?thesis using k by (simp add: hole_ok_def)
qed

lemma hole_live_move:
  assumes ok: "hole_ok node i h" and k: "1 \<le> k" "k \<le> num_items h" "k \<noteq> i"
  shows "hole_live node k (heap_place i (heap_items h ! k) h) = hole_live node i h"
proof -
  let ?xs = "heap_items h"
  have i: "1 \<le> i" "i \<le> num_items h" "i < length ?xs"
    using ok hole_ok_length [OF ok] by (auto simp: hole_ok_def)
  have "{?xs[i := ?xs ! k] ! j | j. 1 \<le> j \<and> j \<le> num_items h \<and> j \<noteq> k}
      = {?xs ! j | j. 1 \<le> j \<and> j \<le> num_items h \<and> j \<noteq> i}" (is "?L = ?R")
  proof (intro set_eqI iffI)
    fix x assume "x \<in> ?L"
    then obtain j where "1 \<le> j" "j \<le> num_items h" "j \<noteq> k" "x = ?xs[i := ?xs ! k] ! j" by blast
    with i k show "x \<in> ?R" by (cases "j = i") (auto simp: nth_list_update)
  next
    fix x assume "x \<in> ?R"
    then obtain j where j: "1 \<le> j" "j \<le> num_items h" "j \<noteq> i" "x = ?xs ! j" by blast
    show "x \<in> ?L"
    proof (cases "j = k")
      case True
      with i k j show ?thesis by (intro CollectI exI [of _ i]) auto
    next
      case False
      with i j show ?thesis by (intro CollectI exI [of _ j]) auto
    qed
  qed
  then show ?thesis by (simp add: hole_live_def)
qed

lemma hole_val_move:
  assumes "i < length (heap_items h)" "k \<noteq> i"
  shows "hole_val node k (heap_place i (heap_items h ! k) h) j =
    (if j = k then hole_val node i h i else if j = i then hole_val node i h k else hole_val node i h j)"
  using assms by (simp add: hole_val_def)

lemma hole_fill:
  assumes ok: "hole_ok node i h"
  shows "heap_alloc (heap_place i node h)" "heap_indexed (heap_place i node h)"
    "heap_live (heap_place i node h) = hole_live node i h"
proof -
  let ?xs = "heap_items h"
  have len: "num_items h < length ?xs" by (rule hole_ok_length [OF ok])
  have i: "1 \<le> i" "i \<le> num_items h" using ok by (auto simp: hole_ok_def)
  show "heap_alloc (heap_place i node h)"
    using ok by (simp add: hole_ok_def heap_alloc_def)
  show "heap_indexed (heap_place i node h)"
    unfolding heap_indexed_def
  proof (intro allI impI)
    fix j assume j: "1 \<le> j \<and> j \<le> num_items (heap_place i node h)"
    show "node_index (heap_place i node h) (heap_items (heap_place i node h) ! j) = j"
    proof (cases "j = i")
      case True
      then show ?thesis using i len by simp
    next
      case False
      then have "?xs ! j \<noteq> node" using hole_distinct [OF ok, of j] j len by simp
      with False j ok show ?thesis by (simp add: hole_ok_def)
    qed
  qed
  have "{?xs[i := node] ! j | j. 1 \<le> j \<and> j \<le> num_items h}
      = insert node {?xs ! j | j. 1 \<le> j \<and> j \<le> num_items h \<and> j \<noteq> i}" (is "?L = insert node ?R")
  proof (intro set_eqI iffI)
    fix x assume "x \<in> ?L"
    then obtain j where "1 \<le> j" "j \<le> num_items h" "x = ?xs[i := node] ! j" by blast
    with i len show "x \<in> insert node ?R" by (cases "j = i") auto
  next
    fix x assume x: "x \<in> insert node ?R"
    show "x \<in> ?L"
    proof (cases "x = node")
      case True
      then show ?thesis using i len by (intro CollectI exI [of _ i]) auto
    next
      case False
      with x obtain j where "1 \<le> j" "j \<le> num_items h" "j \<noteq> i" "x = ?xs ! j" by blast
      then show ?thesis by (intro CollectI exI [of _ j]) auto
    qed
  qed
  then show "heap_live (heap_place i node h) = hole_live node i h"
    by (simp add: heap_live_def hole_live_def)
qed

lemma hole_of_heap:
  assumes "heap_alloc h" "heap_indexed h" "1 \<le> i" "i \<le> num_items h"
  shows "hole_ok (heap_items h ! i) i h" "hole_live (heap_items h ! i) i h = heap_live h"
proof -
  show "hole_ok (heap_items h ! i) i h"
    using assms by (auto simp: hole_ok_def heap_indexed_def)
  show "hole_live (heap_items h ! i) i h = heap_live h"
    using assms by (auto simp: hole_live_def heap_live_def)
qed


lemma heap_live_image: "heap_live h = (!) (heap_items h) ` {1..num_items h}"
  by (auto simp: heap_live_def)

lemma heap_map_uninit: "heap_wf lt h \<Longrightarrow> \<not> heap_inited h \<Longrightarrow> heap_map h = Map.empty"
  by (simp add: heap_wf_def heap_map_def heap_live_def)

text \<open>A sign in the map belongs to an initialised heap, and the node's back-pointer leads
  to its slot.\<close>

lemma heap_sign:
  assumes wf: "heap_wf lt h" and s: "s \<in> dom (heap_map h)"
  shows "heap_inited h" "heap_alloc h" "heap_indexed h" "heap_ordered lt h"
    "1 \<le> node_index h s" "node_index h s \<le> num_items h" "heap_items h ! node_index h s = s"
proof -
  show ini: "heap_inited h" using heap_map_uninit [OF wf] s by fastforce
  then show "heap_alloc h" and ix: "heap_indexed h" and "heap_ordered lt h"
    using wf by (auto simp: heap_wf_def)
  from s obtain i where "1 \<le> i" "i \<le> num_items h" "s = heap_items h ! i"
    by (auto simp: heap_map_def heap_live_def split: if_splits)
  with ix show "1 \<le> node_index h s" "node_index h s \<le> num_items h"
    "heap_items h ! node_index h s = s"
    by (auto simp: heap_indexed_def)
qed

text \<open>Before an insertion there is a free slot, on a container that was just initialised, just
  doubled, or large enough already.\<close>

lemma heap_room:
  fixes h :: "'v heap_base"
  assumes wf: "heap_wf lt h"
  defines "h2 \<equiv> (if num_items (heap_raii h) + 1 = size_container (heap_raii h)
    then heap_Resize (heap_raii h) else heap_raii h)"
  shows "heap_alloc h2 \<and> heap_indexed h2 \<and> heap_ordered lt h2 \<and> heap_inited h2
    \<and> heap_map h2 = heap_map h \<and> num_items h2 + 1 < size_container h2"
proof -
  let ?h = "heap_raii h"
  have raii: "heap_alloc ?h" "heap_indexed ?h" "heap_ordered lt ?h" "heap_inited ?h"
    "heap_map ?h = heap_map h"
    using wf by (auto simp: heap_raii_def heap_Init_def heap_wf_def heap_alloc_def
      heap_indexed_def heap_ordered_def heap_map_def heap_live_def split: if_splits)
  show ?thesis
  proof (cases "num_items ?h + 1 = size_container ?h")
    case True
    let ?r = "heap_Resize ?h"
    have len: "num_items ?h < length (heap_items ?h)" using raii by (simp add: heap_alloc_def)
    have it: "heap_items ?r ! j = heap_items ?h ! j" if "j \<le> num_items ?h" for j
      using len that by (simp add: heap_Resize_def nth_append)
    have "heap_items ?h ! 0 \<in> set (heap_items ?h)" using len by (metis nth_mem not_less_zero neq0_conv)
    then have "heap_items ?h ! 0 \<in> {1..<next_node ?h}"
      using raii(1) unfolding heap_alloc_def by blast
    then have "1 \<le> next_node ?h" by simp
    then have "heap_alloc ?r" using raii(1) True by (auto simp: heap_alloc_def heap_Resize_def)
    moreover have "heap_indexed ?r" "heap_ordered lt ?r"
      using raii(2,3) it by (auto simp: heap_indexed_def heap_ordered_def heap_Resize_def)
    moreover have "heap_live ?r = heap_live ?h"
      unfolding heap_live_image using it by (intro image_cong) (simp_all add: heap_Resize_def)
    then have "heap_map ?r = heap_map ?h" by (auto simp: heap_map_def fun_eq_iff heap_Resize_def)
    ultimately show ?thesis using raii(4,5) True by (auto simp: h2_def heap_Resize_def)
  next
    case False
    then show ?thesis using raii by (auto simp: h2_def heap_alloc_def)
  qed
qed

section \<open>Heap order\<close>

text \<open>The order with the hole filled, broken only between slot \<^verbatim>\<open>i\<close> and its parent
  (\<open>up_ok\<close>), or only between slot \<^verbatim>\<open>i\<close> and its children (\<open>down_ok\<close>). In
  both, the parent of \<^verbatim>\<open>i\<close> is not above the children of \<^verbatim>\<open>i\<close>.\<close>

definition up_ok :: "('v \<Rightarrow> 'v \<Rightarrow> bool) \<Rightarrow> nat \<Rightarrow> nat \<Rightarrow> 'v heap_base \<Rightarrow> bool" where
  "up_ok lt node i h \<longleftrightarrow>
     (\<forall>j. 2 \<le> j \<and> j \<le> num_items h \<and> j \<noteq> i \<longrightarrow>
        \<not> lt (hole_val node i h j) (hole_val node i h (j div 2))) \<and>
     (\<forall>j. 2 \<le> j \<and> j \<le> num_items h \<and> j div 2 = i \<and> 2 \<le> i \<longrightarrow>
        \<not> lt (hole_val node i h j) (hole_val node i h (i div 2)))"

definition down_ok :: "('v \<Rightarrow> 'v \<Rightarrow> bool) \<Rightarrow> nat \<Rightarrow> nat \<Rightarrow> 'v heap_base \<Rightarrow> bool" where
  "down_ok lt node i h \<longleftrightarrow>
     (\<forall>j. 2 \<le> j \<and> j \<le> num_items h \<and> j div 2 \<noteq> i \<longrightarrow>
        \<not> lt (hole_val node i h j) (hole_val node i h (j div 2))) \<and>
     (\<forall>j. 2 \<le> j \<and> j \<le> num_items h \<and> j div 2 = i \<and> 2 \<le> i \<longrightarrow>
        \<not> lt (hole_val node i h j) (hole_val node i h (i div 2)))"

lemma up_okD:
  assumes "up_ok lt node i h" "2 \<le> j" "j \<le> num_items h"
  shows "j \<noteq> i \<Longrightarrow> \<not> lt (hole_val node i h j) (hole_val node i h (j div 2))"
    and "j div 2 = i \<Longrightarrow> 2 \<le> i \<Longrightarrow> \<not> lt (hole_val node i h j) (hole_val node i h (i div 2))"
  using assms by (auto simp: up_ok_def)

lemma down_okD:
  assumes "down_ok lt node i h" "2 \<le> j" "j \<le> num_items h"
  shows "j div 2 \<noteq> i \<Longrightarrow> \<not> lt (hole_val node i h j) (hole_val node i h (j div 2))"
    and "j div 2 = i \<Longrightarrow> 2 \<le> i \<Longrightarrow> \<not> lt (hole_val node i h j) (hole_val node i h (i div 2))"
  using assms by (auto simp: down_ok_def)

lemma heap_ordered_fill:
  assumes "hole_ok node i h"
  shows "heap_ordered lt (heap_place i node h) \<longleftrightarrow>
    (\<forall>j. 2 \<le> j \<and> j \<le> num_items h \<longrightarrow> \<not> lt (hole_val node i h j) (hole_val node i h (j div 2)))"
proof -
  have "num_items h < length (heap_items h)" "1 \<le> i" "i \<le> num_items h"
    using assms hole_ok_length by (auto simp: hole_ok_def)
  then show ?thesis
    by (simp add: heap_ordered_def hole_val_def nth_list_update eq_commute [of i])
qed

text \<open>Broken only around slot \<^verbatim>\<open>i\<close>.\<close>

definition near_ok :: "('v \<Rightarrow> 'v \<Rightarrow> bool) \<Rightarrow> nat \<Rightarrow> 'v heap_base \<Rightarrow> bool" where
  "near_ok lt i h \<longleftrightarrow>
     (\<forall>j. 2 \<le> j \<and> j \<le> num_items h \<and> j \<noteq> i \<and> j div 2 \<noteq> i \<longrightarrow>
        \<not> lt (node_val h (heap_items h ! j)) (node_val h (heap_items h ! (j div 2)))) \<and>
     (\<forall>j. 2 \<le> j \<and> j \<le> num_items h \<and> j div 2 = i \<and> 2 \<le> i \<longrightarrow>
        \<not> lt (node_val h (heap_items h ! j)) (node_val h (heap_items h ! (i div 2))))"

locale heap_cmp =
  fixes lt :: "'v \<Rightarrow> 'v \<Rightarrow> bool"
  assumes lt_irrefl: "\<not> lt a a"
    and lt_trans: "lt a b \<Longrightarrow> lt b c \<Longrightarrow> lt a c"
    and lt_negtrans: "\<not> lt a b \<Longrightarrow> \<not> lt b c \<Longrightarrow> \<not> lt a c"
begin

lemma lt_asym: "lt a b \<Longrightarrow> \<not> lt b a"
  using lt_irrefl lt_trans by blast

lemma up_move:
  assumes ok: "hole_ok node i h" and up: "up_ok lt node i h" and i: "1 < i"
    and less: "lt (node_val h node) (node_val h (heap_items h ! (i div 2)))"
  shows "up_ok lt node (i div 2) (heap_place i (heap_items h ! (i div 2)) h)"
proof -
  let ?k = "i div 2"
  let ?h' = "heap_place i (heap_items h ! ?k) h"
  let ?v = "hole_val node i h" and ?w = "hole_val node ?k ?h'"
  have ki: "?k \<noteq> i" "1 \<le> ?k" using i by auto
  have len: "i < length (heap_items h)" "i \<le> num_items h"
    using ok hole_ok_length [OF ok] by (auto simp: hole_ok_def)
  have w: "?w j = (if j = ?k then ?v i else if j = i then ?v ?k else ?v j)" for j
    using hole_val_move [OF len(1) ki(1)] by simp
  have nk: "lt (?v i) (?v ?k)" using less ki by (simp add: hole_val_def)
  have "\<not> lt (?w j) (?w (j div 2))" if j: "2 \<le> j" "j \<le> num_items h" "j \<noteq> ?k" for j
  proof -
    consider "j = i" | "j \<noteq> i" "j div 2 = ?k" | "j div 2 = i" | "j \<noteq> i" "j div 2 \<noteq> ?k" "j div 2 \<noteq> i"
      by blast
    then show ?thesis
    proof cases
      case 1
      then show ?thesis using w nk lt_asym ki by simp
    next
      case 2
      have "\<not> lt (?v j) (?v ?k)" using up_okD(1) [OF up j(1,2)] 2 by simp
      then have "\<not> lt (?v j) (?v i)" using nk lt_trans by blast
      then show ?thesis using w 2 j by simp
    next
      case 3
      have "\<not> lt (?v j) (?v ?k)" using up_okD(2) [OF up j(1,2) 3] i by simp
      moreover have "j \<noteq> i" using 3 i by auto
      ultimately show ?thesis using w 3 j ki by simp
    next
      case 4
      then show ?thesis using w j up_okD(1) [OF up j(1,2)] by simp
    qed
  qed
  moreover have "\<not> lt (?w j) (?w (?k div 2))"
    if j: "2 \<le> j" "j \<le> num_items h" "j div 2 = ?k" "2 \<le> ?k" for j
  proof -
    have kk: "?k div 2 \<noteq> ?k" "?k div 2 \<noteq> i" "j \<noteq> ?k" using j(4) ki j(3) by auto
    have par: "\<not> lt (?v ?k) (?v (?k div 2))"
      using up_okD(1) [OF up j(4)] ki len by simp
    show ?thesis
    proof (cases "j = i")
      case True
      then show ?thesis using w par kk ki by simp
    next
      case False
      have "\<not> lt (?v j) (?v ?k)" using up_okD(1) [OF up j(1,2) False] j(3) by simp
      then show ?thesis using w False kk lt_negtrans [OF _ par] by simp
    qed
  qed
  ultimately show ?thesis by (simp add: up_ok_def)
qed

lemma upstairs_correct:
  assumes "hole_ok node i h" "up_ok lt node i h" "heap_upstairs lt node i h = (h', k)"
  shows "hole_ok node k h' \<and> heap_ordered lt (heap_place k node h')
    \<and> hole_live node k h' = hole_live node i h \<and> node_val h' = node_val h
    \<and> num_items h' = num_items h \<and> heap_inited h' = heap_inited h \<and> next_node h' = next_node h"
  using assms
proof (induction i arbitrary: h rule: less_induct)
  case (less i)
  note ok = less.prems(1) and up = less.prems(2)
  let ?p = "heap_items h ! (i div 2)"
  show ?case
  proof (cases "1 < i \<and> lt (node_val h node) (node_val h ?p)")
    case True
    have k: "1 \<le> i div 2" "i div 2 \<le> num_items h" "i div 2 \<noteq> i" "i div 2 < i"
      using True ok by (auto simp: hole_ok_def)
    let ?h1 = "heap_place i ?p h"
    have "heap_upstairs lt node (i div 2) ?h1 = (h', k)"
      using less.prems(3) True by (subst (asm) heap_upstairs.simps) simp
    from less.IH [OF k(4) hole_move [OF ok k(1-3)] up_move [OF ok up] this] True
      hole_live_move [OF ok k(1-3)]
    show ?thesis by simp
  next
    case False
    then have res: "h' = h" "k = i"
      using less.prems(3) by (auto simp: heap_upstairs.simps [of lt node i h])
    have "\<not> lt (hole_val node i h j) (hole_val node i h (j div 2))"
      if j: "2 \<le> j" "j \<le> num_items h" for j
    proof (cases "j = i")
      case True
      then show ?thesis using False j lt_irrefl by (simp add: hole_val_def)
    next
      case False
      then show ?thesis using up_okD(1) [OF up j] by simp
    qed
    then show ?thesis using ok res by (simp add: heap_ordered_fill)
  qed
qed

lemma min_child_least:
  assumes "1 \<le> pos" "2 * pos \<le> num_items h"
  shows "heap_min_child lt h pos \<in> {2 * pos, 2 * pos + 1}" "heap_min_child lt h pos \<le> num_items h"
    "j div 2 = pos \<Longrightarrow> j \<le> num_items h \<Longrightarrow>
      \<not> lt (node_val h (heap_items h ! j)) (node_val h (heap_items h ! heap_min_child lt h pos))"
proof -
  show "heap_min_child lt h pos \<in> {2 * pos, 2 * pos + 1}" "heap_min_child lt h pos \<le> num_items h"
    using assms by (auto simp: heap_min_child_def Let_def)
  assume j: "j div 2 = pos" "j \<le> num_items h"
  then have "j = 2 * pos \<or> j = 2 * pos + 1" by auto
  then show "\<not> lt (node_val h (heap_items h ! j)) (node_val h (heap_items h ! heap_min_child lt h pos))"
    using assms j lt_irrefl lt_asym by (auto simp: heap_min_child_def Let_def)
qed

lemma down_move:
  assumes ok: "hole_ok node i h" and down: "down_ok lt node i h" and i: "2 * i \<le> num_items h"
    and m: "m = heap_min_child lt h i"
    and nless: "\<not> lt (node_val h node) (node_val h (heap_items h ! m))"
  shows "down_ok lt node m (heap_place i (heap_items h ! m) h)"
proof -
  let ?h' = "heap_place i (heap_items h ! m) h"
  let ?v = "hole_val node i h" and ?w = "hole_val node m ?h'"
  have i1: "1 \<le> i" and len: "i < length (heap_items h)"
    using ok hole_ok_length [OF ok] by (auto simp: hole_ok_def)
  note mc = min_child_least [OF i1 i, folded m]
  have mi: "m \<noteq> i" "m div 2 = i" "2 \<le> m" using mc(1) i1 by auto
  have w: "?w j = (if j = m then ?v i else if j = i then ?v m else ?v j)" for j
    using hole_val_move [OF len mi(1)] by simp
  have least: "\<not> lt (?v j) (?v m)" if "j div 2 = i" "j \<le> num_items h" for j
    using mc(3) [OF that] that i1 mi by (auto simp: hole_val_def)
  have "\<not> lt (?w j) (?w (j div 2))" if j: "2 \<le> j" "j \<le> num_items h" "j div 2 \<noteq> m" for j
  proof -
    consider "j = m" | "j = i" | "j \<noteq> m" "j div 2 = i" | "j \<noteq> m" "j \<noteq> i" "j div 2 \<noteq> i"
      by blast
    then show ?thesis
    proof cases
      case 1
      have "\<not> lt (?v i) (?v m)" using mi nless by (simp add: hole_val_def)
      then show ?thesis using w mi 1 by simp
    next
      case 2
      then have "\<not> lt (?v m) (?v (i div 2))"
        using down_okD(2) [OF down mi(3)] mi mc(2) j by simp
      moreover have "i div 2 \<noteq> i" "i \<noteq> m" using i1 mi by auto
      ultimately show ?thesis using w 2 j by simp
    next
      case 3
      moreover have "j \<noteq> i" using 3 i1 by auto
      ultimately show ?thesis using w mi least [of j] j by simp
    next
      case 4
      then show ?thesis using w j down_okD(1) [OF down j(1,2)] by simp
    qed
  qed
  moreover have "\<not> lt (?w j) (?w (m div 2))" if j: "2 \<le> j" "j \<le> num_items h" "j div 2 = m" for j
  proof -
    have "j \<noteq> m" "j \<noteq> i" using j(3) mi by auto
    moreover have "\<not> lt (?v j) (?v m)"
      using down_okD(1) [OF down j(1,2)] j(3) mi by simp
    ultimately show ?thesis using w mi by simp
  qed
  ultimately show ?thesis by (simp add: down_ok_def)
qed

lemma down_stop:
  assumes ok: "hole_ok node i h" and down: "down_ok lt node i h"
    and stop: "num_items h < 2 * i
      \<or> lt (node_val h node) (node_val h (heap_items h ! heap_min_child lt h i))"
  shows "heap_ordered lt (heap_place i node h)"
proof -
  let ?v = "hole_val node i h"
  have "\<not> lt (?v j) (?v (j div 2))" if j: "2 \<le> j" "j \<le> num_items h" for j
  proof (cases "j div 2 = i")
    case True
    then have i: "1 \<le> i" "2 * i \<le> num_items h" "j \<noteq> i" using j by auto
    then have "lt (node_val h node) (node_val h (heap_items h ! heap_min_child lt h i))"
      using stop by simp
    with min_child_least(3) [OF i(1,2) True j(2)] lt_asym lt_trans
    have "\<not> lt (node_val h (heap_items h ! j)) (node_val h node)" by blast
    then show ?thesis using True i by (simp add: hole_val_def)
  next
    case False
    then show ?thesis using down_okD(1) [OF down j] by simp
  qed
  then show ?thesis using ok by (simp add: heap_ordered_fill)
qed

lemma downstairs_correct:
  assumes "hole_ok node i h" "down_ok lt node i h" "heap_downstairs lt node i h = (h', k)"
  shows "hole_ok node k h' \<and> heap_ordered lt (heap_place k node h')
    \<and> hole_live node k h' = hole_live node i h \<and> node_val h' = node_val h
    \<and> num_items h' = num_items h \<and> heap_inited h' = heap_inited h \<and> next_node h' = next_node h"
  using assms
proof (induction "num_items h - i" arbitrary: i h rule: less_induct)
  case less
  note ok = less.prems(1) and down = less.prems(2)
  let ?m = "heap_min_child lt h i" and ?p = "heap_items h ! heap_min_child lt h i"
  have i1: "1 \<le> i" "i \<le> num_items h" using ok by (auto simp: hole_ok_def)
  show ?case
  proof (cases "num_items h < 2 * i \<or> lt (node_val h node) (node_val h ?p)")
    case True
    then have "h' = h" "k = i"
      using less.prems(3) by (auto simp: heap_downstairs.simps [of lt node i h] Let_def split: if_splits)
    then show ?thesis using ok down_stop [OF ok down True] by simp
  next
    case False
    then have le: "2 * i \<le> num_items h" and nless: "\<not> lt (node_val h node) (node_val h ?p)" by auto
    note mc = min_child_least(1,2) [OF i1(1) le]
    have m: "1 \<le> ?m" "?m \<le> num_items h" "?m \<noteq> i" "num_items h - ?m < num_items h - i"
      using mc i1 le by auto
    let ?h1 = "heap_place i ?p h"
    have "heap_downstairs lt node ?m ?h1 = (h', k)"
      using less.prems(3) False i1
      by (auto simp: heap_downstairs.simps [of lt node i h] Let_def split: if_splits)
    with less.hyps [of ?h1 ?m] m(4) hole_move [OF ok m(1-3)]
      down_move [OF ok down le refl nless] hole_live_move [OF ok m(1-3)]
    show ?thesis by simp
  qed
qed

lemma adjust_correct:
  assumes al: "heap_alloc h" and ix: "heap_indexed h" and i: "1 \<le> i" "i \<le> num_items h"
    and near: "near_ok lt i h"
  shows "heap_alloc (heap_AdjustNode lt i h) \<and> heap_indexed (heap_AdjustNode lt i h)
    \<and> heap_ordered lt (heap_AdjustNode lt i h) \<and> heap_live (heap_AdjustNode lt i h) = heap_live h
    \<and> node_val (heap_AdjustNode lt i h) = node_val h
    \<and> heap_inited (heap_AdjustNode lt i h) = heap_inited h"
proof -
  let ?n = "heap_items h ! i"
  note ok = hole_of_heap [OF al ix i]
  have v: "hole_val ?n i h j = node_val h (heap_items h ! j)" for j
    by (simp add: hole_val_def)
  show ?thesis
  proof (cases "1 < i \<and> lt (node_val h ?n) (node_val h (heap_items h ! (i div 2)))")
    case True
    have "\<not> lt (hole_val ?n i h j) (hole_val ?n i h (j div 2))"
      if j: "2 \<le> j" "j \<le> num_items h" "j \<noteq> i" for j
    proof (cases "j div 2 = i")
      case child: True
      have "\<not> lt (node_val h (heap_items h ! j)) (node_val h (heap_items h ! (i div 2)))"
        using near j child True by (auto simp: near_ok_def)
      then have "\<not> lt (node_val h (heap_items h ! j)) (node_val h ?n)"
        using True lt_trans by blast
      then show ?thesis by (simp add: v child)
    qed (use near j v in \<open>auto simp: near_ok_def\<close>)
    then have up: "up_ok lt ?n i h" using near v by (simp add: up_ok_def near_ok_def)
    obtain h' k where r: "heap_upstairs lt ?n i h = (h', k)" by fastforce
    from upstairs_correct [OF ok(1) up r] ok(2) True i r show ?thesis
      by (simp add: heap_AdjustNode_def Let_def hole_fill)
  next
    case False
    have "\<not> lt (hole_val ?n i h j) (hole_val ?n i h (j div 2))"
      if j: "2 \<le> j" "j \<le> num_items h" "j div 2 \<noteq> i" for j
    proof (cases "j = i")
      case True
      then show ?thesis using False j v by simp
    next
      case False
      then show ?thesis using near j v by (simp add: near_ok_def)
    qed
    then have down: "down_ok lt ?n i h" using near v by (simp add: down_ok_def near_ok_def)
    obtain h' k where r: "heap_downstairs lt ?n i h = (h', k)" by fastforce
    from downstairs_correct [OF ok(1) down r] ok(2) False i r show ?thesis
      by (auto simp: heap_AdjustNode_def Let_def hole_fill)
  qed
qed

lemma near_okI:
  assumes ord: "heap_ordered lt h0" and n: "num_items h \<le> num_items h0"
    and same: "\<And>j. 1 \<le> j \<Longrightarrow> j \<le> num_items h \<Longrightarrow> j \<noteq> i \<Longrightarrow>
      node_val h (heap_items h ! j) = node_val h0 (heap_items h0 ! j)"
  shows "near_ok lt i h"
proof -
  have old: "\<not> lt (node_val h0 (heap_items h0 ! j)) (node_val h0 (heap_items h0 ! (j div 2)))"
    if "2 \<le> j" "j \<le> num_items h" for j
    using ord n that by (simp add: heap_ordered_def)
  have "\<not> lt (node_val h (heap_items h ! j)) (node_val h (heap_items h ! (j div 2)))"
    if "2 \<le> j" "j \<le> num_items h" "j \<noteq> i" "j div 2 \<noteq> i" for j
    using old [OF that(1,2)] same [of j] same [of "j div 2"] that by simp
  moreover have "\<not> lt (node_val h (heap_items h ! j)) (node_val h (heap_items h ! (i div 2)))"
    if j: "2 \<le> j" "j \<le> num_items h" "j div 2 = i" "2 \<le> i" for j
  proof -
    have "j \<noteq> i" "i div 2 \<noteq> i" "i \<le> num_items h" using j by auto
    then show ?thesis
      using lt_negtrans [OF old [OF j(1,2)], unfolded j(3), OF old [OF j(4)]]
        same [of j] same [of "i div 2"] j by simp
  qed
  ultimately show ?thesis by (simp add: near_ok_def)
qed

lemma top_least:
  assumes "heap_ordered lt h" "1 \<le> i" "i \<le> num_items h"
  shows "\<not> lt (node_val h (heap_items h ! i)) (node_val h (heap_items h ! 1))"
  using assms(2,3)
proof (induction i rule: less_induct)
  case (less i)
  show ?case
  proof (cases "i = 1")
    case False
    with less.prems have "2 \<le> i" "i div 2 < i" "1 \<le> i div 2" by auto
    moreover have "\<not> lt (node_val h (heap_items h ! i)) (node_val h (heap_items h ! (i div 2)))"
      using assms(1) less.prems \<open>2 \<le> i\<close> by (simp add: heap_ordered_def)
    ultimately show ?thesis
      using less.IH [of "i div 2"] less.prems lt_negtrans by (meson less_imp_le order_trans)
  qed (simp add: lt_irrefl)
qed

lemma insert_correct:
  assumes wf: "heap_wf lt h" and ins: "heap_Insert lt v h = (h', s)"
  shows "heap_wf lt h' \<and> heap_map h' = (heap_map h)(s \<mapsto> v) \<and> s \<notin> dom (heap_map h) \<and> s \<noteq> 0"
proof -
  define h2 where "h2 = (if num_items (heap_raii h) + 1 = size_container (heap_raii h)
    then heap_Resize (heap_raii h) else heap_raii h)"
  note room = heap_room [OF wf, folded h2_def]
  define n where "n = num_items h2 + 1"
  define new where "new = heap_items h2 ! n"
  define h3 where "h3 = h2\<lparr>num_items := n, node_val := (node_val h2)(new := v)\<rparr>"
  have n: "n < length (heap_items h2)" and al: "heap_alloc h2" and ix: "heap_indexed h2"
    and ord: "heap_ordered lt h2" and ini: "heap_inited h2" and map: "heap_map h2 = heap_map h"
    using room by (auto simp: n_def heap_alloc_def)
  have new_fresh: "new \<noteq> heap_items h2 ! j" if "j \<le> num_items h2" for j
    using distinct_nth_inj [of "heap_items h2" n j] al n that
    by (auto simp: new_def n_def heap_alloc_def)
  have "new \<in> set (heap_items h2)" using n by (simp add: new_def)
  then have "new \<noteq> 0" using al by (auto simp: heap_alloc_def)
  have ok: "hole_ok new n h3"
    using al ix n by (auto simp: hole_ok_def heap_alloc_def heap_indexed_def h3_def new_def n_def)
  have live: "hole_live new n h3 = insert new (heap_live h2)"
    by (auto simp: hole_live_def heap_live_def h3_def n_def)
  have val: "hole_val new n h3 j = node_val h2 (heap_items h2 ! j)" if "j < n" for j
    using that new_fresh [of j] by (auto simp: hole_val_def h3_def n_def)
  have up: "up_ok lt new n h3"
    using ord val by (auto simp: up_ok_def heap_ordered_def h3_def n_def)
  obtain h4 k where r: "heap_upstairs lt new n h3 = (h4, k)" by fastforce
  have res: "h' = heap_place k new h4" "s = new"
    using ins r by (auto simp: heap_Insert_def Let_def h2_def n_def new_def h3_def)
  note up = upstairs_correct [OF ok up r]
  then have "heap_wf lt h'" using res ini by (simp add: heap_wf_def hole_fill h3_def)
  moreover have "heap_live h' = insert new (heap_live h2)"
    using res up live by (simp add: hole_fill)
  then have "heap_map h' = (heap_map h2)(new \<mapsto> v)"
    using res up new_fresh by (auto simp: heap_map_def h3_def fun_eq_iff)
  moreover have "new \<notin> dom (heap_map h2)"
  proof
    assume "new \<in> dom (heap_map h2)"
    then obtain j where "j \<le> num_items h2" "new = heap_items h2 ! j"
      by (auto simp: heap_map_def heap_live_def split: if_splits)
    then show False using new_fresh by blast
  qed
  ultimately show ?thesis using res map \<open>new \<noteq> 0\<close> by simp
qed

lemma update_correct:
  assumes wf: "heap_wf lt h" and s: "s \<in> dom (heap_map h)"
  shows "heap_wf lt (heap_Update lt s v h) \<and> heap_map (heap_Update lt s v h) = (heap_map h)(s \<mapsto> v)"
proof -
  note d = heap_sign [OF wf s]
  let ?i = "node_index h s" and ?h = "h\<lparr>node_val := (node_val h)(s := v)\<rparr>"
  have al: "heap_alloc ?h" and ix: "heap_indexed ?h" and i: "1 \<le> ?i" "?i \<le> num_items ?h"
    using d by (auto simp: heap_alloc_def heap_indexed_def)
  have near: "near_ok lt ?i ?h"
  proof (rule near_okI [where ?h0.0 = h])
    fix j assume "1 \<le> j" "j \<le> num_items ?h" "j \<noteq> ?i"
    then have "heap_items h ! j \<noteq> s" using d by (auto simp: heap_indexed_def)
    then show "node_val ?h (heap_items ?h ! j) = node_val h (heap_items h ! j)" by simp
  qed (use d in auto)
  have "heap_Update lt s v h = heap_AdjustNode lt ?i ?h"
    using d by (simp add: heap_Update_def heap_raii_def Let_def)
  then show ?thesis
    using adjust_correct [OF al ix i near] d
    by (auto simp: heap_wf_def heap_map_def heap_live_def fun_eq_iff)
qed

lemma erase_correct:
  assumes wf: "heap_wf lt h" and s: "s \<in> dom (heap_map h)"
  shows "heap_wf lt (heap_Erase lt s h) \<and> heap_map (heap_Erase lt s h) = (heap_map h)(s := None)"
proof -
  note d = heap_sign [OF wf s]
  define i n where "i = node_index h s" and "n = num_items h"
  define items where "items = ((heap_items h)[i := heap_items h ! n])[n := s]"
  define h' where "h' = h\<lparr>heap_items := items, num_items := n - 1,
    node_index := (node_index h)(items ! i := i)\<rparr>"
  have i: "1 \<le> i" "i \<le> n" "heap_items h ! i = s" using d by (auto simp: i_def n_def)
  have len: "n < length (heap_items h)" "i < length (heap_items h)"
    using d i by (auto simp: n_def heap_alloc_def)
  have swap: "items = (heap_items h)[i := heap_items h ! n, n := heap_items h ! i]"
    using i by (simp add: items_def)
  have nth: "items ! j = (if j = n then s else if j = i then heap_items h ! n else heap_items h ! j)" for j
    using len by (auto simp: items_def nth_list_update)
  have al: "heap_alloc h'"
    using d(2) len i distinct_swap_update [OF len(2,1)] set_swap_update [OF len(2,1)]
    by (auto simp: heap_alloc_def h'_def swap n_def)
  have idx: "node_index h (heap_items h ! j) = j" if "1 \<le> j" "j \<le> n" for j
    using d(3) that by (simp add: heap_indexed_def n_def)
  have "node_index h' (items ! j) = j" if j: "1 \<le> j" "j < n" for j
  proof (cases "j = i")
    case False
    then have "items ! j \<noteq> items ! i" using nth idx [of j] idx [of i] idx [of n] j i by auto
    then show ?thesis using False nth idx j by (simp add: h'_def)
  qed (simp add: h'_def)
  moreover have "num_items h' = n - 1" "heap_items h' = items" by (simp_all add: h'_def)
  moreover have "j < n" if "1 \<le> j" "j \<le> n - 1" for j using that by simp
  ultimately have ix: "heap_indexed h'" unfolding heap_indexed_def by metis
  have inj: "heap_items h ! j \<noteq> s" if "1 \<le> j" "j \<le> n" "j \<noteq> i" for j
    using d(3) that by (auto simp: heap_indexed_def i_def n_def)
  have live: "heap_live h' = heap_live h - {s}"
  proof -
    let ?f = "\<lambda>j. if j = i then n else j"
    have "heap_live h' = (!) items ` {1..n - 1}" by (simp add: heap_live_image h'_def)
    also have "\<dots> = (\<lambda>j. heap_items h ! ?f j) ` {1..n - 1}"
      using i by (intro image_cong) (auto simp: nth)
    also have "\<dots> = (!) (heap_items h) ` (?f ` {1..n - 1})" by (rule image_image [symmetric])
    also have "?f ` {1..n - 1} = {1..n} - {i}" using i(1,2) by (auto simp: image_iff)
    also have "(!) (heap_items h) ` ({1..n} - {i}) = heap_live h - {s}"
      using i inj by (auto simp: heap_live_image n_def)
    finally show ?thesis .
  qed
  have er: "heap_Erase lt s h = heap_AdjustNode lt i h'"
    using d i by (simp add: heap_Erase_def heap_raii_def Let_def h'_def items_def i_def n_def)
  show ?thesis
  proof (cases "i = n")
    case True
    have "heap_ordered lt h'"
      using d(4) nth i True by (auto simp: heap_ordered_def h'_def n_def)
    moreover have "heap_AdjustNode lt i h' = h'"
      using True i by (simp add: heap_AdjustNode_def h'_def)
    ultimately show ?thesis using er al ix live d(1)
      by (auto simp: heap_wf_def heap_map_def h'_def fun_eq_iff)
  next
    case False
    then have i': "i \<le> num_items h'" using i by (simp add: h'_def)
    have "near_ok lt i h'"
      using nth by (intro near_okI [OF d(4)]) (auto simp: h'_def n_def)
    from adjust_correct [OF al ix i(1) i' this] show ?thesis
      using er live d(1) by (auto simp: heap_wf_def heap_map_def h'_def fun_eq_iff)
  qed
qed

lemma top_None: "heap_Top h = None \<longleftrightarrow> heap_map h = Map.empty"
proof -
  have "heap_items h ! 1 \<in> heap_live h" if "num_items h \<noteq> 0"
    using that by (force simp: heap_live_def)
  then show ?thesis by (auto simp: heap_Top_def heap_map_def heap_live_def fun_eq_iff)
qed

lemma top_Some:
  assumes wf: "heap_wf lt h" and t: "heap_Top h = Some v"
  shows "v \<in> ran (heap_map h) \<and> (\<forall>w \<in> ran (heap_map h). \<not> lt w v)"
proof -
  have n: "num_items h \<noteq> 0" and v: "v = node_val h (heap_items h ! 1)"
    using t by (auto simp: heap_Top_def split: if_splits)
  then have "heap_items h ! 1 \<in> heap_live h" by (force simp: heap_live_def)
  then have "v \<in> ran (heap_map h)" using v by (auto simp: ran_def heap_map_def)
  moreover have "heap_ordered lt h" using wf n by (auto simp: heap_wf_def split: if_splits)
  then have "\<not> lt w v" if "w \<in> ran (heap_map h)" for w
    using that top_least v by (auto simp: ran_def heap_map_def heap_live_def split: if_splits)
  ultimately show ?thesis by blast
qed

end

lemma finite_heap_map [simp]: "finite (dom (heap_map h))"
proof -
  have "dom (heap_map h) = heap_live h" by (auto simp: heap_map_def split: if_splits)
  then show ?thesis by (simp add: heap_live_image)
qed

lemma heap_sign_nonnull: "heap_wf lt h \<Longrightarrow> 0 \<notin> dom (heap_map h)"
proof
  assume wf: "heap_wf lt h" and z: "0 \<in> dom (heap_map h)"
  note d = heap_sign [OF wf z]
  have "heap_items h ! node_index h 0 \<in> set (heap_items h)"
    using d by (intro nth_mem) (simp add: heap_alloc_def)
  then show False using d(2,7) by (auto simp: heap_alloc_def)
qed

lemma heap_new_wf:
  fixes lt :: "'v \<Rightarrow> 'v \<Rightarrow> bool"
  shows "1 \<le> n \<Longrightarrow> heap_wf lt (heap_new n)" "heap_map (heap_new n :: 'v heap_base) = Map.empty"
  by (simp_all add: heap_wf_def heap_new_def heap_map_def heap_live_def)

section \<open>The interface of a timer queue\<close>

text \<open>What a client of the heap relies on: signs are fresh handles, an entry is updated and
  erased through its sign and nothing else changes, and the top is a least entry.\<close>

locale timer_queue =
  fixes inv :: "'s \<Rightarrow> bool" and mp :: "'s \<Rightarrow> nat \<rightharpoonup> 'v" and lt :: "'v \<Rightarrow> 'v \<Rightarrow> bool"
    and ins :: "'v \<Rightarrow> 's \<Rightarrow> 's \<times> nat" and upd :: "nat \<Rightarrow> 'v \<Rightarrow> 's \<Rightarrow> 's"
    and era :: "nat \<Rightarrow> 's \<Rightarrow> 's" and top :: "'s \<Rightarrow> 'v option"
  assumes ins: "inv q \<Longrightarrow> ins v q = (q', s) \<Longrightarrow>
      inv q' \<and> mp q' = (mp q)(s \<mapsto> v) \<and> s \<notin> dom (mp q) \<and> s \<noteq> 0"
    and upd: "inv q \<Longrightarrow> s \<in> dom (mp q) \<Longrightarrow> inv (upd s v q) \<and> mp (upd s v q) = (mp q)(s \<mapsto> v)"
    and era: "inv q \<Longrightarrow> s \<in> dom (mp q) \<Longrightarrow> inv (era s q) \<and> mp (era s q) = (mp q)(s := None)"
    and top_none: "inv q \<Longrightarrow> top q = None \<longleftrightarrow> mp q = Map.empty"
    and top_some: "inv q \<Longrightarrow> top q = Some v \<Longrightarrow>
      v \<in> ran (mp q) \<and> (\<forall>w \<in> ran (mp q). \<not> lt w v)"
    and sign_nonnull: "inv q \<Longrightarrow> 0 \<notin> dom (mp q)"
    and finite_queue: "inv q \<Longrightarrow> finite (dom (mp q))"

sublocale heap_cmp \<subseteq> q: timer_queue "heap_wf lt" heap_map lt
  "heap_Insert lt" "heap_Update lt" "heap_Erase lt" heap_Top
proof
  show "heap_Top q = None \<longleftrightarrow> heap_map q = Map.empty" for q by (rule top_None)
qed (fact insert_correct update_correct erase_correct top_Some heap_sign_nonnull
  | rule finite_heap_map)+

text \<open>A client that files at most one entry per owner and remembers its sign: \<open>sg\<close> gives
  the sign of an owner (0 when it has none), \<open>own\<close> the owner of an entry.\<close>

definition signs_linked :: "(nat \<rightharpoonup> 'v) \<Rightarrow> (nat \<Rightarrow> nat) \<Rightarrow> ('v \<Rightarrow> nat) \<Rightarrow> bool" where
  "signs_linked m sg own \<longleftrightarrow>
     (\<forall>f. sg f \<noteq> 0 \<longrightarrow> (\<exists>e. m (sg f) = Some e \<and> own e = f)) \<and>
     (\<forall>s e. m s = Some e \<longrightarrow> sg (own e) = s)"

definition owner_view :: "(nat \<rightharpoonup> 'v) \<Rightarrow> (nat \<Rightarrow> nat) \<Rightarrow> (nat \<rightharpoonup> 'v)" where
  "owner_view m sg f = (if sg f = 0 then None else m (sg f))"

lemma linkedD:
  assumes "signs_linked m sg own"
  shows "sg f \<noteq> 0 \<Longrightarrow> \<exists>e. m (sg f) = Some e \<and> own e = f" and "m s = Some e \<Longrightarrow> sg (own e) = s"
  using assms by (simp_all add: signs_linked_def)

lemma linked_dom: "signs_linked m sg own \<Longrightarrow> sg f \<noteq> 0 \<Longrightarrow> sg f \<in> dom m"
  using linkedD(1) by fastforce

lemma linked_inj:
  assumes "signs_linked m sg own" "sg f \<noteq> 0"
  shows "sg g = sg f \<longleftrightarrow> g = f"
proof
  assume "sg g = sg f"
  with linkedD(1) [OF assms] linkedD(1) [OF assms(1), of g] assms(2) show "g = f" by auto
qed simp

context timer_queue
begin

lemma linked_nonnull: "inv q \<Longrightarrow> mp q s = Some e \<Longrightarrow> s \<noteq> 0"
  using sign_nonnull [of q] by (metis domI)

lemma linked_ins:
  assumes "inv q" "signs_linked (mp q) sg own" "sg (own v) = 0" "ins v q = (q', s)"
  shows "inv q' \<and> signs_linked (mp q') (sg(own v := s)) own
    \<and> owner_view (mp q') (sg(own v := s)) = (owner_view (mp q) sg)(own v \<mapsto> v)"
proof -
  note i = ins [OF assms(1,4)]
  have n: "sg f \<noteq> s" if "sg f \<noteq> 0" for f using linked_dom [OF assms(2) that] i by auto
  have o: "own e \<noteq> own v" if "mp q t = Some e" for t e
    using linkedD(2) [OF assms(2) that] linked_nonnull [OF assms(1) that] assms(3) by auto
  have "signs_linked (mp q') (sg(own v := s)) own"
    using i assms(2) n o by (auto simp: signs_linked_def)
  moreover have "owner_view (mp q') (sg(own v := s)) = (owner_view (mp q) sg)(own v \<mapsto> v)"
    using i n by (auto simp: owner_view_def)
  ultimately show ?thesis using i by blast
qed

lemma linked_upd:
  assumes "inv q" "signs_linked (mp q) sg own" "sg (own v) \<noteq> 0"
  shows "inv (upd (sg (own v)) v q) \<and> signs_linked (mp (upd (sg (own v)) v q)) sg own
    \<and> owner_view (mp (upd (sg (own v)) v q)) sg = (owner_view (mp q) sg)(own v \<mapsto> v)"
proof -
  note u = upd [OF assms(1) linked_dom [OF assms(2,3)], of v]
  note inj = linked_inj [OF assms(2,3)]
  show ?thesis using u assms inj by (auto simp: signs_linked_def owner_view_def fun_eq_iff)
qed

lemma linked_era:
  assumes "inv q" "signs_linked (mp q) sg own" "sg f \<noteq> 0"
  shows "inv (era (sg f) q) \<and> signs_linked (mp (era (sg f) q)) (sg(f := 0)) own
    \<and> owner_view (mp (era (sg f) q)) (sg(f := 0)) = (owner_view (mp q) sg)(f := None)"
proof -
  note e = era [OF assms(1) linked_dom [OF assms(2,3)]]
  note inj = linked_inj [OF assms(2,3)]
  show ?thesis using e assms inj by (auto simp: signs_linked_def owner_view_def fun_eq_iff)
qed

lemma linked_top:
  assumes "inv q" "signs_linked (mp q) sg own" "top q = Some v"
  shows "sg (own v) \<noteq> 0 \<and> owner_view (mp q) sg (own v) = Some v
    \<and> (\<forall>f w. owner_view (mp q) sg f = Some w \<longrightarrow> \<not> lt w v)"
proof -
  obtain s where s: "mp q s = Some v" using top_some [OF assms(1,3)] by (auto simp: ran_def)
  then have "sg (own v) = s" "s \<noteq> 0"
    using linkedD(2) [OF assms(2)] linked_nonnull [OF assms(1)] by auto
  moreover have "w \<in> ran (mp q)" if "owner_view (mp q) sg f = Some w" for f w
    using that by (auto simp: owner_view_def ran_def split: if_splits)
  ultimately show ?thesis using s top_some [OF assms(1,3)] by (auto simp: owner_view_def)
qed

lemma linked_top_none:
  assumes "inv q" "signs_linked (mp q) sg own"
  shows "top q = None \<longleftrightarrow> owner_view (mp q) sg = Map.empty"
proof -
  have "mp q s = None" if "owner_view (mp q) sg = Map.empty" for s
  proof (rule ccontr)
    assume "mp q s \<noteq> None"
    then obtain e where "mp q s = Some e" by auto
    moreover from this have "sg (own e) = s" "s \<noteq> 0"
      using linkedD(2) [OF assms(2)] linked_nonnull [OF assms(1)] by auto
    ultimately show False using that by (metis option.simps(3) owner_view_def)
  qed
  then show ?thesis using top_none [OF assms(1)] by (auto simp: owner_view_def fun_eq_iff)
qed

lemma finite_owner_view:
  assumes "inv q" "signs_linked (mp q) sg own"
  shows "finite (dom (owner_view (mp q) sg))"
proof -
  have "dom (owner_view (mp q) sg) \<subseteq> own ` ran (mp q)"
    using assms(2) by (force simp: signs_linked_def owner_view_def ran_def split: if_splits)
  moreover have "finite (ran (mp q))" using finite_queue [OF assms(1)] by (rule finite_ran)
  ultimately show ?thesis by (meson finite_surj finite_subset)
qed

end

interpretation hc: heap_cmp "heap_Compare order feature" for order feature
  by unfold_locales (auto simp: heap_Compare_def split: heap_category.splits)

section \<open>Properties\<close>

lemma heap_pop_sign:
  assumes "heap_wf lt h" "num_items h \<noteq> 0"
  shows "heap_inited h" "heap_items h ! 1 \<in> dom (heap_map h)"
proof -
  show "heap_inited h" using assms by (auto simp: heap_wf_def split: if_splits)
  have "heap_items h ! 1 \<in> heap_live h" using assms(2) by (force simp: heap_live_def)
  then show "heap_items h ! 1 \<in> dom (heap_map h)" by (auto simp: heap_map_def)
qed

text \<open>\<^verbatim>\<open>Insert\<close> keeps the heap well-formed (allocation, back-pointers, heap order), on a
  heap that is initialised or grown on the way if need be, and files the value under a sign
  that is not null and not in use; every other entry keeps its sign and value.\<close>

theorem heap_Insert_refines:
  assumes "heap_wf (heap_Compare order feature) h"
    "heap_Insert (heap_Compare order feature) v h = (h', s)"
  shows "heap_wf (heap_Compare order feature) h' \<and> heap_map h' = (heap_map h)(s \<mapsto> v)
    \<and> heap_map h s = None \<and> s \<noteq> 0"
  using hc.insert_correct [OF assms] by auto

definition heap_demo :: "int heap_base" where
  "heap_demo = fst (heap_Insert (heap_Compare MinHeap (\<lambda>x. x)) 30
     (fst (heap_Insert (heap_Compare MinHeap (\<lambda>x. x)) 50 (heap_new 2))))"

lemma heap_demo_wf: "heap_wf (heap_Compare MinHeap (\<lambda>x. x)) heap_demo"
proof -
  note n = heap_new_wf(1) [of 2 "heap_Compare MinHeap (\<lambda>x. x :: int)", simplified]
  note i = hc.insert_correct [THEN conjunct1, OF _ surjective_pairing]
  show ?thesis unfolding heap_demo_def by (intro i n)
qed

lemma heap_demo_50: "heap_map heap_demo 2 = Some 50"
proof -
  have 1: "{Suc 0..Suc (Suc 0)} = {Suc 0, Suc (Suc 0)}" by auto
  show ?thesis
    by (simp add: heap_demo_def heap_new_def heap_Insert_def heap_raii_def heap_Init_def Let_def
      heap_Resize_def heap_upstairs.simps heap_place_def heap_Compare_def heap_map_def heap_live_image
      upt_rec 1 numeral_2_eq_2)
qed

theorem heap_Insert_refines_witness:
  "\<exists>h' s. heap_Insert (heap_Compare MinHeap (\<lambda>x. x)) 20 heap_demo = (h', s)
     \<and> heap_map h' s = Some 20 \<and> heap_Top h' = Some 20"
proof -
  let ?r = "heap_Insert (heap_Compare MinHeap (\<lambda>x. x)) 20 heap_demo"
  have "heap_Top (fst ?r) = Some 20"
    by (simp add: heap_demo_def heap_new_def heap_Insert_def heap_raii_def heap_Init_def Let_def
      heap_Resize_def heap_upstairs.simps heap_place_def heap_Compare_def heap_Top_def upt_rec)
  then show ?thesis
    using heap_Insert_refines [OF heap_demo_wf surjective_pairing, of 20] by (metis fun_upd_same surjective_pairing)
qed

text \<open>C34. \<^verbatim>\<open>Erase\<close> and \<^verbatim>\<open>Update\<close> through the sign of a live entry keep the heap well-formed
  and change that entry only.\<close>

theorem heap_Erase_Update_refine:
  assumes "heap_wf (heap_Compare order feature) h" "heap_map h s \<noteq> None"
  shows "heap_wf (heap_Compare order feature) (heap_Erase (heap_Compare order feature) s h)
    \<and> heap_map (heap_Erase (heap_Compare order feature) s h) = (heap_map h)(s := None)
    \<and> heap_wf (heap_Compare order feature) (heap_Update (heap_Compare order feature) s v h)
    \<and> heap_map (heap_Update (heap_Compare order feature) s v h) = (heap_map h)(s \<mapsto> v)"
  using hc.erase_correct [of order feature h s] hc.update_correct [of order feature h s v] assms
  by (auto simp: dom_def)

theorem heap_Erase_Update_refine_witness:
  "heap_map heap_demo 2 = Some 50
   \<and> heap_map (heap_Erase (heap_Compare MinHeap (\<lambda>x. x)) 2 heap_demo) 2 = None
   \<and> heap_map (heap_Update (heap_Compare MinHeap (\<lambda>x. x)) 2 7 heap_demo) 2 = Some 7"
proof -
  show ?thesis using heap_Erase_Update_refine [OF heap_demo_wf, of 2 7] heap_demo_50 by simp
qed

text \<open>\<^verbatim>\<open>Top\<close> gives no value exactly when the heap is empty, otherwise the value of a
  live entry that no other live entry precedes; \<^verbatim>\<open>Pop\<close> then removes an entry with that
  value and nothing else.\<close>

theorem heap_Top_Pop_least:
  assumes wf: "heap_wf (heap_Compare order feature) h"
  shows "(heap_Top h = None \<longleftrightarrow> heap_map h = Map.empty)
    \<and> (\<forall>v. heap_Top h = Some v \<longrightarrow>
         (\<forall>w \<in> ran (heap_map h). \<not> heap_Compare order feature w v)
         \<and> (\<exists>s. heap_map h s = Some v
              \<and> heap_map (heap_Pop (heap_Compare order feature) h) = (heap_map h)(s := None)
              \<and> heap_wf (heap_Compare order feature) (heap_Pop (heap_Compare order feature) h)))"
proof -
  let ?c = "heap_Compare order feature"
  have "\<exists>s. heap_map h s = Some v \<and> heap_map (heap_Pop ?c h) = (heap_map h)(s := None)
      \<and> heap_wf ?c (heap_Pop ?c h)" if v: "heap_Top h = Some v" for v
  proof -
    have n: "num_items h \<noteq> 0" using v by (simp add: heap_Top_def split: if_splits)
    note s = heap_pop_sign [OF wf n]
    have "heap_map h (heap_items h ! 1) = Some v"
      using v s(2) by (auto simp: heap_Top_def heap_map_def split: if_splits)
    then show ?thesis using hc.erase_correct [OF wf s(2)] s(1)
      by (intro exI [of _ "heap_items h ! 1"]) (simp add: heap_Pop_def heap_raii_def Let_def)
  qed
  then show ?thesis using hc.top_None [of h] hc.top_Some [OF wf] by blast
qed

theorem heap_Top_Pop_least_witness:
  "heap_Top heap_demo = Some 30 \<and> 50 \<in> ran (heap_map heap_demo)
   \<and> \<not> heap_Compare MinHeap (\<lambda>x. x) (50 :: int) 30"
proof -
  have "heap_Top heap_demo = Some 30"
    by (simp add: heap_demo_def heap_new_def heap_Insert_def heap_raii_def heap_Init_def Let_def
      heap_Resize_def heap_upstairs.simps heap_place_def heap_Compare_def heap_Top_def upt_rec)
  moreover have "50 \<in> ran (heap_map heap_demo)" using heap_demo_50 by (auto simp: ran_def)
  ultimately show ?thesis using heap_Top_Pop_least [OF heap_demo_wf] by blast
qed

end
