(* ===== verification/Events_Driver.thy ===== *)
theory Events_Driver
  imports Timer_Heap
begin

text \<open>
  The event driver of \<^verbatim>\<open>deps/public-cpp/include/public-cpp/events_driver.hpp\<close>: per file
  descriptor a context and the sign of its timeout in the heap, registered with epoll. The
  kernel and the lock answer through \<open>drv_env\<close>; the answers may differ per operation and
  descriptor. The theory shows that the table and the heap stay linked, that the driver
  implements a map from descriptors to deadlines, and that \<^verbatim>\<open>RemoveTimeouts\<close> returns and
  hands out the expired contexts in deadline order.
\<close>

section \<open>State\<close>

datatype drv_op = AddEvent | ModEvent | DelEvent

datatype drv_event = EvIn | EvOut | EvErr

record 'c event_ctx =
  ev_context :: "'c option"
  sign_timeo :: nat

record event_timeo =
  expire_time_ms :: msec
  timeo_fd :: fd

record 'c events_driver =
  event_in :: u32
  event_out :: u32
  fd_epoll :: int
  events_ready :: "(u32 \<times> fd) list"
  heap_timeo :: "event_timeo heap_base"
  fd_to_event_ctx :: "'c event_ctx list"
  tmp_timeo_contexts :: "'c list"
  tmp_all_contexts :: "'c list"
  drv_inited :: bool

text \<open>What the environment answers during one call: the cached clock, \<^verbatim>\<open>epoll_create\<close>,
  the lock and \<^verbatim>\<open>epoll_ctl\<close>.\<close>

record drv_env =
  now_ms :: msec
  epoll_create_ret :: int
  lock_ret :: "drv_op \<Rightarrow> fd \<Rightarrow> bool"
  epoll_ctl_ret :: "drv_op \<Rightarrow> fd \<Rightarrow> int"

definition EPOLLIN :: u32 where "EPOLLIN = 1"
definition EPOLLOUT :: u32 where "EPOLLOUT = 4"
definition EPOLLERR :: u32 where "EPOLLERR = 8"
definition EPOLLHUP :: u32 where "EPOLLHUP = 16"
definition EPOLLET :: u32 where "EPOLLET = 2147483648"

unbundle bit_operations_syntax

definition EventsDriver_new :: "bool \<Rightarrow> 'c events_driver" where
  "EventsDriver_new level_trigger =
     (let i = EPOLLIN OR EPOLLHUP OR EPOLLERR; o' = EPOLLOUT OR EPOLLHUP OR EPOLLERR
      in \<lparr>event_in = (if level_trigger then i else i OR EPOLLET),
          event_out = (if level_trigger then o' else o' OR EPOLLET),
          fd_epoll = 0, events_ready = [], heap_timeo = heap_new 1024, fd_to_event_ctx = [],
          tmp_timeo_contexts = [], tmp_all_contexts = [], drv_inited = False\<rparr>)"

section \<open>Operations\<close>

definition drv_Init :: "drv_env \<Rightarrow> 'c events_driver \<Rightarrow> 'c events_driver \<times> bool" where
  "drv_Init env d = (let d = d\<lparr>fd_epoll := epoll_create_ret env\<rparr> in
     if epoll_create_ret env \<le> 0 then (d, False) else (d\<lparr>drv_inited := True\<rparr>, True))"

definition drv_raii :: "drv_env \<Rightarrow> 'c events_driver \<Rightarrow> 'c events_driver \<times> bool" where
  "drv_raii env d = (if drv_inited d then (d, True) else drv_Init env d)"

abbreviation timeo_lt :: "event_timeo \<Rightarrow> event_timeo \<Rightarrow> bool" where
  "timeo_lt \<equiv> heap_Compare MinHeap expire_time_ms"

definition fd_ok :: "fd \<Rightarrow> 'c events_driver \<Rightarrow> bool" where
  "fd_ok f d \<longleftrightarrow> 0 \<le> f \<and> nat f < length (fd_to_event_ctx d)"

definition drv_sign :: "fd \<Rightarrow> 'c events_driver \<Rightarrow> nat" where
  "drv_sign f d = sign_timeo (fd_to_event_ctx d ! nat f)"

definition set_sign :: "fd \<Rightarrow> nat \<Rightarrow> 'c events_driver \<Rightarrow> 'c events_driver" where
  "set_sign f s d = d\<lparr>fd_to_event_ctx :=
     (fd_to_event_ctx d)[nat f := (fd_to_event_ctx d ! nat f)\<lparr>sign_timeo := s\<rparr>]\<rparr>"

definition set_context :: "fd \<Rightarrow> 'c option \<Rightarrow> 'c events_driver \<Rightarrow> 'c events_driver" where
  "set_context f c d = d\<lparr>fd_to_event_ctx :=
     (fd_to_event_ctx d)[nat f := (fd_to_event_ctx d ! nat f)\<lparr>ev_context := c\<rparr>]\<rparr>"

text \<open>\<^verbatim>\<open>RegEventDel\<close>; the table is a vector, indexed without a bound check.\<close>

definition drv_RegEventDel :: "drv_env \<Rightarrow> fd \<Rightarrow> 'c events_driver \<Rightarrow> ('c events_driver \<times> bool) outcome" where
  "drv_RegEventDel env f d0 =
     (case drv_raii env d0 of (d, ini) \<Rightarrow>
      if \<not> ini then Inr (d, False)
      else if \<not> fd_ok f d then Inl OutOfRange
      else let d = (if drv_sign f d \<noteq> 0
                    then set_sign f 0 (d\<lparr>heap_timeo := heap_Erase timeo_lt (drv_sign f d) (heap_timeo d)\<rparr>)
                    else d)
           in if \<not> lock_ret env DelEvent f then Inr (d, False)
              else if epoll_ctl_ret env DelEvent f \<noteq> 0 then Inr (d, False)
              else Inr (set_context f None d, True))"

text \<open>\<^verbatim>\<open>heap_timeo_.Insert(event_timeo, fd_to_event_ctx_[fd].sign_timeo)\<close>\<close>

definition drv_insert_timeo :: "drv_env \<Rightarrow> fd \<Rightarrow> int \<Rightarrow> 'c events_driver \<Rightarrow> 'c events_driver" where
  "drv_insert_timeo env f timeo_ms d =
     (case heap_Insert timeo_lt \<lparr>expire_time_ms = now_ms env + timeo_ms, timeo_fd = f\<rparr> (heap_timeo d) of
        (h, s) \<Rightarrow> set_sign f s (d\<lparr>heap_timeo := h\<rparr>))"

definition drv_grow :: "fd \<Rightarrow> 'c events_driver \<Rightarrow> 'c events_driver" where
  "drv_grow f d = (if f \<ge> int (length (fd_to_event_ctx d))
     then d\<lparr>fd_to_event_ctx := fd_to_event_ctx d @
            replicate (nat (f + 1) - length (fd_to_event_ctx d)) \<lparr>ev_context = None, sign_timeo = 0\<rparr>\<rparr>
     else d)"

text \<open>The lock and \<^verbatim>\<open>epoll_ctl\<close> succeed for an operation on a descriptor.\<close>

definition ctl_ok :: "drv_env \<Rightarrow> drv_op \<Rightarrow> fd \<Rightarrow> bool" where
  "ctl_ok env op f \<longleftrightarrow> lock_ret env op f \<and> epoll_ctl_ret env op f = 0"

text \<open>The label \<^verbatim>\<open>ERROR_HANDLE\<close> of \<^verbatim>\<open>RegEvent\<close>.\<close>

definition drv_RegEvent_error :: "drv_env \<Rightarrow> fd \<Rightarrow> 'c events_driver \<Rightarrow> ('c events_driver \<times> bool) outcome" where
  "drv_RegEvent_error env f d = obind (drv_RegEventDel env f d) (\<lambda>(d', _). Inr (d', False))"

text \<open>The direction only selects the word \<^verbatim>\<open>ev.events\<close> for the kernel and is kept by the callers. In the branch for \<^verbatim>\<open>kDelEvent\<close> the boolean of \<^verbatim>\<open>RegEventDel\<close> is stored in an
  \<^verbatim>\<open>int\<close> and compared with 0.\<close>

definition drv_RegEvent ::
  "drv_env \<Rightarrow> fd \<Rightarrow> drv_op \<Rightarrow> 'c option \<Rightarrow> int \<Rightarrow> 'c events_driver \<Rightarrow> ('c events_driver \<times> bool) outcome" where
  "drv_RegEvent env f op context timeo_ms d0 =
     (case drv_raii env d0 of (d, ini) \<Rightarrow>
      if \<not> ini then Inr (d, False)
      else let d = drv_grow f d in
        if \<not> fd_ok f d then Inl OutOfRange
        else case op of
          AddEvent \<Rightarrow>
            (let d = set_context f context d;
                 d = (if timeo_ms \<ge> 0 then drv_insert_timeo env f timeo_ms d else set_sign f 0 d)
             in if ctl_ok env AddEvent f then Inr (d, True) else drv_RegEvent_error env f d)
        | ModEvent \<Rightarrow>
            (let d = (if timeo_ms \<ge> 0
                      then if drv_sign f d \<noteq> 0
                           then d\<lparr>heap_timeo := heap_Update timeo_lt (drv_sign f d)
                                    \<lparr>expire_time_ms = now_ms env + timeo_ms, timeo_fd = f\<rparr> (heap_timeo d)\<rparr>
                           else drv_insert_timeo env f timeo_ms d
                      else d)
             in if ctl_ok env ModEvent f then Inr (d, True) else drv_RegEvent_error env f d)
        | DelEvent \<Rightarrow>
            obind (drv_RegEventDel env f d) (\<lambda>(d, ret).
              if ret then drv_RegEvent_error env f d
              else Inr (set_context f None d, True)))"

text \<open>\<^verbatim>\<open>Wait\<close>: the timeout handed to \<^verbatim>\<open>epoll_wait\<close>, and what it returns.\<close>

definition drv_Wait_time :: "drv_env \<Rightarrow> msec \<Rightarrow> 'c events_driver \<Rightarrow> msec" where
  "drv_Wait_time env timeo_ms d =
     (case heap_Top (heap_timeo d) of None \<Rightarrow> timeo_ms
      | Some t \<Rightarrow> let w = min (expire_time_ms t - now_ms env) timeo_ms in if w < 0 then 0 else w)"

definition drv_Wait ::
  "drv_env \<Rightarrow> (msec \<Rightarrow> int \<times> (u32 \<times> fd) list) \<Rightarrow> msec \<Rightarrow> 'c events_driver \<Rightarrow> 'c events_driver \<times> int" where
  "drv_Wait env epoll_wait timeo_ms d0 =
     (case drv_raii env d0 of (d, ini) \<Rightarrow>
      if \<not> ini then (d, -1)
      else case epoll_wait (to_int32 (drv_Wait_time env timeo_ms d)) of
        (ret, ready) \<Rightarrow> (d\<lparr>events_ready := ready\<rparr>, ret))"

text \<open>\<^verbatim>\<open>CheckReadyEvent\<close> is called for what \<^verbatim>\<open>Wait\<close> has returned, on a driver that is set up; before, there are no ready events.\<close>

definition drv_CheckReadyEvent :: "nat \<Rightarrow> 'c events_driver \<Rightarrow> (drv_event \<times> 'c option) outcome" where
  "drv_CheckReadyEvent i d =
     (if i \<ge> length (events_ready d) then Inl OutOfRange
      else case events_ready d ! i of (evs, f) \<Rightarrow>
        if \<not> fd_ok f d then Inl OutOfRange
        else Inr (if evs = EPOLLOUT then EvOut else if evs = EPOLLIN then EvIn else EvErr,
                  ev_context (fd_to_event_ctx d ! nat f)))"

text \<open>The loop of \<^verbatim>\<open>RemoveTimeouts\<close>: it runs while the top has expired, and need not
  end, so it is a partial function whose value \<^term>\<open>None\<close> is divergence.\<close>

definition drv_timeo_context :: "fd \<Rightarrow> 'c events_driver \<Rightarrow> 'c events_driver" where
  "drv_timeo_context f d = (case ev_context (fd_to_event_ctx d ! nat f) of None \<Rightarrow> d
     | Some c \<Rightarrow> d\<lparr>tmp_timeo_contexts := tmp_timeo_contexts d @ [c]\<rparr>)"

partial_function (option) drv_RemoveTimeouts_loop ::
  "drv_env \<Rightarrow> 'c events_driver \<Rightarrow> 'c events_driver outcome option" where
  "drv_RemoveTimeouts_loop env d =
     (case heap_Top (heap_timeo d) of None \<Rightarrow> Some (Inr d)
      | Some t \<Rightarrow>
        if expire_time_ms t < now_ms env then
          (if \<not> fd_ok (timeo_fd t) d then Some (Inl OutOfRange)
           else case drv_RegEventDel env (timeo_fd t) (drv_timeo_context (timeo_fd t) d) of
             Inl e \<Rightarrow> Some (Inl e)
           | Inr (d', _) \<Rightarrow> drv_RemoveTimeouts_loop env d')
        else Some (Inr d))"

declare drv_RemoveTimeouts_loop.simps [code]

definition drv_RemoveTimeouts :: "drv_env \<Rightarrow> 'c events_driver \<Rightarrow> 'c events_driver outcome option" where
  "drv_RemoveTimeouts env d0 =
     (case drv_raii env d0 of (d, ini) \<Rightarrow>
      if \<not> ini then Some (Inr d)
      else drv_RemoveTimeouts_loop env (d\<lparr>tmp_timeo_contexts := []\<rparr>))"

fun drv_ClearAll_loop :: "drv_env \<Rightarrow> nat list \<Rightarrow> 'c events_driver \<Rightarrow> 'c events_driver outcome" where
  "drv_ClearAll_loop env [] d = Inr d"
| "drv_ClearAll_loop env (i # is) d =
     (case ev_context (fd_to_event_ctx d ! i) of
        None \<Rightarrow> drv_ClearAll_loop env is d
      | Some c \<Rightarrow> obind (drv_RegEventDel env (int i) (d\<lparr>tmp_all_contexts := tmp_all_contexts d @ [c]\<rparr>))
          (\<lambda>(d', _). drv_ClearAll_loop env is d'))"

definition drv_ClearAll :: "drv_env \<Rightarrow> 'c events_driver \<Rightarrow> 'c events_driver outcome" where
  "drv_ClearAll env d0 =
     (case drv_raii env d0 of (d, ini) \<Rightarrow>
      if \<not> ini then Inr d
      else drv_ClearAll_loop env [0..<length (fd_to_event_ctx d)] (d\<lparr>tmp_all_contexts := []\<rparr>))"

section \<open>Invariant and abstraction\<close>

definition drv_sg :: "'c events_driver \<Rightarrow> nat \<Rightarrow> nat" where
  "drv_sg d n = (if n < length (fd_to_event_ctx d) then sign_timeo (fd_to_event_ctx d ! n) else 0)"

definition drv_own :: "event_timeo \<Rightarrow> nat" where
  "drv_own e = nat (timeo_fd e)"

definition drv_entries :: "'c events_driver \<Rightarrow> (nat \<rightharpoonup> event_timeo)" where
  "drv_entries d = owner_view (heap_map (heap_timeo d)) (drv_sg d)"

text \<open>The deadline and the context of each descriptor, which is what the driver is for.\<close>

definition drv_timers :: "'c events_driver \<Rightarrow> (nat \<rightharpoonup> msec)" where
  "drv_timers d n = map_option expire_time_ms (drv_entries d n)"

definition drv_contexts :: "'c events_driver \<Rightarrow> (nat \<rightharpoonup> 'c)" where
  "drv_contexts d n = (if n < length (fd_to_event_ctx d) then ev_context (fd_to_event_ctx d ! n) else None)"

definition drv_inv :: "'c events_driver \<Rightarrow> bool" where
  "drv_inv d \<longleftrightarrow> heap_wf timeo_lt (heap_timeo d)
     \<and> signs_linked (heap_map (heap_timeo d)) (drv_sg d) drv_own
     \<and> (\<forall>n e. drv_entries d n = Some e \<longrightarrow> timeo_fd e = int n)"

named_theorems drv_frame \<open>what the table and heap updates of the driver leave alone\<close>

lemma set_sign_frame [drv_frame]:
  "heap_timeo (set_sign f s d) = heap_timeo d"
  "drv_contexts (set_sign f s d) = drv_contexts d"
  "length (fd_to_event_ctx (set_sign f s d)) = length (fd_to_event_ctx d)"
  "drv_inited (set_sign f s d) = drv_inited d"
  "tmp_timeo_contexts (set_sign f s d) = tmp_timeo_contexts d"
  "tmp_all_contexts (set_sign f s d) = tmp_all_contexts d"
  "events_ready (set_sign f s d) = events_ready d"
  by (cases "nat f < length (fd_to_event_ctx d)";
    force simp: set_sign_def drv_contexts_def nth_list_update fun_eq_iff)+

lemma set_context_frame [drv_frame]:
  "heap_timeo (set_context f c d) = heap_timeo d"
  "drv_sg (set_context f c d) = drv_sg d"
  "length (fd_to_event_ctx (set_context f c d)) = length (fd_to_event_ctx d)"
  "drv_inited (set_context f c d) = drv_inited d"
  "tmp_timeo_contexts (set_context f c d) = tmp_timeo_contexts d"
  "tmp_all_contexts (set_context f c d) = tmp_all_contexts d"
  "events_ready (set_context f c d) = events_ready d"
  by (cases "nat f < length (fd_to_event_ctx d)";
    force simp: set_context_def drv_sg_def nth_list_update fun_eq_iff)+

lemma drv_sg_set_sign: "fd_ok f d \<Longrightarrow> drv_sg (set_sign f s d) = (drv_sg d)(nat f := s)"
  by (auto simp: set_sign_def drv_sg_def fd_ok_def nth_list_update fun_eq_iff)

lemma drv_contexts_set_context:
  "fd_ok f d \<Longrightarrow> drv_contexts (set_context f c d) = (drv_contexts d)(nat f := c)"
  by (auto simp: set_context_def drv_contexts_def fd_ok_def nth_list_update fun_eq_iff)

lemma drv_sign_sg: "fd_ok f d \<Longrightarrow> drv_sign f d = drv_sg d (nat f)"
  by (simp add: drv_sign_def drv_sg_def fd_ok_def)

lemma heap_upd_frame [drv_frame]:
  "drv_sg (d\<lparr>heap_timeo := h\<rparr>) = drv_sg d"
  "drv_contexts (d\<lparr>heap_timeo := h\<rparr>) = drv_contexts d"
  "fd_ok f (d\<lparr>heap_timeo := h\<rparr>) = fd_ok f d"
  by (simp_all add: drv_sg_def drv_contexts_def fd_ok_def fun_eq_iff)

lemma fd_ok_frame [drv_frame]:
  "fd_ok f (set_sign g s d) = fd_ok f d" "fd_ok f (set_context g c d) = fd_ok f d"
  by (simp_all add: fd_ok_def drv_frame)

lemma set_context_abs [drv_frame]:
  "drv_inv (set_context f c d) = drv_inv d" "drv_timers (set_context f c d) = drv_timers d"
  "drv_entries (set_context f c d) = drv_entries d"
  by (simp_all add: drv_inv_def drv_timers_def drv_entries_def drv_frame fun_eq_iff)

lemma tmp_sg [drv_frame]:
  "drv_sg (d\<lparr>tmp_timeo_contexts := x\<rparr>) = drv_sg d" "drv_sg (d\<lparr>tmp_all_contexts := x\<rparr>) = drv_sg d"
  by (simp_all add: drv_sg_def fun_eq_iff)

lemma tmp_abs [drv_frame]:
  "drv_inv (d\<lparr>tmp_timeo_contexts := x\<rparr>) = drv_inv d"
  "drv_timers (d\<lparr>tmp_timeo_contexts := x\<rparr>) = drv_timers d"
  "drv_contexts (d\<lparr>tmp_timeo_contexts := x\<rparr>) = drv_contexts d"
  "drv_inv (d\<lparr>tmp_all_contexts := x\<rparr>) = drv_inv d"
  "drv_timers (d\<lparr>tmp_all_contexts := x\<rparr>) = drv_timers d"
  "drv_contexts (d\<lparr>tmp_all_contexts := x\<rparr>) = drv_contexts d"
  "fd_ok f (d\<lparr>tmp_timeo_contexts := x\<rparr>) = fd_ok f d"
  "fd_ok f (d\<lparr>tmp_all_contexts := x\<rparr>) = fd_ok f d"
  by (simp_all add: drv_inv_def drv_timers_def drv_entries_def drv_contexts_def fd_ok_def drv_frame
    fun_eq_iff)

lemma drv_raii_inited [simp]: "drv_inited d \<Longrightarrow> drv_raii env d = (d, True)"
  by (simp add: drv_raii_def)

section \<open>The table and the heap stay linked\<close>

text \<open>Erasing a descriptor's timeout, and filing or moving one.\<close>

lemma drv_erase_timeo:
  assumes inv: "drv_inv d" and f: "fd_ok f d" and s: "drv_sign f d \<noteq> 0"
  defines "d' \<equiv> set_sign f 0 (d\<lparr>heap_timeo := heap_Erase timeo_lt (drv_sign f d) (heap_timeo d)\<rparr>)"
  shows "drv_inv d' \<and> drv_entries d' = (drv_entries d)(nat f := None)"
proof -
  have sg: "drv_sg d (nat f) \<noteq> 0" using s f by (simp add: drv_sign_sg)
  from hc.q.linked_era [of MinHeap expire_time_ms "heap_timeo d" "drv_sg d" drv_own "nat f"] sg inv
  have "heap_wf timeo_lt (heap_timeo d') \<and> signs_linked (heap_map (heap_timeo d')) (drv_sg d') drv_own
    \<and> drv_entries d' = (drv_entries d)(nat f := None)"
    using f by (simp add: drv_inv_def drv_entries_def d'_def drv_frame drv_sg_set_sign drv_sign_sg)
  then show ?thesis using inv by (simp add: drv_inv_def)
qed

lemma drv_insert_timeo_ok:
  assumes inv: "drv_inv d" and f: "fd_ok f d" and s: "drv_sign f d = 0"
  shows "drv_inv (drv_insert_timeo env f t d) \<and> drv_entries (drv_insert_timeo env f t d)
    = (drv_entries d)(nat f \<mapsto> \<lparr>expire_time_ms = now_ms env + t, timeo_fd = f\<rparr>)"
proof -
  let ?e = "\<lparr>expire_time_ms = now_ms env + t, timeo_fd = f\<rparr>" and ?d = "drv_insert_timeo env f t d"
  obtain h s where i: "heap_Insert timeo_lt ?e (heap_timeo d) = (h, s)" by fastforce
  have own: "drv_own ?e = nat f" by (simp add: drv_own_def)
  then have "drv_sg d (drv_own ?e) = 0" using s f by (simp add: drv_sign_sg)
  with hc.q.linked_ins [of MinHeap expire_time_ms "heap_timeo d" "drv_sg d" drv_own ?e h s] i inv own
  have "heap_wf timeo_lt (heap_timeo ?d) \<and> signs_linked (heap_map (heap_timeo ?d)) (drv_sg ?d) drv_own
    \<and> drv_entries ?d = (drv_entries d)(nat f \<mapsto> ?e)"
    using f by (simp add: drv_inv_def drv_entries_def drv_insert_timeo_def i drv_frame drv_sg_set_sign)
  then show ?thesis using inv f by (simp add: drv_inv_def fd_ok_def)
qed

lemma drv_update_timeo_ok:
  fixes d :: "'c events_driver" and env :: drv_env and t :: int
  assumes inv: "drv_inv d" and f: "fd_ok f d" and s: "drv_sign f d \<noteq> 0"
  defines "e \<equiv> \<lparr>expire_time_ms = now_ms env + t, timeo_fd = f\<rparr>"
  defines "d' \<equiv> d\<lparr>heap_timeo := heap_Update timeo_lt (drv_sign f d) e (heap_timeo d)\<rparr>"
  shows "drv_inv d' \<and> drv_entries d' = (drv_entries d)(nat f \<mapsto> e)"
proof -
  have own: "drv_own e = nat f" by (simp add: drv_own_def e_def)
  have sg: "drv_sg d (drv_own e) \<noteq> 0" using s f own by (simp add: drv_sign_sg)
  from hc.q.linked_upd [of MinHeap expire_time_ms "heap_timeo d" "drv_sg d" drv_own e] sg inv own
  have "heap_wf timeo_lt (heap_timeo d') \<and> signs_linked (heap_map (heap_timeo d')) (drv_sg d') drv_own
    \<and> drv_entries d' = (drv_entries d)(nat f \<mapsto> e)"
    using f by (simp add: drv_inv_def drv_entries_def d'_def drv_frame drv_sign_sg)
  then show ?thesis using inv f by (simp add: drv_inv_def fd_ok_def e_def)
qed

lemma drv_RegEventDel_ok:
  assumes "drv_inv d" "drv_inited d" "fd_ok f d"
  shows "\<exists>d'. drv_RegEventDel env f d = Inr (d', ctl_ok env DelEvent f) \<and> drv_inv d' \<and> drv_inited d'
    \<and> length (fd_to_event_ctx d') = length (fd_to_event_ctx d)
    \<and> drv_timers d' = (drv_timers d)(nat f := None)
    \<and> drv_contexts d' = (if ctl_ok env DelEvent f then (drv_contexts d)(nat f := None) else drv_contexts d)
    \<and> tmp_timeo_contexts d' = tmp_timeo_contexts d \<and> tmp_all_contexts d' = tmp_all_contexts d"
proof -
  let ?e = "set_sign f 0 (d\<lparr>heap_timeo := heap_Erase timeo_lt (drv_sign f d) (heap_timeo d)\<rparr>)"
  define d1 where "d1 = (if drv_sign f d \<noteq> 0 then ?e else d)"
  have none: "drv_entries d (nat f) = None" if "drv_sign f d = 0"
    using that assms(3) by (simp add: drv_entries_def owner_view_def drv_sign_sg)
  have d1: "drv_inv d1" "drv_entries d1 = (drv_entries d)(nat f := None)"
    using assms drv_erase_timeo [of d f] none by (auto simp: d1_def fun_upd_idem)
  have fr: "drv_contexts d1 = drv_contexts d" "drv_inited d1"
    "length (fd_to_event_ctx d1) = length (fd_to_event_ctx d)" "fd_ok f d1"
    "tmp_timeo_contexts d1 = tmp_timeo_contexts d" "tmp_all_contexts d1 = tmp_all_contexts d"
    using assms by (simp_all add: d1_def drv_frame)
  have t: "drv_timers d1 = (drv_timers d)(nat f := None)"
    using d1(2) by (simp add: drv_timers_def fun_eq_iff)
  have "drv_RegEventDel env f d =
    Inr (if ctl_ok env DelEvent f then set_context f None d1 else d1, ctl_ok env DelEvent f)"
    using assms by (simp add: drv_RegEventDel_def d1_def Let_def ctl_ok_def)
  then show ?thesis using d1(1) fr t by (simp add: drv_frame drv_contexts_set_context)
qed

lemma drv_grow_ok:
  assumes "0 \<le> f"
  shows "fd_ok f (drv_grow f d)" "drv_inv (drv_grow f d) = drv_inv d"
    "drv_entries (drv_grow f d) = drv_entries d" "drv_contexts (drv_grow f d) = drv_contexts d"
    "drv_inited (drv_grow f d) = drv_inited d" "drv_sg (drv_grow f d) = drv_sg d"
proof -
  show "fd_ok f (drv_grow f d)" using assms by (auto simp: drv_grow_def fd_ok_def)
  show sg: "drv_sg (drv_grow f d) = drv_sg d" and "drv_contexts (drv_grow f d) = drv_contexts d"
    using assms by (auto simp: drv_grow_def drv_sg_def drv_contexts_def nth_append fun_eq_iff)
  show ini: "drv_inited (drv_grow f d) = drv_inited d" by (simp add: drv_grow_def)
  have "heap_timeo (drv_grow f d) = heap_timeo d" by (simp add: drv_grow_def)
  then show "drv_inv (drv_grow f d) = drv_inv d" "drv_entries (drv_grow f d) = drv_entries d"
    using sg by (simp_all add: drv_inv_def drv_entries_def)
qed

text \<open>What \<^verbatim>\<open>RegEvent\<close> does to the deadlines and contexts, as a specification on maps.\<close>

definition reg_timers :: "drv_op \<Rightarrow> nat \<Rightarrow> msec \<Rightarrow> int \<Rightarrow> (nat \<rightharpoonup> msec) \<Rightarrow> (nat \<rightharpoonup> msec)" where
  "reg_timers op n now t m =
     (case op of
        AddEvent \<Rightarrow> m(n := (if t \<ge> 0 then Some (now + t) else None))
      | ModEvent \<Rightarrow> (if t \<ge> 0 then m(n \<mapsto> now + t) else m)
      | DelEvent \<Rightarrow> m(n := None))"

definition reg_contexts :: "drv_op \<Rightarrow> nat \<Rightarrow> 'c option \<Rightarrow> (nat \<rightharpoonup> 'c) \<Rightarrow> (nat \<rightharpoonup> 'c)" where
  "reg_contexts op n c m =
     (case op of AddEvent \<Rightarrow> m(n := c) | ModEvent \<Rightarrow> m | DelEvent \<Rightarrow> m(n := None))"

text \<open>The state just before \<^verbatim>\<open>epoll_ctl\<close> is called for an addition or a change.\<close>

definition drv_file :: "drv_env \<Rightarrow> fd \<Rightarrow> drv_op \<Rightarrow> 'c option \<Rightarrow> int \<Rightarrow> 'c events_driver \<Rightarrow> 'c events_driver" where
  "drv_file env f op c t d =
     (if op = AddEvent
      then let d = set_context f c d in if t \<ge> 0 then drv_insert_timeo env f t d else set_sign f 0 d
      else if t \<ge> 0
      then if drv_sign f d \<noteq> 0
           then d\<lparr>heap_timeo := heap_Update timeo_lt (drv_sign f d)
                    \<lparr>expire_time_ms = now_ms env + t, timeo_fd = f\<rparr> (heap_timeo d)\<rparr>
           else drv_insert_timeo env f t d
      else d)"

lemma drv_RegEvent_file:
  assumes "drv_inited d" "0 \<le> f" "op \<noteq> DelEvent"
  shows "drv_RegEvent env f op c t d =
    (let d' = drv_file env f op c t (drv_grow f d)
     in if ctl_ok env op f then Inr (d', True) else drv_RegEvent_error env f d')"
  using assms drv_grow_ok(1) [OF assms(2), of d]
  by (cases op) (simp_all add: drv_RegEvent_def drv_file_def Let_def)

lemma drv_insert_timeo_frame [drv_frame]:
  "drv_contexts (drv_insert_timeo env f t d) = drv_contexts d"
  "length (fd_to_event_ctx (drv_insert_timeo env f t d)) = length (fd_to_event_ctx d)"
  "drv_inited (drv_insert_timeo env f t d) = drv_inited d"
  "fd_ok g (drv_insert_timeo env f t d) = fd_ok g d"
  by (simp_all add: drv_insert_timeo_def drv_frame split: prod.split)

lemma drv_sign_set_context: "fd_ok f d \<Longrightarrow> drv_sign f (set_context f c d) = drv_sign f d"
  by (simp add: drv_sign_def set_context_def fd_ok_def)

lemma drv_set_sign_idem: "fd_ok f d \<Longrightarrow> drv_sign f d = 0 \<Longrightarrow> set_sign f 0 d = d"
proof -
  assume "drv_sign f d = 0"
  then have "(fd_to_event_ctx d ! nat f)\<lparr>sign_timeo := 0\<rparr> = fd_to_event_ctx d ! nat f"
    by (simp add: drv_sign_def)
  then show ?thesis by (simp add: set_sign_def)
qed

lemma drv_file_ok:
  assumes inv: "drv_inv d" and f: "fd_ok f d" and op: "op \<noteq> DelEvent"
    and free: "op = AddEvent \<Longrightarrow> drv_sign f d = 0"
  shows "drv_inv (drv_file env f op c t d)"
    "drv_timers (drv_file env f op c t d) = reg_timers op (nat f) (now_ms env) t (drv_timers d)"
    "drv_contexts (drv_file env f op c t d) = reg_contexts op (nat f) c (drv_contexts d)"
    "drv_inited (drv_file env f op c t d) = drv_inited d" "fd_ok f (drv_file env f op c t d)"
proof -
  let ?c = "set_context f c d"
  have none: "drv_entries d (nat f) = None" if "drv_sign f d = 0"
    using that f by (simp add: drv_entries_def owner_view_def drv_sign_sg)
  have C: "drv_inv ?c" "fd_ok f ?c" "drv_sign f ?c = drv_sign f d"
    using inv f by (simp_all add: drv_frame drv_sign_set_context)
  have *: "drv_inv (drv_file env f op c t d) \<and> drv_entries (drv_file env f op c t d)
    = (if t \<ge> 0 then (drv_entries d)(nat f \<mapsto> \<lparr>expire_time_ms = now_ms env + t, timeo_fd = f\<rparr>)
       else drv_entries d)"
  proof (cases "op = AddEvent")
    case True
    then show ?thesis
      using drv_insert_timeo_ok [OF C(1,2), of env t] C free
      by (simp add: drv_file_def Let_def drv_set_sign_idem drv_frame)
  next
    case False
    then show ?thesis
      using drv_insert_timeo_ok [OF inv f, of env t] drv_update_timeo_ok [OF inv f, of env t] inv
      by (simp add: drv_file_def)
  qed
  then show "drv_inv (drv_file env f op c t d)" by blast
  show "drv_timers (drv_file env f op c t d) = reg_timers op (nat f) (now_ms env) t (drv_timers d)"
    using * none free op by (cases op) (auto simp: drv_timers_def reg_timers_def fun_eq_iff)
  show "drv_contexts (drv_file env f op c t d) = reg_contexts op (nat f) c (drv_contexts d)"
    "drv_inited (drv_file env f op c t d) = drv_inited d" "fd_ok f (drv_file env f op c t d)"
    using f op by (cases op; simp add: drv_file_def Let_def drv_frame reg_contexts_def
      drv_contexts_set_context)+
qed

lemma drv_sign_timers:
  assumes "drv_inv d" "fd_ok f d"
  shows "drv_sign f d = 0 \<longleftrightarrow> drv_timers d (nat f) = None"
proof -
  have "drv_entries d (nat f) \<noteq> None" if "drv_sg d (nat f) \<noteq> 0"
    using linked_dom [of _ "drv_sg d" drv_own "nat f"] assms(1) that
    by (auto simp: drv_inv_def drv_entries_def owner_view_def)
  moreover have "drv_entries d (nat f) = None" if "drv_sg d (nat f) = 0"
    using that by (simp add: drv_entries_def owner_view_def)
  ultimately have "drv_sg d (nat f) = 0 \<longleftrightarrow> drv_entries d (nat f) = None" by blast
  then show ?thesis using assms(2) by (simp add: drv_sign_sg drv_timers_def)
qed

lemma drv_top:
  assumes "drv_inv d" "heap_Top (heap_timeo d) = Some t"
  shows "fd_ok (timeo_fd t) d" "drv_timers d (nat (timeo_fd t)) = Some (expire_time_ms t)"
    "drv_timers d n = Some x \<Longrightarrow> expire_time_ms t \<le> x"
proof -
  from hc.q.linked_top [of MinHeap expire_time_ms "heap_timeo d" "drv_sg d" drv_own t] assms
  have top: "drv_sg d (drv_own t) \<noteq> 0" "drv_entries d (drv_own t) = Some t"
    "\<And>f w. drv_entries d f = Some w \<Longrightarrow> \<not> timeo_lt w t"
    by (auto simp: drv_inv_def drv_entries_def)
  have "timeo_fd t = int (drv_own t)" using assms(1) top(2) by (auto simp: drv_inv_def)
  then show "fd_ok (timeo_fd t) d" using top(1) by (auto simp: fd_ok_def drv_sg_def split: if_splits)
  show "drv_timers d (nat (timeo_fd t)) = Some (expire_time_ms t)"
    using top(2) by (simp add: drv_timers_def drv_own_def)
  show "expire_time_ms t \<le> x" if "drv_timers d n = Some x"
    using that top(3) by (auto simp: drv_timers_def heap_Compare_def not_less)
qed

lemma drv_top_none:
  assumes "drv_inv d"
  shows "heap_Top (heap_timeo d) = None \<longleftrightarrow> drv_timers d = Map.empty"
  using hc.q.linked_top_none [of MinHeap expire_time_ms "heap_timeo d" "drv_sg d" drv_own] assms
  by (auto simp: drv_inv_def drv_entries_def drv_timers_def fun_eq_iff)

lemma drv_timers_finite:
  assumes "drv_inv d"
  shows "finite (dom (drv_timers d))"
proof -
  have "dom (drv_timers d) = dom (drv_entries d)" by (auto simp: drv_timers_def)
  then show ?thesis
    using hc.q.finite_owner_view [of MinHeap expire_time_ms "heap_timeo d" "drv_sg d" drv_own] assms
    by (simp add: drv_inv_def drv_entries_def)
qed

section \<open>RemoveTimeouts\<close>

definition expired :: "msec \<Rightarrow> (nat \<rightharpoonup> msec) \<Rightarrow> nat set" where
  "expired now m = {n. \<exists>t. m n = Some t \<and> t < now}"

definition drained :: "drv_env \<Rightarrow> 'c events_driver \<Rightarrow> 'c events_driver \<Rightarrow> nat list \<Rightarrow> bool" where
  "drained env d d' fds \<longleftrightarrow> drv_inv d' \<and> drv_inited d' \<and> distinct fds
     \<and> set fds = expired (now_ms env) (drv_timers d)
     \<and> sorted (map (\<lambda>n. the (drv_timers d n)) fds)
     \<and> tmp_timeo_contexts d' = tmp_timeo_contexts d @ List.map_filter (drv_contexts d) fds
     \<and> drv_timers d' = drv_timers d |` (- set fds)
     \<and> drv_contexts d' = (\<lambda>n. if n \<in> set fds \<and> ctl_ok env DelEvent (int n) then None else drv_contexts d n)"

lemma drained_step:
  assumes fd: "fd_ok f d" and tm: "drv_timers d (nat f) = Some x" and x: "x < now_ms env"
    and min: "\<And>n y. drv_timers d n = Some y \<Longrightarrow> x \<le> y"
    and t1: "drv_timers d1 = (drv_timers d)(nat f := None)"
    and c1: "drv_contexts d1 = (if ctl_ok env DelEvent f then (drv_contexts d)(nat f := None) else drv_contexts d)"
    and o1: "tmp_timeo_contexts d1 = tmp_timeo_contexts (drv_timeo_context f d)"
    and dr: "drained env d1 d' fds"
  shows "drained env d d' (nat f # fds)"
proof -
  let ?n = "nat f"
  have f: "int ?n = f" using fd by (simp add: fd_ok_def)
  have set1: "set fds = expired (now_ms env) (drv_timers d1)" using dr by (simp add: drained_def)
  then have nin: "?n \<notin> set fds" by (simp add: expired_def t1)
  have set: "set (?n # fds) = expired (now_ms env) (drv_timers d)"
    using tm x set1 by (auto simp: expired_def t1)
  have same: "drv_timers d1 m = drv_timers d m" "drv_contexts d1 m = drv_contexts d m" if "m \<in> set fds" for m
    using that nin by (auto simp: t1 c1)
  have eq: "map (\<lambda>n. the (drv_timers d1 n)) fds = map (\<lambda>n. the (drv_timers d n)) fds"
    using same by simp
  have "sorted (map (\<lambda>n. the (drv_timers d1 n)) fds)" using dr by (simp add: drained_def)
  then have "sorted (map (\<lambda>n. the (drv_timers d n)) fds)" unfolding eq .
  moreover have "x \<le> the (drv_timers d m)" if "m \<in> set fds" for m
  proof -
    have "m \<in> expired (now_ms env) (drv_timers d)" using that set by auto
    then show ?thesis using min by (auto simp: expired_def)
  qed
  ultimately have sorted: "sorted (map (\<lambda>n. the (drv_timers d n)) (?n # fds))"
    using tm by simp
  have "List.map_filter (drv_contexts d1) fds = List.map_filter (drv_contexts d) fds"
    using same by (simp add: List.map_filter_def cong: filter_cong)
  moreover have "drv_contexts d ?n = ev_context (fd_to_event_ctx d ! ?n)"
    using fd by (simp add: drv_contexts_def fd_ok_def)
  ultimately have out: "tmp_timeo_contexts d' = tmp_timeo_contexts d @ List.map_filter (drv_contexts d) (?n # fds)"
    using dr o1 by (auto simp: drained_def drv_timeo_context_def List.map_filter_simps split: option.splits)
  have "drv_timers d' = drv_timers d |` (- set (?n # fds))"
    using dr by (auto simp: drained_def t1 restrict_map_def fun_eq_iff)
  moreover have "drv_contexts d' =
    (\<lambda>n. if n \<in> set (?n # fds) \<and> ctl_ok env DelEvent (int n) then None else drv_contexts d n)"
    using dr nin f by (auto simp: drained_def c1 fun_eq_iff)
  moreover have "drv_inv d'" "drv_inited d'" "distinct (?n # fds)"
    using dr nin by (simp_all add: drained_def)
  ultimately show ?thesis using set sorted out unfolding drained_def by (intro conjI)
qed

lemma drv_RemoveTimeouts_loop_ok:
  assumes "drv_inv d" "drv_inited d"
  shows "\<exists>d' fds. drv_RemoveTimeouts_loop env d = Some (Inr d') \<and> drained env d d' fds"
  using assms
proof (induction "card (dom (drv_timers d))" arbitrary: d rule: less_induct)
  case less
  note inv = less.prems(1) and ini = less.prems(2)
  have stop: "\<exists>d' fds. drv_RemoveTimeouts_loop env d = Some (Inr d') \<and> drained env d d' fds"
    if "drv_RemoveTimeouts_loop env d = Some (Inr d)" "expired (now_ms env) (drv_timers d) = {}"
    using that inv ini
    by (intro exI [of _ d] exI [of _ "[]"]) (simp add: drained_def List.map_filter_simps restrict_map_def)
  show ?case
  proof (cases "heap_Top (heap_timeo d)")
    case None
    then show ?thesis using drv_top_none [OF inv]
      by (intro stop) (auto simp: expired_def drv_RemoveTimeouts_loop.simps)
  next
    case (Some t)
    note top = drv_top [OF inv Some]
    show ?thesis
    proof (cases "expire_time_ms t < now_ms env")
      case False
      then show ?thesis using Some top(3)
        by (intro stop) (force simp: expired_def drv_RemoveTimeouts_loop.simps)+
    next
      case True
      let ?f = "timeo_fd t" and ?c = "drv_timeo_context (timeo_fd t) d"
      have c: "drv_inv ?c" "drv_inited ?c" "fd_ok ?f ?c" "drv_timers ?c = drv_timers d"
        "drv_contexts ?c = drv_contexts d"
        using inv ini top(1) by (simp_all add: drv_timeo_context_def drv_frame split: option.split)
      from drv_RegEventDel_ok [OF c(1-3), of env] obtain d1 where
        d1: "drv_RegEventDel env ?f ?c = Inr (d1, ctl_ok env DelEvent ?f)" "drv_inv d1" "drv_inited d1"
          "drv_timers d1 = (drv_timers d)(nat ?f := None)"
          "drv_contexts d1 = (if ctl_ok env DelEvent ?f then (drv_contexts d)(nat ?f := None) else drv_contexts d)"
          "tmp_timeo_contexts d1 = tmp_timeo_contexts ?c"
        using c(4,5) by auto
      have "dom (drv_timers d1) \<subset> dom (drv_timers d)" using top(2) d1(4) by auto
      then have "card (dom (drv_timers d1)) < card (dom (drv_timers d))"
        by (intro psubset_card_mono drv_timers_finite [OF inv])
      from less.hyps [OF this d1(2,3)] obtain d' fds where
        r: "drv_RemoveTimeouts_loop env d1 = Some (Inr d')" "drained env d1 d' fds" by blast
      have "drv_RemoveTimeouts_loop env d = Some (Inr d')"
        using Some True top(1) d1(1) r(1) by (subst drv_RemoveTimeouts_loop.simps) simp
      moreover have "drained env d d' (nat ?f # fds)"
        using drained_step [OF top(1,2) True top(3) d1(4-6) r(2)] .
      ultimately show ?thesis by blast
    qed
  qed
qed

lemma reg_error_timers: "(reg_timers op n now t m)(n := None) = m(n := None)"
  by (simp add: reg_timers_def fun_eq_iff split: drv_op.split)

lemma drv_RegEvent_ok:
  assumes "drv_inv d" "drv_inited d" "0 \<le> f" "op \<noteq> DelEvent"
    "op = AddEvent \<Longrightarrow> drv_timers d (nat f) = None"
  shows "\<exists>d'. drv_RegEvent env f op c t d = Inr (d', ctl_ok env op f) \<and> drv_inv d' \<and> drv_inited d'
    \<and> drv_timers d' = (if ctl_ok env op f then reg_timers op (nat f) (now_ms env) t (drv_timers d)
                       else (drv_timers d)(nat f := None))
    \<and> drv_contexts d' = (if ctl_ok env op f \<or> \<not> ctl_ok env DelEvent f
                         then reg_contexts op (nat f) c (drv_contexts d)
                         else (drv_contexts d)(nat f := None))"
proof -
  let ?g = "drv_grow f d" and ?d = "drv_file env f op c t (drv_grow f d)"
  note g = drv_grow_ok [OF assms(3), of d]
  have gt: "drv_timers ?g = drv_timers d" by (simp add: drv_timers_def g(3) fun_eq_iff)
  have "drv_sign f ?g = 0" if "op = AddEvent"
    using that assms g drv_sign_timers [of ?g f] gt by simp
  note F = drv_file_ok [OF _ g(1) assms(4) this, of env c t]
  have F': "drv_inv ?d" "drv_inited ?d" "fd_ok f ?d"
    "drv_timers ?d = reg_timers op (nat f) (now_ms env) t (drv_timers d)"
    "drv_contexts ?d = reg_contexts op (nat f) c (drv_contexts d)"
    using F g gt assms(1,2) by simp_all
  obtain e where e: "drv_RegEventDel env f ?d = Inr (e, ctl_ok env DelEvent f)" "drv_inv e" "drv_inited e"
    "drv_timers e = (drv_timers ?d)(nat f := None)"
    "drv_contexts e = (if ctl_ok env DelEvent f then (drv_contexts ?d)(nat f := None) else drv_contexts ?d)"
    using drv_RegEventDel_ok [OF F'(1-3), of env] by blast
  have "(reg_contexts op (nat f) c (drv_contexts d))(nat f := None) = (drv_contexts d)(nat f := None)"
    by (simp add: reg_contexts_def fun_eq_iff split: drv_op.split)
  then show ?thesis
    using drv_RegEvent_file [OF assms(2-4), of env c t] F' e
    by (cases "ctl_ok env op f") (simp_all add: Let_def drv_RegEvent_error_def reg_error_timers)
qed

lemma drv_ClearAll_loop_ok:
  assumes "drv_inv d" "drv_inited d" "\<forall>i \<in> set is. i < length (fd_to_event_ctx d)" "distinct is"
  shows "\<exists>d'. drv_ClearAll_loop env is d = Inr d' \<and> drv_inv d' \<and> drv_inited d'
    \<and> tmp_all_contexts d' = tmp_all_contexts d @ List.map_filter (drv_contexts d) is
    \<and> drv_timers d' = drv_timers d |` (- (set is \<inter> dom (drv_contexts d)))"
  using assms
proof (induction "is" arbitrary: d)
  case Nil
  then show ?case by (simp add: List.map_filter_simps restrict_map_def)
next
  case (Cons i "is")
  have ctx: "drv_contexts d i = ev_context (fd_to_event_ctx d ! i)"
    using Cons.prems by (simp add: drv_contexts_def)
  show ?case
  proof (cases "ev_context (fd_to_event_ctx d ! i)")
    case None
    then have "insert i (set is) \<inter> dom (drv_contexts d) = set is \<inter> dom (drv_contexts d)"
      using ctx by auto
    then show ?thesis using Cons.IH [OF Cons.prems(1,2)] Cons.prems None ctx
      by (simp add: List.map_filter_simps)
  next
    case (Some c)
    let ?d = "d\<lparr>tmp_all_contexts := tmp_all_contexts d @ [c]\<rparr>"
    have "drv_inv ?d" "drv_inited ?d" "fd_ok (int i) ?d"
      using Cons.prems by (simp_all add: drv_frame) (simp add: fd_ok_def)
    from drv_RegEventDel_ok [OF this, of env] obtain d1 where
      d1: "drv_RegEventDel env (int i) ?d = Inr (d1, ctl_ok env DelEvent (int i))"
        "drv_inv d1" "drv_inited d1" "length (fd_to_event_ctx d1) = length (fd_to_event_ctx d)"
        "drv_timers d1 = (drv_timers d)(i := None)"
        "drv_contexts d1 = (if ctl_ok env DelEvent (int i) then (drv_contexts d)(i := None) else drv_contexts d)"
        "tmp_all_contexts d1 = tmp_all_contexts d @ [c]"
      by (auto simp: drv_frame)
    have same: "drv_contexts d1 j = drv_contexts d j" if "j \<in> set is" for j
      using that Cons.prems(4) by (auto simp: d1(6))
    then have mf: "List.map_filter (drv_contexts d1) is = List.map_filter (drv_contexts d) is"
      by (simp add: List.map_filter_def cong: filter_cong)
    have "set is \<inter> dom (drv_contexts d1) = set is \<inter> dom (drv_contexts d)" using same by auto
    then have "drv_timers d1 |` (- (set is \<inter> dom (drv_contexts d1)))
      = drv_timers d |` (- (set (i # is) \<inter> dom (drv_contexts d)))"
      using Some ctx by (auto simp: d1(5) restrict_map_def fun_eq_iff)
    moreover obtain d' where "drv_ClearAll_loop env is d1 = Inr d'" "drv_inv d'" "drv_inited d'"
      "tmp_all_contexts d' = tmp_all_contexts d1 @ List.map_filter (drv_contexts d1) is"
      "drv_timers d' = drv_timers d1 |` (- (set is \<inter> dom (drv_contexts d1)))"
      using Cons.IH [OF d1(2,3)] Cons.prems(3,4) d1(4) by auto
    ultimately show ?thesis using Some d1(1,7) ctx mf
      by (intro exI [of _ d']) (simp add: List.map_filter_simps)
  qed
qed

lemma drv_new_inv: "drv_inv (EventsDriver_new b)" "drv_timers (EventsDriver_new b) = Map.empty"
proof -
  have h: "heap_wf timeo_lt (heap_new 1024)" "heap_map (heap_new 1024 :: event_timeo heap_base) = Map.empty"
    by (rule heap_new_wf; simp)+
  show "drv_inv (EventsDriver_new b)" "drv_timers (EventsDriver_new b) = Map.empty"
    by (simp_all add: h drv_inv_def EventsDriver_new_def Let_def signs_linked_def drv_sg_def
      drv_timers_def drv_entries_def owner_view_def fun_eq_iff)
qed

text \<open>A driver with one registered descriptor, whose timeout is at 100 ms.\<close>

definition drv_demo :: "string events_driver" where
  "drv_demo = (EventsDriver_new True)\<lparr>drv_inited := True,
     heap_timeo := \<lparr>init_size_heap = 4, num_items = 1, size_container = 4, heap_items = [1, 2, 3, 4],
       node_index = (\<lambda>_. 1), node_val = (\<lambda>_. \<lparr>expire_time_ms = 100, timeo_fd = 0\<rparr>), next_node = 5,
       heap_inited = True\<rparr>,
     fd_to_event_ctx := [\<lparr>ev_context = Some ''conn'', sign_timeo = 2\<rparr>]\<rparr>"

definition drv_demo_env :: "msec \<Rightarrow> drv_env" where
  "drv_demo_env now = \<lparr>now_ms = now, epoll_create_ret = 5, lock_ret = (\<lambda>_ _. True),
     epoll_ctl_ret = (\<lambda>_ _. 0)\<rparr>"

lemma drv_demo_entries: "drv_entries drv_demo = [0 \<mapsto> \<lparr>expire_time_ms = 100, timeo_fd = 0\<rparr>]"
  by (auto simp: drv_demo_def drv_entries_def owner_view_def drv_sg_def heap_map_def heap_live_image
    atLeastAtMostSuc_conv numeral_2_eq_2 fun_eq_iff)

lemma drv_demo_ok:
  "drv_inv drv_demo" "drv_inited drv_demo" "drv_timers drv_demo = [0 \<mapsto> 100]"
  "drv_contexts drv_demo = [0 \<mapsto> ''conn'']" "ctl_ok (drv_demo_env now) op f"
proof -
  have i1: "i = 1" if "Suc 0 \<le> i" "i \<le> Suc 0" for i using that by simp
  have "heap_wf timeo_lt (heap_timeo drv_demo)"
    using i1 by (auto simp: drv_demo_def heap_wf_def heap_alloc_def heap_indexed_def heap_ordered_def)
  moreover have "signs_linked (heap_map (heap_timeo drv_demo)) (drv_sg drv_demo) drv_own"
    using i1 by (auto simp: drv_demo_def signs_linked_def drv_sg_def drv_own_def heap_map_def
      heap_live_image split: if_splits)
  ultimately show "drv_inv drv_demo" by (auto simp: drv_inv_def drv_demo_entries split: if_splits)
  show "drv_timers drv_demo = [0 \<mapsto> 100]"
    by (simp add: drv_timers_def drv_demo_entries fun_eq_iff)
qed (auto simp: drv_demo_def drv_contexts_def ctl_ok_def drv_demo_env_def fun_eq_iff)

section \<open>Properties\<close>

text \<open>C5. \<^verbatim>\<open>RemoveTimeouts\<close> returns whatever the kernel answers, and its result is the
  contexts of exactly the descriptors whose deadline has passed, earliest deadline first;
  their deadlines are removed and every other deadline is kept.\<close>

theorem drv_RemoveTimeouts_exact:
  assumes "drv_inv d" "drv_inited d"
  shows "\<exists>d' fds. drv_RemoveTimeouts env d = Some (Inr d') \<and> drv_inv d' \<and> distinct fds
    \<and> set fds = {n. \<exists>t. drv_timers d n = Some t \<and> t < now_ms env}
    \<and> sorted (map (\<lambda>n. the (drv_timers d n)) fds)
    \<and> tmp_timeo_contexts d' = List.map_filter (drv_contexts d) fds
    \<and> drv_timers d' = drv_timers d |` (- set fds)"
proof -
  let ?d = "d\<lparr>tmp_timeo_contexts := []\<rparr>"
  have "drv_inv ?d" "drv_inited ?d" using assms by (simp_all add: drv_frame)
  from drv_RemoveTimeouts_loop_ok [OF this, of env] obtain d' fds where
    "drv_RemoveTimeouts_loop env ?d = Some (Inr d')" "drained env ?d d' fds" by blast
  then show ?thesis using assms
    by (intro exI [of _ d'] exI [of _ fds])
      (simp add: drv_RemoveTimeouts_def drained_def drv_frame expired_def)
qed

theorem drv_RemoveTimeouts_exact_witness:
  "drv_inv drv_demo \<and> drv_inited drv_demo \<and>
   (\<exists>d'. drv_RemoveTimeouts (drv_demo_env 101) drv_demo = Some (Inr d')
     \<and> tmp_timeo_contexts d' = [''conn''] \<and> drv_timers d' = Map.empty)"
proof -
  have ex: "{n. \<exists>t. drv_timers drv_demo n = Some t \<and> t < now_ms (drv_demo_env 101)} = {0}"
    by (auto simp: drv_demo_ok drv_demo_env_def split: if_splits)
  obtain d' fds where r: "drv_RemoveTimeouts (drv_demo_env 101) drv_demo = Some (Inr d')"
    "distinct fds" "set fds = {0}" "tmp_timeo_contexts d' = List.map_filter (drv_contexts drv_demo) fds"
    "drv_timers d' = drv_timers drv_demo |` (- set fds)"
    using drv_RemoveTimeouts_exact [OF drv_demo_ok(1,2), of "drv_demo_env 101"] unfolding ex by blast
  have "fds = [0]" using r(2,3) by (cases fds; cases "tl fds") auto
  then show ?thesis using r drv_demo_ok
    by (simp add: List.map_filter_simps restrict_map_def fun_eq_iff)
qed

text \<open>C22. \<^verbatim>\<open>RegEvent\<close> for an addition of a descriptor with no timeout on file, or a change:
  the call returns, its result says whether the lock and \<^verbatim>\<open>epoll_ctl\<close> succeeded, the
  invariant is kept, and on the maps of deadlines and contexts it acts as specified; when
  it fails the descriptor's deadline is gone.\<close>

theorem drv_RegEvent_refines:
  assumes "drv_inv d" "drv_inited d" "0 \<le> f" "op \<noteq> DelEvent"
    "op = AddEvent \<Longrightarrow> drv_timers d (nat f) = None"
  shows "\<exists>d'. drv_RegEvent env f op c t d = Inr (d', ctl_ok env op f) \<and> drv_inv d' \<and> drv_inited d'
    \<and> drv_timers d' = (if ctl_ok env op f then reg_timers op (nat f) (now_ms env) t (drv_timers d)
                       else (drv_timers d)(nat f := None))
    \<and> drv_contexts d' = (if ctl_ok env op f \<or> \<not> ctl_ok env DelEvent f
                         then reg_contexts op (nat f) c (drv_contexts d)
                         else (drv_contexts d)(nat f := None))"
  by (rule drv_RegEvent_ok [OF assms])

theorem drv_RegEvent_refines_witness:
  "drv_timers drv_demo 7 = None \<and>
   (\<exists>d'. drv_RegEvent (drv_demo_env 50) 7 AddEvent (Some ''peer'') 20 drv_demo = Inr (d', True)
     \<and> drv_inv d' \<and> drv_timers d' = [0 \<mapsto> 100, 7 \<mapsto> 70])"
  using drv_RegEvent_refines [OF drv_demo_ok(1,2), of 7 AddEvent "drv_demo_env 50" "Some ''peer''" 20]
  by (auto simp: drv_demo_ok reg_timers_def) (auto simp: drv_demo_env_def)

text \<open>\<^verbatim>\<open>Wait\<close> blocks for the caller's timeout when no deadline is on file, and
  otherwise never past the first deadline (and never for a negative time).\<close>

theorem drv_Wait_not_past_deadline:
  assumes "drv_inv d"
  shows "(drv_timers d = Map.empty \<longrightarrow> drv_Wait_time env timeo_ms d = timeo_ms)
    \<and> (\<forall>n t. drv_timers d n = Some t \<longrightarrow>
          0 \<le> drv_Wait_time env timeo_ms d \<and> drv_Wait_time env timeo_ms d \<le> max 0 (t - now_ms env)
          \<and> drv_Wait_time env timeo_ms d \<le> max 0 timeo_ms)"
proof (cases "heap_Top (heap_timeo d)")
  case None
  then show ?thesis using drv_top_none [OF assms] by (simp add: drv_Wait_time_def)
next
  case (Some t)
  then have "drv_timers d \<noteq> Map.empty" using drv_top_none [OF assms] by auto
  moreover have "expire_time_ms t \<le> x" if "drv_timers d n = Some x" for n x
    using drv_top(3) [OF assms Some that] .
  ultimately show ?thesis using Some by (fastforce simp: drv_Wait_time_def Let_def)
qed

theorem drv_Wait_not_past_deadline_witness:
  "drv_inv drv_demo \<and> drv_Wait_time (drv_demo_env 40) 5000 drv_demo \<le> 60"
proof -
  have "drv_timers drv_demo 0 = Some 100" by (simp add: drv_demo_ok)
  then have "drv_Wait_time (drv_demo_env 40) 5000 drv_demo \<le> max 0 (100 - now_ms (drv_demo_env 40))"
    using drv_Wait_not_past_deadline [OF drv_demo_ok(1), of "drv_demo_env 40" 5000] by blast
  then show ?thesis by (simp add: drv_demo_ok drv_demo_env_def)
qed

text \<open>\<^verbatim>\<open>ClearAll\<close> hands out every registered context, in the order of the
  descriptors, and leaves no registered descriptor with a deadline.\<close>

theorem drv_ClearAll_all:
  assumes "drv_inv d" "drv_inited d"
  shows "\<exists>d'. drv_ClearAll env d = Inr d' \<and> drv_inv d'
    \<and> tmp_all_contexts d' = List.map_filter (drv_contexts d) [0..<length (fd_to_event_ctx d)]
    \<and> drv_timers d' = drv_timers d |` (- dom (drv_contexts d))"
proof -
  have "{0..<length (fd_to_event_ctx d)} \<inter> dom (drv_contexts d) = dom (drv_contexts d)"
    by (auto simp: drv_contexts_def split: if_splits)
  then show ?thesis
    using drv_ClearAll_loop_ok [of "d\<lparr>tmp_all_contexts := []\<rparr>" "[0..<length (fd_to_event_ctx d)]" env] assms
    by (auto simp: drv_ClearAll_def drv_frame)
qed

theorem drv_ClearAll_all_witness:
  "drv_inv drv_demo \<and> (\<exists>d'. drv_ClearAll (drv_demo_env 0) drv_demo = Inr d' \<and> tmp_all_contexts d' = [''conn''])"
proof -
  have "length (fd_to_event_ctx drv_demo) = 1" by (simp add: drv_demo_def)
  then show ?thesis using drv_ClearAll_all [OF drv_demo_ok(1,2), of "drv_demo_env 0"] drv_demo_ok
    by (auto simp: List.map_filter_simps)
qed

text \<open>The result of \<^verbatim>\<open>RegEvent\<close> for a deletion is inverted: when the descriptor is
  deleted it reports failure, and when the deletion failed it reports success. Either way the
  deadline and the context are gone.\<close>

theorem drv_RegEvent_del_inverted:
  assumes "drv_inv d" "drv_inited d" "fd_ok f d"
  shows "\<exists>d'. drv_RegEvent env f DelEvent c t d = Inr (d', \<not> ctl_ok env DelEvent f) \<and> drv_inv d'
    \<and> drv_timers d' = (drv_timers d)(nat f := None) \<and> drv_contexts d' = (drv_contexts d)(nat f := None)"
proof -
  have "f < int (length (fd_to_event_ctx d))" using assms(3) by (auto simp: fd_ok_def)
  then have g: "drv_grow f d = d" by (simp add: drv_grow_def)
  obtain e where e: "drv_RegEventDel env f d = Inr (e, ctl_ok env DelEvent f)" "drv_inv e" "drv_inited e"
    "length (fd_to_event_ctx e) = length (fd_to_event_ctx d)"
    "drv_timers e = (drv_timers d)(nat f := None)"
    "drv_contexts e = (if ctl_ok env DelEvent f then (drv_contexts d)(nat f := None) else drv_contexts d)"
    using drv_RegEventDel_ok [OF assms, of env] by blast
  have f: "fd_ok f e" using assms(3) e(4) by (simp add: fd_ok_def)
  show ?thesis
    using drv_RegEventDel_ok [OF e(2,3) f, of env] e assms f g
    by (cases "ctl_ok env DelEvent f")
      (auto simp: drv_RegEvent_def drv_RegEvent_error_def drv_frame drv_contexts_set_context)
qed

theorem drv_RegEvent_del_inverted_witness:
  "fd_ok 0 drv_demo \<and> (\<exists>d'. drv_RegEvent (drv_demo_env 0) 0 DelEvent None 0 drv_demo = Inr (d', False)
     \<and> drv_timers d' = Map.empty)"
proof -
  have "fd_ok 0 drv_demo" by (simp add: fd_ok_def drv_demo_def)
  then show ?thesis
    using drv_RegEvent_del_inverted [OF drv_demo_ok(1,2), of 0 "drv_demo_env 0" None 0] drv_demo_ok
    by (auto simp: fun_eq_iff)
qed

end
