(* ===== verification/Close_Hashmap.thy ===== *)
theory Close_Hashmap
  imports Mag_Prelude
begin

text \<open>
  The closed hash table \<^verbatim>\<open>CloseHashmap\<close> of
  \<^verbatim>\<open>deps/public-cpp/include/public-cpp/close_hashmap.hpp\<close>, which the connection manager keeps
  its pools in: open addressing with a prime step chosen by the home slot, and erased slots
  marked by -1. The key equality and the hash function are arguments; the interface
  \<open>hash_keys\<close> states what the table needs of them. It is shown that the table implements a
  map, that a probe visits every slot, and in which states an insertion is refused.
\<close>

section \<open>State\<close>

record ('k, 'v) hm_item =
  it_first :: int
  it_key :: 'k
  it_val :: 'v

record ('k, 'v) close_hashmap =
  size_array :: nat
  hm_items :: "('k, 'v) hm_item list"
  num_elm :: nat

definition kPrimes :: "nat list" where
  "kPrimes = [53, 97, 193, 389, 769, 1543, 3079, 6151, 12289, 24593, 49157, 98317, 196613, 393241,
     786433, 1572869, 3145739, 6291469, 12582917, 25165843, 50331653, 100663319, 201326611,
     402653189, 805306457, 1610612741, 3221225473, 4294967291]"

section \<open>Operations\<close>

text \<open>\<^verbatim>\<open>Init\<close>; the second argument is what the fresh array holds before the marks are
  cleared. A size that one of the primes divides is refused.\<close>

definition hm_Init :: "nat \<Rightarrow> 'k \<times> 'v \<Rightarrow> ('k, 'v) close_hashmap option" where
  "hm_Init sz blank =
     (if list_ex (\<lambda>p. sz mod p = 0) kPrimes then None
      else Some \<lparr>size_array = sz,
        hm_items = replicate sz \<lparr>it_first = 0, it_key = fst blank, it_val = snd blank\<rparr>,
        num_elm = 0\<rparr>)"

fun hm_scan :: "('k \<Rightarrow> 'k \<Rightarrow> bool) \<Rightarrow> ('k, 'v) close_hashmap \<Rightarrow> 'k \<Rightarrow> nat \<Rightarrow> nat \<Rightarrow> nat \<Rightarrow> nat option" where
  "hm_scan keq h key step pos 0 = None"
| "hm_scan keq h key step pos (Suc n) =
     (let pos = (pos + step) mod size_array h; it = hm_items h ! pos in
      if it_first it = 0 \<or> (it_first it > 0 \<and> keq key (it_key it)) then Some pos
      else hm_scan keq h key step pos n)"

definition hm_GetItem :: "('k \<Rightarrow> 'k \<Rightarrow> bool) \<Rightarrow> ('k \<Rightarrow> nat) \<Rightarrow> ('k, 'v) close_hashmap \<Rightarrow> 'k \<Rightarrow> nat option" where
  "hm_GetItem keq hash h key =
     (let pos = hash key mod size_array h; it = hm_items h ! pos in
      if it_first it = 0 \<or> keq key (it_key it) then Some pos
      else hm_scan keq h key (kPrimes ! (pos mod 28)) pos (size_array h - 1))"

definition hm_Insert ::
  "('k \<Rightarrow> 'k \<Rightarrow> bool) \<Rightarrow> ('k \<Rightarrow> nat) \<Rightarrow> 'k \<Rightarrow> 'v \<Rightarrow> ('k, 'v) close_hashmap \<Rightarrow> ('k, 'v) close_hashmap \<times> bool" where
  "hm_Insert keq hash key val h =
     (if size_array h = num_elm h then (h, False)
      else case hm_GetItem keq hash h key of
        None \<Rightarrow> (h, False)
      | Some i \<Rightarrow>
          if it_first (hm_items h ! i) \<le> 0
          then (h\<lparr>hm_items := (hm_items h)[i := \<lparr>it_first = 1, it_key = key, it_val = val\<rparr>],
                  num_elm := num_elm h + 1\<rparr>, True)
          else (h, False))"

definition hm_Erase ::
  "('k \<Rightarrow> 'k \<Rightarrow> bool) \<Rightarrow> ('k \<Rightarrow> nat) \<Rightarrow> 'k \<Rightarrow> ('k, 'v) close_hashmap \<Rightarrow> ('k, 'v) close_hashmap \<times> bool" where
  "hm_Erase keq hash key h =
     (case hm_GetItem keq hash h key of
        None \<Rightarrow> (h, False)
      | Some i \<Rightarrow>
          if it_first (hm_items h ! i) > 0 \<and> keq key (it_key (hm_items h ! i))
          then (h\<lparr>hm_items := (hm_items h)[i := (hm_items h ! i)\<lparr>it_first := -1\<rparr>],
                  num_elm := num_elm h - 1\<rparr>, True)
          else (h, False))"

text \<open>\<^verbatim>\<open>Get\<close> returns a pointer into the table, so that the caller may change the value in
  place; \<open>hm_Set\<close> is such a write.\<close>

definition hm_Get :: "('k \<Rightarrow> 'k \<Rightarrow> bool) \<Rightarrow> ('k \<Rightarrow> nat) \<Rightarrow> ('k, 'v) close_hashmap \<Rightarrow> 'k \<Rightarrow> 'v option" where
  "hm_Get keq hash h key =
     (case hm_GetItem keq hash h key of
        None \<Rightarrow> None
      | Some i \<Rightarrow> if it_first (hm_items h ! i) > 0 then Some (it_val (hm_items h ! i)) else None)"

definition hm_Set :: "('k \<Rightarrow> 'k \<Rightarrow> bool) \<Rightarrow> ('k \<Rightarrow> nat) \<Rightarrow> 'k \<Rightarrow> 'v \<Rightarrow> ('k, 'v) close_hashmap \<Rightarrow> ('k, 'v) close_hashmap" where
  "hm_Set keq hash key val h =
     (case hm_GetItem keq hash h key of
        None \<Rightarrow> h
      | Some i \<Rightarrow>
          if it_first (hm_items h ! i) > 0
          then h\<lparr>hm_items := (hm_items h)[i := (hm_items h ! i)\<lparr>it_val := val\<rparr>]\<rparr> else h)"

text \<open>The iterator: the first live slot at or after a position, or the capacity.\<close>

fun hm_iter_from :: "('k, 'v) close_hashmap \<Rightarrow> nat \<Rightarrow> nat \<Rightarrow> nat" where
  "hm_iter_from h pos 0 = pos"
| "hm_iter_from h pos (Suc n) =
     (if pos < size_array h \<and> \<not> it_first (hm_items h ! pos) > 0 then hm_iter_from h (pos + 1) n else pos)"

definition hm_Begin :: "('k, 'v) close_hashmap \<Rightarrow> nat" where
  "hm_Begin h = hm_iter_from h 0 (size_array h)"

definition hm_Next :: "('k, 'v) close_hashmap \<Rightarrow> nat \<Rightarrow> nat" where
  "hm_Next h pos = (if pos = size_array h then pos else hm_iter_from h (pos + 1) (size_array h - (pos + 1)))"

section \<open>Probing\<close>

definition hm_home :: "('k \<Rightarrow> nat) \<Rightarrow> ('k, 'v) close_hashmap \<Rightarrow> 'k \<Rightarrow> nat" where
  "hm_home hash h key = hash key mod size_array h"

definition hm_step :: "('k \<Rightarrow> nat) \<Rightarrow> ('k, 'v) close_hashmap \<Rightarrow> 'k \<Rightarrow> nat" where
  "hm_step hash h key = kPrimes ! (hm_home hash h key mod 28)"

text \<open>The slot visited in round \<^verbatim>\<open>m\<close>, and whether the search stops there.\<close>

definition hm_probe :: "('k \<Rightarrow> nat) \<Rightarrow> ('k, 'v) close_hashmap \<Rightarrow> 'k \<Rightarrow> nat \<Rightarrow> nat" where
  "hm_probe hash h key m = (hm_home hash h key + m * hm_step hash h key) mod size_array h"

definition hm_hit :: "('k \<Rightarrow> 'k \<Rightarrow> bool) \<Rightarrow> ('k \<Rightarrow> nat) \<Rightarrow> ('k, 'v) close_hashmap \<Rightarrow> 'k \<Rightarrow> nat \<Rightarrow> bool" where
  "hm_hit keq hash h key m \<longleftrightarrow>
     (let it = hm_items h ! hm_probe hash h key m
      in it_first it = 0 \<or> ((m = 0 \<or> it_first it > 0) \<and> keq key (it_key it)))"

lemma hm_scan_find:
  assumes "0 < size_array h"
  shows "hm_scan keq h key (hm_step hash h key) (hm_probe hash h key m) n
    = map_option (hm_probe hash h key) (find (hm_hit keq hash h key) [Suc m..<Suc m + n])"
proof (induction n arbitrary: m)
  case (Suc n)
  have nx: "(hm_probe hash h key m + hm_step hash h key) mod size_array h = hm_probe hash h key (Suc m)"
    by (simp add: hm_probe_def mod_simps algebra_simps)
  have hit: "hm_hit keq hash h key (Suc m) \<longleftrightarrow> (let it = hm_items h ! hm_probe hash h key (Suc m)
      in it_first it = 0 \<or> (it_first it > 0 \<and> keq key (it_key it)))"
    by (simp add: hm_hit_def)
  have u: "[Suc m..<Suc m + Suc n] = Suc m # [Suc (Suc m)..<Suc (Suc m) + n]"
    by (simp add: upt_conv_Cons del: upt_Suc)
  show ?case unfolding u hm_scan.simps Let_def nx find.simps hit Suc.IH by simp
qed simp

lemma hm_GetItem_find:
  assumes "0 < size_array h"
  shows "hm_GetItem keq hash h key
    = map_option (hm_probe hash h key) (find (hm_hit keq hash h key) [0..<size_array h])"
proof -
  have p0: "hm_probe hash h key 0 = hash key mod size_array h" by (simp add: hm_probe_def hm_home_def)
  have st: "kPrimes ! (hash key mod size_array h mod 28) = hm_step hash h key"
    by (simp add: hm_step_def hm_home_def)
  let ?n = "size_array h - 1"
  have u: "[0..<size_array h] = 0 # [Suc 0..<Suc 0 + ?n]" using assms by (simp add: upt_conv_Cons)
  have hit: "hm_hit keq hash h key 0 \<longleftrightarrow> it_first (hm_items h ! hm_probe hash h key 0) = 0
    \<or> keq key (it_key (hm_items h ! hm_probe hash h key 0))"
    by (simp add: hm_hit_def Let_def)
  show ?thesis
    unfolding hm_GetItem_def Let_def st u find.simps hit
    unfolding p0 [symmetric] hm_scan_find [OF assms] by simp
qed

lemma find_upt_Some:
  "find P [0..<n] = Some m \<longleftrightarrow> m < n \<and> P m \<and> (\<forall>l < m. \<not> P l)"
  by (auto simp: find_Some_iff)

lemma hm_probe_inj:
  assumes "0 < size_array h" "coprime (hm_step hash h key) (size_array h)"
    "a \<le> b" "b < size_array h" "hm_probe hash h key b = hm_probe hash h key a"
  shows "a = b"
proof -
  let ?S = "size_array h"
  have "?S dvd (b - a) * hm_step hash h key"
    using assms mod_eq_dvd_iff_nat [of "hm_home hash h key + a * hm_step hash h key"
      "hm_home hash h key + b * hm_step hash h key" ?S]
    by (simp add: hm_probe_def diff_mult_distrib)
  then have "?S dvd b - a"
    using assms(2) by (metis coprime_commute coprime_dvd_mult_left_iff)
  then show ?thesis using assms(3,4) by (metis dvd_imp_le diff_is_0_eq le_antisym not_le diff_le_self
    le_less_trans zero_less_diff)
qed

lemma hm_probe_surj:
  assumes "0 < size_array h" "coprime (hm_step hash h key) (size_array h)" "i < size_array h"
  shows "\<exists>m < size_array h. hm_probe hash h key m = i"
proof -
  let ?S = "size_array h" and ?p = "hm_probe hash h key"
  note eq = hm_probe_inj [OF assms(1,2)]
  have "inj_on ?p {..<?S}"
    using eq by (intro inj_onI) (metis lessThan_iff nat_le_linear)
  then have "?p ` {..<?S} = {..<?S}"
    using assms(1) by (intro endo_inj_surj) (auto simp: hm_probe_def)
  then show ?thesis using assms(3) by (metis imageE lessThan_iff)
qed

section \<open>Invariant and abstraction\<close>

definition hm_live :: "('k, 'v) close_hashmap \<Rightarrow> nat set" where
  "hm_live h = {i. i < size_array h \<and> it_first (hm_items h ! i) > 0}"

text \<open>The steps reach every slot, the count is right, and every live slot is the one its own
  key leads to.\<close>

definition hm_wf :: "('k \<Rightarrow> 'k \<Rightarrow> bool) \<Rightarrow> ('k \<Rightarrow> nat) \<Rightarrow> ('k, 'v) close_hashmap \<Rightarrow> bool" where
  "hm_wf keq hash h \<longleftrightarrow> 0 < size_array h \<and> length (hm_items h) = size_array h
     \<and> (\<forall>p \<in> set kPrimes. coprime p (size_array h)) \<and> num_elm h = card (hm_live h)
     \<and> (\<forall>i \<in> hm_live h. hm_GetItem keq hash h (it_key (hm_items h ! i)) = Some i)"

text \<open>The value stored for a key, read off the array without probing.\<close>

definition hm_map :: "('k \<Rightarrow> 'k \<Rightarrow> bool) \<Rightarrow> ('k, 'v) close_hashmap \<Rightarrow> ('k \<rightharpoonup> 'v)" where
  "hm_map keq h k = map_option (\<lambda>i. it_val (hm_items h ! i))
     (find (\<lambda>i. it_first (hm_items h ! i) > 0 \<and> keq k (it_key (hm_items h ! i))) [0..<size_array h])"

lemma finite_hm_live [simp]: "finite (hm_live h)"
  by (simp add: hm_live_def)

lemma hm_step_prime: "hm_step hash h k \<in> set kPrimes"
  unfolding hm_step_def by (rule nth_mem) (simp add: kPrimes_def)

lemma hm_GetItem_Some:
  assumes "0 < size_array h"
  shows "hm_GetItem keq hash h k = Some i \<longleftrightarrow> (\<exists>m < size_array h. hm_probe hash h k m = i
    \<and> hm_hit keq hash h k m \<and> (\<forall>l < m. \<not> hm_hit keq hash h k l))"
  unfolding hm_GetItem_find [OF assms] by (auto simp: find_upt_Some)

lemma hm_GetItem_range:
  "0 < size_array h \<Longrightarrow> hm_GetItem keq hash h k = Some i \<Longrightarrow> i < size_array h"
  by (auto simp: hm_GetItem_Some hm_probe_def)

lemma hm_found_key:
  assumes "0 < size_array h" "hm_GetItem keq hash h k = Some i" "it_first (hm_items h ! i) > 0"
  shows "keq k (it_key (hm_items h ! i))"
  using assms by (auto simp: hm_GetItem_Some hm_hit_def Let_def)

text \<open>A write to another slot does not divert a search, unless that slot now stops it.\<close>

lemma hm_GetItem_other:
  assumes S: "0 < size_array h" and g: "hm_GetItem keq hash h k = Some i"
    and sz: "size_array h' = size_array h" and it: "hm_items h' = (hm_items h)[p := x]" "i \<noteq> p"
    and new: "\<And>m. hm_probe hash h k m = p \<Longrightarrow> hm_hit keq hash h' k m \<Longrightarrow> hm_hit keq hash h k m"
  shows "hm_GetItem keq hash h' k = Some i"
proof -
  have pr: "hm_probe hash h' k = hm_probe hash h k"
    by (simp add: fun_eq_iff hm_probe_def hm_home_def hm_step_def sz)
  have same: "hm_hit keq hash h' k m = hm_hit keq hash h k m" if "hm_probe hash h k m \<noteq> p" for m
    using that it by (simp add: hm_hit_def pr)
  obtain m where m: "m < size_array h" "hm_probe hash h k m = i" "hm_hit keq hash h k m"
    "\<forall>l < m. \<not> hm_hit keq hash h k l"
    using g S by (auto simp: hm_GetItem_Some)
  have "\<not> hm_hit keq hash h' k l" if "l < m" for l using m(4) new same that by metis
  moreover have "hm_hit keq hash h' k m" using same m it(2) by simp
  ultimately show ?thesis using m S sz pr by (auto simp: hm_GetItem_Some)
qed

locale hash_keys =
  fixes keq :: "'k \<Rightarrow> 'k \<Rightarrow> bool" and hash :: "'k \<Rightarrow> nat"
  assumes keq_refl: "keq a a"
    and keq_sym: "keq a b \<Longrightarrow> keq b a"
    and keq_trans: "keq a b \<Longrightarrow> keq b c \<Longrightarrow> keq a c"
    and hash_keq: "keq a b \<Longrightarrow> hash a = hash b"
begin

lemma keq_left: "keq a b \<Longrightarrow> keq a c = keq b c"
  using keq_sym keq_trans by blast

lemma GetItem_keq: "keq a b \<Longrightarrow> hm_GetItem keq hash h a = hm_GetItem keq hash h b"
proof -
  assume ab: "keq a b"
  have "hm_scan keq h a st pos n = hm_scan keq h b st pos n" for st pos n
    by (induction n arbitrary: pos) (simp_all add: keq_left [OF ab] Let_def)
  then show ?thesis by (simp add: hm_GetItem_def hash_keq [OF ab] keq_left [OF ab] Let_def)
qed

lemma wf_coprime: "hm_wf keq hash h \<Longrightarrow> coprime (hm_step hash h k) (size_array h)"
  using hm_step_prime [of hash h k] by (simp add: hm_wf_def)

lemma live_at:
  assumes "hm_wf keq hash h" "i \<in> hm_live h" "keq k (it_key (hm_items h ! i))"
  shows "hm_GetItem keq hash h k = Some i"
  using assms(1,2) GetItem_keq [OF assms(3), of h] by (simp add: hm_wf_def)

lemma live_unique:
  assumes "hm_wf keq hash h" "i \<in> hm_live h" "j \<in> hm_live h"
    "keq k (it_key (hm_items h ! i))" "keq k (it_key (hm_items h ! j))"
  shows "i = j"
  using live_at [OF assms(1,2,4)] live_at [OF assms(1,3,5)] by simp

lemma map_Some:
  assumes "hm_wf keq hash h"
  shows "hm_map keq h k = Some v \<longleftrightarrow>
    (\<exists>i \<in> hm_live h. keq k (it_key (hm_items h ! i)) \<and> it_val (hm_items h ! i) = v)"
proof
  assume "hm_map keq h k = Some v"
  then show "\<exists>i \<in> hm_live h. keq k (it_key (hm_items h ! i)) \<and> it_val (hm_items h ! i) = v"
    by (auto simp: hm_map_def find_upt_Some hm_live_def)
next
  assume "\<exists>i \<in> hm_live h. keq k (it_key (hm_items h ! i)) \<and> it_val (hm_items h ! i) = v"
  then obtain i where i: "i \<in> hm_live h" "keq k (it_key (hm_items h ! i))" "it_val (hm_items h ! i) = v"
    by blast
  let ?P = "\<lambda>i. it_first (hm_items h ! i) > 0 \<and> keq k (it_key (hm_items h ! i))"
  have "find ?P [0..<size_array h] \<noteq> None" using i by (auto simp: find_None_iff hm_live_def)
  then obtain j where j: "find ?P [0..<size_array h] = Some j" by blast
  then have "j = i" using live_unique [OF assms _ i(1) _ i(2)] by (auto simp: find_upt_Some hm_live_def)
  then show "hm_map keq h k = Some v" using i j by (simp add: hm_map_def)
qed

lemma map_None:
  assumes "hm_wf keq hash h"
  shows "hm_map keq h k = None \<longleftrightarrow> (\<forall>i \<in> hm_live h. \<not> keq k (it_key (hm_items h ! i)))"
  using map_Some [OF assms, of k] by (cases "hm_map keq h k") auto

lemma map_keq: "keq a b \<Longrightarrow> hm_map keq h a = hm_map keq h b"
  using keq_left [of a b] by (simp add: hm_map_def)

lemma get_map:
  assumes wf: "hm_wf keq hash h"
  shows "hm_Get keq hash h k = hm_map keq h k"
proof (cases "\<exists>i \<in> hm_live h. keq k (it_key (hm_items h ! i))")
  case True
  then obtain i where i: "i \<in> hm_live h" "keq k (it_key (hm_items h ! i))" by blast
  then have "hm_Get keq hash h k = Some (it_val (hm_items h ! i))"
    using live_at [OF wf i] by (simp add: hm_Get_def hm_live_def)
  moreover have "hm_map keq h k = Some (it_val (hm_items h ! i))" using map_Some [OF wf] i by blast
  ultimately show ?thesis by simp
next
  case False
  have S: "0 < size_array h" using wf by (simp add: hm_wf_def)
  have "hm_Get keq hash h k = None"
    using False hm_found_key [OF S, of keq hash k] hm_GetItem_range [OF S, of keq hash k]
    by (auto simp: hm_Get_def hm_live_def split: option.split)
  then show ?thesis using map_None [OF wf, of k] False by simp
qed

text \<open>Writing a live item under its key to the slot the key leads to, when that slot is not
  live.\<close>

lemma write_ok:
  fixes h :: "('k, 'v) close_hashmap" and v :: 'v
  assumes wf: "hm_wf keq hash h" and g: "hm_GetItem keq hash h k = Some p"
    and dead: "it_first (hm_items h ! p) \<le> 0"
  defines "h' \<equiv> h\<lparr>hm_items := (hm_items h)[p := \<lparr>it_first = 1, it_key = k, it_val = v\<rparr>],
    num_elm := num_elm h + 1\<rparr>"
  shows "hm_wf keq hash h'" and "hm_live h' = insert p (hm_live h)" and "p \<notin> hm_live h"
proof -
  have S: "0 < size_array h" and len: "length (hm_items h) = size_array h"
    using wf by (auto simp: hm_wf_def)
  have p: "p < size_array h" using hm_GetItem_range [OF S g] .
  show pl: "p \<notin> hm_live h" using dead by (simp add: hm_live_def)
  show live: "hm_live h' = insert p (hm_live h)"
    using p len by (auto simp: hm_live_def h'_def nth_list_update split: if_splits)
  have pr: "hm_probe hash h' = hm_probe hash h"
    by (simp add: fun_eq_iff hm_probe_def hm_home_def hm_step_def h'_def)
  have its: "hm_items h' = (hm_items h)[p := \<lparr>it_first = 1, it_key = k, it_val = v\<rparr>]"
    "size_array h' = size_array h" by (simp_all add: h'_def)
  have hp: "hm_hit keq hash h' a m \<longleftrightarrow> keq a k" if "hm_probe hash h a m = p" for a m
    using that p len by (simp add: hm_hit_def pr its)
  have old: "hm_GetItem keq hash h' (it_key (hm_items h ! i)) = Some i" if i: "i \<in> hm_live h" for i
  proof (rule hm_GetItem_other [OF S])
    let ?a = "it_key (hm_items h ! i)"
    show gi: "hm_GetItem keq hash h ?a = Some i" using wf i by (auto simp: hm_wf_def)
    show "i \<noteq> p" using i pl by auto
    then have "\<not> keq ?a k" using GetItem_keq [of ?a k h] g gi by auto
    then show "hm_hit keq hash h ?a m" if "hm_probe hash h ?a m = p" "hm_hit keq hash h' ?a m" for m
      using hp [OF that(1)] that(2) by simp
  qed (rule its)+
  obtain m where m: "m < size_array h" "hm_probe hash h k m = p" "\<forall>l < m. \<not> hm_hit keq hash h k l"
    using g S by (auto simp: hm_GetItem_Some)
  have dup: "hm_probe hash h k l \<noteq> p" if "l < m" for l
  proof
    assume lp: "hm_probe hash h k l = p"
    from hm_probe_inj [OF S wf_coprime [OF wf], of l m k] that m lp show False by simp
  qed
  have "\<not> hm_hit keq hash h' k l" if "l < m" for l
    using dup [OF that] m(3) that by (simp add: hm_hit_def pr its)
  then have new: "hm_GetItem keq hash h' k = Some p"
    using m pr hp [OF m(2)] keq_refl S by (auto simp: hm_GetItem_Some its)
  have "\<forall>i \<in> hm_live h'. hm_GetItem keq hash h' (it_key (hm_items h' ! i)) = Some i"
    using old new live p len by (auto simp: its nth_list_update)
  then show "hm_wf keq hash h'"
    using wf live pl by (simp add: hm_wf_def) (simp add: h'_def)
qed

lemma insert_ok:
  assumes wf: "hm_wf keq hash h" and ins: "hm_Insert keq hash k v h = (h', ok)"
  shows "hm_wf keq hash h'"
    and "ok \<Longrightarrow> hm_map keq h k = None \<and> (\<forall>a. hm_map keq h' a = (if keq a k then Some v else hm_map keq h a))"
    and "\<not> ok \<Longrightarrow> h' = h"
proof -
  show "\<not> ok \<Longrightarrow> h' = h" using ins by (auto simp: hm_Insert_def split: option.splits if_splits)
  have S: "0 < size_array h" and len: "length (hm_items h) = size_array h"
    using wf by (auto simp: hm_wf_def)
  have "hm_wf keq hash h' \<and> hm_map keq h k = None
      \<and> (\<forall>a. hm_map keq h' a = (if keq a k then Some v else hm_map keq h a))" if ok
  proof -
    from ins that obtain p where p: "hm_GetItem keq hash h k = Some p" "it_first (hm_items h ! p) \<le> 0"
      and h': "h' = h\<lparr>hm_items := (hm_items h)[p := \<lparr>it_first = 1, it_key = k, it_val = v\<rparr>],
        num_elm := num_elm h + 1\<rparr>"
      by (auto simp: hm_Insert_def split: option.splits if_splits)
    note w = write_ok(1,2) [OF wf p, where v = v, folded h'] write_ok(3) [OF wf p]
    have item: "hm_items h' ! i = (if i = p then \<lparr>it_first = 1, it_key = k, it_val = v\<rparr> else hm_items h ! i)" for i
      using hm_GetItem_range [OF S p(1)] len by (simp add: h' nth_list_update)
    have no: "hm_map keq h k = None"
      using live_at [OF wf] w(3) p(1) by (fastforce simp: map_None [OF wf])
    have "hm_map keq h' a = (if keq a k then Some v else hm_map keq h a)" for a
    proof (cases "keq a k")
      case True
      have "hm_map keq h' a = Some v" using True w(2) item by (auto simp: map_Some [OF w(1)])
      then show ?thesis using True by simp
    next
      case False
      then have "hm_map keq h' a = Some x \<longleftrightarrow> hm_map keq h a = Some x" for x
        unfolding map_Some [OF w(1)] map_Some [OF wf] w(2)
        using w(3) item by (simp add: bex_simps) (metis (no_types))
      then show ?thesis using False by (cases "hm_map keq h a"; cases "hm_map keq h' a") auto
    qed
    then show ?thesis using w(1) no by blast
  qed
  then show "hm_wf keq hash h'"
    and "ok \<Longrightarrow> hm_map keq h k = None \<and> (\<forall>a. hm_map keq h' a = (if keq a k then Some v else hm_map keq h a))"
    using wf \<open>\<not> ok \<Longrightarrow> h' = h\<close> by auto
qed

text \<open>An absent key is accepted as long as one slot was never used.\<close>

lemma insert_accepts:
  assumes wf: "hm_wf keq hash h" and no: "hm_map keq h k = None"
    and fr: "j < size_array h" "it_first (hm_items h ! j) = 0"
  shows "snd (hm_Insert keq hash k v h)"
proof -
  have S: "0 < size_array h" using wf by (auto simp: hm_wf_def)
  obtain m where "m < size_array h" "hm_probe hash h k m = j"
    using hm_probe_surj [OF S wf_coprime [OF wf] fr(1)] by blast
  then have "m < size_array h \<and> hm_hit keq hash h k m" using fr by (simp add: hm_hit_def)
  then have "hm_GetItem keq hash h k \<noteq> None"
    unfolding hm_GetItem_find [OF S] by (auto simp: find_None_iff)
  then obtain p where p: "hm_GetItem keq hash h k = Some p" by blast
  have "it_first (hm_items h ! p) \<le> 0"
  proof (rule ccontr)
    assume "\<not> it_first (hm_items h ! p) \<le> 0"
    then have "p \<in> hm_live h" "keq k (it_key (hm_items h ! p))"
      using hm_found_key [OF S p] hm_GetItem_range [OF S p] by (simp_all add: hm_live_def)
    then show False using no by (simp add: map_None [OF wf])
  qed
  moreover have "j \<notin> hm_live h" "hm_live h \<subseteq> {..<size_array h}" using fr by (auto simp: hm_live_def)
  then have "hm_live h \<subset> {..<size_array h}" using fr(1) by blast
  from psubset_card_mono [OF _ this] have "card (hm_live h) < size_array h" by simp
  then have "size_array h \<noteq> num_elm h" using wf by (simp add: hm_wf_def)
  ultimately show ?thesis using p by (simp add: hm_Insert_def)
qed

lemma map_ext:
  assumes "\<And>x. hm_map keq h' a = Some x \<longleftrightarrow> m = Some x"
  shows "hm_map keq h' a = m"
  using assms by (cases m; cases "hm_map keq h' a") auto

text \<open>Replacing a live item by one with the same key, live or erased.\<close>

lemma rewrite_ok:
  fixes h :: "('k, 'v) close_hashmap"
  assumes wf: "hm_wf keq hash h" and p: "p \<in> hm_live h"
    and key: "it_key x = it_key (hm_items h ! p)" and fst: "it_first x \<noteq> 0"
  defines "h' \<equiv> h\<lparr>hm_items := (hm_items h)[p := x],
    num_elm := (if it_first x > 0 then num_elm h else num_elm h - 1)\<rparr>"
  shows "hm_wf keq hash h'" and "hm_live h' = (if it_first x > 0 then hm_live h else hm_live h - {p})"
proof -
  have S: "0 < size_array h" and len: "length (hm_items h) = size_array h"
    using wf by (auto simp: hm_wf_def)
  have pS: "p < size_array h" and pf: "it_first (hm_items h ! p) > 0" using p by (auto simp: hm_live_def)
  have its: "hm_items h' = (hm_items h)[p := x]" "size_array h' = size_array h" by (simp_all add: h'_def)
  show live: "hm_live h' = (if it_first x > 0 then hm_live h else hm_live h - {p})"
    using pS pf len by (auto simp: hm_live_def its nth_list_update)
  have pr: "hm_probe hash h' = hm_probe hash h"
    by (simp add: fun_eq_iff hm_probe_def hm_home_def hm_step_def its)
  have hp: "hm_hit keq hash h a m" if "hm_probe hash h a m = p" "hm_hit keq hash h' a m" for a m
    using that pS len pf key fst by (auto simp: hm_hit_def Let_def pr its)
  have old: "hm_GetItem keq hash h' (it_key (hm_items h' ! i)) = Some i" if i: "i \<in> hm_live h'" for i
  proof (cases "i = p")
    case False
    then have "i \<in> hm_live h" "hm_items h' ! i = hm_items h ! i" using i live its by (auto split: if_splits)
    then have "hm_GetItem keq hash h (it_key (hm_items h' ! i)) = Some i" using wf by (simp add: hm_wf_def)
    then show ?thesis by (rule hm_GetItem_other [OF S _ its(2,1) False hp])
  next
    case True
    then have pos: "it_first x > 0" using i live by (auto split: if_splits)
    have hit: "hm_hit keq hash h' a m = hm_hit keq hash h a m" for a m
      using pos pS len pf key
      by (cases "hm_probe hash h a m = p") (simp_all add: hm_hit_def pr its Let_def)
    have "hm_GetItem keq hash h (it_key x) = Some p" using wf p key by (simp add: hm_wf_def)
    then have "hm_GetItem keq hash h' (it_key x) = Some p"
      using S by (simp add: hm_GetItem_Some its hit pr)
    then show ?thesis using True pS len by (simp add: its)
  qed
  have "card (hm_live h - {p}) = card (hm_live h) - 1" using p by (simp add: card_Diff_singleton)
  then show "hm_wf keq hash h'"
    using wf live old by (simp add: hm_wf_def) (simp add: h'_def)
qed

lemma erase_ok:
  assumes wf: "hm_wf keq hash h" and er: "hm_Erase keq hash k h = (h', ok)"
  shows "hm_wf keq hash h' \<and> ok = (hm_map keq h k \<noteq> None)
    \<and> (\<forall>a. hm_map keq h' a = (if keq a k then None else hm_map keq h a))"
proof (cases "hm_map keq h k")
  case None
  then have dead: "\<not> (it_first (hm_items h ! p) > 0 \<and> keq k (it_key (hm_items h ! p)))"
    if "hm_GetItem keq hash h k = Some p" for p
    using that wf hm_GetItem_range [of h keq hash k p] by (auto simp: map_None [OF wf] hm_live_def hm_wf_def)
  then have "hm_Erase keq hash k h = (h, False)"
    by (cases "hm_GetItem keq hash h k") (auto simp: hm_Erase_def)
  moreover have "hm_map keq h a = None" if "keq a k" for a using map_keq [OF that, of h] None by simp
  ultimately show ?thesis using er wf None by simp
next
  case (Some v)
  then obtain p where p: "p \<in> hm_live h" "keq k (it_key (hm_items h ! p))"
    by (auto simp: map_Some [OF wf])
  let ?x = "(hm_items h ! p)\<lparr>it_first := -1\<rparr>"
  have h': "h' = h\<lparr>hm_items := (hm_items h)[p := ?x],
      num_elm := (if it_first ?x > 0 then num_elm h else num_elm h - 1)\<rparr>" and ok
    using er live_at [OF wf p] p by (auto simp: hm_Erase_def hm_live_def)
  have w: "hm_wf keq hash h'" "hm_live h' = hm_live h - {p}"
    using rewrite_ok [OF wf p(1), of ?x, folded h'] by simp_all
  have it: "hm_items h' ! i = hm_items h ! i" if "i \<noteq> p" for i using that by (simp add: h')
  have "hm_map keq h' a = (if keq a k then None else hm_map keq h a)" for a
  proof (rule map_ext)
    have kp: "keq a (it_key (hm_items h ! p)) = keq a k" using p(2) keq_sym keq_trans by blast
    show "hm_map keq h' a = Some x \<longleftrightarrow> (if keq a k then None else hm_map keq h a) = Some x" for x
      using live_unique [OF wf _ p(1), of _ a] kp it
      by (auto simp: map_Some [OF wf] map_Some [OF w(1)] w(2))
  qed
  then show ?thesis using w(1) \<open>ok\<close> Some by simp
qed

lemma set_ok:
  assumes wf: "hm_wf keq hash h" and k: "hm_map keq h k \<noteq> None"
  shows "hm_wf keq hash (hm_Set keq hash k v h)
    \<and> (\<forall>a. hm_map keq (hm_Set keq hash k v h) a = (if keq a k then Some v else hm_map keq h a))"
proof -
  from k obtain p where p: "p \<in> hm_live h" "keq k (it_key (hm_items h ! p))"
    by (auto simp: map_Some [OF wf])
  let ?x = "(hm_items h ! p)\<lparr>it_val := v\<rparr>" and ?h = "hm_Set keq hash k v h"
  have h': "?h = h\<lparr>hm_items := (hm_items h)[p := ?x],
      num_elm := (if it_first ?x > 0 then num_elm h else num_elm h - 1)\<rparr>"
    using live_at [OF wf p] p by (simp add: hm_Set_def hm_live_def)
  have w: "hm_wf keq hash ?h" "hm_live ?h = hm_live h"
    using rewrite_ok [OF wf p(1), of ?x, folded h'] p(1) by (simp_all add: hm_live_def)
  have it: "hm_items ?h ! i = (if i = p then ?x else hm_items h ! i)" for i
    using p(1) wf by (simp add: h' hm_live_def hm_wf_def nth_list_update)
  have "hm_map keq ?h a = (if keq a k then Some v else hm_map keq h a)" for a
  proof (rule map_ext)
    have kp: "keq a (it_key (hm_items h ! p)) = keq a k" using p(2) keq_sym keq_trans by blast
    have un: "i = p" if "i \<in> hm_live h" "keq a (it_key (hm_items h ! i))" "keq a k" for i
      using live_unique [OF wf that(1) p(1) that(2)] kp that(3) by simp
    have ex: "hm_map keq ?h a = Some x \<longleftrightarrow> (\<exists>i \<in> hm_live h. keq a (it_key (hm_items h ! i))
      \<and> (if i = p then v else it_val (hm_items h ! i)) = x)" for x
      unfolding map_Some [OF w(1)] w(2) by (intro bex_cong) (simp_all add: it)
    show "hm_map keq ?h a = Some x \<longleftrightarrow> (if keq a k then Some v else hm_map keq h a) = Some x" for x
    proof (cases "keq a k")
      case True
      then have "hm_map keq ?h a = Some x \<longleftrightarrow> v = x" unfolding ex using un p(1) kp by metis
      then show ?thesis using True by simp
    next
      case False
      then have "i \<noteq> p" if "keq a (it_key (hm_items h ! i))" for i using that kp by metis
      then have "hm_map keq ?h a = Some x \<longleftrightarrow> hm_map keq h a = Some x"
        unfolding ex map_Some [OF wf] by metis
      then show ?thesis using False by simp
    qed
  qed
  then show ?thesis using w(1) by simp
qed

end

section \<open>Initialisation\<close>

lemma hm_Init_pos: "hm_Init sz blank = Some h \<Longrightarrow> 0 < sz"
  by (cases "sz = 0") (simp_all add: hm_Init_def kPrimes_def)

lemma hm_Init_wf:
  assumes "hm_Init sz blank = Some h" "\<forall>p \<in> set kPrimes. coprime p sz"
  shows "hm_wf keq hash h" "hm_map keq h = Map.empty" "size_array h = sz"
    "\<forall>i < sz. it_first (hm_items h ! i) = 0"
proof -
  have h: "h = \<lparr>size_array = sz,
      hm_items = replicate sz \<lparr>it_first = 0, it_key = fst blank, it_val = snd blank\<rparr>, num_elm = 0\<rparr>"
    using assms(1) by (auto simp: hm_Init_def split: if_splits)
  have "hm_live h = {}" by (auto simp: hm_live_def h)
  then show "hm_wf keq hash h" using assms(2) hm_Init_pos [OF assms(1)] by (simp add: hm_wf_def) (simp add: h)
  have "find (\<lambda>i. it_first (hm_items h ! i) > 0 \<and> keq k (it_key (hm_items h ! i))) [0..<sz] = None" for k
    by (auto simp: find_None_iff h)
  then show "hm_map keq h = Map.empty" by (simp add: hm_map_def fun_eq_iff h)
  show "size_array h = sz" "\<forall>i < sz. it_first (hm_items h ! i) = 0" by (simp_all add: h)
qed

text \<open>The capacity the connection manager asks for.\<close>

lemma kPrimes_coprime_100000: "\<forall>p \<in> set kPrimes. coprime p 100000"
  by (simp add: kPrimes_def coprime_iff_gcd_eq_1 gcd_nat.simps)

lemma hm_Init_100000: "\<exists>h. hm_Init 100000 blank = Some h"
  by (simp add: hm_Init_def kPrimes_def)

end
