(* ===== verification/Pool_Objs.thy ===== *)
theory Pool_Objs
  imports Mag_Prelude
begin

text \<open>
  The object pool of \<^verbatim>\<open>deps/public-cpp/include/public-cpp/pool_objs/pool_objs.hpp\<close>: a stack
  of free objects laid out in blocks, with a cursor \<^verbatim>\<open>(current_row_, current_col_)\<close> just
  past the top. Objects are addresses, positive numbers given out by a counter for the
  allocator; 0 is the null pointer and the content of array cells nothing was stored in. The
  sessions, talks, protocols and event contexts of the program live in such pools. It is
  shown that the pool is a stack and never hands out an object that is in use.
\<close>

section \<open>State\<close>

record pool_objs =
  init_num_objs :: nat
  num_objs_per_block :: nat
  to_resize :: bool
  new_if_no_resize :: bool
  max_num_blocks :: nat
  pool_rows :: "nat list list"
  current_row :: nat
  current_col :: nat
  num_objs_alloc :: nat
  num_blocks_alloc :: nat
  pool_inited :: bool
  next_obj :: nat
  deleted :: "nat list"

definition PoolObjs_new :: "nat \<Rightarrow> nat \<Rightarrow> nat \<Rightarrow> bool \<Rightarrow> bool \<Rightarrow> nat \<Rightarrow> pool_objs" where
  "PoolObjs_new sizeof_obj init_num mem_per_block resize new_if max_blocks =
     \<lparr>init_num_objs = init_num,
      num_objs_per_block = (mem_per_block + sizeof_obj - 1) div sizeof_obj,
      to_resize = resize, new_if_no_resize = new_if, max_num_blocks = max_blocks,
      pool_rows = [], current_row = 0, current_col = 0, num_objs_alloc = 0, num_blocks_alloc = 0,
      pool_inited = False, next_obj = 1, deleted = []\<rparr>"

section \<open>Operations\<close>

definition pool_AllocABlock :: "pool_objs \<Rightarrow> pool_objs \<times> bool" where
  "pool_AllocABlock p =
     (if max_num_blocks p = num_blocks_alloc p then (p, False)
      else let n = num_objs_per_block p;
               rows = pool_rows p @ [replicate n 0]
           in (p\<lparr>pool_rows := rows[current_row p := [next_obj p ..< next_obj p + n]],
                 next_obj := next_obj p + n, num_objs_alloc := num_objs_alloc p + n,
                 num_blocks_alloc := num_blocks_alloc p + 1, current_row := current_row p + 1\<rparr>, True))"

text \<open>The loop of \<^verbatim>\<open>Init_\<close>. Each round allocates a block or fails, so one round more
  than the number of blocks is fuel enough.\<close>

fun pool_Init_loop :: "nat \<Rightarrow> pool_objs \<Rightarrow> pool_objs \<times> bool" where
  "pool_Init_loop 0 p = (p, False)"
| "pool_Init_loop (Suc n) p =
     (if num_blocks_alloc p * num_objs_per_block p < init_num_objs p
      then case pool_AllocABlock p of (p', ok) \<Rightarrow> if ok then pool_Init_loop n p' else (p', False)
      else (p, True))"

definition pool_Init :: "pool_objs \<Rightarrow> pool_objs \<times> bool" where
  "pool_Init p =
     (if max_num_blocks p = 0 then (p, False)
      else case pool_Init_loop (Suc (max_num_blocks p)) p of
        (p', ok) \<Rightarrow> if ok then (p'\<lparr>pool_inited := True\<rparr>, True) else (p'\<lparr>pool_rows := []\<rparr>, False))"

definition pool_raii :: "pool_objs \<Rightarrow> pool_objs \<times> bool" where
  "pool_raii p = (if pool_inited p then (p, True) else pool_Init p)"

text \<open>\<^verbatim>\<open>Get\<close>: \<^term>\<open>None\<close> is the null pointer; the second argument is what the lock
  policy answers.\<close>

definition pool_Get :: "bool \<Rightarrow> pool_objs \<Rightarrow> pool_objs \<times> nat option" where
  "pool_Get lk p0 =
     (case pool_raii p0 of (p, ini) \<Rightarrow>
      if \<not> ini \<or> \<not> lk then (p, None)
      else if current_col p \<noteq> 0
      then (p\<lparr>current_col := current_col p - 1\<rparr>, Some (pool_rows p ! current_row p ! (current_col p - 1)))
      else if current_row p \<noteq> 0
      then let col = num_objs_per_block p - 1; row = current_row p - 1
           in (p\<lparr>current_col := col, current_row := row\<rparr>, Some (pool_rows p ! row ! col))
      else case (if to_resize p then pool_AllocABlock p else (p, False)) of (p', ok) \<Rightarrow>
        if ok
        then let col = num_objs_per_block p' - 1
             in (p'\<lparr>current_row := 0, current_col := col\<rparr>, Some (pool_rows p' ! 0 ! col))
        else if new_if_no_resize p'
        then (p'\<lparr>next_obj := next_obj p' + 1\<rparr>, Some (next_obj p'))
        else (p', None))"

definition pool_NumObjsLeft :: "pool_objs \<Rightarrow> nat" where
  "pool_NumObjsLeft p = current_row p * num_blocks_alloc p + current_col p"

definition pool_NumObjsAlloc :: "pool_objs \<Rightarrow> int" where
  "pool_NumObjsAlloc p = int (num_objs_alloc p) - int (pool_NumObjsLeft p)"

text \<open>Storing the object at the cursor.\<close>

definition pool_store :: "nat \<Rightarrow> pool_objs \<Rightarrow> pool_objs" where
  "pool_store obj p =
     (let p' = p\<lparr>pool_rows := (pool_rows p)[current_row p :=
                    (pool_rows p ! current_row p)[current_col p := obj]]\<rparr>
      in if num_objs_per_block p - 1 \<noteq> current_col p
         then p'\<lparr>current_col := current_col p + 1\<rparr>
         else p'\<lparr>current_row := current_row p + 1, current_col := 0\<rparr>)"

definition pool_Free :: "bool \<Rightarrow> nat \<Rightarrow> pool_objs \<Rightarrow> pool_objs" where
  "pool_Free lk obj p0 =
     (case pool_raii p0 of (p, ini) \<Rightarrow>
      if \<not> ini \<or> obj = 0 \<or> \<not> lk then p
      else if \<not> to_resize p \<and> pool_NumObjsLeft p = init_num_objs p
      then p\<lparr>deleted := deleted p @ [obj]\<rparr>
      else if num_blocks_alloc p = current_row p
      then if max_num_blocks p = num_blocks_alloc p then p
           else pool_store obj (p\<lparr>pool_rows := pool_rows p @ [replicate (num_objs_per_block p) 0],
                                  num_blocks_alloc := num_blocks_alloc p + 1\<rparr>)
      else pool_store obj p)"

text \<open>\<^verbatim>\<open>~PoolObjsBase\<close>: the objects it deletes, in order. The array is the null pointer before \<^verbatim>\<open>Init_\<close>.\<close>

definition pool_Destroy :: "bool \<Rightarrow> pool_objs \<Rightarrow> nat list" where
  "pool_Destroy lk p =
     (if \<not> lk \<or> pool_rows p = [] then []
      else concat (map (\<lambda>i. map (\<lambda>j. pool_rows p ! i ! j) [0..<num_objs_per_block p]) [0..<current_row p])
        @ (if current_row p \<noteq> num_blocks_alloc p
           then map (\<lambda>i. pool_rows p ! current_row p ! i) [0..<current_col p] else []))"

section \<open>Invariant and abstraction\<close>

text \<open>The free objects, from the bottom of the stack to its top.\<close>

definition pool_stack :: "pool_objs \<Rightarrow> nat list" where
  "pool_stack p = concat (take (current_row p) (pool_rows p))
     @ (if current_row p < length (pool_rows p) then take (current_col p) (pool_rows p ! current_row p) else [])"

definition pool_shape :: "pool_objs \<Rightarrow> bool" where
  "pool_shape p \<longleftrightarrow> 0 < num_objs_per_block p \<and> length (pool_rows p) = num_blocks_alloc p
     \<and> (\<forall>r \<in> set (pool_rows p). length r = num_objs_per_block p)
     \<and> num_blocks_alloc p \<le> max_num_blocks p \<and> current_row p \<le> num_blocks_alloc p
     \<and> current_col p < num_objs_per_block p
     \<and> (current_row p = num_blocks_alloc p \<longrightarrow> current_col p = 0) \<and> 1 \<le> next_obj p
     \<and> 0 < max_num_blocks p \<and> init_num_objs p \<le> max_num_blocks p * num_objs_per_block p"

text \<open>The cursor is inside the array, and the blocks can hold the objects asked for at the
  start. The objects on the stack, and those in use, were all allocated and none is in two
  places.\<close>

definition pool_wf :: "nat set \<Rightarrow> pool_objs \<Rightarrow> bool" where
  "pool_wf out p \<longleftrightarrow> pool_shape p \<and> distinct (pool_stack p) \<and> set (pool_stack p) \<inter> out = {}
     \<and> set (pool_stack p) \<union> out \<subseteq> {1..<next_obj p} \<and> (\<not> pool_inited p \<longrightarrow> current_row p = num_blocks_alloc p)"

lemma pool_stack_row:
  "current_row p < length (pool_rows p) \<Longrightarrow>
    pool_stack p = concat (take (current_row p) (pool_rows p)) @ take (current_col p) (pool_rows p ! current_row p)"
  by (simp add: pool_stack_def)

lemma pool_stack_full:
  "current_row p = length (pool_rows p) \<Longrightarrow> pool_stack p = concat (pool_rows p)"
  by (simp add: pool_stack_def)

lemma pool_upd_frame [simp]:
  "pool_stack (p\<lparr>pool_inited := b\<rparr>) = pool_stack p" "pool_shape (p\<lparr>pool_inited := b\<rparr>) = pool_shape p"
  "pool_stack (p\<lparr>deleted := x\<rparr>) = pool_stack p" "pool_shape (p\<lparr>deleted := x\<rparr>) = pool_shape p"
  "pool_stack (p\<lparr>next_obj := k\<rparr>) = pool_stack p"
  by (simp_all add: pool_stack_def pool_shape_def)

lemma shape_row:
  assumes "pool_shape p" "i < num_blocks_alloc p"
  shows "i < length (pool_rows p)" "length (pool_rows p ! i) = num_objs_per_block p"
  using assms by (auto simp: pool_shape_def)

lemma upt_snoc: "0 < n \<Longrightarrow> [k..<k + n] = [k..<k + (n - 1)] @ [k + (n - 1)]"
  by (cases n) simp_all

text \<open>A block allocated on top of a full pool, as in \<^verbatim>\<open>Init_\<close>.\<close>

lemma alloc_top:
  assumes "pool_shape p" "current_row p = num_blocks_alloc p" "num_blocks_alloc p < max_num_blocks p"
  shows "\<exists>p'. pool_AllocABlock p = (p', True) \<and> pool_shape p'
    \<and> pool_stack p' = pool_stack p @ [next_obj p ..< next_obj p + num_objs_per_block p]
    \<and> next_obj p' = next_obj p + num_objs_per_block p \<and> current_row p' = num_blocks_alloc p'
    \<and> num_blocks_alloc p' = num_blocks_alloc p + 1 \<and> max_num_blocks p' = max_num_blocks p
    \<and> pool_inited p' = pool_inited p \<and> num_objs_per_block p' = num_objs_per_block p
    \<and> init_num_objs p' = init_num_objs p"
  using assms
  by (auto simp: pool_AllocABlock_def Let_def pool_shape_def pool_stack_full list_update_append)

lemma wf_alloc_top:
  assumes "pool_wf out p" "\<not> pool_inited p" "num_blocks_alloc p < max_num_blocks p"
  shows "\<exists>p'. pool_AllocABlock p = (p', True) \<and> pool_wf out p' \<and> \<not> pool_inited p'
    \<and> num_blocks_alloc p' = num_blocks_alloc p + 1 \<and> max_num_blocks p' = max_num_blocks p"
proof -
  obtain p' where p': "pool_AllocABlock p = (p', True)" "pool_shape p'"
    "pool_stack p' = pool_stack p @ [next_obj p ..< next_obj p + num_objs_per_block p]"
    "next_obj p' = next_obj p + num_objs_per_block p" "current_row p' = num_blocks_alloc p'"
    "num_blocks_alloc p' = num_blocks_alloc p + 1" "max_num_blocks p' = max_num_blocks p"
    "\<not> pool_inited p'"
    using alloc_top [of p] assms by (auto simp: pool_wf_def)
  have "1 \<le> next_obj p" using assms(1) by (simp add: pool_wf_def pool_shape_def)
  then have "pool_wf out p'" using p' assms(1) by (auto simp: pool_wf_def)
  then show ?thesis using p' by blast
qed

lemma Init_loop_ok:
  assumes "pool_wf out p" "\<not> pool_inited p" "max_num_blocks p - num_blocks_alloc p < n"
  shows "\<exists>p'. pool_Init_loop n p = (p', True) \<and> pool_wf out p'"
  using assms
proof (induction n arbitrary: p)
  case (Suc n)
  show ?case
  proof (cases "num_blocks_alloc p * num_objs_per_block p < init_num_objs p")
    case True
    have "init_num_objs p \<le> max_num_blocks p * num_objs_per_block p"
      using Suc.prems(1) by (simp add: pool_wf_def pool_shape_def)
    with True have lt: "num_blocks_alloc p < max_num_blocks p"
      by (metis le_trans not_le mult_le_mono1)
    from wf_alloc_top [OF Suc.prems(1,2) lt] obtain p' where
      p': "pool_AllocABlock p = (p', True)" "pool_wf out p'" "\<not> pool_inited p'"
        "num_blocks_alloc p' = num_blocks_alloc p + 1" "max_num_blocks p' = max_num_blocks p" by blast
    then show ?thesis using Suc.IH [of p'] Suc.prems(3) True lt by simp
  next
    case False
    then show ?thesis using Suc.prems by simp
  qed
qed simp

lemma pool_Init_loop_empty: "init_num_objs p = 0 \<Longrightarrow> 0 < n \<Longrightarrow> pool_Init_loop n p = (p, True)"
  by (cases n) simp_all

lemma raii_ok:
  assumes "pool_wf out p"
  shows "\<exists>p'. pool_raii p = (p', True) \<and> pool_wf out p' \<and> pool_inited p' \<and> (pool_inited p \<longrightarrow> p' = p)"
proof (cases "pool_inited p")
  case False
  have "max_num_blocks p - num_blocks_alloc p < Suc (max_num_blocks p)" by simp
  from Init_loop_ok [OF assms False this] obtain p' where
    p': "pool_Init_loop (Suc (max_num_blocks p)) p = (p', True)" "pool_wf out p'" by blast
  have "pool_wf out (p'\<lparr>pool_inited := True\<rparr>)" using p'(2) by (simp add: pool_wf_def)
  moreover have "max_num_blocks p \<noteq> 0" using assms by (simp add: pool_wf_def pool_shape_def)
  ultimately show ?thesis using False p'
    by (simp add: pool_raii_def pool_Init_def del: pool_Init_loop.simps)
qed (use assms in \<open>simp add: pool_raii_def\<close>)

lemma store_ok:
  assumes sh: "pool_shape p" and row: "current_row p < num_blocks_alloc p"
  shows "pool_shape (pool_store obj p)" "pool_stack (pool_store obj p) = pool_stack p @ [obj]"
    "next_obj (pool_store obj p) = next_obj p" "pool_inited (pool_store obj p) = pool_inited p"
proof -
  let ?r = "current_row p" and ?c = "current_col p" and ?n = "num_objs_per_block p"
  let ?row = "(pool_rows p ! ?r)[?c := obj]"
  note r = shape_row [OF sh row]
  have c: "?c < ?n" using sh by (simp add: pool_shape_def)
  have tk: "take (Suc ?c) ?row = take ?c (pool_rows p ! ?r) @ [obj]"
    using r c by (simp add: take_Suc_conv_app_nth)
  show "pool_stack (pool_store obj p) = pool_stack p @ [obj]"
  proof (cases "?n - 1 = ?c")
    case False
    then show ?thesis using r tk by (simp add: pool_store_def Let_def pool_stack_row)
  next
    case True
    then have "?row = take ?c (pool_rows p ! ?r) @ [obj]" using tk r c by simp
    moreover have "take (Suc ?r) ((pool_rows p)[?r := ?row]) = take ?r (pool_rows p) @ [?row]"
      using r by (simp add: take_Suc_conv_app_nth)
    ultimately show ?thesis
      using True r c by (simp add: pool_store_def Let_def pool_stack_row) (simp add: pool_stack_def)
  qed
  have "length x = ?n" if "x \<in> set ((pool_rows p)[?r := ?row])" for x
    using that sh r set_update_subset_insert [of "pool_rows p" ?r ?row] by (auto simp: pool_shape_def)
  then show "pool_shape (pool_store obj p)"
    using sh row c by (auto simp: pool_store_def Let_def pool_shape_def)
qed (simp_all add: pool_store_def Let_def)

text \<open>\<^verbatim>\<open>Get\<close> pops the stack; on an empty stack it allocates a block, of which it hands
  out the last object, or a single object, or gives up.\<close>

lemma get_pop:
  assumes wf: "pool_wf out p" and ini: "pool_inited p" and ne: "pool_stack p \<noteq> []"
  shows "\<exists>p'. pool_Get True p = (p', Some (last (pool_stack p))) \<and> pool_shape p' \<and> pool_inited p'
    \<and> pool_stack p' = butlast (pool_stack p) \<and> next_obj p' = next_obj p"
proof -
  let ?r = "current_row p" and ?c = "current_col p" and ?n = "num_objs_per_block p"
  have sh: "pool_shape p" using wf by (simp add: pool_wf_def)
  then have n: "0 < ?n" "?c < ?n" "?r \<le> num_blocks_alloc p" "?r = num_blocks_alloc p \<longrightarrow> ?c = 0"
    "length (pool_rows p) = num_blocks_alloc p"
    by (auto simp: pool_shape_def)
  show ?thesis
  proof (cases "?c = 0")
    case False
    then have "?r < num_blocks_alloc p" using n by auto
    note r = shape_row [OF sh this]
    have "take ?c (pool_rows p ! ?r) = take (?c - 1) (pool_rows p ! ?r) @ [pool_rows p ! ?r ! (?c - 1)]"
      using r n False take_Suc_conv_app_nth [of "?c - 1" "pool_rows p ! ?r"] by simp
    then have st: "pool_stack p = pool_stack (p\<lparr>current_col := ?c - 1\<rparr>) @ [pool_rows p ! ?r ! (?c - 1)]"
      using r by (simp add: pool_stack_row)
    show ?thesis using sh ini False n st
      by (auto simp: pool_Get_def pool_raii_def pool_shape_def)
  next
    case True
    have r0: "?r \<noteq> 0"
    proof
      assume "?r = 0"
      then show False using ne True by (simp add: pool_stack_def split: if_splits)
    qed
    then have "?r - 1 < num_blocks_alloc p" using n by auto
    note r = shape_row [OF sh this]
    let ?row = "pool_rows p ! (?r - 1)" and ?p = "p\<lparr>current_col := ?n - 1, current_row := ?r - 1\<rparr>"
    have "?row = take (?n - 1) ?row @ [?row ! (?n - 1)]"
      using r n take_Suc_conv_app_nth [of "?n - 1" ?row] by simp
    moreover have "take ?r (pool_rows p) = take (?r - 1) (pool_rows p) @ [?row]"
      using r r0 take_Suc_conv_app_nth [of "?r - 1" "pool_rows p"] by simp
    ultimately have st: "pool_stack p = pool_stack ?p @ [?row ! (?n - 1)]"
      using True r by (simp add: pool_stack_row [of ?p]) (simp add: pool_stack_def)
    show ?thesis using sh ini True r0 n st
      by (auto simp: pool_Get_def pool_raii_def pool_shape_def Let_def)
  qed
qed

lemma get_empty:
  assumes wf: "pool_wf out p" and ini: "pool_inited p" and e: "pool_stack p = []"
  shows "\<exists>p' r. pool_Get True p = (p', r) \<and> pool_shape p' \<and> pool_inited p' \<and>
    (case r of None \<Rightarrow> pool_stack p' = [] \<and> next_obj p' = next_obj p
     | Some obj \<Rightarrow> pool_stack p' = [next_obj p ..< obj] \<and> next_obj p \<le> obj \<and> next_obj p' = obj + 1)"
proof -
  let ?n = "num_objs_per_block p"
  have sh: "pool_shape p" and n: "0 < ?n" using wf by (auto simp: pool_wf_def pool_shape_def)
  have c: "current_col p = 0"
  proof (rule ccontr)
    assume "current_col p \<noteq> 0"
    moreover from this have "current_row p < num_blocks_alloc p" using sh by (auto simp: pool_shape_def)
    note row = shape_row [OF sh this]
    have "pool_rows p ! current_row p \<noteq> []" using row(2) n by auto
    ultimately show False using row(1) e by (simp add: pool_stack_row)
  qed
  have r: "current_row p = 0"
  proof (rule ccontr)
    assume "current_row p \<noteq> 0"
    then have "pool_rows p ! 0 \<in> set (take (current_row p) (pool_rows p))" "0 < num_blocks_alloc p"
      using sh by (auto simp: pool_shape_def in_set_conv_nth intro!: exI [of _ 0])
    then show False using e shape_row(2) [OF sh, of 0] n by (auto simp: pool_stack_def)
  qed
  have sn: "[next_obj p ..< next_obj p + ?n] ! (?n - 1) = next_obj p + (?n - 1)" using n by simp
  show ?thesis
  proof (cases "to_resize p \<and> max_num_blocks p \<noteq> num_blocks_alloc p")
    case True
    have "(pool_rows p @ [replicate ?n 0])[0 := [next_obj p ..< next_obj p + ?n]] ! 0
      = [next_obj p ..< next_obj p + ?n]" by (cases "pool_rows p") simp_all
    moreover have "length x = ?n"
      if "x \<in> set ((pool_rows p @ [replicate ?n 0])[0 := [next_obj p ..< next_obj p + ?n]])" for x
      using that sh by (cases "pool_rows p") (auto simp: pool_shape_def)
    ultimately show ?thesis using True sh ini c r n sn
      by (auto simp: pool_Get_def pool_raii_def pool_AllocABlock_def Let_def pool_shape_def pool_stack_def
        take_upt)
  next
    case False
    then have "(if to_resize p then pool_AllocABlock p else (p, False)) = (p, False)"
      by (auto simp: pool_AllocABlock_def)
    then show ?thesis using sh ini c r e
      by (auto simp: pool_Get_def pool_raii_def pool_shape_def pool_stack_def)
  qed
qed

lemma get_ok:
  assumes wf: "pool_wf out p" and g: "pool_Get True p = (p', r)"
  shows "case r of None \<Rightarrow> pool_wf out p' | Some obj \<Rightarrow> obj \<notin> out \<and> obj \<noteq> 0 \<and> pool_wf (insert obj out) p'"
proof -
  obtain q where q: "pool_raii p = (q, True)" "pool_wf out q" "pool_inited q" using raii_ok [OF wf] by blast
  have g: "pool_Get True q = (p', r)" using g q by (simp add: pool_Get_def) (simp add: pool_raii_def)
  have st: "distinct (pool_stack q)" "set (pool_stack q) \<inter> out = {}"
    "set (pool_stack q) \<subseteq> {1..<next_obj q}" "out \<subseteq> {1..<next_obj q}" "1 \<le> next_obj q"
    using q(2) by (auto simp: pool_wf_def pool_shape_def)
  show ?thesis
  proof (cases "pool_stack q = []")
    case False
    from get_pop [OF q(2,3) False] g have r: "r = Some (last (pool_stack q))" "pool_shape p'" "pool_inited p'"
      "pool_stack p' = butlast (pool_stack q)" "next_obj p' = next_obj q" by auto
    have s: "pool_stack q = pool_stack p' @ [last (pool_stack q)]" using False r by simp
    then have "distinct (pool_stack p')" "last (pool_stack q) \<notin> set (pool_stack p')"
      "set (pool_stack q) = insert (last (pool_stack q)) (set (pool_stack p'))"
      using st(1) by (metis distinct_append, metis distinct_append disjoint_iff list.set_intros(1),
        metis Un_insert_right list.set(1,2) set_append sup_bot_right)
    then show ?thesis using r(1-3,5) st by (auto simp: pool_wf_def)
  next
    case True
    from get_empty [OF q(2,3) True] g have "pool_shape p'" "pool_inited p'"
      "case r of None \<Rightarrow> pool_stack p' = [] \<and> next_obj p' = next_obj q
       | Some obj \<Rightarrow> pool_stack p' = [next_obj q ..< obj] \<and> next_obj q \<le> obj \<and> next_obj p' = obj + 1" by auto
    then show ?thesis using st by (cases r) (auto simp: pool_wf_def)
  qed
qed

lemma free_ok:
  assumes wf: "pool_wf out p" and obj: "obj \<in> out"
  shows "pool_wf (out - {obj}) (pool_Free True obj p)"
proof -
  obtain q where q: "pool_raii p = (q, True)" "pool_wf out q" "pool_inited q" using raii_ok [OF wf] by blast
  have sh: "pool_shape q" and o0: "obj \<noteq> 0" using q(2) obj by (auto simp: pool_wf_def)
  have drop: "pool_wf (out - {obj}) q" using q(2) by (auto simp: pool_wf_def)
  have push: "pool_wf (out - {obj}) x" if "pool_shape x" "pool_stack x = pool_stack q @ [obj]"
    "next_obj x = next_obj q" "pool_inited x" for x
    using that q(2) obj by (auto simp: pool_wf_def)
  let ?g = "q\<lparr>pool_rows := pool_rows q @ [replicate (num_objs_per_block q) 0],
    num_blocks_alloc := num_blocks_alloc q + 1\<rparr>"
  have g: "pool_shape ?g \<and> pool_stack ?g = pool_stack q \<and> current_row ?g < num_blocks_alloc ?g"
    if "num_blocks_alloc q = current_row q" "max_num_blocks q \<noteq> num_blocks_alloc q"
    using that sh by (auto simp: pool_shape_def pool_stack_def)
  have "pool_wf (out - {obj}) (q\<lparr>deleted := deleted q @ [obj]\<rparr>)" using drop by (simp add: pool_wf_def)
  moreover have "pool_wf (out - {obj}) (pool_store obj ?g)"
    if "num_blocks_alloc q = current_row q" "max_num_blocks q \<noteq> num_blocks_alloc q"
    using g [OF that] store_ok [of ?g obj] q(3) by (intro push) auto
  moreover have "pool_wf (out - {obj}) (pool_store obj q)" if "num_blocks_alloc q \<noteq> current_row q"
  proof -
    have "current_row q < num_blocks_alloc q" using that sh by (auto simp: pool_shape_def)
    from store_ok [OF sh this, of obj] show ?thesis using q(3) by (intro push) auto
  qed
  ultimately show ?thesis using q(1) o0 drop by (simp add: pool_Free_def)
qed

section \<open>The interface of a pool\<close>

text \<open>What the users of a pool rely on: an object handed out is fresh with respect to
  those in use, and an object in use can be given back.\<close>

locale obj_pool =
  fixes wf :: "'a set \<Rightarrow> 'p \<Rightarrow> bool" and get :: "'p \<Rightarrow> 'p \<times> 'a option" and free :: "'a \<Rightarrow> 'p \<Rightarrow> 'p"
  assumes get_none: "wf out p \<Longrightarrow> get p = (p', None) \<Longrightarrow> wf out p'"
    and get_some: "wf out p \<Longrightarrow> get p = (p', Some a) \<Longrightarrow> a \<notin> out \<and> wf (insert a out) p'"
    and free: "wf out p \<Longrightarrow> a \<in> out \<Longrightarrow> wf (out - {a}) (free a p)"

interpretation po: obj_pool pool_wf "pool_Get True" "pool_Free True"
proof
  fix out p p' and a :: nat
  assume wf: "pool_wf out p"
  show "pool_Get True p = (p', None) \<Longrightarrow> pool_wf out p'" using get_ok [OF wf] by fastforce
  show "pool_Get True p = (p', Some a) \<Longrightarrow> a \<notin> out \<and> pool_wf (insert a out) p'"
    using get_ok [OF wf] by fastforce
  show "a \<in> out \<Longrightarrow> pool_wf (out - {a}) (pool_Free True a p)" by (rule free_ok [OF wf])
qed

section \<open>Runs\<close>

text \<open>The states a pool goes through, with the set of objects in use, when its users give
  back only what they hold.\<close>

inductive pool_reach :: "pool_objs \<Rightarrow> pool_objs \<Rightarrow> nat set \<Rightarrow> bool" for p0 where
  start: "pool_reach p0 p0 {}"
| get: "pool_reach p0 p out \<Longrightarrow> pool_Get True p = (p', Some obj) \<Longrightarrow> pool_reach p0 p' (insert obj out)"
| get_null: "pool_reach p0 p out \<Longrightarrow> pool_Get True p = (p', None) \<Longrightarrow> pool_reach p0 p' out"
| free: "pool_reach p0 p out \<Longrightarrow> obj \<in> out \<Longrightarrow> pool_reach p0 (pool_Free True obj p) (out - {obj})"

lemma pool_reach_wf: "pool_reach p0 p out \<Longrightarrow> pool_wf {} p0 \<Longrightarrow> pool_wf out p"
  by (induction rule: pool_reach.induct) (auto dest: po.get_none po.get_some po.free)

lemma pool_new_wf:
  assumes "0 < sizeof_obj" "0 < mem_per_block" "0 < max_blocks"
    "init_num \<le> max_blocks * ((mem_per_block + sizeof_obj - 1) div sizeof_obj)"
  shows "pool_wf {} (PoolObjs_new sizeof_obj init_num mem_per_block resize new_if max_blocks)"
proof -
  have "0 < (mem_per_block + sizeof_obj - 1) div sizeof_obj"
    using assms(1,2) by (simp add: div_greater_zero_iff)
  then show ?thesis using assms
    by (simp add: pool_wf_def pool_shape_def pool_stack_def PoolObjs_new_def)
qed

section \<open>The end of a pool\<close>

lemma Destroy_stack:
  assumes "pool_shape p"
  shows "pool_Destroy True p = pool_stack p"
proof -
  have len: "length (pool_rows p) = num_blocks_alloc p" "current_row p \<le> num_blocks_alloc p" "current_col p < num_objs_per_block p"
    "current_row p = num_blocks_alloc p \<longrightarrow> current_col p = 0"
    using assms by (auto simp: pool_shape_def)
  have row: "map (\<lambda>j. pool_rows p ! i ! j) [0..<num_objs_per_block p] = pool_rows p ! i" if "i < num_blocks_alloc p" for i
    using shape_row(2) [OF assms that] map_nth by metis
  have "concat (map (\<lambda>i. map (\<lambda>j. pool_rows p ! i ! j) [0..<num_objs_per_block p]) [0..<current_row p]) = concat (map (\<lambda>i. pool_rows p ! i) [0..<current_row p])"
    using row len(2) by (intro arg_cong [where f = concat] map_cong) auto
  also have "map (\<lambda>i. pool_rows p ! i) [0..<current_row p] = take (current_row p) (pool_rows p)"
    using len by (intro nth_equalityI) auto
  finally have a: "concat (map (\<lambda>i. map (\<lambda>j. pool_rows p ! i ! j) [0..<num_objs_per_block p]) [0..<current_row p]) = concat (take (current_row p) (pool_rows p))" .
  have b: "map (\<lambda>i. pool_rows p ! current_row p ! i) [0..<current_col p] = take (current_col p) (pool_rows p ! current_row p)" if "current_row p < num_blocks_alloc p"
    using shape_row(2) [OF assms that] len by (intro nth_equalityI) auto
  show ?thesis using a b len by (auto simp: pool_Destroy_def pool_stack_def)
qed

text \<open>The destructor deletes each free object once and none that is in use.\<close>

theorem pool_Destroy_exact:
  assumes "pool_wf out p"
  shows "distinct (pool_Destroy True p) \<and> set (pool_Destroy True p) \<inter> out = {} \<and> pool_Destroy True p = pool_stack p"
  using assms Destroy_stack by (simp add: pool_wf_def)

section \<open>Properties\<close>

text \<open>C21. Through every sequence of calls that gives back only objects in use, starting from
  a pool whose blocks can hold the initial objects, \<^verbatim>\<open>Get\<close> never hands out the null
  pointer as an object, nor an object that is already in use.\<close>

theorem pool_Get_fresh:
  assumes "pool_reach (PoolObjs_new sizeof_obj init_num mem_per_block resize new_if max_blocks) p out"
    "0 < sizeof_obj" "0 < mem_per_block" "0 < max_blocks"
    "init_num \<le> max_blocks * ((mem_per_block + sizeof_obj - 1) div sizeof_obj)"
    "pool_Get True p = (p', Some obj)"
  shows "obj \<notin> out \<and> obj \<noteq> 0"
  using get_ok [OF pool_reach_wf [OF assms(1) pool_new_wf [OF assms(2-5)]] assms(6)] by simp

theorem pool_Get_fresh_witness:
  "snd (pool_Get True (fst (pool_Get True (PoolObjs_new 8 0 16 True True 4)))) = Some 1
   \<and> snd (pool_Get True (PoolObjs_new 8 0 16 True True 4)) = Some 2 \<and> (1::nat) \<notin> {2}"
proof -
  let ?p = "PoolObjs_new 8 0 16 True True 4"
  have g: "snd (pool_Get True ?p) = Some 2" "snd (pool_Get True (fst (pool_Get True ?p))) = Some 1"
    by code_simp+
  have "pool_reach ?p (fst (pool_Get True ?p)) (insert 2 {})"
    using pool_reach.get [OF pool_reach.start, of ?p "fst (pool_Get True ?p)" 2] g(1)
    by (metis prod.collapse)
  from pool_Get_fresh [OF this _ _ _ _ prod_eqI, of "fst (pool_Get True (fst (pool_Get True ?p)))" 1] g
  show ?thesis by simp
qed

text \<open>The pool is a stack: on an initialised pool with free objects \<^verbatim>\<open>Get\<close> returns the
  one freed last and removes just that one, and \<^verbatim>\<open>Free\<close> of an object in use either pushes
  it or, when the pool is not to grow further, leaves the stack alone.\<close>

theorem pool_lifo:
  assumes "pool_wf out p" "pool_inited p"
  shows "(pool_stack p \<noteq> [] \<longrightarrow> (\<exists>p'. pool_Get True p = (p', Some (last (pool_stack p)))
      \<and> pool_stack p' = butlast (pool_stack p)))
    \<and> (\<forall>obj \<in> out. pool_stack (pool_Free True obj p) \<in> {pool_stack p @ [obj], pool_stack p}
      \<and> (to_resize p \<and> num_blocks_alloc p < max_num_blocks p \<longrightarrow>
           pool_stack (pool_Free True obj p) = pool_stack p @ [obj]))"
proof -
  have sh: "pool_shape p" using assms(1) by (simp add: pool_wf_def)
  let ?g = "p\<lparr>pool_rows := pool_rows p @ [replicate (num_objs_per_block p) 0],
    num_blocks_alloc := num_blocks_alloc p + 1\<rparr>"
  have g: "pool_shape ?g \<and> pool_stack ?g = pool_stack p \<and> current_row ?g < num_blocks_alloc ?g"
    if "num_blocks_alloc p = current_row p" "max_num_blocks p \<noteq> num_blocks_alloc p"
    using that sh by (auto simp: pool_shape_def pool_stack_def)
  have "pool_stack (pool_store obj ?g) = pool_stack p @ [obj]"
    if "num_blocks_alloc p = current_row p" "max_num_blocks p \<noteq> num_blocks_alloc p" for obj
    using g [OF that] store_ok(2) [of ?g obj] by auto
  moreover have "pool_stack (pool_store obj p) = pool_stack p @ [obj]" if "num_blocks_alloc p \<noteq> current_row p" for obj
    using that sh by (intro store_ok(2)) (auto simp: pool_shape_def)
  ultimately show ?thesis
    using get_pop [OF assms] assms by (auto simp: pool_Free_def pool_raii_def pool_wf_def)
qed

theorem pool_lifo_witness:
  "pool_stack (fst (pool_Get True (PoolObjs_new 8 4 16 True True 4))) = [1, 2, 3]
   \<and> snd (pool_Get True (fst (pool_Get True (PoolObjs_new 8 4 16 True True 4)))) = Some 3"
proof -
  let ?p = "fst (pool_Get True (PoolObjs_new 8 4 16 True True 4))"
  have "pool_wf {} (PoolObjs_new 8 4 16 True True 4)" by (rule pool_new_wf) simp_all
  moreover have "snd (pool_Get True (PoolObjs_new 8 4 16 True True 4)) = Some 4" by code_simp
  ultimately have "pool_wf {4} ?p"
    using po.get_some [of "{}" "PoolObjs_new 8 4 16 True True 4" ?p 4] by (metis prod.collapse)
  moreover have "pool_inited ?p" "pool_stack ?p = [1, 2, 3]" by code_simp+
  ultimately show ?thesis using pool_lifo [of "{4}" ?p] by auto
qed

text \<open>\<^verbatim>\<open>NumObjsLeft\<close> multiplies the row by the number of blocks instead of the objects
  per block: it counts the stack only when the two agree or no row is full. With two blocks
  of ten objects, a full first row counts as two.\<close>

theorem pool_NumObjsLeft_value:
  "pool_NumObjsLeft p = current_row p * num_blocks_alloc p + current_col p
   \<and> (pool_shape p \<longrightarrow> (pool_NumObjsLeft p = length (pool_stack p) \<longleftrightarrow>
        current_row p = 0 \<or> num_blocks_alloc p = num_objs_per_block p))"
proof -
  have "length (pool_stack p) = current_row p * num_objs_per_block p + current_col p" if sh: "pool_shape p"
  proof -
    have rows: "\<forall>r \<in> set (take (current_row p) (pool_rows p)). length r = num_objs_per_block p"
      using sh by (meson in_set_takeD pool_shape_def)
    have len: "length (concat xs) = length xs * n" if "\<forall>r \<in> set xs. length r = n" for xs :: "nat list list" and n
      using that by (induction xs) auto
    show ?thesis
      using len [OF rows] sh shape_row [OF sh, of "current_row p"]
      by (auto simp: pool_stack_def pool_shape_def min_def)
  qed
  then show ?thesis by (auto simp: pool_NumObjsLeft_def)
qed

theorem pool_NumObjsLeft_value_witness:
  "pool_shape (fst (pool_raii (PoolObjs_new 8 20 80 True True 4)))
   \<and> length (pool_stack (fst (pool_Get True (PoolObjs_new 8 20 80 True True 4)))) = 19
   \<and> pool_NumObjsLeft (fst (pool_Get True (PoolObjs_new 8 20 80 True True 4))) = 11"
proof -
  let ?p = "fst (pool_Get True (PoolObjs_new 8 20 80 True True 4))"
  have "current_row ?p = 1" "current_col ?p = 9" "num_blocks_alloc ?p = 2" by code_simp+
  moreover have "pool_shape (fst (pool_raii (PoolObjs_new 8 20 80 True True 4)))"
    "length (pool_stack ?p) = 19" by code_simp+
  ultimately show ?thesis using pool_NumObjsLeft_value [of ?p] by simp
qed

section \<open>Pools that grow\<close>

text \<open>Numbers may be given to objects elsewhere.\<close>

lemma pool_wf_later: "pool_wf X p \<Longrightarrow> X' \<subseteq> {1..<k} \<Longrightarrow> set (pool_stack p) \<inter> X' = {} \<Longrightarrow> next_obj p \<le> k \<Longrightarrow> pool_wf X' (p\<lparr>next_obj := k\<rparr>)"
  by (auto simp: pool_wf_def pool_shape_def)

lemma pool_alloc_wf:
  assumes "pool_wf out p"
  shows "pool_wf (insert (next_obj p) out) (p\<lparr>next_obj := next_obj p + 1\<rparr>)" "next_obj p \<notin> out"
proof -
  have "out \<union> set (pool_stack p) \<subseteq> {1..<next_obj p}" "1 \<le> next_obj p" "set (pool_stack p) \<inter> out = {}" using assms by (auto simp: pool_wf_def pool_shape_def)
  then show "pool_wf (insert (next_obj p) out) (p\<lparr>next_obj := next_obj p + 1\<rparr>)" "next_obj p \<notin> out"
    by (auto intro!: pool_wf_later [OF assms])
qed

text \<open>The settings of a pool made by the default constructor: it always has an object to give.\<close>

definition pool_settings :: "pool_objs \<Rightarrow> bool" where
  "pool_settings p \<longleftrightarrow> init_num_objs p = 0 \<and> to_resize p \<and> new_if_no_resize p \<and> max_num_blocks p = 2 ^ 18"

lemma settings_upd [simp]: "pool_settings (p\<lparr>next_obj := k\<rparr>) = pool_settings p"
  by (simp add: pool_settings_def)

lemma settings_raii: "pool_settings p \<Longrightarrow> pool_raii p = (p\<lparr>pool_inited := True\<rparr>, True)"
  by (cases "pool_inited p") (simp_all add: pool_raii_def pool_Init_def pool_settings_def pool_Init_loop_empty)

lemma Get_settings:
  assumes "pool_Get True p = (p', r)" "pool_settings p"
  shows "r \<noteq> None" "pool_settings p'"
  using assms settings_raii [OF assms(2)] by (auto simp: pool_Get_def pool_AllocABlock_def pool_settings_def Let_def split: if_splits)

text \<open>What \<^verbatim>\<open>Get\<close> and \<^verbatim>\<open>Free\<close> of such a pool move where.\<close>

lemma settings_get:
  assumes wf: "pool_wf X p" and st: "pool_settings p"
  shows "\<exists>p' obj. pool_Get True p = (p', Some obj) \<and> pool_wf (insert obj X) p' \<and> obj \<notin> X \<and> pool_settings p' \<and> next_obj p \<le> next_obj p'
    \<and> insert obj (set (pool_stack p')) \<subseteq> set (pool_stack p) \<union> {next_obj p..<next_obj p'}"
proof -
  let ?q = "p\<lparr>pool_inited := True\<rparr>"
  obtain p' obj where g: "pool_Get True p = (p', Some obj)" using Get_settings(1) [OF _ st] by (cases "pool_Get True p") force
  have q: "pool_Get True ?q = (p', Some obj)" using g settings_raii [OF st] by (simp add: pool_Get_def pool_raii_def)
  have wfq: "pool_wf X ?q" using wf by (simp add: pool_wf_def)
  have "next_obj p \<le> next_obj p' \<and> insert obj (set (pool_stack p')) \<subseteq> set (pool_stack p) \<union> {next_obj p..<next_obj p'}"
  proof (cases "pool_stack ?q = []")
    case True
    from get_empty [OF wfq _ True] q show ?thesis by auto
  next
    case False
    from get_pop [OF wfq _ False] q False show ?thesis by (auto dest: in_set_butlastD)
  qed
  then show ?thesis using g get_ok [OF wf g] Get_settings(2) [OF g st] by simp
qed

lemma settings_free:
  assumes wf: "pool_wf X p" and st: "pool_settings p" and obj: "obj \<in> X"
  shows "pool_wf (X - {obj}) (pool_Free True obj p) \<and> pool_settings (pool_Free True obj p) \<and> next_obj (pool_Free True obj p) = next_obj p
    \<and> set (pool_stack (pool_Free True obj p)) \<subseteq> insert obj (set (pool_stack p))"
proof -
  let ?q = "p\<lparr>pool_inited := True\<rparr>"
  have "pool_settings (pool_Free True obj p) \<and> next_obj (pool_Free True obj p) = next_obj p"
    using st settings_raii [OF st] by (auto simp: pool_Free_def pool_store_def pool_settings_def Let_def)
  moreover have "pool_Free True obj p = pool_Free True obj ?q"
    using settings_raii [OF st] by (simp add: pool_Free_def pool_raii_def)
  moreover have "pool_wf X ?q" using wf by (simp add: pool_wf_def)
  from pool_lifo [OF this] obj have "pool_stack (pool_Free True obj ?q) \<in> {pool_stack p @ [obj], pool_stack p}" by simp
  ultimately show ?thesis using free_ok [OF wf obj] by auto
qed

end
