(* ===== verification/Thread_Privacy.thy ===== *)
theory Thread_Privacy
  imports Mag_Prelude
begin

text \<open>
  Objects private to a thread: \<^verbatim>\<open>ThreadPrivacy\<close> of
  \<^verbatim>\<open>deps/public-cpp/include/public-cpp/thread_privacy/thread_privacy.h\<close>. Under a key of pthreads each thread has a vector of objects, one for each
  number it has asked for, made from a template at the first request. The protocol pools, the pools of messages and the
  calls of a handler live in such vectors. Objects are numbers given out by a counter for the allocator. It is shown that
  a thread always gets its own object back and never that of another thread or number.
\<close>

section \<open>State\<close>

text \<open>\<^verbatim>\<open>tp_specific\<close> is what \<^verbatim>\<open>pthread_getspecific\<close> answers for each thread; an empty slot is a null pointer. \<open>tp_set\<close> lists the
  threads whose vectors are in \<^verbatim>\<open>privacies_set_\<close>; \<open>tp_obj\<close> is the content of the objects.\<close>

record 'a thread_privacy =
  tp_init :: bool
  tp_specific :: "nat \<Rightarrow> nat option list option"
  tp_set :: "nat list"
  tp_obj :: "nat \<Rightarrow> 'a"
  tp_next :: nat

definition ThreadPrivacy_new :: "'a \<Rightarrow> 'a thread_privacy" where
  "ThreadPrivacy_new junk = \<lparr>tp_init = False, tp_specific = (\<lambda>_. None), tp_set = [], tp_obj = (\<lambda>_. junk), tp_next = 0\<rparr>"

text \<open>What a call depends on: whether the key can be made, whether the vector and the object can be allocated, whether
  \<^verbatim>\<open>pthread_setspecific\<close> succeeds, and the answers of the lock.\<close>

record tp_env =
  te_key :: bool
  te_new_vector :: bool
  te_setspecific :: bool
  te_lock :: "bool list"
  te_new_object :: bool

definition kMaxTimesTryLock :: nat where "kMaxTimesTryLock = 1000000"

section \<open>Operations\<close>

text \<open>\<^verbatim>\<open>Get(no)\<close> without a template.\<close>

definition slot :: "nat option list \<Rightarrow> nat \<Rightarrow> nat option" where
  "slot v no = (if no < length v then v ! no else None)"

definition tp_find :: "nat \<Rightarrow> nat \<Rightarrow> 'a thread_privacy \<Rightarrow> nat option" where
  "tp_find t no s =
     (if \<not> tp_init s then None
      else case tp_specific s t of None \<Rightarrow> None | Some v \<Rightarrow> slot v no)"

text \<open>\<^verbatim>\<open>Get_\<close>: 0 with the object, 1 with the vector it is missing in, or an error. The vector stays under the key when the lock cannot be had.\<close>

definition tp_Get1 :: "tp_env \<Rightarrow> nat \<Rightarrow> nat \<Rightarrow> 'a thread_privacy \<Rightarrow> 'a thread_privacy \<times> int \<times> nat option" where
  "tp_Get1 env t no s =
     (case tp_specific s t of
        Some v \<Rightarrow> (case slot v no of Some obj \<Rightarrow> (s, 0, Some obj) | None \<Rightarrow> (s, 1, None))
      | None \<Rightarrow>
          if \<not> te_new_vector env then (s, -1, None)
          else if \<not> te_setspecific env then (s, -2, None)
          else let s' = s\<lparr>tp_specific := (tp_specific s)(t := Some [])\<rparr>
               in if True \<notin> set (take kMaxTimesTryLock (te_lock env)) then (s', -3, None)
                  else (s'\<lparr>tp_set := tp_set s' @ [t]\<rparr>, 1, None))"

text \<open>\<^verbatim>\<open>Get\<close> with a template, or with the default object in its place: the object, and whether it was made by this call.\<close>

definition put_slot :: "nat \<Rightarrow> nat \<Rightarrow> nat option list \<Rightarrow> nat option list" where
  "put_slot no obj v = (v @ replicate (no + 1 - length v) None)[no := Some obj]"

definition tp_Get :: "tp_env \<Rightarrow> nat \<Rightarrow> nat \<Rightarrow> 'a \<Rightarrow> 'a thread_privacy \<Rightarrow> 'a thread_privacy \<times> (nat \<times> bool) option" where
  "tp_Get env t no tpl s0 =
     (if \<not> tp_init s0 \<and> \<not> te_key env then (s0, None)
      else case tp_Get1 env t no (s0\<lparr>tp_init := True\<rparr>) of
        (s, ret, obj) \<Rightarrow>
          if ret = 0 then (s, Some (the obj, False))
          else if ret < 0 \<or> \<not> te_new_object env then (s, None)
          else let obj = tp_next s; v = the (tp_specific s t)
               in (s\<lparr>tp_specific := (tp_specific s)(t := Some (put_slot no obj v)), tp_obj := (tp_obj s)(obj := tpl),
                     tp_next := obj + 1\<rparr>, Some (obj, True)))"

section \<open>Invariant\<close>

text \<open>Each object is in one slot of one thread and was allocated.\<close>

definition held :: "'a thread_privacy \<Rightarrow> nat \<Rightarrow> nat \<Rightarrow> nat option" where
  "held s t no = (case tp_specific s t of None \<Rightarrow> None | Some v \<Rightarrow> slot v no)"

definition tp_wf :: "'a thread_privacy \<Rightarrow> bool" where
  "tp_wf s \<longleftrightarrow> (\<forall>t no obj. held s t no = Some obj \<longrightarrow> obj < tp_next s \<and> (\<forall>u m. held s u m = Some obj \<longrightarrow> u = t \<and> m = no))
     \<and> (\<not> tp_init s \<longrightarrow> tp_specific s = (\<lambda>_. None)) \<and> distinct (tp_set s) \<and> (\<forall>t \<in> set (tp_set s). tp_specific s t \<noteq> None)"

lemma tp_wf_new: "tp_wf (ThreadPrivacy_new junk)"
  by (simp add: tp_wf_def ThreadPrivacy_new_def held_def)

lemma tp_find_held: "tp_wf s \<Longrightarrow> tp_find t no s = held s t no"
  by (auto simp: tp_find_def held_def tp_wf_def)

lemma slot_put: "slot (put_slot no obj v) m = (if m = no then Some obj else slot v m)"
proof -
  have "length (put_slot no obj v) = max (length v) (no + 1)" by (simp add: put_slot_def)
  then show ?thesis by (auto simp: slot_def put_slot_def nth_list_update nth_append)
qed

lemma held_put:
  "tp_specific s t \<noteq> None \<Longrightarrow>
    held (s\<lparr>tp_specific := (tp_specific s)(t := Some (put_slot no obj (the (tp_specific s t)))), tp_obj := f, tp_next := n\<rparr>) u m
     = (if u = t \<and> m = no then Some obj else held s u m)"
  by (auto simp: held_def slot_put)

lemma tp_Get1_cases:
  assumes "tp_wf s" "tp_init s" "tp_Get1 env t no s = (s', ret, obj)"
  shows "tp_wf s' \<and> held s' = held s \<and> tp_next s' = tp_next s \<and> tp_obj s' = tp_obj s \<and> tp_init s' \<and> (ret = 0 \<or> ret = 1 \<or> ret < 0)
     \<and> (ret = 0 \<longrightarrow> s' = s \<and> held s t no = obj \<and> obj \<noteq> None) \<and> (ret = 1 \<longrightarrow> tp_specific s' t \<noteq> None \<and> held s t no = None)"
proof (cases "tp_specific s t")
  case (Some v)
  then show ?thesis using assms by (cases "slot v no") (auto simp: tp_Get1_def held_def dest: sym)
next
  case None
  let ?s = "s\<lparr>tp_specific := (tp_specific s)(t := Some [])\<rparr>"
  have h: "held ?s = held s" "held (?s\<lparr>tp_set := x\<rparr>) = held s" for x
    using None by (auto simp: held_def slot_def fun_eq_iff)
  have "t \<notin> set (tp_set s)" "held s t no = None" using assms(1) None by (auto simp: tp_wf_def held_def)
  moreover have wf: "tp_wf ?s" using assms(1,2) h(1) by (auto simp: tp_wf_def)
  moreover have "tp_wf (?s\<lparr>tp_set := tp_set s @ [t]\<rparr>)" using wf h calculation(1) by (simp add: tp_wf_def)
  ultimately show ?thesis
    using assms None h by (simp add: tp_Get1_def Let_def split: if_splits) auto
qed

text \<open>What a call that succeeds does to the slots.\<close>

lemma tp_Get_held:
  assumes wf: "tp_wf s" and get: "tp_Get env t no tpl s = (s', Some (obj, fresh))"
  shows "tp_wf s'" "held s' t no = Some obj" "fresh \<longleftrightarrow> held s t no = None" "tp_obj s' obj = (if fresh then tpl else tp_obj s obj)"
    "(u, m) \<noteq> (t, no) \<Longrightarrow> held s' u m = held s u m \<and> held s' u m \<noteq> Some obj" "\<not> fresh \<Longrightarrow> held s t no = Some obj"
proof -
  let ?s = "s\<lparr>tp_init := True\<rparr>"
  have h: "held ?s = held s" by (simp add: held_def fun_eq_iff)
  have wf1: "tp_wf ?s" using wf h by (auto simp: tp_wf_def)
  obtain s1 ret o1 where g1: "tp_Get1 env t no ?s = (s1, ret, o1)" by (metis prod_cases3)
  note c = tp_Get1_cases [OF wf1 _ g1, unfolded h, simplified]
  have "(ret = 0 \<and> s' = s1 \<and> o1 = Some obj \<and> \<not> fresh) \<or> (ret = 1 \<and> obj = tp_next s1 \<and> fresh
      \<and> s' = s1\<lparr>tp_specific := (tp_specific s1)(t := Some (put_slot no obj (the (tp_specific s1 t)))), tp_obj := (tp_obj s1)(obj := tpl), tp_next := obj + 1\<rparr>)"
    using get g1 c by (auto simp: tp_Get_def Let_def split: if_splits)
  then have "tp_wf s' \<and> held s' t no = Some obj \<and> (fresh \<longleftrightarrow> held s t no = None) \<and> tp_obj s' obj = (if fresh then tpl else tp_obj s obj)
      \<and> ((u, m) \<noteq> (t, no) \<longrightarrow> held s' u m = held s u m \<and> held s' u m \<noteq> Some obj) \<and> (\<not> fresh \<longrightarrow> held s t no = Some obj)"
  proof (elim disjE conjE)
    assume r: "ret = 0" "s' = s1" "o1 = Some obj" "\<not> fresh"
    then have "held s t no = Some obj" "held s' = held s" "tp_wf s'" "tp_obj s' = tp_obj s" using c by auto
    then show ?thesis using r wf by (auto simp: tp_wf_def)
  next
    assume r: "ret = 1" "obj = tp_next s1" "fresh"
      "s' = s1\<lparr>tp_specific := (tp_specific s1)(t := Some (put_slot no obj (the (tp_specific s1 t)))), tp_obj := (tp_obj s1)(obj := tpl), tp_next := obj + 1\<rparr>"
    have k: "held s' = (\<lambda>u m. if u = t \<and> m = no then Some obj else held s u m)"
      using c r held_put [where s = s1 and t = t and no = no and obj = obj] by (intro ext) simp
    have new: "held s u m \<noteq> Some obj" "held s u m = Some w \<Longrightarrow> w < obj" for u m w using wf c r(2) by (auto simp: tp_wf_def)
    have "tp_wf s'"
      unfolding tp_wf_def using k new wf c r(4) by (auto simp: tp_wf_def less_Suc_eq split: if_splits)
    then show ?thesis using k new c r by auto
  qed
  then show "tp_wf s'" "held s' t no = Some obj" "fresh \<longleftrightarrow> held s t no = None" "tp_obj s' obj = (if fresh then tpl else tp_obj s obj)"
    "(u, m) \<noteq> (t, no) \<Longrightarrow> held s' u m = held s u m \<and> held s' u m \<noteq> Some obj" "\<not> fresh \<Longrightarrow> held s t no = Some obj" by auto
qed

lemma tp_Get_fails:
  assumes wf: "tp_wf s" and get: "tp_Get env t no tpl s = (s', None)"
  shows "tp_wf s'" "held s' = held s"
proof -
  let ?s = "s\<lparr>tp_init := True\<rparr>"
  have h: "held ?s = held s" by (simp add: held_def fun_eq_iff)
  have wf1: "tp_wf ?s" using wf h by (auto simp: tp_wf_def)
  obtain s1 ret o1 where g1: "tp_Get1 env t no ?s = (s1, ret, o1)" by (metis prod_cases3)
  note c = tp_Get1_cases [OF wf1 _ g1, unfolded h, simplified]
  have "s' = s \<or> s' = s1" using get g1 by (auto simp: tp_Get_def Let_def split: if_splits)
  then show "tp_wf s'" "held s' = held s" using c wf by auto
qed

lemma tp_Get_obj:
  assumes "tp_Get env t no tpl s = (s', Some (pl, fresh))"
  shows "tp_obj s' = (if fresh then (tp_obj s)(pl := tpl) else tp_obj s)"
  using assms by (auto simp: tp_Get_def tp_Get1_def Let_def split: if_splits option.splits)

text \<open>What is held stays held, with its content.\<close>

lemma tp_Get_frame:
  assumes wf: "tp_wf s" and get: "tp_Get env t no tpl s = (s', r)"
  shows "tp_wf s' \<and> (\<forall>u m cell. held s u m = Some cell \<longrightarrow> held s' u m = Some cell \<and> tp_obj s' cell = tp_obj s cell)"
proof (cases r)
  case None
  then show ?thesis
    using tp_Get_fails [OF wf, of env t no tpl s'] get
    by (auto simp: tp_Get_def tp_Get1_def Let_def split: if_splits option.splits)
next
  case (Some x)
  obtain cell fresh where x: "x = (cell, fresh)" by fastforce
  note h = tp_Get_held [OF wf get [unfolded Some x]]
  note o = tp_Get_obj [OF get [unfolded Some x]]
  have "held s' u m = Some w \<and> tp_obj s' w = tp_obj s w" if "held s u m = Some w" for u m w
    using that h(2,3,6) h(5) [of u m] o by (cases "(u, m) = (t, no)") auto
  then show ?thesis using h(1) by blast
qed

section \<open>Properties\<close>

text \<open>Calls by any threads in any order; the log says which object a thread got under which number.\<close>

type_synonym 'a tp_call = "tp_env \<times> nat \<times> nat \<times> 'a"

fun tp_run :: "'a tp_call list \<Rightarrow> 'a thread_privacy \<Rightarrow> 'a thread_privacy \<times> ((nat \<times> nat) \<times> nat) list" where
  "tp_run [] s = (s, [])"
| "tp_run ((env, t, no, tpl) # cs) s =
     (case tp_Get env t no tpl s of
        (s', None) \<Rightarrow> tp_run cs s'
      | (s', Some (obj, _)) \<Rightarrow> (case tp_run cs s' of (s'', l) \<Rightarrow> (s'', ((t, no), obj) # l)))"

lemma tp_run_held:
  assumes "tp_wf s" "tp_run cs s = (s', l)"
  shows "tp_wf s' \<and> (\<forall>t no obj. held s t no = Some obj \<longrightarrow> held s' t no = Some obj) \<and> (\<forall>((t, no), obj) \<in> set l. held s' t no = Some obj)"
  using assms
proof (induction cs s arbitrary: s' l rule: tp_run.induct)
  case (2 env t no tpl cs s)
  obtain s1 r where g: "tp_Get env t no tpl s = (s1, r)" by fastforce
  show ?case
  proof (cases r)
    case None
    then have "tp_wf s1" "held s1 = held s" using tp_Get_fails [OF "2.prems"(1)] g by auto
    moreover have "tp_run cs s1 = (s', l)" using "2.prems"(2) g None by simp
    ultimately show ?thesis using "2.IH"(1) [of s1 r] g None by auto
  next
    case (Some x)
    obtain obj fresh where x: "x = (obj, fresh)" by fastforce
    note get = tp_Get_held [OF "2.prems"(1) g [unfolded Some x]]
    obtain l' where l': "tp_run cs s1 = (s', l')" "l = ((t, no), obj) # l'" using "2.prems"(2) g Some x by (auto split: prod.splits)
    have keep: "held s1 u m = Some w" if "held s u m = Some w" for u m w
      using get(2,3,6) get(5) [of u m] that by (cases "(u, m) = (t, no)") auto
    show ?thesis using "2.IH"(2) [OF _ _ _ get(1) l'(1)] g Some x l'(2) keep get(2) by auto
  qed
qed auto

text \<open>However threads call \<^verbatim>\<open>Get\<close>, with failures of the allocator, of pthreads and of the lock in between: two calls get the same object exactly when they
  are made by the same thread with the same number, and an object is what its thread finds without a template from then on.\<close>

theorem thread_private:
  assumes "tp_run cs (ThreadPrivacy_new junk) = (s, l)" "((t, no), obj) \<in> set l" "((u, m), obj') \<in> set l"
  shows "(obj = obj' \<longleftrightarrow> t = u \<and> no = m) \<and> tp_find t no s = Some obj"
proof -
  have wf: "tp_wf s" and h: "held s t no = Some obj" "held s u m = Some obj'"
    using tp_run_held [OF tp_wf_new assms(1)] assms(2,3) by auto
  then show ?thesis using tp_find_held [OF wf, of t no] by (auto simp: tp_wf_def)
qed

definition tp_demo_env :: tp_env where
  "tp_demo_env = \<lparr>te_key = True, te_new_vector = True, te_setspecific = True, te_lock = [False, True], te_new_object = True\<rparr>"

definition tp_demo :: "string tp_call list" where
  "tp_demo = [(tp_demo_env, 1, 0, ''a''), (tp_demo_env, 2, 0, ''b''), (tp_demo_env, 1, 2, ''c''), (tp_demo_env, 1, 0, ''d'')]"

lemma tp_demo_lock: "True \<in> set (take kMaxTimesTryLock [False, True])"
  by (simp add: kMaxTimesTryLock_def)

theorem thread_private_witness:
  "\<exists>s. tp_run tp_demo (ThreadPrivacy_new []) = (s, [((1, 0), 0), ((2, 0), 1), ((1, 2), 2), ((1, 0), 0)]) \<and> tp_find 1 2 s = Some 2"
proof -
  have "\<exists>s. tp_run tp_demo (ThreadPrivacy_new []) = (s, [((1, 0), 0), ((2, 0), 1), ((1, 2), 2), ((1, 0), 0)])"
    by (simp add: tp_demo_def tp_demo_env_def ThreadPrivacy_new_def tp_Get_def tp_Get1_def slot_def put_slot_def tp_demo_lock Let_def numeral_2_eq_2 numeral_3_eq_3)
  then obtain s where s: "tp_run tp_demo (ThreadPrivacy_new []) = (s, [((1, 0), 0), ((2, 0), 1), ((1, 2), 2), ((1, 0), 0)])" by blast
  from thread_private [OF s, of 1 2 2 1 2 2] s show ?thesis by auto
qed

text \<open>When the lock cannot be had the vector stays under the key but is not in \<^verbatim>\<open>privacies_set_\<close>: the next call succeeds, and the destructor, which deletes what is in the set,
  leaves the vector and its objects.\<close>

lemma tp_lock_leak:
  assumes "tp_init s" "tp_specific s t = None" "t \<notin> set (tp_set s)" "te_new_vector env" "te_setspecific env" "True \<notin> set (te_lock env)"
    and "te_new_object env'"
  shows "\<exists>s1 s2 obj. tp_Get env t no tpl s = (s1, None) \<and> tp_Get env' t no tpl s1 = (s2, Some (obj, True)) \<and> t \<notin> set (tp_set s2)"
proof -
  have "True \<notin> set (take kMaxTimesTryLock (te_lock env))" using assms(6) by (meson in_set_takeD)
  then show ?thesis using assms by (simp add: tp_Get_def tp_Get1_def Let_def slot_def)
qed

end
