(* ===== verification/Mpsc_Pipe.thy ===== *)
theory Mpsc_Pipe
  imports Mag_Prelude
begin

text \<open>
  The fixed-size message pipe \<^verbatim>\<open>MPSCFixedPipe\<close> of
  \<^verbatim>\<open>deps/public-cpp/include/public-cpp/mpsc_fixed_pipe/mpsc_fixed_pipe.hpp\<close>, the mailbox between
  the scheduler and the agents: variable-length messages in a ring of bytes, two sender paces
  packed with a version into 64-bit words, and a receiver pace. Memory is a map from addresses
  to cells: the first cell of a message carries its header, size word and content, its other
  cells are \<open>CBody\<close>, and blanked bytes (255) are \<open>CBlank\<close>. Calls of the senders and of the
  receiver are atomic here, in any order. It is shown that the pipe is a FIFO queue, that
  memory is never read at a place where no message starts, and when a message is accepted.
\<close>

unbundle bit_operations_syntax

section \<open>Paces\<close>

definition kMaskPtr :: u64 where "kMaskPtr = mask 48"
definition kMaskVersion :: u64 where "kMaskVersion = NOT kMaskPtr"
definition kNumVersions :: nat where "kNumVersions = 65536"

definition DecodeSenderPacePtr :: "u64 \<Rightarrow> nat" where
  "DecodeSenderPacePtr pace = unat (pace AND kMaskPtr)"

definition DecodeSenderPaceVersion :: "u64 \<Rightarrow> nat" where
  "DecodeSenderPaceVersion pace = unat (drop_bit 48 (pace AND kMaskVersion))"

definition EncodeSenderPace :: "nat \<Rightarrow> nat \<Rightarrow> u64" where
  "EncodeSenderPace ptr version = word_of_nat ptr OR push_bit 48 (word_of_nat version)"

lemma nat_bit_bound: "(x::nat) < 2 ^ k \<Longrightarrow> bit x n \<Longrightarrow> n < k"
  by (metis bit_take_bit_iff take_bit_nat_eq_self)

lemma bit_nat_word: "bit (word_of_nat x :: 'a::len word) n \<longleftrightarrow> n < LENGTH('a) \<and> bit x n"
  by transfer (simp add: bit_take_bit_iff bit_of_nat_iff)

lemma pace_roundtrip:
  assumes "ptr < 2 ^ 48" "version < kNumVersions"
  shows "DecodeSenderPacePtr (EncodeSenderPace ptr version) = ptr"
    "DecodeSenderPaceVersion (EncodeSenderPace ptr version) = version"
proof -
  let ?w = "EncodeSenderPace ptr version"
  have "?w AND kMaskPtr = word_of_nat ptr"
  proof (rule bit_word_eqI)
    fix n assume "n < LENGTH(64)"
    have "bit ptr n \<Longrightarrow> n < 48" using nat_bit_bound [OF assms(1)] .
    then show "bit (?w AND kMaskPtr) n = bit (word_of_nat ptr :: u64) n"
      by (auto simp: EncodeSenderPace_def kMaskPtr_def bit_and_iff bit_or_iff bit_push_bit_iff
        bit_mask_iff bit_nat_word)
  qed
  moreover have "unat (word_of_nat ptr :: u64) = ptr"
    using assms(1) by (simp add: take_bit_nat_eq_self unsigned_of_nat)
  ultimately show "DecodeSenderPacePtr ?w = ptr" by (simp add: DecodeSenderPacePtr_def)
  have "drop_bit 48 (?w AND kMaskVersion) = word_of_nat version"
  proof (rule bit_word_eqI)
    fix n assume n: "n < LENGTH(64)"
    have p: "\<not> bit ptr (48 + n)" using nat_bit_bound [OF assms(1), of "48 + n"] by auto
    have "version < 2 ^ 16" using assms(2) by (simp add: kNumVersions_def)
    from nat_bit_bound [OF this] have v: "bit version n \<Longrightarrow> n < 16" .
    show "bit (drop_bit 48 (?w AND kMaskVersion)) n = bit (word_of_nat version :: u64) n"
      using p v n by (auto simp: EncodeSenderPace_def kMaskVersion_def kMaskPtr_def bit_and_iff bit_or_iff
        bit_not_iff bit_push_bit_iff bit_mask_iff bit_nat_word bit_drop_bit_eq)
  qed
  moreover have "unat (word_of_nat version :: u64) = version"
    using assms(2) by (simp add: take_bit_nat_eq_self unsigned_of_nat kNumVersions_def)
  ultimately show "DecodeSenderPaceVersion ?w = version" by (simp add: DecodeSenderPaceVersion_def)
qed

section \<open>State\<close>

datatype 'h pipe_cell = CBlank | CHead u32 'h "byte list" | CBody

record 'h mpsc_pipe =
  size_pipe :: nat
  max_size_content :: nat
  threshold_sender_notify :: nat
  msg_offset :: nat
  pipe_begin :: nat
  pipe_mem :: "nat \<Rightarrow> 'h pipe_cell"
  receiver_pace :: nat
  sender_pace_from :: u64
  sender_pace_to :: u64

definition end_of_pipe :: "'h mpsc_pipe \<Rightarrow> nat" where
  "end_of_pipe p = pipe_begin p + size_pipe p"

definition kMaskNotWriting :: u32 where "kMaskNotWriting = push_bit 31 1"

text \<open>\<^verbatim>\<open>SetBlank_\<close>: \<^verbatim>\<open>memset(from, 255, to-from)\<close>.\<close>

definition SetBlank :: "nat \<Rightarrow> nat \<Rightarrow> (nat \<Rightarrow> 'h pipe_cell) \<Rightarrow> (nat \<Rightarrow> 'h pipe_cell)" where
  "SetBlank a b m = (\<lambda>x. if a \<le> x \<and> x < b then CBlank else m x)"

text \<open>\<^verbatim>\<open>Init\<close>: where the allocator puts the array, and the size of the header part, are
  arguments.\<close>

definition pipe_Init :: "nat \<Rightarrow> nat \<Rightarrow> nat \<Rightarrow> nat \<Rightarrow> nat \<Rightarrow> bool \<Rightarrow> 'h mpsc_pipe option" where
  "pipe_Init offset base sz max_size threshold has_notifier =
     (if sz \<le> max_size + offset \<or> (threshold \<noteq> 0 \<and> \<not> has_notifier) then None
      else Some \<lparr>size_pipe = sz, max_size_content = max_size, threshold_sender_notify = threshold,
        msg_offset = offset, pipe_begin = base,
        pipe_mem = SetBlank base (base + sz) (\<lambda>_. CBody),
        receiver_pace = base, sender_pace_from = EncodeSenderPace base 0,
        sender_pace_to = EncodeSenderPace base 0\<rparr>)"

section \<open>Reading message headers\<close>

text \<open>The size word at an address: blank bytes read as \<^verbatim>\<open>uint32_t(-1)\<close>. A cell inside a
  message has no header to read, which is an error of the caller.\<close>

definition read_size :: "'h mpsc_pipe \<Rightarrow> nat \<Rightarrow> u32 outcome" where
  "read_size p a = (case pipe_mem p a of CBlank \<Rightarrow> Inr (-1) | CHead s _ _ \<Rightarrow> Inr s | CBody \<Rightarrow> Inl OutOfRange)"

definition IsBlank_size :: "u32 \<Rightarrow> bool" where "IsBlank_size s \<longleftrightarrow> s = -1"

definition IsNotWriting_size :: "u32 \<Rightarrow> bool" where "IsNotWriting_size s \<longleftrightarrow> s AND kMaskNotWriting \<noteq> 0"

definition IsReady_size :: "u32 \<Rightarrow> bool" where
  "IsReady_size s \<longleftrightarrow> \<not> IsBlank_size s \<and> IsNotWriting_size s"

definition GetMsgSize_size :: "'h mpsc_pipe \<Rightarrow> u32 \<Rightarrow> u32" where
  "GetMsgSize_size p s = (if s \<noteq> -1 then of_nat (msg_offset p) + (s AND NOT kMaskNotWriting) else -1)"

section \<open>Sending\<close>

definition from_ptr :: "'h mpsc_pipe \<Rightarrow> nat" where "from_ptr p = DecodeSenderPacePtr (sender_pace_from p)"
definition to_ptr :: "'h mpsc_pipe \<Rightarrow> nat" where "to_ptr p = DecodeSenderPacePtr (sender_pace_to p)"

text \<open>The new value a compare-and-swap stores; the boolean asks for a new version.\<close>

definition pace_next :: "u64 \<Rightarrow> nat \<Rightarrow> bool \<Rightarrow> u64" where
  "pace_next old_pace new_pace new_version =
     (let version = DecodeSenderPaceVersion old_pace
      in if new_version then EncodeSenderPace new_pace ((version + 1) mod kNumVersions)
         else EncodeSenderPace new_pace version)"

definition CASSenderPaceFrom :: "u64 \<Rightarrow> nat \<Rightarrow> bool \<Rightarrow> 'h mpsc_pipe \<Rightarrow> 'h mpsc_pipe \<times> bool" where
  "CASSenderPaceFrom old_pace new_pace new_version p =
     (if sender_pace_from p = old_pace
      then (p\<lparr>sender_pace_from := pace_next old_pace new_pace new_version\<rparr>, True) else (p, False))"

definition CASSenderPaceTo :: "u64 \<Rightarrow> nat \<Rightarrow> bool \<Rightarrow> 'h mpsc_pipe \<Rightarrow> 'h mpsc_pipe \<times> bool" where
  "CASSenderPaceTo old_pace new_pace new_version p =
     (if sender_pace_to p = old_pace
      then (p\<lparr>sender_pace_to := pace_next old_pace new_pace new_version\<rparr>, True) else (p, False))"

text \<open>\<^verbatim>\<open>ReserveSpaceForSend_\<close>: the message's address and, after a rewind, the position
  before it.\<close>

definition ReserveSpaceForSend :: "nat \<Rightarrow> 'h mpsc_pipe \<Rightarrow> 'h mpsc_pipe \<times> (nat \<times> nat option) option" where
  "ReserveSpaceForSend size_content p =
     (if size_content > max_size_content p then (p, None)
      else let pace = sender_pace_to p; ptr = DecodeSenderPacePtr pace; rcv = receiver_pace p;
               size_need = msg_offset p + size_content
           in if ptr \<ge> rcv then
                (if ptr + size_need \<le> end_of_pipe p
                 then (case CASSenderPaceTo pace (ptr + size_need) False p of
                         (p', ok) \<Rightarrow> (p', if ok then Some (ptr, None) else None))
                 else if pipe_begin p + size_need < rcv
                 then (case CASSenderPaceTo pace (pipe_begin p + size_need) True p of
                         (p', ok) \<Rightarrow> (p', if ok then Some (pipe_begin p, Some ptr) else None))
                 else (p, None))
              else if rcv > ptr \<and> ptr + size_need < rcv
              then (case CASSenderPaceTo pace (ptr + size_need) False p of
                      (p', ok) \<Rightarrow> (p', if ok then Some (ptr, None) else None))
              else (p, None))"

text \<open>Header, size word and content are stored; the ready bit comes later.\<close>

definition write_msg :: "nat \<Rightarrow> 'h \<Rightarrow> byte list \<Rightarrow> 'h mpsc_pipe \<Rightarrow> 'h mpsc_pipe" where
  "write_msg a h content p = p\<lparr>pipe_mem := (\<lambda>x.
     if x = a then CHead (of_nat (length content)) h content
     else if a < x \<and> x < a + msg_offset p + length content then CBody else pipe_mem p x)\<rparr>"

definition SetReady :: "nat \<Rightarrow> 'h mpsc_pipe \<Rightarrow> 'h mpsc_pipe" where
  "SetReady a p = p\<lparr>pipe_mem := (pipe_mem p)(a :=
     (case pipe_mem p a of CHead s h c \<Rightarrow> CHead (s OR kMaskNotWriting) h c | c \<Rightarrow> c))\<rparr>"

text \<open>The loop of \<^verbatim>\<open>JustSendMsg_\<close> that publishes the messages other senders finished
  meanwhile.\<close>

partial_function (option) publish_loop :: "nat \<Rightarrow> nat \<Rightarrow> 'h mpsc_pipe \<Rightarrow> 'h mpsc_pipe outcome option" where
  "publish_loop version new_from p =
     (if new_from = to_ptr p then Some (Inr p)
      else case read_size p new_from of
        Inl e \<Rightarrow> Some (Inl e)
      | Inr s \<Rightarrow>
          if \<not> IsReady_size s then Some (Inr p)
          else if GetMsgSize_size p s = -1 then Some (Inr p)
          else let old_pace = EncodeSenderPace new_from version;
                   new_from' = new_from + unat (GetMsgSize_size p s)
               in (case CASSenderPaceFrom old_pace new_from' False p of
                     (p', ok) \<Rightarrow> if ok then publish_loop version new_from' p' else Some (Inr p')))"

declare publish_loop.simps [code]

text \<open>\<^verbatim>\<open>JustSendMsg_\<close>. While calls are atomic, waiting for the published pace to reach the
  position before the rewind either ends at once or never (\<^term>\<open>None\<close>).\<close>

definition publish_from :: "u64 \<Rightarrow> nat \<Rightarrow> nat \<Rightarrow> 'h mpsc_pipe \<Rightarrow> 'h mpsc_pipe outcome option" where
  "publish_from old_pace old_ptr version p =
     (case read_size p old_ptr of
        Inl e \<Rightarrow> Some (Inl e)
      | Inr s \<Rightarrow>
          if GetMsgSize_size p s = -1 then Some (Inr p)
          else let new_from = old_ptr + unat (GetMsgSize_size p s)
               in (case CASSenderPaceFrom old_pace new_from False p of
                     (p', ok) \<Rightarrow> if ok then publish_loop version new_from p' else Some (Inr p')))"

definition JustSendMsg :: "nat \<Rightarrow> nat option \<Rightarrow> 'h mpsc_pipe \<Rightarrow> 'h mpsc_pipe outcome option" where
  "JustSendMsg msg pos_before_rewind p0 =
     (let p = SetReady msg p0;
          old_pace = sender_pace_from p;
          old_ptr = DecodeSenderPacePtr old_pace;
          version = DecodeSenderPaceVersion old_pace
      in if old_ptr = msg then publish_from old_pace old_ptr version p
         else if msg = pipe_begin p then
           (if Some (from_ptr p) = pos_before_rewind
            then let version = (version + 1) mod kNumVersions; pace = EncodeSenderPace (pipe_begin p) version
                 in publish_from pace (pipe_begin p) version (p\<lparr>sender_pace_from := pace\<rparr>)
            else None)
         else Some (Inr p))"

definition SendMsg1 :: "'h \<Rightarrow> byte list \<Rightarrow> 'h mpsc_pipe \<Rightarrow> ('h mpsc_pipe \<times> bool) outcome option" where
  "SendMsg1 h content p =
     (case ReserveSpaceForSend (length content) p of
        (p', None) \<Rightarrow> Some (Inr (p', False))
      | (p', Some (a, before)) \<Rightarrow>
          map_option (map_sum id (\<lambda>q. (q, True))) (JustSendMsg a before (write_msg a h content p')))"

definition SizeSpace :: "'h mpsc_pipe \<Rightarrow> nat" where
  "SizeSpace p = (if to_ptr p < receiver_pace p then receiver_pace p - to_ptr p
     else receiver_pace p + size_pipe p - to_ptr p)"

definition SizeMsgReady :: "'h mpsc_pipe \<Rightarrow> nat" where
  "SizeMsgReady p = (if receiver_pace p \<le> from_ptr p then from_ptr p - receiver_pace p
     else from_ptr p + size_pipe p - receiver_pace p)"

text \<open>\<^verbatim>\<open>SendMsg\<close>: two attempts; the last component says whether the notifier is called.\<close>

definition SendMsg :: "'h \<Rightarrow> byte list \<Rightarrow> 'h mpsc_pipe \<Rightarrow> ('h mpsc_pipe \<times> bool \<times> bool) outcome option" where
  "SendMsg h content p =
     (let notify = (threshold_sender_notify p \<noteq> 0
                    \<and> size_pipe p - SizeSpace p \<le> threshold_sender_notify p)
      in case SendMsg1 h content p of
           None \<Rightarrow> None
         | Some (Inl e) \<Rightarrow> Some (Inl e)
         | Some (Inr (p1, True)) \<Rightarrow> Some (Inr (p1, True, notify))
         | Some (Inr (p1, False)) \<Rightarrow>
             (case SendMsg1 h content p1 of
                None \<Rightarrow> None
              | Some (Inl e) \<Rightarrow> Some (Inl e)
              | Some (Inr (p2, ok)) \<Rightarrow> Some (Inr (p2, ok, ok \<and> notify))))"

section \<open>Receiving\<close>

definition HasTodo :: "'h mpsc_pipe \<Rightarrow> ('h mpsc_pipe \<times> bool) outcome" where
  "HasTodo p =
     (if receiver_pace p < from_ptr p then Inr (p, True)
      else if from_ptr p = receiver_pace p then Inr (p, False)
      else if receiver_pace p + msg_offset p > end_of_pipe p
      then Inr (p\<lparr>receiver_pace := pipe_begin p\<rparr>, from_ptr p \<noteq> pipe_begin p)
      else obind (read_size p (receiver_pace p)) (\<lambda>s.
        if IsBlank_size s then Inr (p\<lparr>receiver_pace := pipe_begin p\<rparr>, from_ptr p \<noteq> pipe_begin p)
        else Inr (p, True)))"

text \<open>\<^verbatim>\<open>ReceiveMsg_\<close> returns a pointer to the message, here its header and content.\<close>

definition ReceiveMsg1 :: "'h mpsc_pipe \<Rightarrow> ('h mpsc_pipe \<times> ('h \<times> byte list) option) outcome" where
  "ReceiveMsg1 p = obind (HasTodo p) (\<lambda>(p', todo).
     if \<not> todo then Inr (p', None)
     else case pipe_mem p' (receiver_pace p') of
       CHead _ h c \<Rightarrow> Inr (p', Some (h, c))
     | _ \<Rightarrow> Inl OutOfRange)"

text \<open>\<^verbatim>\<open>ReceiveMsg(0)\<close>: two attempts, no waiting.\<close>

definition ReceiveMsg :: "'h mpsc_pipe \<Rightarrow> ('h mpsc_pipe \<times> ('h \<times> byte list) option) outcome" where
  "ReceiveMsg p = obind (ReceiveMsg1 p) (\<lambda>(p', m).
     case m of Some x \<Rightarrow> Inr (p', Some x) | None \<Rightarrow> ReceiveMsg1 p')"

definition MsgConsumed :: "'h mpsc_pipe \<Rightarrow> 'h mpsc_pipe outcome" where
  "MsgConsumed p = obind (read_size p (receiver_pace p)) (\<lambda>s.
     let r = receiver_pace p + unat (GetMsgSize_size p s)
     in Inr (p\<lparr>receiver_pace := r, pipe_mem := SetBlank (receiver_pace p) r (pipe_mem p)\<rparr>))"

section \<open>Size words\<close>

definition ready_word :: "nat \<Rightarrow> u32" where
  "ready_word n = of_nat n OR kMaskNotWriting"

lemma bit_kMaskNotWriting: "bit kMaskNotWriting i \<longleftrightarrow> i = 31"
  unfolding kMaskNotWriting_def bit_push_bit_iff bit_1_iff possible_bit_word by auto

lemma ready_word_clear:
  assumes "n < 2 ^ 31"
  shows "ready_word n AND NOT kMaskNotWriting = of_nat n"
proof (rule bit_word_eqI)
  fix i assume "i < LENGTH(32)"
  show "bit (ready_word n AND NOT kMaskNotWriting) i = bit (of_nat n :: u32) i"
    using nat_bit_bound [OF assms, of i] \<open>i < LENGTH(32)\<close>
    by (auto simp: ready_word_def bit_kMaskNotWriting bit_and_iff bit_or_iff bit_not_iff bit_nat_word)
qed

lemma ready_word_not_blank:
  assumes "n < 2 ^ 31 - 1"
  shows "ready_word n \<noteq> -1"
proof
  assume "ready_word n = -1"
  then have "of_nat n = NOT kMaskNotWriting"
    using ready_word_clear [of n] assms by simp
  then have "unat (of_nat n :: u32) = unat (NOT kMaskNotWriting)" by simp
  moreover have "unat (of_nat n :: u32) = n" using assms by (simp add: unsigned_of_nat take_bit_nat_eq_self)
  moreover have "unat (NOT kMaskNotWriting) = 2 ^ 31 - 1" by (simp add: kMaskNotWriting_def)
  ultimately show False using assms by simp
qed

lemma ready_word_size:
  assumes "msg_offset p + n < 2 ^ 31 - 1"
  shows "unat (GetMsgSize_size p (ready_word n)) = msg_offset p + n" "GetMsgSize_size p (ready_word n) \<noteq> -1"
proof -
  have "GetMsgSize_size p (ready_word n) = of_nat (msg_offset p + n)"
    using assms ready_word_clear [of n] ready_word_not_blank [of n] by (simp add: GetMsgSize_size_def)
  then show u: "unat (GetMsgSize_size p (ready_word n)) = msg_offset p + n"
    using assms by (simp add: unsigned_of_nat take_bit_nat_eq_self del: of_nat_add)
  have "unat (-1 :: u32) = 2 ^ 32 - 1" by (simp add: unsigned_minus_1_eq_mask mask_eq_exp_minus_1)
  then show "GetMsgSize_size p (ready_word n) \<noteq> -1" using u assms by auto
qed

section \<open>Invariant and abstraction\<close>

text \<open>The messages laid out from \<^verbatim>\<open>a\<close> up to \<^verbatim>\<open>b\<close>, each published and of legal size.\<close>

fun seg :: "nat \<Rightarrow> nat \<Rightarrow> (nat \<Rightarrow> 'h pipe_cell) \<Rightarrow> nat \<Rightarrow> nat \<Rightarrow> ('h \<times> byte list) list \<Rightarrow> bool" where
  "seg off mx m a b [] \<longleftrightarrow> a = b"
| "seg off mx m a b ((h, c) # ms) \<longleftrightarrow> m a = CHead (ready_word (length c)) h c \<and> length c \<le> mx
     \<and> seg off mx m (a + off + length c) b ms"

definition blank :: "(nat \<Rightarrow> 'h pipe_cell) \<Rightarrow> nat \<Rightarrow> nat \<Rightarrow> bool" where
  "blank m a b \<longleftrightarrow> (\<forall>x. a \<le> x \<and> x < b \<longrightarrow> m x = CBlank)"

abbreviation pseg :: "'h mpsc_pipe \<Rightarrow> nat \<Rightarrow> nat \<Rightarrow> ('h \<times> byte list) list \<Rightarrow> bool" where
  "pseg p \<equiv> seg (msg_offset p) (max_size_content p) (pipe_mem p)"

definition pipe_config :: "'h mpsc_pipe \<Rightarrow> bool" where
  "pipe_config p \<longleftrightarrow> 0 < msg_offset p \<and> end_of_pipe p < 2 ^ 48
     \<and> msg_offset p + max_size_content p < size_pipe p \<and> msg_offset p + max_size_content p < 2 ^ 31 - 1"

definition paces_at :: "'h mpsc_pipe \<Rightarrow> nat \<Rightarrow> bool" where
  "paces_at p t \<longleftrightarrow> sender_pace_from p = sender_pace_to p
     \<and> (\<exists>v < kNumVersions. sender_pace_to p = EncodeSenderPace t v)"

text \<open>The queued messages lie between the receiver and the senders, in one stretch or, after
  a rewind, in two.\<close>

definition unwrapped :: "'h mpsc_pipe \<Rightarrow> nat \<Rightarrow> ('h \<times> byte list) list \<Rightarrow> bool" where
  "unwrapped p t q \<longleftrightarrow> pipe_begin p \<le> receiver_pace p \<and> receiver_pace p \<le> t \<and> t \<le> end_of_pipe p
     \<and> pseg p (receiver_pace p) t q \<and> blank (pipe_mem p) (pipe_begin p) (receiver_pace p)
     \<and> blank (pipe_mem p) t (end_of_pipe p)"

definition wrapped :: "'h mpsc_pipe \<Rightarrow> nat \<Rightarrow> nat \<Rightarrow> ('h \<times> byte list) list \<Rightarrow> ('h \<times> byte list) list \<Rightarrow> bool" where
  "wrapped p t k q1 q2 \<longleftrightarrow> pipe_begin p \<le> t \<and> t < receiver_pace p \<and> receiver_pace p \<le> k \<and> k \<le> end_of_pipe p
     \<and> pseg p (receiver_pace p) k q1 \<and> pseg p (pipe_begin p) t q2 \<and> q2 \<noteq> []
     \<and> blank (pipe_mem p) t (receiver_pace p) \<and> blank (pipe_mem p) k (end_of_pipe p)"

definition pipe_queue :: "'h mpsc_pipe \<Rightarrow> ('h \<times> byte list) list \<Rightarrow> bool" where
  "pipe_queue p q \<longleftrightarrow> pipe_config p \<and> (\<exists>t. paces_at p t \<and>
     (unwrapped p t q \<or> (\<exists>k q1 q2. wrapped p t k q1 q2 \<and> q = q1 @ q2)))"

text \<open>The same, with the receiver at the first message and not before the gap of a rewind.\<close>

definition pipe_head :: "'h mpsc_pipe \<Rightarrow> ('h \<times> byte list) list \<Rightarrow> bool" where
  "pipe_head p q \<longleftrightarrow> pipe_config p \<and> q \<noteq> [] \<and> (\<exists>t. paces_at p t \<and>
     (unwrapped p t q \<or> (\<exists>k q1 q2. wrapped p t k q1 q2 \<and> q1 \<noteq> [] \<and> q = q1 @ q2)))"

lemma queueI_unwrapped: "pipe_config p \<Longrightarrow> paces_at p t \<Longrightarrow> unwrapped p t q \<Longrightarrow> pipe_queue p q"
  by (auto simp: pipe_queue_def)

lemma queueI_wrapped: "pipe_config p \<Longrightarrow> paces_at p t \<Longrightarrow> wrapped p t k q1 q2 \<Longrightarrow> pipe_queue p (q1 @ q2)"
  by (auto simp: pipe_queue_def)

lemma seg_le: "seg off mx m a b ms \<Longrightarrow> a \<le> b"
  by (induction ms arbitrary: a) force+

lemma seg_append: "seg off mx m a b (xs @ ys) \<longleftrightarrow> (\<exists>k. seg off mx m a k xs \<and> seg off mx m k b ys)"
  by (induction xs arbitrary: a) auto

lemma seg_cong:
  assumes "seg off mx m a b ms" "0 < off" "\<And>x. a \<le> x \<Longrightarrow> x < b \<Longrightarrow> m' x = m x"
  shows "seg off mx m' a b ms"
  using assms
proof (induction ms arbitrary: a)
  case (Cons hc ms)
  obtain h c where hc: "hc = (h, c)" by fastforce
  have "a + off + length c \<le> b" using Cons.prems(1) hc seg_le by auto
  then show ?case using Cons hc by auto
qed simp

lemma seg_nonempty: "seg off mx m a b (x # ms) \<Longrightarrow> 0 < off \<Longrightarrow> a < b"
  using seg_le [of off mx m] by (cases x) fastforce

lemma blank_cong: "blank m a b \<Longrightarrow> (\<And>x. a \<le> x \<Longrightarrow> x < b \<Longrightarrow> m' x = m x) \<Longrightarrow> blank m' a b"
  by (simp add: blank_def)

lemma paces_ptr:
  assumes "paces_at p t" "t < 2 ^ 48"
  shows "to_ptr p = t" "from_ptr p = t"
  using assms pace_roundtrip by (auto simp: paces_at_def to_ptr_def from_ptr_def)

section \<open>One message is sent\<close>

definition sent_mem :: "nat \<Rightarrow> nat \<Rightarrow> 'h \<Rightarrow> byte list \<Rightarrow> (nat \<Rightarrow> 'h pipe_cell) \<Rightarrow> (nat \<Rightarrow> 'h pipe_cell)" where
  "sent_mem off a h c m = (\<lambda>x. if x = a then CHead (ready_word (length c)) h c
     else if a < x \<and> x < a + off + length c then CBody else m x)"

definition sent :: "'h mpsc_pipe \<Rightarrow> nat \<Rightarrow> 'h \<Rightarrow> byte list \<Rightarrow> u64 \<Rightarrow> 'h mpsc_pipe" where
  "sent p a h c pace = p\<lparr>pipe_mem := sent_mem (msg_offset p) a h c (pipe_mem p),
     sender_pace_from := pace, sender_pace_to := pace\<rparr>"

lemma sent_mem_other: "x < a \<or> a + off + length c \<le> x \<Longrightarrow> 0 < off \<Longrightarrow> sent_mem off a h c m x = m x"
  by (auto simp: sent_mem_def)

lemma sent_mem_seg: "length c \<le> mx \<Longrightarrow> seg off mx (sent_mem off a h c m) a (a + off + length c) [(h, c)]"
  by (simp add: sent_mem_def)

lemma ready_written: "SetReady a (write_msg a h c p) = p\<lparr>pipe_mem := sent_mem (msg_offset p) a h c (pipe_mem p)\<rparr>"
  by (simp add: SetReady_def write_msg_def sent_mem_def ready_word_def fun_upd_def cong: if_cong)

lemma publish_here:
  fixes p :: "'h mpsc_pipe"
  assumes cfg: "pipe_config p" and c: "length c \<le> max_size_content p" and v: "v < kNumVersions"
    and mem: "pipe_mem p a = CHead (ready_word (length c)) h c"
    and le: "a + msg_offset p + length c \<le> end_of_pipe p"
    and frm: "sender_pace_from p = EncodeSenderPace a v"
    and to: "sender_pace_to p = EncodeSenderPace (a + msg_offset p + length c) v"
  shows "publish_from (EncodeSenderPace a v) a v p = Some (Inr (p\<lparr>sender_pace_from := sender_pace_to p\<rparr>))"
proof -
  let ?b = "a + msg_offset p + length c"
  have lt: "?b < 2 ^ 48" "a < 2 ^ 48" and sz: "msg_offset p + length c < 2 ^ 31 - 1"
    using cfg le c by (auto simp: pipe_config_def)
  have t: "to_ptr (p\<lparr>sender_pace_from := x\<rparr>) = ?b" for x
    using pace_roundtrip [OF lt(1) v] to by (simp add: to_ptr_def)
  have "publish_loop v ?b (p\<lparr>sender_pace_from := x\<rparr>) = Some (Inr (p\<lparr>sender_pace_from := x\<rparr>))" for x
    using t by (subst publish_loop.simps) simp
  then show ?thesis
    using ready_word_size [OF sz] pace_roundtrip(2) [OF lt(2) v] frm to
    by (simp add: publish_from_def read_size_def mem CASSenderPaceFrom_def pace_next_def add.assoc)
qed

lemma just_send:
  assumes cfg: "pipe_config p" and c: "length c \<le> max_size_content p"
    and le: "a + msg_offset p + length c \<le> end_of_pipe p"
    and t: "t < 2 ^ 48" and v: "v < kNumVersions" and frm: "sender_pace_from p = EncodeSenderPace t v"
    and at: "before = None \<and> a = t \<and> v' = v
      \<or> before = Some t \<and> a = pipe_begin p \<and> t \<noteq> a \<and> v' = (v + 1) mod kNumVersions"
    and to: "sender_pace_to p = EncodeSenderPace (a + msg_offset p + length c) v'"
  shows "JustSendMsg a before (write_msg a h c p) = Some (Inr (sent p a h c (sender_pace_to p)))"
proof -
  let ?m = "sent_mem (msg_offset p) a h c (pipe_mem p)"
  let ?p = "p\<lparr>pipe_mem := ?m, sender_pace_from := EncodeSenderPace a v'\<rparr>"
  have v': "v' < kNumVersions" using at v by (auto simp: kNumVersions_def)
  have "publish_from (EncodeSenderPace a v') a v' ?p = Some (Inr (?p\<lparr>sender_pace_from := sender_pace_to ?p\<rparr>))"
    by (rule publish_here [OF _ _ v', where c = c and h = h])
      (use cfg c le to in \<open>simp_all add: pipe_config_def end_of_pipe_def sent_mem_def\<close>)
  then have pub: "publish_from (EncodeSenderPace a v') a v' ?p = Some (Inr (sent p a h c (sender_pace_to p)))"
    by (simp add: sent_def)
  note rt = pace_roundtrip [OF t v]
  have same: "p\<lparr>pipe_mem := ?m\<rparr> = p\<lparr>pipe_mem := ?m, sender_pace_from := EncodeSenderPace t v\<rparr>"
    using frm by simp
  show ?thesis
  proof (cases "before = None")
    case True
    then have eq: "t = a" "v' = v" using at by auto
    have "publish_from (EncodeSenderPace a v) a v (p\<lparr>pipe_mem := ?m\<rparr>)
      = Some (Inr (sent p a h c (sender_pace_to p)))"
      using pub by (subst same) (simp add: eq)
    then show ?thesis using True rt eq
      by (simp add: JustSendMsg_def Let_def ready_written frm)
  next
    case False
    then have "before = Some t" "a = pipe_begin p" "t \<noteq> a" "v' = (v + 1) mod kNumVersions" using at by auto
    then show ?thesis using rt pub by (simp add: JustSendMsg_def Let_def ready_written frm from_ptr_def)
  qed
qed

text \<open>When there is room: behind the senders, or at the beginning after a rewind.\<close>

definition accepts :: "'h mpsc_pipe \<Rightarrow> nat \<Rightarrow> bool" where
  "accepts p n \<longleftrightarrow> n \<le> max_size_content p \<and>
     (if receiver_pace p \<le> to_ptr p
      then to_ptr p + msg_offset p + n \<le> end_of_pipe p \<or> pipe_begin p + msg_offset p + n < receiver_pace p
      else to_ptr p + msg_offset p + n < receiver_pace p)"

lemma sent_frame [simp]:
  "size_pipe (sent p a h c w) = size_pipe p" "max_size_content (sent p a h c w) = max_size_content p"
  "msg_offset (sent p a h c w) = msg_offset p" "pipe_begin (sent p a h c w) = pipe_begin p"
  "receiver_pace (sent p a h c w) = receiver_pace p" "end_of_pipe (sent p a h c w) = end_of_pipe p"
  "pipe_mem (sent p a h c w) = sent_mem (msg_offset p) a h c (pipe_mem p)"
  "threshold_sender_notify (sent p a h c w) = threshold_sender_notify p"
  by (simp_all add: sent_def end_of_pipe_def)

lemma paces_sent: "v < kNumVersions \<Longrightarrow> paces_at (sent p a h c (EncodeSenderPace t v)) t"
  by (auto simp: paces_at_def sent_def)

lemma config_sent: "pipe_config (sent p a h c w) = pipe_config p"
  by (simp add: pipe_config_def)

text \<open>The three places a message may go.\<close>

lemma sent_behind:
  assumes cfg: "pipe_config p" and u: "unwrapped p t q" and c: "length c \<le> max_size_content p"
    and le: "t + msg_offset p + length c \<le> end_of_pipe p"
  shows "unwrapped (sent p t h c w) (t + msg_offset p + length c) (q @ [(h, c)])"
proof -
  let ?m = "sent_mem (msg_offset p) t h c (pipe_mem p)"
  have off: "0 < msg_offset p" using cfg by (simp add: pipe_config_def)
  have old: "?m x = pipe_mem p x" if "x < t \<or> t + msg_offset p + length c \<le> x" for x
    using that off by (rule sent_mem_other)
  have s: "pseg p (receiver_pace p) t q" using u by (simp add: unwrapped_def)
  have "seg (msg_offset p) (max_size_content p) ?m (receiver_pace p) t q"
    by (rule seg_cong [OF s off]) (simp add: old)
  moreover have "blank ?m (pipe_begin p) (receiver_pace p)"
    "blank ?m (t + msg_offset p + length c) (end_of_pipe p)"
    using u old by (auto simp: unwrapped_def blank_def)
  ultimately show ?thesis using u c le sent_mem_seg [OF c, of "msg_offset p" t h "pipe_mem p"]
    by (auto simp: unwrapped_def seg_append)
qed

lemma sent_rewound:
  assumes cfg: "pipe_config p" and u: "unwrapped p t q" and c: "length c \<le> max_size_content p"
    and le: "pipe_begin p + msg_offset p + length c < receiver_pace p"
  shows "wrapped (sent p (pipe_begin p) h c w) (pipe_begin p + msg_offset p + length c) t q [(h, c)]"
proof -
  let ?m = "sent_mem (msg_offset p) (pipe_begin p) h c (pipe_mem p)"
  have off: "0 < msg_offset p" using cfg by (simp add: pipe_config_def)
  have old: "?m x = pipe_mem p x" if "pipe_begin p + msg_offset p + length c \<le> x" for x
    using that off by (intro sent_mem_other) auto
  have s: "pseg p (receiver_pace p) t q" using u by (simp add: unwrapped_def)
  have "seg (msg_offset p) (max_size_content p) ?m (receiver_pace p) t q"
    by (rule seg_cong [OF s off], rule old) (use le in simp)
  moreover have "blank ?m (pipe_begin p + msg_offset p + length c) (receiver_pace p)"
    "blank ?m t (end_of_pipe p)"
    using u old le by (auto simp: unwrapped_def blank_def)
  ultimately show ?thesis using u le sent_mem_seg [OF c, of "msg_offset p" "pipe_begin p" h "pipe_mem p"]
    by (auto simp: unwrapped_def wrapped_def)
qed

lemma sent_wrapped:
  assumes cfg: "pipe_config p" and u: "wrapped p t k q1 q2" and c: "length c \<le> max_size_content p"
    and le: "t + msg_offset p + length c < receiver_pace p"
  shows "wrapped (sent p t h c w) (t + msg_offset p + length c) k q1 (q2 @ [(h, c)])"
proof -
  let ?m = "sent_mem (msg_offset p) t h c (pipe_mem p)"
  have off: "0 < msg_offset p" using cfg by (simp add: pipe_config_def)
  have old: "?m x = pipe_mem p x" if "x < t \<or> t + msg_offset p + length c \<le> x" for x
    using that off by (rule sent_mem_other)
  have s: "pseg p (receiver_pace p) k q1" "pseg p (pipe_begin p) t q2" using u by (auto simp: wrapped_def)
  have "seg (msg_offset p) (max_size_content p) ?m (receiver_pace p) k q1"
    by (rule seg_cong [OF s(1) off], rule old) (use le in simp)
  moreover have "seg (msg_offset p) (max_size_content p) ?m (pipe_begin p) t q2"
    by (rule seg_cong [OF s(2) off], rule old) simp
  moreover have "blank ?m (t + msg_offset p + length c) (receiver_pace p)" "blank ?m k (end_of_pipe p)"
    using u old le by (auto simp: wrapped_def blank_def)
  ultimately show ?thesis using u le sent_mem_seg [OF c, of "msg_offset p" t h "pipe_mem p"]
    by (auto simp: wrapped_def seg_append)
qed

lemma send_stay:
  assumes cfg: "pipe_config p" and v: "v < kNumVersions" "sender_pace_to p = EncodeSenderPace t v" "sender_pace_from p = EncodeSenderPace t v"
    and c: "length c \<le> max_size_content p" and le: "t + (msg_offset p + length c) \<le> end_of_pipe p"
    and room: "receiver_pace p \<le> t \<or> t + (msg_offset p + length c) < receiver_pace p"
  shows "SendMsg1 h c p = Some (Inr (sent p t h c (EncodeSenderPace (t + (msg_offset p + length c)) v), True))"
proof -
  let ?r = "p\<lparr>sender_pace_to := EncodeSenderPace (t + (msg_offset p + length c)) v\<rparr>"
  have lt: "t < 2 ^ 48" using le cfg by (simp add: pipe_config_def)
  have "ReserveSpaceForSend (length c) p = (?r, Some (t, None))"
    using le room c pace_roundtrip [OF lt v(1)] v by (auto simp: ReserveSpaceForSend_def Let_def CASSenderPaceTo_def pace_next_def)
  moreover have "JustSendMsg t None (write_msg t h c ?r) = Some (Inr (sent ?r t h c (sender_pace_to ?r)))"
    by (rule just_send [OF _ _ _ lt v(1)])
      (use cfg c le v in \<open>simp_all add: pipe_config_def end_of_pipe_def add.assoc\<close>)
  ultimately show ?thesis by (simp add: SendMsg1_def sent_def)
qed

lemma send_rewind:
  assumes cfg: "pipe_config p" and v: "v < kNumVersions" "sender_pace_to p = EncodeSenderPace t v" "sender_pace_from p = EncodeSenderPace t v"
    and c: "length c \<le> max_size_content p" and nle: "\<not> t + (msg_offset p + length c) \<le> end_of_pipe p" "t \<le> end_of_pipe p"
    and room: "receiver_pace p \<le> t" "pipe_begin p + (msg_offset p + length c) < receiver_pace p"
  shows "SendMsg1 h c p = Some (Inr (sent p (pipe_begin p) h c
    (EncodeSenderPace (pipe_begin p + (msg_offset p + length c)) ((v + 1) mod kNumVersions)), True))"
proof -
  let ?r = "p\<lparr>sender_pace_to := EncodeSenderPace (pipe_begin p + (msg_offset p + length c)) ((v + 1) mod kNumVersions)\<rparr>"
  have lt: "t < 2 ^ 48" using nle cfg by (simp add: pipe_config_def)
  have "ReserveSpaceForSend (length c) p = (?r, Some (pipe_begin p, Some t))"
    using nle room c pace_roundtrip [OF lt v(1)] v by (auto simp: ReserveSpaceForSend_def Let_def CASSenderPaceTo_def pace_next_def)
  moreover have "JustSendMsg (pipe_begin p) (Some t) (write_msg (pipe_begin p) h c ?r)
    = Some (Inr (sent ?r (pipe_begin p) h c (sender_pace_to ?r)))"
    by (rule just_send [OF _ _ _ lt v(1)])
      (use cfg c nle room v in \<open>auto simp: pipe_config_def end_of_pipe_def add.assoc\<close>)
  ultimately show ?thesis by (simp add: SendMsg1_def sent_def)
qed

lemma send_accepted:
  assumes pq: "pipe_queue p q" and acc: "accepts p (length c)"
  shows "\<exists>p'. SendMsg1 h c p = Some (Inr (p', True)) \<and> pipe_queue p' (q @ [(h, c)])"
proof -
  obtain t where cfg: "pipe_config p" and t: "paces_at p t"
    and lay: "unwrapped p t q \<or> (\<exists>k q1 q2. wrapped p t k q1 q2 \<and> q = q1 @ q2)"
    using pq by (auto simp: pipe_queue_def)
  obtain v where v: "v < kNumVersions" "sender_pace_to p = EncodeSenderPace t v"
    "sender_pace_from p = EncodeSenderPace t v"
    using t by (auto simp: paces_at_def)
  have lt: "t < 2 ^ 48" using lay cfg by (auto simp: unwrapped_def wrapped_def pipe_config_def)
  note ptr = pace_roundtrip [OF lt v(1)] and tp = paces_ptr [OF t lt]
  have c: "length c \<le> max_size_content p" using acc by (simp add: accepts_def)
  let ?need = "msg_offset p + length c"
  have v1: "(v + 1) mod kNumVersions < kNumVersions" by (simp add: kNumVersions_def)
  note stay = send_stay [OF cfg v c] and rewind = send_rewind [OF cfg v c]
  from lay show ?thesis
  proof (elim disjE exE conjE)
    assume u: "unwrapped p t q"
    then have r: "receiver_pace p \<le> t" "t \<le> end_of_pipe p" by (auto simp: unwrapped_def)
    show ?thesis
    proof (cases "t + ?need \<le> end_of_pipe p")
      case True
      have "unwrapped (sent p t h c w) (t + ?need) (q @ [(h, c)])" for w
        using sent_behind [OF cfg u c] True by (simp add: add.assoc)
      then have "pipe_queue (sent p t h c (EncodeSenderPace (t + ?need) v)) (q @ [(h, c)])"
        by (intro queueI_unwrapped [OF _ paces_sent [OF v(1)]]) (simp_all add: config_sent cfg)
      then show ?thesis using stay [OF True] r by blast
    next
      case False
      then have room: "pipe_begin p + ?need < receiver_pace p"
        using acc r tp by (simp add: accepts_def add.assoc)
      have "wrapped (sent p (pipe_begin p) h c w) (pipe_begin p + ?need) t q [(h, c)]" for w
        using sent_rewound [OF cfg u c] room by (simp add: add.assoc)
      then have "pipe_queue (sent p (pipe_begin p) h c
          (EncodeSenderPace (pipe_begin p + ?need) ((v + 1) mod kNumVersions))) (q @ [(h, c)])"
        by (intro queueI_wrapped [OF _ paces_sent [OF v1]]) (simp_all add: config_sent cfg)
      then show ?thesis using rewind [OF False r(2,1) room] by blast
    qed
  next
    fix k q1 q2 assume w: "wrapped p t k q1 q2" and q: "q = q1 @ q2"
    then have r: "t < receiver_pace p" "receiver_pace p \<le> end_of_pipe p" by (auto simp: wrapped_def)
    then have room: "t + ?need < receiver_pace p" using acc tp by (simp add: accepts_def add.assoc)
    have "wrapped (sent p t h c x) (t + ?need) k q1 (q2 @ [(h, c)])" for x
      using sent_wrapped [OF cfg w c] room by (simp add: add.assoc)
    then have "pipe_queue (sent p t h c (EncodeSenderPace (t + ?need) v)) (q1 @ (q2 @ [(h, c)]))"
      by (intro queueI_wrapped [OF _ paces_sent [OF v(1)]]) (simp_all add: config_sent cfg)
    moreover have "q @ [(h, c)] = q1 @ (q2 @ [(h, c)])" using q by simp
    ultimately have "pipe_queue (sent p t h c (EncodeSenderPace (t + ?need) v)) (q @ [(h, c)])" by simp
    then show ?thesis using stay room r by (meson less_imp_le order_trans)
  qed
qed

lemma send_refused: "\<not> accepts p (length c) \<Longrightarrow> SendMsg1 h c p = Some (Inr (p, False))"
  by (auto simp: SendMsg1_def ReserveSpaceForSend_def accepts_def Let_def to_ptr_def add.assoc)

section \<open>One message is received\<close>

lemma queue_read:
  assumes "pseg p (receiver_pace p) b ((h, c) # ms)"
  shows "read_size p (receiver_pace p) = Inr (ready_word (length c))"
    "pipe_mem p (receiver_pace p) = CHead (ready_word (length c)) h c"
  using assms by (simp_all add: read_size_def)

lemma has_todo:
  assumes pq: "pipe_queue p q"
  shows "\<exists>p'. HasTodo p = Inr (p', q \<noteq> []) \<and> pipe_queue p' q \<and> (q \<noteq> [] \<longrightarrow> pipe_head p' q)"
proof -
  obtain t where cfg: "pipe_config p" and t: "paces_at p t"
    and lay: "unwrapped p t q \<or> (\<exists>k q1 q2. wrapped p t k q1 q2 \<and> q = q1 @ q2)"
    using pq by (auto simp: pipe_queue_def)
  have off: "0 < msg_offset p" using cfg by (simp add: pipe_config_def)
  have lt: "t < 2 ^ 48" using lay cfg by (auto simp: unwrapped_def wrapped_def pipe_config_def)
  note tp = paces_ptr [OF t lt]
  from lay show ?thesis
  proof (elim disjE exE conjE)
    assume u: "unwrapped p t q"
    then have s: "pseg p (receiver_pace p) t q" "receiver_pace p \<le> t" by (auto simp: unwrapped_def)
    then have "receiver_pace p < t \<longleftrightarrow> q \<noteq> []" using off seg_nonempty by (cases q) fastforce+
    then have "HasTodo p = Inr (p, q \<noteq> [])" using s tp by (auto simp: HasTodo_def)
    then show ?thesis using pq u t cfg by (auto simp: pipe_head_def)
  next
    fix k q1 q2 assume w: "wrapped p t k q1 q2" and q: "q = q1 @ q2"
    have r: "t < receiver_pace p" "receiver_pace p \<le> k" "k \<le> end_of_pipe p" "q2 \<noteq> []"
      and s: "pseg p (receiver_pace p) k q1" "pseg p (pipe_begin p) t q2"
      and b: "blank (pipe_mem p) t (receiver_pace p)" "blank (pipe_mem p) k (end_of_pipe p)"
      using w by (auto simp: wrapped_def)
    have beg: "pipe_begin p < t" using s(2) r(4) off seg_nonempty by (cases q2) fastforce+
    show ?thesis
    proof (cases q1)
      case Nil
      let ?p = "p\<lparr>receiver_pace := pipe_begin p\<rparr>"
      have k: "receiver_pace p = k" using s(1) Nil by simp
      have bl: "read_size p k = Inr (-1)" if "k < end_of_pipe p"
        using b(2) that by (simp add: blank_def read_size_def)
      have todo: "HasTodo p = Inr (?p, q \<noteq> [])"
        using r k bl tp beg q off by (auto simp: HasTodo_def IsBlank_size_def)
      have "blank (pipe_mem p) t (end_of_pipe p)" using b k by (auto simp: blank_def not_le) (metis not_le)
      then have "unwrapped ?p t q"
        using s(2) q Nil beg r by (simp add: unwrapped_def end_of_pipe_def blank_def)
      moreover have "paces_at ?p t" "pipe_config ?p" using t cfg by (simp_all add: paces_at_def pipe_config_def end_of_pipe_def)
      ultimately have "pipe_queue ?p q \<and> (q \<noteq> [] \<longrightarrow> pipe_head ?p q)"
        by (auto simp: pipe_head_def intro: queueI_unwrapped)
      then show ?thesis using todo by blast
    next
      case (Cons hc ms)
      obtain h c where hc: "hc = (h, c)" by fastforce
      have s1: "pseg p (receiver_pace p) k ((h, c) # ms)" using s(1) Cons hc by simp
      then have c: "length c \<le> max_size_content p" and e: "receiver_pace p + msg_offset p + length c \<le> k"
        using seg_le by auto
      have "ready_word (length c) \<noteq> -1" using c cfg by (intro ready_word_not_blank) (simp add: pipe_config_def)
      then have "HasTodo p = Inr (p, q \<noteq> [])"
        using r tp e q Cons queue_read(1) [OF s1] by (auto simp: HasTodo_def IsBlank_size_def)
      moreover have "pipe_head p (q1 @ q2)" unfolding pipe_head_def using cfg t w r(4) Cons by blast
      ultimately show ?thesis using pq q by blast
    qed
  qed
qed

lemma head_cell:
  assumes "pipe_head p ((h, c) # ms)"
  shows "pipe_mem p (receiver_pace p) = CHead (ready_word (length c)) h c" "length c \<le> max_size_content p"
  using assms by (auto simp: pipe_head_def unwrapped_def wrapped_def Cons_eq_append_conv)

lemma receive1_ok:
  assumes pq: "pipe_queue p q"
  shows "\<exists>p'. ReceiveMsg1 p = Inr (p', case q of [] \<Rightarrow> None | m # _ \<Rightarrow> Some m) \<and> pipe_queue p' q
    \<and> (q \<noteq> [] \<longrightarrow> pipe_head p' q)"
proof -
  obtain p' where p': "HasTodo p = Inr (p', q \<noteq> [])" "pipe_queue p' q" "q \<noteq> [] \<longrightarrow> pipe_head p' q"
    using has_todo [OF pq] by blast
  show ?thesis
  proof (cases q)
    case Nil
    then show ?thesis using p' by (simp add: ReceiveMsg1_def)
  next
    case (Cons m ms)
    then have "pipe_mem p' (receiver_pace p') = CHead (ready_word (length (snd m))) (fst m) (snd m)"
      using p'(3) head_cell(1) [of p' "fst m" "snd m" ms] by simp
    then show ?thesis using p' Cons by (simp add: ReceiveMsg1_def)
  qed
qed

lemma receive_ok:
  assumes "pipe_queue p q"
  shows "\<exists>p'. ReceiveMsg p = Inr (p', case q of [] \<Rightarrow> None | m # _ \<Rightarrow> Some m) \<and> pipe_queue p' q
    \<and> (q \<noteq> [] \<longrightarrow> pipe_head p' q)"
proof -
  obtain p' where p': "ReceiveMsg1 p = Inr (p', case q of [] \<Rightarrow> None | m # _ \<Rightarrow> Some m)" "pipe_queue p' q"
    "q \<noteq> [] \<longrightarrow> pipe_head p' q"
    using receive1_ok [OF assms] by blast
  then show ?thesis using receive1_ok [OF p'(2)] by (cases q) (auto simp: ReceiveMsg_def)
qed

lemma consumed_ok:
  assumes hd: "pipe_head p ((h, c) # ms)"
  shows "\<exists>p'. MsgConsumed p = Inr p' \<and> pipe_queue p' ms"
proof -
  obtain t where cfg: "pipe_config p" and t: "paces_at p t" and lay: "unwrapped p t ((h, c) # ms)
      \<or> (\<exists>k q1 q2. wrapped p t k ((h, c) # q1) q2 \<and> ms = q1 @ q2)"
    using hd by (auto simp: pipe_head_def Cons_eq_append_conv)
  note cell = head_cell [OF hd]
  let ?r = "receiver_pace p + msg_offset p + length c"
  let ?m = "SetBlank (receiver_pace p) ?r (pipe_mem p)"
  let ?p = "p\<lparr>receiver_pace := ?r, pipe_mem := ?m\<rparr>"
  have off: "0 < msg_offset p" and sz: "msg_offset p + length c < 2 ^ 31 - 1"
    using cfg cell(2) by (auto simp: pipe_config_def)
  have con: "MsgConsumed p = Inr ?p"
    using cell ready_word_size [OF sz] by (simp add: MsgConsumed_def read_size_def Let_def add.assoc)
  have cfg': "pipe_config ?p" "paces_at ?p t"
    using cfg t by (simp_all add: pipe_config_def end_of_pipe_def paces_at_def)
  have old: "?m x = pipe_mem p x" if "x < receiver_pace p \<or> ?r \<le> x" for x
    using that by (auto simp: SetBlank_def)
  have keep: "seg (msg_offset p) (max_size_content p) ?m a b q"
    if "pseg p a b q" "b \<le> receiver_pace p \<or> ?r \<le> a" for a b q
    by (rule seg_cong [OF that(1) off], rule old) (use that(2) in auto)
  from lay show ?thesis
  proof (elim disjE exE conjE)
    assume u: "unwrapped p t ((h, c) # ms)"
    then have s: "pseg p ?r t ms" by (simp add: unwrapped_def)
    then have "?r \<le> t" by (rule seg_le)
    then have "unwrapped ?p t ms"
      using u keep [OF s] by (auto simp: unwrapped_def end_of_pipe_def blank_def SetBlank_def)
    then show ?thesis using con cfg' by (blast intro: queueI_unwrapped)
  next
    fix k q1 q2 assume w: "wrapped p t k ((h, c) # q1) q2" and ms: "ms = q1 @ q2"
    then have s: "pseg p ?r k q1" "pseg p (pipe_begin p) t q2" "t < receiver_pace p"
      by (auto simp: wrapped_def)
    have "?r \<le> k" by (rule seg_le [OF s(1)])
    then have "wrapped ?p t k q1 q2"
      using w keep [OF s(1)] keep [OF s(2)] s(3)
      by (auto simp: wrapped_def end_of_pipe_def blank_def SetBlank_def)
    then show ?thesis using con cfg' ms by (blast intro: queueI_wrapped)
  qed
qed

lemma send_ok:
  assumes "pipe_queue p q"
  shows "\<exists>p'. SendMsg h c p = Some (Inr (p', accepts p (length c), accepts p (length c)
      \<and> threshold_sender_notify p \<noteq> 0 \<and> size_pipe p - SizeSpace p \<le> threshold_sender_notify p))
    \<and> pipe_queue p' (if accepts p (length c) then q @ [(h, c)] else q)"
proof (cases "accepts p (length c)")
  case True
  then show ?thesis using send_accepted [OF assms True, of h] by (auto simp: SendMsg_def Let_def)
next
  case False
  then show ?thesis using send_refused [OF False, of h] assms by (simp add: SendMsg_def Let_def)
qed

section \<open>The interface of a queue\<close>

text \<open>What the threads at both ends rely on, for operations that may also not return or
  crash (\<^term>\<open>None\<close>): sending appends or refuses, taking removes the first message.\<close>

datatype 'm queue_cmd = QSend 'm | QTake

fun queue_run :: "('m \<Rightarrow> 'p \<Rightarrow> ('p \<times> bool) option) \<Rightarrow> ('p \<Rightarrow> ('p \<times> 'm option) option) \<Rightarrow>
    'm queue_cmd list \<Rightarrow> 'p \<Rightarrow> ('p \<times> 'm list \<times> 'm list) option" where
  "queue_run send tke [] p = Some (p, [], [])"
| "queue_run send tke (QSend m # cs) p =
     (case send m p of None \<Rightarrow> None
      | Some (p', ok) \<Rightarrow> (case queue_run send tke cs p' of None \<Rightarrow> None
         | Some (p'', snt, rcv) \<Rightarrow> Some (p'', if ok then m # snt else snt, rcv)))"
| "queue_run send tke (QTake # cs) p =
     (case tke p of None \<Rightarrow> None
      | Some (p', m) \<Rightarrow> (case queue_run send tke cs p' of None \<Rightarrow> None
         | Some (p'', snt, rcv) \<Rightarrow> Some (p'', snt, (case m of None \<Rightarrow> rcv | Some x \<Rightarrow> x # rcv))))"

locale fifo =
  fixes rep :: "'p \<Rightarrow> 'm list \<Rightarrow> bool"
    and send :: "'m \<Rightarrow> 'p \<Rightarrow> ('p \<times> bool) option" and tke :: "'p \<Rightarrow> ('p \<times> 'm option) option"
  assumes send: "rep p q \<Longrightarrow> \<exists>p' ok. send m p = Some (p', ok) \<and> rep p' (if ok then q @ [m] else q)"
    and tke: "rep p q \<Longrightarrow> \<exists>p'. tke p = Some (p', case q of [] \<Rightarrow> None | m # _ \<Rightarrow> Some m) \<and> rep p' (tl q)"
begin

lemma run_fifo:
  assumes "rep p q"
  shows "\<exists>p' snt rcv q'. queue_run send tke cs p = Some (p', snt, rcv) \<and> rep p' q' \<and> q @ snt = rcv @ q'"
  using assms
proof (induction cs arbitrary: p q)
  case (Cons cmd cs)
  show ?case
  proof (cases cmd)
    case (QSend m)
    obtain p1 ok where 1: "send m p = Some (p1, ok)" "rep p1 (if ok then q @ [m] else q)"
      using send [OF Cons.prems] by blast
    from Cons.IH [OF 1(2)] obtain p' snt rcv q' where
      2: "queue_run send tke cs p1 = Some (p', snt, rcv)" "rep p' q'" "(if ok then q @ [m] else q) @ snt = rcv @ q'"
      by blast
    have "q @ (if ok then m # snt else snt) = rcv @ q'" using 2(3) by (simp split: if_splits)
    moreover have "queue_run send tke (cmd # cs) p = Some (p', if ok then m # snt else snt, rcv)"
      using QSend 1(1) 2(1) by simp
    ultimately show ?thesis using 2(2) by blast
  next
    case QTake
    obtain p1 where 1: "tke p = Some (p1, case q of [] \<Rightarrow> None | m # _ \<Rightarrow> Some m)" "rep p1 (tl q)"
      using tke [OF Cons.prems] by blast
    from Cons.IH [OF 1(2)] obtain p' snt rcv q' where
      2: "queue_run send tke cs p1 = Some (p', snt, rcv)" "rep p' q'" "tl q @ snt = rcv @ q'"
      by blast
    show ?thesis
      using QTake 1(1) 2 by (cases q) auto
  qed
qed auto

end

text \<open>The calls the threads make: a sender calls \<^verbatim>\<open>SendMsg\<close>, the receiver \<^verbatim>\<open>ReceiveMsg\<close>
  and, when it got a message, \<^verbatim>\<open>MsgConsumed\<close>.\<close>

definition pipe_send :: "'h \<times> byte list \<Rightarrow> 'h mpsc_pipe \<Rightarrow> ('h mpsc_pipe \<times> bool) option" where
  "pipe_send m p = (case SendMsg (fst m) (snd m) p of
     Some (Inr (p', ok, _)) \<Rightarrow> Some (p', ok) | _ \<Rightarrow> None)"

definition pipe_take :: "'h mpsc_pipe \<Rightarrow> ('h mpsc_pipe \<times> ('h \<times> byte list) option) option" where
  "pipe_take p = (case ReceiveMsg p of
     Inl _ \<Rightarrow> None
   | Inr (p', None) \<Rightarrow> Some (p', None)
   | Inr (p', Some m) \<Rightarrow> (case MsgConsumed p' of Inl _ \<Rightarrow> None | Inr p'' \<Rightarrow> Some (p'', Some m)))"

interpretation pipe: fifo pipe_queue pipe_send pipe_take
proof
  fix p :: "'h mpsc_pipe" and q m
  assume pq: "pipe_queue p q"
  show "\<exists>p' ok. pipe_send m p = Some (p', ok) \<and> pipe_queue p' (if ok then q @ [m] else q)"
  proof -
    obtain p' n where "SendMsg (fst m) (snd m) p = Some (Inr (p', accepts p (length (snd m)), n))"
      "pipe_queue p' (if accepts p (length (snd m)) then q @ [(fst m, snd m)] else q)"
      using send_ok [OF pq, of "fst m" "snd m"] by blast
    then show ?thesis by (intro exI [of _ p'] exI [of _ "accepts p (length (snd m))"]) (simp add: pipe_send_def split: if_splits)
  qed
  obtain p' where r: "ReceiveMsg p = Inr (p', case q of [] \<Rightarrow> None | m # _ \<Rightarrow> Some m)" "pipe_queue p' q"
    "q \<noteq> [] \<longrightarrow> pipe_head p' q"
    using receive_ok [OF pq] by blast
  show "\<exists>p'. pipe_take p = Some (p', case q of [] \<Rightarrow> None | m # _ \<Rightarrow> Some m) \<and> pipe_queue p' (tl q)"
  proof (cases q)
    case (Cons m ms)
    obtain p'' where "MsgConsumed p' = Inr p''" "pipe_queue p'' ms"
      using r(3) Cons consumed_ok [of p' "fst m" "snd m" ms] by auto
    then show ?thesis using r(1) Cons by (simp add: pipe_take_def)
  qed (use r in \<open>simp add: pipe_take_def\<close>)
qed

lemma pipe_init_queue:
  assumes "pipe_Init offset base sz max_size threshold has = Some p" "0 < offset" "base + sz < 2 ^ 48"
    "offset + max_size < 2 ^ 31 - 1"
  shows "pipe_queue p []"
proof (rule queueI_unwrapped)
  show "pipe_config p" "unwrapped p base []"
    using assms by (auto simp: pipe_Init_def pipe_config_def unwrapped_def end_of_pipe_def
      blank_def SetBlank_def split: if_splits)
  show "paces_at p base"
    using assms unfolding paces_at_def
    by (intro conjI exI [of _ 0]) (auto simp: pipe_Init_def kNumVersions_def split: if_splits)
qed

section \<open>Properties\<close>

text \<open>C31. The pipe is a FIFO queue: for every sequence of sends and receipts on a pipe just
  initialised, in any order, all calls return without reading memory where no message
  starts, and the messages accepted so far are those received so far followed by those still
  queued, in order; none is lost, changed or duplicated.\<close>

theorem pipe_fifo:
  assumes "pipe_Init offset base sz max_size threshold has = Some p" "0 < offset" "base + sz < 2 ^ 48"
    "offset + max_size < 2 ^ 31 - 1"
  shows "\<exists>p' snt rcv queued. queue_run pipe_send pipe_take cmds p = Some (p', snt, rcv)
    \<and> pipe_queue p' queued \<and> snt = rcv @ queued"
  using pipe.run_fifo [OF pipe_init_queue [OF assms], of cmds] by simp

definition pipe_demo :: "nat mpsc_pipe" where
  "pipe_demo = the (pipe_Init 8 1000 40 10 0 False)"

theorem pipe_fifo_witness:
  "\<exists>p' queued. queue_run pipe_send pipe_take [QSend (1, [7, 8]), QTake] pipe_demo
     = Some (p', [(1, [7, 8])], [(1, [7, 8])]) \<and> pipe_queue p' queued \<and> queued = []"
proof -
  let ?r = "queue_run pipe_send pipe_take [QSend (1, [7, 8]), QTake] pipe_demo"
  have i: "pipe_Init 8 1000 40 10 0 False = Some pipe_demo" by (simp add: pipe_demo_def pipe_Init_def)
  have "map_option snd ?r = Some ([(1, [7, 8])], [(1, [7, 8])])" by code_simp
  then show ?thesis using pipe_fifo [OF i, of "[QSend (1, [7, 8]), QTake]"] by auto
qed

text \<open>A pipe at least twice as large as its largest message takes every message of legal
  size when it is empty, so a sender is never refused for good.\<close>

theorem pipe_empty_accepts:
  assumes "pipe_queue p []" "2 * (msg_offset p + max_size_content p) \<le> size_pipe p"
    "length c \<le> max_size_content p"
  shows "\<exists>p' notify. SendMsg h c p = Some (Inr (p', True, notify)) \<and> pipe_queue p' [(h, c)]"
proof -
  obtain t where t: "paces_at p t" "unwrapped p t []" "pipe_config p"
    using assms(1) by (auto simp: pipe_queue_def wrapped_def)
  then have "t < 2 ^ 48" by (simp add: unwrapped_def pipe_config_def)
  from paces_ptr [OF t(1) this] have "accepts p (length c)"
    using t(2) assms(2,3) by (auto simp: accepts_def unwrapped_def end_of_pipe_def)
  then show ?thesis using send_ok [OF assms(1), of h c] by auto
qed

theorem pipe_empty_accepts_witness:
  "\<exists>p' notify. SendMsg 5 [1, 2, 3] pipe_demo = Some (Inr (p', True, notify)) \<and> pipe_queue p' [(5, [1, 2, 3])]"
proof -
  have i: "pipe_Init 8 1000 40 10 0 False = Some pipe_demo" by (simp add: pipe_demo_def pipe_Init_def)
  have "pipe_queue pipe_demo []" by (rule pipe_init_queue [OF i]) simp_all
  then show ?thesis
    by (rule pipe_empty_accepts) (simp_all add: pipe_demo_def pipe_Init_def)
qed

text \<open>\<^verbatim>\<open>Init\<close> asks for less than that: there is a pipe it accepts which, empty, refuses
  a message of legal size, and goes on refusing it however often the receiver polls.\<close>

theorem pipe_empty_refuses:
  "\<exists>p. pipe_Init 8 1000 40 20 0 False \<noteq> (None :: nat mpsc_pipe option) \<and> pipe_queue p []
     \<and> size_pipe p = 40 \<and> max_size_content p = 20
     \<and> SendMsg (5 :: nat) (replicate 20 0) p = Some (Inr (p, False, False)) \<and> ReceiveMsg p = Inr (p, None)"
proof -
  let ?p = "\<lparr>size_pipe = 40, max_size_content = 20, threshold_sender_notify = 0, msg_offset = 8,
    pipe_begin = 1000, pipe_mem = (\<lambda>_. CBlank), receiver_pace = 1020,
    sender_pace_from = EncodeSenderPace 1020 0, sender_pace_to = EncodeSenderPace 1020 0\<rparr> :: nat mpsc_pipe"
  have ptr: "DecodeSenderPacePtr (EncodeSenderPace 1020 0) = 1020"
    by (rule pace_roundtrip) (simp_all add: kNumVersions_def)
  have "pipe_queue ?p []"
  proof (rule queueI_unwrapped)
    show "pipe_config ?p" "unwrapped ?p 1020 []"
      by (simp_all add: pipe_config_def unwrapped_def end_of_pipe_def blank_def)
    show "paces_at ?p 1020"
      unfolding paces_at_def by (intro conjI exI [of _ 0]) (simp_all add: kNumVersions_def)
  qed
  moreover have "\<not> accepts ?p (length (replicate 20 (0 :: byte)))"
    by (simp add: accepts_def to_ptr_def ptr end_of_pipe_def)
  then have "SendMsg1 5 (replicate 20 0) ?p = Some (Inr (?p, False))" by (rule send_refused)
  then have "SendMsg 5 (replicate 20 0) ?p = Some (Inr (?p, False, False))" by (simp add: SendMsg_def)
  moreover have "ReceiveMsg ?p = Inr (?p, None)"
    by (simp add: ReceiveMsg_def ReceiveMsg1_def HasTodo_def from_ptr_def ptr)
  ultimately show ?thesis
    by (intro exI [of _ ?p]) (simp add: pipe_Init_def)
qed

text \<open>A pace word holds any address below \<open>2^48\<close> and any version below \<open>2^16\<close>,
  and both are read back from it.\<close>

theorem pace_word_roundtrip:
  assumes "ptr < 2 ^ 48" "version < 2 ^ 16"
  shows "DecodeSenderPacePtr (EncodeSenderPace ptr version) = ptr
    \<and> DecodeSenderPaceVersion (EncodeSenderPace ptr version) = version"
  using pace_roundtrip [of ptr version] assms by (simp add: kNumVersions_def)

theorem pace_word_roundtrip_witness:
  "DecodeSenderPacePtr (EncodeSenderPace 140737488355327 65535) = 140737488355327
   \<and> DecodeSenderPaceVersion (EncodeSenderPace 140737488355327 65535) = 65535"
  by (rule pace_word_roundtrip) simp_all

end
