(* ===== verification/Mpsc_Wait.thy ===== *)
theory Mpsc_Wait
  imports Mpsc_Pipe
begin

text \<open>
  Receiving with a timeout from the message pipe: \<^verbatim>\<open>ReceiveMsg\<close> of \<^verbatim>\<open>mpsc_fixed_pipe.hpp\<close> with both ways of
  waiting, on the notifier and by sleeping in growing steps. What other threads send while the receiver waits, and
  what the clock shows, are arguments. It is shown that the call returns when time passes, with the first message of the queue
  unless the queue is still empty.
\<close>

section \<open>Sleeping\<close>

definition kTimesSleepUs :: "nat list" where "kTimesSleepUs = [1, 10, 100, 1000]"

definition GetTimeToSleepUs :: "nat \<Rightarrow> nat" where
  "GetTimeToSleepUs slot = (if slot < length kTimesSleepUs then kTimesSleepUs ! slot else kTimesSleepUs ! (length kTimesSleepUs - 1))"

text \<open>\<^verbatim>\<open>SleepUs\<close>: for how many nanoseconds the thread sleeps when the clock's nanoseconds are \<open>nsec\<close>. Only these are changed; \<^verbatim>\<open>clock_nanosleep\<close>
  returns at once when they are not below \<open>10^9\<close>.\<close>

definition SleepUs :: "nat \<Rightarrow> nat \<Rightarrow> nat" where
  "SleepUs nsec usecs = (let t = nsec + push_bit 10 usecs in if t < 1000000000 then push_bit 10 usecs else 0)"

definition kTimesBusyQuery :: nat where "kTimesBusyQuery = 2"

section \<open>Waiting for a message\<close>

text \<open>What is sent until \<^verbatim>\<open>Wait\<close> of the notifier returns, what is sent in the n-th sleep of so many nanoseconds, the nanoseconds of the monotonic clock before it, and the
  n-th reading of the time of day.\<close>

record 'h wait_env =
  wt_notified :: "('h \<times> byte list) list"
  wt_sends :: "nat \<Rightarrow> nat \<Rightarrow> ('h \<times> byte list) list"
  wt_nsec :: "nat \<Rightarrow> nat"
  wt_clock :: "nat \<Rightarrow> int"

definition asleep :: "'h wait_env \<Rightarrow> nat \<Rightarrow> ('h \<times> byte list) list" where
  "asleep env round = wt_sends env round (SleepUs (wt_nsec env round) (GetTimeToSleepUs round))"

fun deliver :: "('h \<times> byte list) list \<Rightarrow> 'h mpsc_pipe \<Rightarrow> 'h mpsc_pipe" where
  "deliver [] p = p"
| "deliver (m # ms) p = (case pipe_send m p of Some (p', _) \<Rightarrow> deliver ms p' | None \<Rightarrow> p)"

fun busy_query :: "nat \<Rightarrow> 'h mpsc_pipe \<Rightarrow> ('h mpsc_pipe \<times> ('h \<times> byte list) option) outcome" where
  "busy_query 0 p = Inr (p, None)"
| "busy_query (Suc n) p = obind (ReceiveMsg1 p) (\<lambda>(p', m). case m of Some x \<Rightarrow> Inr (p', Some x) | None \<Rightarrow> busy_query n p')"

definition ReceiveMsgWithNotify :: "'h wait_env \<Rightarrow> nat \<Rightarrow> 'h mpsc_pipe \<Rightarrow> ('h mpsc_pipe \<times> ('h \<times> byte list) option) outcome" where
  "ReceiveMsgWithNotify env timeo_ms p = obind (busy_query kTimesBusyQuery p) (\<lambda>(p', m).
     case m of
       Some x \<Rightarrow> Inr (p', Some x)
     | None \<Rightarrow> if timeo_ms = 0 then Inr (p', None) else ReceiveMsg1 (deliver (wt_notified env) p'))"

partial_function (option) sleep_loop ::
    "'h wait_env \<Rightarrow> int \<Rightarrow> nat \<Rightarrow> nat \<Rightarrow> 'h mpsc_pipe \<Rightarrow> ('h mpsc_pipe \<times> ('h \<times> byte list) option) outcome option" where
  "sleep_loop env start timeo_ms round p =
     (case ReceiveMsg1 (deliver (asleep env round) p) of
        Inl e \<Rightarrow> Some (Inl e)
      | Inr (p', m) \<Rightarrow>
          if m \<noteq> None then Some (Inr (p', m))
          else if start + int timeo_ms * 1000 < wt_clock env (round + 1) then Some (Inr (p', None))
          else sleep_loop env start timeo_ms (round + 1) p')"

declare sleep_loop.simps [code]

definition ReceiveMsgWithoutNotify :: "'h wait_env \<Rightarrow> nat \<Rightarrow> 'h mpsc_pipe \<Rightarrow> ('h mpsc_pipe \<times> ('h \<times> byte list) option) outcome option" where
  "ReceiveMsgWithoutNotify env timeo_ms p =
     (case busy_query kTimesBusyQuery p of
        Inl e \<Rightarrow> Some (Inl e)
      | Inr (p', m) \<Rightarrow>
          if m \<noteq> None \<or> timeo_ms = 0 then Some (Inr (p', m))
          else sleep_loop env (wt_clock env 0) timeo_ms 0 p')"

definition ReceiveMsg_wait :: "'h wait_env \<Rightarrow> nat \<Rightarrow> 'h mpsc_pipe \<Rightarrow> ('h mpsc_pipe \<times> ('h \<times> byte list) option) outcome option" where
  "ReceiveMsg_wait env timeo_ms p =
     (if threshold_sender_notify p \<noteq> 0 then Some (ReceiveMsgWithNotify env timeo_ms p) else ReceiveMsgWithoutNotify env timeo_ms p)"

section \<open>Lemmas\<close>

definition first_of :: "'m list \<Rightarrow> 'm option" where "first_of q = (case q of [] \<Rightarrow> None | m # _ \<Rightarrow> Some m)"

lemma first_of_None [simp]: "first_of q = None \<longleftrightarrow> q = []" by (simp add: first_of_def split: list.split)

lemma first_of_simps [simp]: "first_of [] = None" "first_of (m # q) = Some m" by (simp_all add: first_of_def)

lemma receive_first: "pipe_queue p q \<Longrightarrow> \<exists>p'. ReceiveMsg1 p = Inr (p', first_of q) \<and> pipe_queue p' q"
  using receive1_ok [of p q] by (auto simp: first_of_def)

lemma busy_first: "pipe_queue p q \<Longrightarrow> 0 < n \<Longrightarrow> \<exists>p'. busy_query n p = Inr (p', first_of q) \<and> pipe_queue p' q"
proof (induction n arbitrary: p)
  case (Suc n)
  obtain p' where p': "ReceiveMsg1 p = Inr (p', first_of q)" "pipe_queue p' q" using receive_first [OF Suc.prems(1)] by blast
  show ?case
  proof (cases "q = [] \<and> 0 < n")
    case True
    then show ?thesis using Suc.IH [OF p'(2)] p'(1) by (auto simp: first_of_def)
  next
    case False
    then show ?thesis using p' by (cases q; cases n) (auto simp: first_of_def)
  qed
qed simp

lemma deliver_queue: "pipe_queue p q \<Longrightarrow> \<exists>new. pipe_queue (deliver ms p) (q @ new)"
proof (induction ms arbitrary: p q)
  case (Cons m ms)
  from pipe.send [OF Cons.prems] obtain p' ok where p': "pipe_send m p = Some (p', ok)" "pipe_queue p' (if ok then q @ [m] else q)"
    by blast
  from Cons.IH [OF p'(2)] p'(1) show ?case by (cases ok) auto
qed (auto intro: exI [of _ "[]"])

lemma sleep_loop_returns:
  assumes "pipe_queue p q" "start + int timeo_ms * 1000 < wt_clock env (round + n + 1)"
  shows "\<exists>p' new. sleep_loop env start timeo_ms round p = Some (Inr (p', first_of (q @ new))) \<and> pipe_queue p' (q @ new)"
  using assms
proof (induction n arbitrary: p q round)
  case (Suc n)
  obtain new where "pipe_queue (deliver (asleep env round) p) (q @ new)" using deliver_queue [OF Suc.prems(1)] by blast
  from receive_first [OF this] obtain p' where
    p': "ReceiveMsg1 (deliver (asleep env round) p) = Inr (p', first_of (q @ new))" "pipe_queue p' (q @ new)" by blast
  show ?case
  proof (cases "q @ new \<noteq> [] \<or> start + int timeo_ms * 1000 < wt_clock env (round + 1)")
    case True
    then have "sleep_loop env start timeo_ms round p = Some (Inr (p', first_of (q @ new)))"
      using p'(1) by (subst sleep_loop.simps) (cases "q @ new", auto)
    then show ?thesis using p'(2) by blast
  next
    case False
    from Suc.IH [OF p'(2), of "round + 1"] Suc.prems(2)
    obtain p'' new' where "sleep_loop env start timeo_ms (round + 1) p' = Some (Inr (p'', first_of ((q @ new) @ new')))" "pipe_queue p'' ((q @ new) @ new')"
      by auto
    then show ?thesis using False p'(1) by (subst sleep_loop.simps) auto
  qed
next
  case 0
  obtain new where "pipe_queue (deliver (asleep env round) p) (q @ new)" using deliver_queue [OF "0.prems"(1)] by blast
  from receive_first [OF this] obtain p' where
    p': "ReceiveMsg1 (deliver (asleep env round) p) = Inr (p', first_of (q @ new))" "pipe_queue p' (q @ new)" by blast
  then have "sleep_loop env start timeo_ms round p = Some (Inr (p', first_of (q @ new)))"
    using "0.prems"(2) by (subst sleep_loop.simps) (cases "q @ new", auto)
  then show ?case using p'(2) by blast
qed

section \<open>Properties\<close>

text \<open>C32. A timed receive returns as soon as the clock shows more than the timeout: with the first message of the queue if there is one then, those waiting at the
  call before those sent meanwhile, and without a message only if the queue is empty.\<close>

theorem ReceiveMsg_wait_returns:
  assumes "pipe_queue p q" "wt_clock env 0 + int timeo_ms * 1000 < wt_clock env (Suc n)"
  shows "\<exists>p' new. ReceiveMsg_wait env timeo_ms p = Some (Inr (p', first_of (q @ new))) \<and> pipe_queue p' (q @ new)"
proof -
  obtain p' where p': "busy_query kTimesBusyQuery p = Inr (p', first_of q)" "pipe_queue p' q"
    using busy_first [OF assms(1), of kTimesBusyQuery] by (auto simp: kTimesBusyQuery_def)
  obtain new where "pipe_queue (deliver (wt_notified env) p') (q @ new)" using deliver_queue [OF p'(2)] by blast
  from receive_first [OF this] obtain p'' where
    p'': "ReceiveMsg1 (deliver (wt_notified env) p') = Inr (p'', first_of (q @ new))" "pipe_queue p'' (q @ new)" by blast
  show ?thesis
  proof (cases "q \<noteq> [] \<or> timeo_ms = 0")
    case True
    then have "ReceiveMsg_wait env timeo_ms p = Some (Inr (p', first_of q))"
      using p'(1) by (cases q) (auto simp: ReceiveMsg_wait_def ReceiveMsgWithNotify_def ReceiveMsgWithoutNotify_def first_of_def)
    then show ?thesis using p'(2) by (intro exI [of _ p'] exI [of _ "[]"]) simp
  next
    case False
    then have "ReceiveMsg_wait env timeo_ms p = (if threshold_sender_notify p \<noteq> 0 then Some (Inr (p'', first_of (q @ new)))
        else sleep_loop env (wt_clock env 0) timeo_ms 0 p')"
      using p'(1) p''(1) by (auto simp: ReceiveMsg_wait_def ReceiveMsgWithNotify_def ReceiveMsgWithoutNotify_def first_of_def)
    then show ?thesis
      using p''(2) sleep_loop_returns [OF p'(2), of "wt_clock env 0" timeo_ms env 0 n] assms(2) by (cases "threshold_sender_notify p \<noteq> 0") auto
  qed
qed

definition wait_demo :: "nat wait_env" where
  "wait_demo = \<lparr>wt_notified = [], wt_sends = (\<lambda>n ns. if n = 1 \<and> 0 < ns then [(5, [7, 8])] else []), wt_nsec = (\<lambda>n. 20000 * n), wt_clock = (\<lambda>n. 400 * int n)\<rparr>"

theorem ReceiveMsg_wait_returns_witness:
  "\<exists>p' new. ReceiveMsg_wait wait_demo 1 pipe_demo = Some (Inr (p', first_of new)) \<and> pipe_queue p' new"
proof -
  have i: "pipe_Init 8 1000 40 10 0 False = Some pipe_demo" by (simp add: pipe_demo_def pipe_Init_def)
  have "pipe_queue pipe_demo []" by (rule pipe_init_queue [OF i]) simp_all
  moreover have "wt_clock wait_demo 0 + int 1 * 1000 < wt_clock wait_demo (Suc 2)" by (simp add: wait_demo_def)
  ultimately have "\<exists>p' new. ReceiveMsg_wait wait_demo 1 pipe_demo = Some (Inr (p', first_of ([] @ new))) \<and> pipe_queue p' ([] @ new)"
    by (rule ReceiveMsg_wait_returns)
  then show ?thesis by simp
qed

text \<open>The sleep adds to the nanoseconds of the clock without a carry to its seconds: close to the end of a second the thread does not sleep at all.\<close>

lemma SleepUs_end_of_second: "999000000 \<le> nsec \<Longrightarrow> SleepUs nsec (GetTimeToSleepUs 3) = 0"
  by (simp add: SleepUs_def GetTimeToSleepUs_def kTimesSleepUs_def push_bit_eq_mult)

lemma SleepUs_before: "nsec < 998976000 \<Longrightarrow> SleepUs nsec (GetTimeToSleepUs slot) = 1024 * GetTimeToSleepUs slot \<and> GetTimeToSleepUs slot \<le> 1000"
proof -
  assume n: "nsec < 998976000"
  have "GetTimeToSleepUs slot \<in> set kTimesSleepUs" by (simp add: GetTimeToSleepUs_def kTimesSleepUs_def nth_Cons split: nat.split)
  then have "GetTimeToSleepUs slot \<le> 1000" by (auto simp: kTimesSleepUs_def)
  then show ?thesis using n by (simp add: SleepUs_def push_bit_eq_mult)
qed

end
