(* ===== verification/Mpsc_Concurrent.thy ===== *)
theory Mpsc_Concurrent
  imports Mpsc_Pipe
begin

text \<open>
  The message pipe with senders that interrupt each other and the receiver. The steps are the single
  loads, stores and compare-and-swaps on shared memory of \<^verbatim>\<open>SendMsg_\<close> (\<^verbatim>\<open>ReserveSpaceForSend_\<close> and \<^verbatim>\<open>JustSendMsg_\<close>
  in line), \<^verbatim>\<open>ReceiveMsg_\<close> and \<^verbatim>\<open>MsgConsumed\<close>; any number of senders take them in any order. Storing header and size
  is one step, copying the content another.

  Memory is sequentially consistent. Three races are shown here, in which messages are lost or corrupted; \<^verbatim>\<open>Mpsc_Fifo\<close> shows that without them the
  pipe is a FIFO queue. A call that nobody interrupts is shown to
  return and to append to the queue. \<^verbatim>\<open>ReceiveMsg_\<close> is one step, although it loads the published
  pace and then the size word at its own pace.
\<close>

section \<open>Senders\<close>

text \<open>Where a sender is in \<^verbatim>\<open>SendMsg_\<close>, with its local variables: before the loads of the paces and
  the compare-and-swap (message, \<^verbatim>\<open>tmp_sender_pace_to\<close>, \<^verbatim>\<open>tmp_receiver_pace\<close>), before the stores
  (\<^verbatim>\<open>msg\<close>, \<^verbatim>\<open>pos_before_rewind\<close>), in the wait of a rewound message, and in the publication
  (\<^verbatim>\<open>old_send_pace_from\<close>, its address or \<^verbatim>\<open>new_send_pace_from\<close>, \<^verbatim>\<open>current_version\<close>).\<close>

datatype 'h spc =
    SIdle
  | SLoadTo 'h "byte list"
  | SLoadRcv 'h "byte list" u64
  | SCas 'h "byte list" u64 nat
  | SWrite nat "nat option" 'h "byte list"
  | SCopy nat "nat option" "byte list"
  | SReady nat "nat option"
  | SLoadFrom nat "nat option"
  | SSpin "nat option" nat
  | SJump nat
  | SSize u64 nat nat
  | SPub u64 nat nat
  | SLoop nat nat
  | SLoopReady nat nat
  | SLoopSize nat nat

text \<open>The size word read at an address: where no message starts it is an arbitrary word \<open>g\<close>, at the end of the array
  another, \<open>gt\<close>.\<close>

definition read_word :: "u32 \<Rightarrow> u32 \<Rightarrow> 'h mpsc_pipe \<Rightarrow> nat \<Rightarrow> u32" where
  "read_word g gt p a =
     (if a + msg_offset p > end_of_pipe p then gt
      else case pipe_mem p a of CBlank \<Rightarrow> -1 | CHead s _ _ \<Rightarrow> s | CBody \<Rightarrow> g)"

text \<open>What \<^verbatim>\<open>ReserveSpaceForSend_\<close> tries to store, from the two paces it has loaded: the new pace, whether it is
  in a new version, the address of the message and the position before a rewind.\<close>

definition reserve_plan :: "'h mpsc_pipe \<Rightarrow> nat \<Rightarrow> u64 \<Rightarrow> nat \<Rightarrow> (nat \<times> bool \<times> nat \<times> nat option) option" where
  "reserve_plan p n pace rcv =
     (let ptr = DecodeSenderPacePtr pace; need = msg_offset p + n
      in if ptr \<ge> rcv then
           if ptr + need \<le> end_of_pipe p then Some (ptr + need, False, ptr, None)
           else if pipe_begin p + need < rcv then Some (pipe_begin p + need, True, pipe_begin p, Some ptr)
           else None
         else if rcv > ptr \<and> ptr + need < rcv then Some (ptr + need, False, ptr, None)
         else None)"

text \<open>The two stores of \<^verbatim>\<open>SendMsg_\<close>: before the content is copied its bytes are blank.\<close>

definition write_head :: "nat \<Rightarrow> 'h \<Rightarrow> nat \<Rightarrow> 'h mpsc_pipe \<Rightarrow> 'h mpsc_pipe" where
  "write_head a h n p = write_msg a h (replicate n 0xFF) p"

definition copy_content :: "nat \<Rightarrow> byte list \<Rightarrow> 'h mpsc_pipe \<Rightarrow> 'h mpsc_pipe" where
  "copy_content a c p = p\<lparr>pipe_mem := (pipe_mem p)(a :=
     (case pipe_mem p a of CHead s h _ \<Rightarrow> CHead s h c | x \<Rightarrow> x))\<rparr>"

fun sender_step :: "u32 \<Rightarrow> u32 \<Rightarrow> 'h mpsc_pipe \<Rightarrow> 'h spc \<Rightarrow> 'h mpsc_pipe \<times> 'h spc" where
  "sender_step g gt p SIdle = (p, SIdle)"
| "sender_step g gt p (SLoadTo h c) =
     (p, if length c > max_size_content p then SIdle else SLoadRcv h c (sender_pace_to p))"
| "sender_step g gt p (SLoadRcv h c pace) = (p, SCas h c pace (receiver_pace p))"
| "sender_step g gt p (SCas h c pace rcv) =
     (case reserve_plan p (length c) pace rcv of
        None \<Rightarrow> (p, SIdle)
      | Some (new, rewind, a, bef) \<Rightarrow>
          (case CASSenderPaceTo pace new rewind p of (p', ok) \<Rightarrow> (p', if ok then SWrite a bef h c else SIdle)))"
| "sender_step g gt p (SWrite a bef h c) = (write_head a h (length c) p, SCopy a bef c)"
| "sender_step g gt p (SCopy a bef c) = (copy_content a c p, SReady a bef)"
| "sender_step g gt p (SReady a bef) = (SetReady a p, SLoadFrom a bef)"
| "sender_step g gt p (SLoadFrom a bef) =
     (let pace = sender_pace_from p; ptr = DecodeSenderPacePtr pace; version = DecodeSenderPaceVersion pace
      in (p, if ptr = a then SSize pace ptr version
             else if a = pipe_begin p then SSpin bef version else SIdle))"
| "sender_step g gt p (SSpin bef version) =
     (p, if Some (from_ptr p) = bef then SJump ((version + 1) mod kNumVersions) else SSpin bef version)"
| "sender_step g gt p (SJump version) =
     (let pace = EncodeSenderPace (pipe_begin p) version
      in (p\<lparr>sender_pace_from := pace\<rparr>, SSize pace (pipe_begin p) version))"
| "sender_step g gt p (SSize pace ptr version) =
     (let n = GetMsgSize_size p (read_word g gt p ptr)
      in (p, if n = -1 then SIdle else SPub pace (ptr + unat n) version))"
| "sender_step g gt p (SPub pace new version) =
     (case CASSenderPaceFrom pace new False p of (p', ok) \<Rightarrow> (p', if ok then SLoop new version else SIdle))"
| "sender_step g gt p (SLoop new version) = (p, if new = to_ptr p then SIdle else SLoopReady new version)"
| "sender_step g gt p (SLoopReady new version) =
     (p, if IsReady_size (read_word g gt p new) then SLoopSize new version else SIdle)"
| "sender_step g gt p (SLoopSize new version) =
     (let n = GetMsgSize_size p (read_word g gt p new)
      in (p, if n = -1 then SIdle else SPub (EncodeSenderPace new version) (new + unat n) version))"

section \<open>Senders and receiver together\<close>

text \<open>The receiver has a message, or is about to blank one: \<^verbatim>\<open>MsgConsumed\<close> advances its pace first.\<close>

datatype rpc = RIdle | RHas | RBlank nat nat

text \<open>The logs are the messages whose space has been reserved, in that order, and the messages received. The last
  component counts for each sender how far the senders' pace has moved since it loaded that pace.\<close>

record 'h conc =
  cc_pipe :: "'h mpsc_pipe"
  cc_snd :: "nat \<Rightarrow> 'h spc"
  cc_rcv :: rpc
  cc_sent :: "('h \<times> byte list) list"
  cc_got :: "('h \<times> byte list) list"
  cc_ahead :: "nat \<Rightarrow> nat"

text \<open>How far a reservation moves the pace; the end of the array is a position of its own.\<close>

definition pace_advance :: "'h mpsc_pipe \<Rightarrow> nat \<Rightarrow> nat \<Rightarrow> bool \<Rightarrow> nat" where
  "pace_advance p old new rewind =
     (if rewind then (end_of_pipe p + 1 - old) + (new - pipe_begin p) else new - old)"

datatype 'h act = Call nat 'h "byte list" | Snd nat u32 u32 | Rcv

definition snd_step :: "nat \<Rightarrow> u32 \<Rightarrow> u32 \<Rightarrow> 'h conc \<Rightarrow> 'h conc" where
  "snd_step t g gt s =
     (let (p, pc) = sender_step g gt (cc_pipe s) (cc_snd s t);
          s' = s\<lparr>cc_pipe := p, cc_snd := (cc_snd s)(t := pc)\<rparr>
      in (case (cc_snd s t, pc) of
            (SLoadTo h c, _) \<Rightarrow> s'\<lparr>cc_ahead := (cc_ahead s)(t := 0)\<rparr>
          | (SCas h c pace rcv, SWrite a bef _ _) \<Rightarrow>
              (let d = pace_advance p (to_ptr (cc_pipe s)) (to_ptr p) (bef \<noteq> None)
               in s'\<lparr>cc_sent := cc_sent s @ [(h, c)], cc_ahead := (\<lambda>u. cc_ahead s u + d)\<rparr>)
          | _ \<Rightarrow> s'))"

definition rcv_step :: "'h conc \<Rightarrow> 'h conc outcome" where
  "rcv_step s =
     (let p = cc_pipe s in
      case cc_rcv s of
        RIdle \<Rightarrow> obind (ReceiveMsg1 p) (\<lambda>(p, m). Inr (case m of
            None \<Rightarrow> s\<lparr>cc_pipe := p\<rparr>
          | Some x \<Rightarrow> s\<lparr>cc_pipe := p, cc_rcv := RHas, cc_got := cc_got s @ [x]\<rparr>))
      | RHas \<Rightarrow> obind (read_size p (receiver_pace p)) (\<lambda>w.
          let r = receiver_pace p + unat (GetMsgSize_size p w)
          in Inr (s\<lparr>cc_pipe := p\<lparr>receiver_pace := r\<rparr>, cc_rcv := RBlank (receiver_pace p) r\<rparr>))
      | RBlank a b \<Rightarrow> Inr (s\<lparr>cc_pipe := p\<lparr>pipe_mem := SetBlank a b (pipe_mem p)\<rparr>, cc_rcv := RIdle\<rparr>))"

fun act_step :: "'h act \<Rightarrow> 'h conc \<Rightarrow> 'h conc outcome" where
  "act_step (Call t h c) s = Inr (if cc_snd s t = SIdle then s\<lparr>cc_snd := (cc_snd s)(t := SLoadTo h c)\<rparr> else s)"
| "act_step (Snd t g gt) s = Inr (snd_step t g gt s)"
| "act_step Rcv s = rcv_step s"

definition conc_init :: "'h mpsc_pipe \<Rightarrow> 'h conc" where
  "conc_init p = \<lparr>cc_pipe = p, cc_snd = (\<lambda>_. SIdle), cc_rcv = RIdle, cc_sent = [], cc_got = [], cc_ahead = (\<lambda>_. 0)\<rparr>"

fun act_run :: "'h act list \<Rightarrow> 'h conc \<Rightarrow> 'h conc outcome" where
  "act_run [] s = Inr s"
| "act_run (a # as) s = obind (act_step a s) (act_run as)"

section \<open>Three races\<close>

text \<open>The steps of an undisturbed call, twelve at most, and some steps of a sender.\<close>

definition whole_call :: "nat \<Rightarrow> nat \<Rightarrow> byte list \<Rightarrow> nat act list" where
  "whole_call t h c = Call t h c # replicate 12 (Snd t (-1) (-1))"

definition some_steps :: "nat \<Rightarrow> nat \<Rightarrow> nat act list" where
  "some_steps t n = replicate n (Snd t (-1) (-1))"

definition small_pipe :: "nat \<Rightarrow> nat mpsc_pipe" where
  "small_pipe n = the (pipe_Init 8 4096 n 8 0 False)"

lemma small_pipe_eval [simp]:
  "16 < n \<Longrightarrow> small_pipe n = \<lparr>size_pipe = n, max_size_content = 8, threshold_sender_notify = 0, msg_offset = 8,
    pipe_begin = 4096, pipe_mem = SetBlank 4096 (4096 + n) (\<lambda>_. CBody), receiver_pace = 4096,
    sender_pace_from = EncodeSenderPace 4096 0, sender_pace_to = EncodeSenderPace 4096 0\<rparr>"
  by (simp add: small_pipe_def pipe_Init_def)

lemma pace_eval:
  "ptr < 281474976710656 \<Longrightarrow> version < 65536 \<Longrightarrow> DecodeSenderPacePtr (EncodeSenderPace ptr version) = ptr"
  "ptr < 281474976710656 \<Longrightarrow> version < 65536 \<Longrightarrow> DecodeSenderPaceVersion (EncodeSenderPace ptr version) = version"
  using pace_roundtrip [of ptr version] by (simp_all add: kNumVersions_def)

lemma pace_neq:
  "a < 281474976710656 \<Longrightarrow> b < 281474976710656 \<Longrightarrow> v < 65536 \<Longrightarrow> w < 65536 \<Longrightarrow>
   EncodeSenderPace a v = EncodeSenderPace b w \<longleftrightarrow> a = b \<and> v = w"
  using pace_eval [of a v] pace_eval [of b w] by metis

lemma replicate_num: "replicate (numeral k) x = x # replicate (pred_numeral k) x"
  by (simp add: numeral_eq_Suc)

lemma SetBlank_apply: "SetBlank a b m x = (if a \<le> x \<and> x < b then CBlank else m x)" by (simp add: SetBlank_def)

lemmas run_eval = snd_step_def rcv_step_def conc_init_def Let_def CASSenderPaceTo_def CASSenderPaceFrom_def pace_next_def
  reserve_plan_def write_head_def write_msg_def copy_content_def SetReady_def read_word_def GetMsgSize_size_def
  IsReady_size_def IsBlank_size_def IsNotWriting_size_def read_size_def ReceiveMsg1_def HasTodo_def from_ptr_def to_ptr_def
  end_of_pipe_def kMaskNotWriting_def kNumVersions_def pace_advance_def SetBlank_apply pace_eval pace_neq replicate_num
  whole_call_def some_steps_def

text \<open>\<^verbatim>\<open>MsgConsumed\<close> gives the space of a message back before it blanks it: a message placed there meanwhile is
  wiped, and the receiver, whose pace is behind the senders', then finds no message.\<close>

definition wiped_run :: "nat act list" where
  "wiped_run = whole_call 1 1 [1, 1, 1, 1] @ whole_call 1 2 [2, 2, 2, 2] @ [Rcv, Rcv] @ whole_call 2 3 [3, 3, 3] @ replicate 4 Rcv"

lemma conc_wiped:
  "\<exists>s. act_run wiped_run (conc_init (small_pipe 32)) = Inr s
   \<and> cc_sent s = [(1, [1, 1, 1, 1]), (2, [2, 2, 2, 2]), (3, [3, 3, 3])] \<and> cc_got s = [(1, [1, 1, 1, 1]), (2, [2, 2, 2, 2])]
   \<and> cc_snd s = (\<lambda>_. SIdle) \<and> rcv_step s = Inl OutOfRange"
  by (simp add: wiped_run_def run_eval fun_upd_idem)

text \<open>A sender that is to publish does not look at whether the message at the published pace is ready. When it has been
  overtaken by a whole turn of the ring since it marked its own message, that is another message, of which the receiver
  gets the header and bytes that have not been stored yet.\<close>

definition early_run :: "nat act list" where
  "early_run = Call 0 1 [1, 1, 1, 1] # some_steps 0 3 @ Call 1 2 [2, 2, 2, 2] # some_steps 1 6 @ some_steps 0 12 @ replicate 6 Rcv
     @ whole_call 2 3 [3, 3, 3, 3] @ replicate 3 Rcv @ whole_call 2 4 [4, 4, 4, 4] @ replicate 3 Rcv
     @ Call 3 5 [5, 5, 5, 5] # some_steps 3 4 @ some_steps 1 4"

lemma conc_early:
  "\<exists>s. act_run (early_run @ [Rcv]) (conc_init (small_pipe 40)) = Inr s
   \<and> cc_sent s = [(1, [1, 1, 1, 1]), (2, [2, 2, 2, 2]), (3, [3, 3, 3, 3]), (4, [4, 4, 4, 4]), (5, [5, 5, 5, 5])]
   \<and> last (cc_got s) = (5, [255, 255, 255, 255]) \<and> cc_ahead s 1 > 40"
  by (simp add: early_run_def run_eval)
text \<open>The loop that publishes further messages reads a size word wherever the published pace is, at the end of the array too. When the
  bytes there look like a message that is ready the published pace leaves the array, and the receiver follows.\<close>

definition tail_run :: "nat act list" where
  "tail_run = whole_call 1 1 [1, 1, 1, 1] @ whole_call 1 2 [2, 2, 2, 2] @ replicate 6 Rcv
     @ Call 1 3 [3, 3, 3, 3] # some_steps 1 3 @ Call 2 4 [4, 4, 4, 4] # some_steps 2 3 @ replicate 12 (Snd 1 (-1) 0x80000005)"

lemma conc_tail:
  "\<exists>s. act_run tail_run (conc_init (small_pipe 40)) = Inr s \<and> from_ptr (cc_pipe s) > end_of_pipe (cc_pipe s)
     \<and> act_run (replicate 4 Rcv) s = Inl OutOfRange"
  by (simp add: tail_run_def run_eval)

text \<open>Three ways in which interleaved calls go wrong, each in a run of correct calls on a pipe just initialised. A message placed while
  the receiver blanks the one before it is wiped, and the receiver then reads memory where no message starts. A sender overtaken by a turn of
  the ring publishes a message of another sender before its content is there: the receiver gets bytes that nobody sent. Bytes behind
  the array that look like a ready message take the published pace out of the array and the receiver after it.\<close>

theorem conc_races:
  "(\<exists>s. act_run wiped_run (conc_init (small_pipe 32)) = Inr s \<and> cc_snd s = (\<lambda>_. SIdle)
      \<and> length (cc_got s) < length (cc_sent s) \<and> rcv_step s = Inl OutOfRange)
   \<and> (\<exists>s. act_run (early_run @ [Rcv]) (conc_init (small_pipe 40)) = Inr s
      \<and> last (cc_got s) = (5, [255, 255, 255, 255]) \<and> (5, [255, 255, 255, 255]) \<notin> set (cc_sent s))
   \<and> (\<exists>s. act_run tail_run (conc_init (small_pipe 40)) = Inr s \<and> from_ptr (cc_pipe s) > end_of_pipe (cc_pipe s)
      \<and> act_run (replicate 4 Rcv) s = Inl OutOfRange)"
  using conc_wiped conc_early conc_tail by fastforce

section \<open>A call that is not interrupted\<close>

text \<open>The stores of header, size, content and ready bit together.\<close>

lemma stores_together: "SetReady a (copy_content a c (write_head a h (length c) p)) = p\<lparr>pipe_mem := sent_mem (msg_offset p) a h c (pipe_mem p)\<rparr>"
  by (simp add: SetReady_def copy_content_def write_head_def write_msg_def sent_mem_def ready_word_def fun_upd_def cong: if_cong)

lemma plan_accepts:
  "n \<le> max_size_content p \<Longrightarrow> reserve_plan p n (sender_pace_to p) (receiver_pace p) = None \<longleftrightarrow> \<not> accepts p n"
  by (auto simp: reserve_plan_def accepts_def Let_def to_ptr_def add.assoc)

lemma sent_size:
  assumes cfg: "pipe_config p" and c: "length c \<le> max_size_content p" and le: "a + (msg_offset p + length c) \<le> end_of_pipe p"
  shows "GetMsgSize_size (p\<lparr>pipe_mem := m, sender_pace_to := x, sender_pace_from := y\<rparr>)
      (read_word g gt (p\<lparr>pipe_mem := sent_mem (msg_offset p) a h c m', sender_pace_to := x, sender_pace_from := y\<rparr>) a) \<noteq> -1"
    "unat (GetMsgSize_size (p\<lparr>pipe_mem := m, sender_pace_to := x, sender_pace_from := y\<rparr>)
      (read_word g gt (p\<lparr>pipe_mem := sent_mem (msg_offset p) a h c m', sender_pace_to := x, sender_pace_from := y\<rparr>) a)) = msg_offset p + length c"
proof -
  let ?p = "p\<lparr>pipe_mem := m, sender_pace_to := x, sender_pace_from := y\<rparr>"
  have "msg_offset ?p + length c < 2 ^ 31 - 1" using cfg c by (simp add: pipe_config_def)
  note w = ready_word_size [OF this]
  have "read_word g gt (p\<lparr>pipe_mem := sent_mem (msg_offset p) a h c m', sender_pace_to := x, sender_pace_from := y\<rparr>) a = ready_word (length c)"
    using le by (simp add: read_word_def end_of_pipe_def sent_mem_def)
  then show "GetMsgSize_size ?p (read_word g gt (p\<lparr>pipe_mem := sent_mem (msg_offset p) a h c m', sender_pace_to := x, sender_pace_from := y\<rparr>) a) \<noteq> -1"
    "unat (GetMsgSize_size ?p (read_word g gt (p\<lparr>pipe_mem := sent_mem (msg_offset p) a h c m', sender_pace_to := x, sender_pace_from := y\<rparr>) a)) = msg_offset p + length c"
    using w by simp_all
qed

definition alone :: "u32 \<Rightarrow> u32 \<Rightarrow> nat \<Rightarrow> 'h mpsc_pipe \<times> 'h spc \<Rightarrow> 'h mpsc_pipe \<times> 'h spc" where
  "alone g gt n = (\<lambda>(p, pc). sender_step g gt p pc) ^^ n"

lemma alone_simps: "alone g gt 0 x = x" "alone g gt (Suc n) (p, pc) = alone g gt n (sender_step g gt p pc)"
  by (simp_all add: alone_def funpow_swap1)

lemma alone_num: "alone g gt (numeral k) (p, pc) = alone g gt (pred_numeral k) (sender_step g gt p pc)"
  by (simp add: numeral_eq_Suc alone_simps)

lemma alone_idle: "alone g gt n (p, SIdle) = (p, SIdle)"
  by (induction n) (simp_all add: alone_simps)

text \<open>From the ready message at the published pace to the end of the call.\<close>

lemma alone_publish:
  assumes cfg: "pipe_config p" and c: "length c \<le> max_size_content p" and le: "a + (msg_offset p + length c) \<le> end_of_pipe p"
    and v: "v < kNumVersions" and q: "q = p\<lparr>pipe_mem := sent_mem (msg_offset p) a h c (pipe_mem p), sender_pace_to := EncodeSenderPace (a + (msg_offset p + length c)) v,
      sender_pace_from := EncodeSenderPace a v\<rparr>"
  shows "alone g gt (3 + n) (q, SSize (EncodeSenderPace a v) a v) = (sent p a h c (EncodeSenderPace (a + (msg_offset p + length c)) v), SIdle)"
proof -
  let ?b = "a + (msg_offset p + length c)"
  have lt: "?b < 2 ^ 48" "a < 2 ^ 48" using le cfg by (simp_all add: pipe_config_def)
  note sz = sent_size [OF cfg c le]
  have 1: "sender_step g gt q (SSize (EncodeSenderPace a v) a v) = (q, SPub (EncodeSenderPace a v) ?b v)"
    using sz by (simp add: q Let_def)
  have 2: "sender_step g gt q (SPub (EncodeSenderPace a v) ?b v) = (sent p a h c (EncodeSenderPace ?b v), SLoop ?b v)"
    using pace_roundtrip [OF lt(2) v] by (simp add: q CASSenderPaceFrom_def pace_next_def Let_def sent_def)
  have 3: "sender_step g gt (sent p a h c (EncodeSenderPace ?b v)) (SLoop ?b v) = (sent p a h c (EncodeSenderPace ?b v), SIdle)"
    using pace_roundtrip [OF lt(1) v] by (simp add: to_ptr_def sent_def)
  show ?thesis by (simp only: numeral_3_eq_3 add_Suc add_0 alone_simps 1 2 3 alone_idle)
qed

text \<open>From the compare-and-swap that reserves the space to the publication.\<close>

lemma alone_stores:
  assumes cas: "reserve_plan p (length c) (sender_pace_to p) (receiver_pace p) = Some (b, rw, a, bef)"
    and r: "CASSenderPaceTo (sender_pace_to p) b rw p = (r, True)" and c: "length c \<le> max_size_content p"
  shows "alone g gt (6 + n) (p, SLoadTo h c) = alone g gt n (r\<lparr>pipe_mem := sent_mem (msg_offset r) a h c (pipe_mem r)\<rparr>, SLoadFrom a bef)"
proof -
  have "alone g gt (Suc (Suc (Suc (Suc (Suc (Suc n)))))) (p, SLoadTo h c)
      = alone g gt n (SetReady a (copy_content a c (write_head a h (length c) r)), SLoadFrom a bef)"
    using c cas r by (simp add: alone_simps)
  then show ?thesis by (simp add: stores_together numeral_eq_Suc)
qed

lemma alone_stay:
  assumes cfg: "pipe_config p" and v: "v < kNumVersions" "sender_pace_to p = EncodeSenderPace t v" "sender_pace_from p = EncodeSenderPace t v"
    and c: "length c \<le> max_size_content p" and le: "t + (msg_offset p + length c) \<le> end_of_pipe p"
    and room: "receiver_pace p \<le> t \<or> t + (msg_offset p + length c) < receiver_pace p"
  shows "alone g gt 12 (p, SLoadTo h c) = (sent p t h c (EncodeSenderPace (t + (msg_offset p + length c)) v), SIdle)"
proof -
  let ?b = "t + (msg_offset p + length c)"
  let ?r = "p\<lparr>sender_pace_to := EncodeSenderPace ?b v\<rparr>"
  let ?q = "p\<lparr>pipe_mem := sent_mem (msg_offset p) t h c (pipe_mem p), sender_pace_to := EncodeSenderPace ?b v, sender_pace_from := EncodeSenderPace t v\<rparr>"
  have lt: "t < 2 ^ 48" using le cfg by (simp add: pipe_config_def)
  note ptr = pace_roundtrip [OF lt v(1)]
  have plan: "reserve_plan p (length c) (sender_pace_to p) (receiver_pace p) = Some (?b, False, t, None)"
    using le room by (auto simp: reserve_plan_def Let_def v(2) ptr)
  have cas: "CASSenderPaceTo (sender_pace_to p) ?b False p = (?r, True)"
    using ptr v by (simp add: CASSenderPaceTo_def pace_next_def)
  have q: "?r\<lparr>pipe_mem := sent_mem (msg_offset ?r) t h c (pipe_mem ?r)\<rparr> = ?q" using v(3) by simp
  have "alone g gt 12 (p, SLoadTo h c) = alone g gt 6 (?q, SLoadFrom t None)"
    using alone_stores [OF plan cas c, of g gt 6 h] unfolding q by simp
  also have "\<dots> = alone g gt (3 + 2) (?q, SSize (EncodeSenderPace t v) t v)"
    using ptr alone_simps(2) [of g gt 5 ?q "SLoadFrom t None"] by (simp add: Let_def)
  also have "\<dots> = (sent p t h c (EncodeSenderPace ?b v), SIdle)"
    by (rule alone_publish [OF cfg c le v(1) refl])
  finally show ?thesis .
qed

lemma alone_rewind:
  assumes cfg: "pipe_config p" and v: "v < kNumVersions" "sender_pace_to p = EncodeSenderPace t v" "sender_pace_from p = EncodeSenderPace t v"
    and c: "length c \<le> max_size_content p" and nle: "\<not> t + (msg_offset p + length c) \<le> end_of_pipe p" "t \<le> end_of_pipe p"
    and room: "receiver_pace p \<le> t" "pipe_begin p + (msg_offset p + length c) < receiver_pace p"
  shows "alone g gt 12 (p, SLoadTo h c) = (sent p (pipe_begin p) h c
    (EncodeSenderPace (pipe_begin p + (msg_offset p + length c)) ((v + 1) mod kNumVersions)), SIdle)"
proof -
  let ?a = "pipe_begin p" and ?w = "(v + 1) mod kNumVersions"
  let ?b = "?a + (msg_offset p + length c)"
  let ?r = "p\<lparr>sender_pace_to := EncodeSenderPace ?b ?w\<rparr>"
  let ?q = "p\<lparr>pipe_mem := sent_mem (msg_offset p) ?a h c (pipe_mem p), sender_pace_to := EncodeSenderPace ?b ?w\<rparr>"
  let ?j = "p\<lparr>pipe_mem := sent_mem (msg_offset p) ?a h c (pipe_mem p), sender_pace_to := EncodeSenderPace ?b ?w, sender_pace_from := EncodeSenderPace ?a ?w\<rparr>"
  have lt: "t < 2 ^ 48" using nle cfg by (simp add: pipe_config_def)
  have w: "?w < kNumVersions" by (simp add: kNumVersions_def)
  note ptr = pace_roundtrip [OF lt v(1)]
  have le: "?b \<le> end_of_pipe p" using room nle by simp
  have ne: "t \<noteq> ?a" using room by simp
  have plan: "reserve_plan p (length c) (sender_pace_to p) (receiver_pace p) = Some (?b, True, ?a, Some t)"
    using nle room by (simp add: reserve_plan_def Let_def v(2) ptr)
  have cas: "CASSenderPaceTo (sender_pace_to p) ?b True p = (?r, True)"
    using ptr v by (simp add: CASSenderPaceTo_def pace_next_def)
  have q: "?r\<lparr>pipe_mem := sent_mem (msg_offset ?r) ?a h c (pipe_mem ?r)\<rparr> = ?q" by simp
  have "alone g gt 12 (p, SLoadTo h c) = alone g gt 6 (?q, SLoadFrom ?a (Some t))"
    using alone_stores [OF plan cas c, of g gt 6 h] unfolding q by simp
  also have "\<dots> = alone g gt 5 (?q, SSpin (Some t) v)"
    using ptr ne v(3) alone_simps(2) [of g gt 5 ?q "SLoadFrom ?a (Some t)"] by simp
  also have "\<dots> = alone g gt 4 (?q, SJump ?w)"
    using ptr v(3) alone_simps(2) [of g gt 4 ?q "SSpin (Some t) v"] by (simp add: from_ptr_def)
  also have "\<dots> = alone g gt (3 + 0) (?j, SSize (EncodeSenderPace ?a ?w) ?a ?w)"
    using alone_simps(2) [of g gt 3 ?q "SJump ?w"] by (simp add: Let_def)
  also have "\<dots> = (sent p ?a h c (EncodeSenderPace ?b ?w), SIdle)"
    by (rule alone_publish [OF cfg c le w refl])
  finally show ?thesis .
qed

lemma alone_refused:
  assumes "\<not> accepts p (length c)"
  shows "alone g gt 12 (p, SLoadTo h c) = (p, SIdle)"
proof (cases "length c \<le> max_size_content p")
  case True
  then show ?thesis using plan_accepts [OF True] assms by (simp add: alone_num alone_idle)
next
  case False
  then show ?thesis by (simp add: alone_num alone_idle)
qed

text \<open>Such a call takes at most twelve steps and does what \<^verbatim>\<open>SendMsg1\<close> does at once.\<close>

lemma alone_SendMsg1:
  assumes "pipe_queue p q"
  shows "\<exists>p'. alone g gt 12 (p, SLoadTo h c) = (p', SIdle) \<and> SendMsg1 h c p = Some (Inr (p', accepts p (length c)))"
proof (cases "accepts p (length c)")
  case False
  then show ?thesis by (simp add: alone_refused send_refused)
next
  case acc: True
  obtain t where cfg: "pipe_config p" and t: "paces_at p t" "t \<le> end_of_pipe p" and r: "receiver_pace p \<le> end_of_pipe p"
    using assms by (auto simp: pipe_queue_def unwrapped_def wrapped_def)
  obtain v where v: "v < kNumVersions" "sender_pace_to p = EncodeSenderPace t v" "sender_pace_from p = EncodeSenderPace t v"
    using t by (auto simp: paces_at_def)
  have c: "length c \<le> max_size_content p" using acc by (simp add: accepts_def)
  have "t < 2 ^ 48" using t cfg by (simp add: pipe_config_def)
  then have "to_ptr p = t" using t by (simp add: paces_ptr)
  then consider "t + (msg_offset p + length c) \<le> end_of_pipe p" "receiver_pace p \<le> t \<or> t + (msg_offset p + length c) < receiver_pace p"
    | "\<not> t + (msg_offset p + length c) \<le> end_of_pipe p" "receiver_pace p \<le> t" "pipe_begin p + (msg_offset p + length c) < receiver_pace p"
    using acc r by (fastforce simp: accepts_def add.assoc split: if_splits)
  then show ?thesis
  proof cases
    case 1
    then show ?thesis using alone_stay [OF cfg v c] send_stay [OF cfg v c] acc by simp
  next
    case 2
    then show ?thesis using alone_rewind [OF cfg v c] send_rewind [OF cfg v c] t acc by simp
  qed
qed

text \<open>The steps of one thread, and what they log: the message, when its space is reserved.\<close>

lemma act_run_alone:
  "\<exists>s'. act_run (replicate n (Snd t g gt)) s = Inr s' \<and> (cc_pipe s', cc_snd s' t) = alone g gt n (cc_pipe s, cc_snd s t)
     \<and> (\<forall>u. u \<noteq> t \<longrightarrow> cc_snd s' u = cc_snd s u) \<and> cc_rcv s' = cc_rcv s \<and> cc_got s' = cc_got s"
proof (induction n arbitrary: s)
  case (Suc n)
  let ?s = "snd_step t g gt s"
  have "(cc_pipe ?s, cc_snd ?s t) = sender_step g gt (cc_pipe s) (cc_snd s t) \<and> (\<forall>u. u \<noteq> t \<longrightarrow> cc_snd ?s u = cc_snd s u)
      \<and> cc_rcv ?s = cc_rcv s \<and> cc_got ?s = cc_got s"
    by (auto simp: snd_step_def Let_def split: prod.splits spc.splits)
  then show ?case using Suc.IH [of ?s] by (auto simp: alone_simps)
qed (simp add: alone_simps)

fun reserving :: "'h spc \<Rightarrow> bool" where
  "reserving (SLoadTo h c) = True"
| "reserving (SLoadRcv h c pace) = True"
| "reserving (SCas h c pace rcv) = True"
| "reserving _ = False"

lemma reserved_log:
  assumes "\<not> reserving (cc_snd s t)" "act_run (replicate n (Snd t g gt)) s = Inr s'"
  shows "cc_sent s' = cc_sent s"
  using assms
proof (induction n arbitrary: s)
  case (Suc n)
  have "\<not> reserving (snd (sender_step g gt (cc_pipe s) (cc_snd s t)))"
    using Suc.prems(1) by (cases "cc_snd s t") (auto simp: Let_def split: prod.splits)
  moreover have "cc_sent (snd_step t g gt s) = cc_sent s"
    using Suc.prems(1) by (cases "cc_snd s t") (auto simp: snd_step_def Let_def split: prod.splits)
  moreover have "cc_snd (snd_step t g gt s) t = snd (sender_step g gt (cc_pipe s) (cc_snd s t))"
    by (auto simp: snd_step_def Let_def split: prod.splits spc.splits)
  ultimately show ?case using Suc.IH [of "snd_step t g gt s"] Suc.prems(2) by simp
qed simp

lemma send_log:
  assumes "cc_snd s t = SLoadTo h c" "act_run (replicate 12 (Snd t g gt)) s = Inr s'"
  shows "cc_sent s' = cc_sent s @ (if accepts (cc_pipe s) (length c) then [(h, c)] else [])"
proof -
  let ?p = "cc_pipe s"
  let ?s3 = "snd_step t g gt (snd_step t g gt (snd_step t g gt s))"
  have run: "act_run (replicate 9 (Snd t g gt)) ?s3 = Inr s'" using assms(2) by (simp add: replicate_num)
  consider (long) "max_size_content ?p < length c" | (full) "length c \<le> max_size_content ?p" "\<not> accepts ?p (length c)" | (room) "length c \<le> max_size_content ?p" "accepts ?p (length c)"
    by linarith
  then show ?thesis
  proof cases
    case long
    then have "cc_snd ?s3 t = SIdle" "cc_sent ?s3 = cc_sent s" "\<not> accepts ?p (length c)"
      using assms(1) by (auto simp: snd_step_def accepts_def)
    then show ?thesis using reserved_log [OF _ run] by simp
  next
    case full
    then have "cc_snd ?s3 t = SIdle" "cc_sent ?s3 = cc_sent s" using assms(1) plan_accepts [OF full(1)] by (auto simp: snd_step_def)
    then show ?thesis using reserved_log [OF _ run] full by simp
  next
    case room
    then obtain b rw a bef where plan: "reserve_plan ?p (length c) (sender_pace_to ?p) (receiver_pace ?p) = Some (b, rw, a, bef)"
      using plan_accepts [OF room(1)] by (cases "reserve_plan ?p (length c) (sender_pace_to ?p) (receiver_pace ?p)") auto
    obtain p' where "CASSenderPaceTo (sender_pace_to ?p) b rw ?p = (p', True)" by (simp add: CASSenderPaceTo_def Let_def)
    then have "cc_snd ?s3 t = SWrite a bef h c" "cc_sent ?s3 = cc_sent s @ [(h, c)]"
      using assms(1) room plan by (auto simp: snd_step_def Let_def)
    then show ?thesis using reserved_log [OF _ run] room by simp
  qed
qed

text \<open>C15. A call of \<^verbatim>\<open>SendMsg\<close> that meets no other step returns: twelve steps on shared memory are enough, whatever the memory where no message starts holds. When the
  pipe holds a queue of messages and has room for this one, behind the last or, after a rewind, before the first, it then holds the queue with this message
  at its end, and the message is among those reserved; otherwise nothing has changed. Other threads are where they were.\<close>

theorem uninterrupted_send:
  assumes "pipe_queue (cc_pipe s) q" "cc_snd s t = SIdle"
  shows "\<exists>s'. act_run (Call t h c # replicate 12 (Snd t g gt)) s = Inr s' \<and> cc_snd s' = cc_snd s \<and> cc_rcv s' = cc_rcv s \<and> cc_got s' = cc_got s
    \<and> (if accepts (cc_pipe s) (length c) then pipe_queue (cc_pipe s') (q @ [(h, c)]) \<and> cc_sent s' = cc_sent s @ [(h, c)]
       else cc_pipe s' = cc_pipe s \<and> cc_sent s' = cc_sent s)"
proof -
  let ?s = "s\<lparr>cc_snd := (cc_snd s)(t := SLoadTo h c)\<rparr>"
  obtain s' where s': "act_run (replicate 12 (Snd t g gt)) ?s = Inr s'" "(cc_pipe s', cc_snd s' t) = alone g gt 12 (cc_pipe s, SLoadTo h c)"
    "\<And>u. u \<noteq> t \<Longrightarrow> cc_snd s' u = cc_snd s u" "cc_rcv s' = cc_rcv s" "cc_got s' = cc_got s"
    using act_run_alone [of 12 t g gt ?s] by auto
  obtain p' where p': "alone g gt 12 (cc_pipe s, SLoadTo h c) = (p', SIdle)" "SendMsg1 h c (cc_pipe s) = Some (Inr (p', accepts (cc_pipe s) (length c)))"
    using alone_SendMsg1 [OF assms(1)] by blast
  have "cc_snd s' u = cc_snd s u" for u using s'(2,3) p'(1) assms(2) by (cases "u = t") auto
  then have "cc_snd s' = cc_snd s" ..
  moreover have "if accepts (cc_pipe s) (length c) then pipe_queue p' (q @ [(h, c)]) else p' = cc_pipe s"
    using p'(2) send_accepted [OF assms(1), of c h] send_refused [of "cc_pipe s" c h] by auto
  moreover have "cc_sent s' = cc_sent s @ (if accepts (cc_pipe s) (length c) then [(h, c)] else [])"
    using send_log [OF _ s'(1)] by simp
  ultimately show ?thesis using s' p'(1) assms(2) by auto
qed

theorem uninterrupted_send_witness:
  "\<exists>s'. act_run (Call 1 7 [1, 2] # replicate 12 (Snd 1 0 0)) (conc_init (small_pipe 32)) = Inr s' \<and> cc_sent s' = [(7, [1, 2])]
     \<and> pipe_queue (cc_pipe s') [(7, [1, 2])]"
proof -
  have i: "pipe_Init 8 4096 32 8 0 False = Some (small_pipe 32)" by (simp add: pipe_Init_def)
  have "pipe_queue (small_pipe 32) []" by (rule pipe_init_queue [OF i]) simp_all
  moreover have "accepts (small_pipe 32) (length [1 :: byte, 2])" by (simp add: accepts_def to_ptr_def pace_eval end_of_pipe_def)
  moreover have "cc_pipe (conc_init p) = p" "cc_snd (conc_init p) t = SIdle" "cc_sent (conc_init p) = []" for p :: "nat mpsc_pipe" and t
    by (simp_all add: conc_init_def)
  ultimately show ?thesis using uninterrupted_send [of "conc_init (small_pipe 32)" "[]" 1 7 "[1, 2]" 0 0] by (auto simp del: act_run.simps small_pipe_eval)
qed

end
