(* ===== verification/Mpsc_Layout.thy ===== *)
theory Mpsc_Layout
  imports Mpsc_Concurrent
begin

text \<open>
  Where the messages of the interleaved pipe lie. Positions count through the turns of the ring, the messages are laid out along them,
  and memory between the receiver and a turn later is determined by the layout and by how far each message has come. It
  is shown that each access to the shared memory, by a sender or by the receiver, keeps this so.
\<close>

section \<open>Positions\<close>

text \<open>Positions count through the turns of the ring; a turn has one more position than the array has bytes, the end.\<close>

definition turn :: "'h mpsc_pipe \<Rightarrow> nat" where "turn p = size_pipe p + 1"

definition adr :: "'h mpsc_pipe \<Rightarrow> nat \<Rightarrow> nat" where "adr p v = pipe_begin p + v mod turn p"

definition pace_at :: "'h mpsc_pipe \<Rightarrow> nat \<Rightarrow> u64" where
  "pace_at p v = EncodeSenderPace (adr p v) (v div turn p mod kNumVersions)"

text \<open>The beginning of the next turn.\<close>

definition nxt :: "'h mpsc_pipe \<Rightarrow> nat \<Rightarrow> nat" where "nxt p v = (v div turn p + 1) * turn p"

lemma turn_pos [simp]: "0 < turn p" "turn p \<noteq> 0" by (simp_all add: turn_def)

lemma mod_turn: "v mod turn p \<le> size_pipe p"
  using mod_less_divisor [of "turn p" v] by (simp add: turn_def)

lemma adr_bounds: "pipe_begin p \<le> adr p v" "adr p v \<le> end_of_pipe p"
  using mod_turn [of v p] by (simp_all add: adr_def end_of_pipe_def)

lemma adr_inj: "a \<le> b \<Longrightarrow> b < a + turn p \<Longrightarrow> adr p a = adr p b \<Longrightarrow> a = b"
proof -
  assume ab: "a \<le> b" "b < a + turn p" "adr p a = adr p b"
  then have "turn p dvd b - a" using mod_eq_dvd_iff_nat [of a b "turn p"] by (simp add: adr_def)
  moreover have "b - a < turn p" using ab by simp
  ultimately have "b - a = 0" by (metis dvd_imp_le not_le zero_less_iff_neq_zero)
  then show "a = b" using ab by simp
qed

lemma adr_turn [simp]: "adr p (v + turn p) = adr p v" by (simp add: adr_def)

lemma pos_add:
  assumes "v mod turn p + n \<le> size_pipe p"
  shows "(v + n) mod turn p = v mod turn p + n" "(v + n) div turn p = v div turn p" "adr p (v + n) = adr p v + n"
proof -
  have lt: "v mod turn p + n < turn p" using assms by (simp add: turn_def)
  have e: "v + n = (v mod turn p + n) + v div turn p * turn p" by (simp add: mult.commute)
  show m: "(v + n) mod turn p = v mod turn p + n" by (subst e, subst mod_mult_self1) (simp add: lt)
  show "(v + n) div turn p = v div turn p" by (subst e, subst div_mult_self1) (simp_all add: lt)
  show "adr p (v + n) = adr p v + n" by (simp add: adr_def m)
qed

lemma nxt_simps [simp]: "nxt p v mod turn p = 0" "nxt p v div turn p = v div turn p + 1" "adr p (nxt p v) = pipe_begin p"
  by (simp_all add: nxt_def adr_def del: mult_Suc add_Suc_right)

lemma nxt_gt: "v < nxt p v" "nxt p v \<le> v + turn p"
proof -
  have "v = v div turn p * turn p + v mod turn p" "v mod turn p < turn p" "nxt p v = v div turn p * turn p + turn p"
    by (simp_all add: nxt_def)
  then show "v < nxt p v" "nxt p v \<le> v + turn p" by linarith+
qed

lemma nxt_least: "v < w \<Longrightarrow> w mod turn p = 0 \<Longrightarrow> nxt p v \<le> w"
proof -
  assume "v < w" "w mod turn p = 0"
  then obtain k where k: "w = k * turn p" by (metis mod_eq_0_iff_dvd dvd_def mult.commute)
  then have "v div turn p < k" using \<open>v < w\<close> by (simp add: less_mult_imp_div_less)
  then have "(v div turn p + 1) * turn p \<le> k * turn p" by (intro mult_le_mono1) simp
  then show ?thesis by (simp add: nxt_def k)
qed

lemma div_eq_nxt: "x \<le> y \<Longrightarrow> nxt p y < x + turn p \<Longrightarrow> x div turn p = y div turn p"
proof -
  assume xy: "x \<le> y" "nxt p y < x + turn p"
  have "y div turn p * turn p < x" using xy(2) by (simp add: nxt_def)
  then have "y div turn p \<le> x div turn p" by (metis div_mult_self_is_m div_le_mono less_imp_le turn_pos(1))
  moreover have "x div turn p \<le> y div turn p" using xy(1) by (rule div_le_mono)
  ultimately show ?thesis by simp
qed

lemma pace_at_ptr: "pipe_config p \<Longrightarrow> DecodeSenderPacePtr (pace_at p v) = adr p v"
  and pace_at_version: "pipe_config p \<Longrightarrow> DecodeSenderPaceVersion (pace_at p v) = v div turn p mod kNumVersions"
proof -
  assume c: "pipe_config p"
  have "adr p v < 2 ^ 48" "v div turn p mod kNumVersions < kNumVersions"
    using adr_bounds(2) [of p v] c by (auto simp: pipe_config_def kNumVersions_def)
  from pace_roundtrip [OF this] show "DecodeSenderPacePtr (pace_at p v) = adr p v"
    "DecodeSenderPaceVersion (pace_at p v) = v div turn p mod kNumVersions" by (simp_all add: pace_at_def)
qed

lemma pace_at_inj:
  assumes "pipe_config p" "a \<le> b" "b < a + turn p" "pace_at p a = pace_at p b"
  shows "a = b"
  using assms adr_inj [of a b p] pace_at_ptr [of p] by metis

section \<open>Layout of messages\<close>

text \<open>Messages with the position they start at, laid out from one position to another: each follows the one before, or starts the
  next turn.\<close>

type_synonym 'h vmsg = "nat \<times> 'h \<times> byte list"

definition mend :: "'h mpsc_pipe \<Rightarrow> 'h vmsg \<Rightarrow> nat" where
  "mend p m = fst m + (msg_offset p + length (snd (snd m)))"

fun lay :: "'h mpsc_pipe \<Rightarrow> nat \<Rightarrow> 'h vmsg list \<Rightarrow> nat \<Rightarrow> bool" where
  "lay p x [] y \<longleftrightarrow> y = x"
| "lay p x (m # ms) y \<longleftrightarrow> (fst m = x \<or> fst m = nxt p x) \<and> length (snd (snd m)) \<le> max_size_content p
     \<and> fst m mod turn p + (msg_offset p + length (snd (snd m))) \<le> size_pipe p \<and> lay p (mend p m) ms y"

lemma mend_gt: "fst m \<le> mend p m" "0 < msg_offset p \<Longrightarrow> fst m < mend p m" by (simp_all add: mend_def)

lemma lay_le: "lay p x ms y \<Longrightarrow> x \<le> y"
proof (induction ms arbitrary: x)
  case (Cons m ms)
  then have "mend p m \<le> y" "x \<le> fst m" using nxt_gt(1) [of x p] by auto
  then show ?case using mend_gt(1) [of m p] by linarith
qed simp

lemma lay_append: "lay p x (A @ B) y \<longleftrightarrow> (\<exists>k. lay p x A k \<and> lay p k B y)"
  by (induction A arbitrary: x) auto

lemma lay_mem:
  assumes "lay p x ms y" "m \<in> set ms"
  shows "x \<le> fst m" "mend p m \<le> y" "length (snd (snd m)) \<le> max_size_content p"
    "fst m mod turn p + (msg_offset p + length (snd (snd m))) \<le> size_pipe p"
proof -
  obtain A B where "ms = A @ m # B" using assms(2) by (meson split_list)
  then obtain k where k: "lay p x A k" "lay p k (m # B) y" using assms(1) by (auto simp: lay_append)
  then show "length (snd (snd m)) \<le> max_size_content p" "fst m mod turn p + (msg_offset p + length (snd (snd m))) \<le> size_pipe p"
    by simp_all
  show "mend p m \<le> y" using k(2) lay_le by auto
  show "x \<le> fst m" using lay_le [OF k(1)] k(2) nxt_gt(1) [of k p] by auto
qed

lemma lay_sep:
  assumes "lay p x ms y" "m \<in> set ms" "m' \<in> set ms" "fst m \<le> fst m'" "0 < msg_offset p"
  shows "m = m' \<or> mend p m \<le> fst m'"
  using assms(1-3)
proof (induction ms arbitrary: x)
  case (Cons a ms)
  then have l: "lay p (mend p a) ms y" by simp
  have behind: "mend p a \<le> fst b" if "b \<in> set ms" for b using lay_mem(1) [OF l that] .
  show ?case
  proof (cases "m \<in> set ms \<and> m' \<in> set ms")
    case True
    then show ?thesis using Cons.IH [OF l] by blast
  next
    case False
    then consider "m = a" "m' = a" | "m = a" "m' \<in> set ms" | "m \<in> set ms" "m' = a" using Cons.prems by auto
    then show ?thesis
    proof cases
      case 3
      then have "fst a < fst m" using behind [of m] mend_gt(2) [OF assms(5), of a] by simp
      with 3 assms(4) show ?thesis by simp
    qed (use behind in auto)
  qed
qed simp

lemma lay_hd:
  assumes "lay p x ms y" "m \<in> set ms" "fst m = x" "0 < msg_offset p"
  shows "\<exists>ms'. ms = m # ms'"
proof -
  obtain A B where AB: "ms = A @ m # B" using assms(2) by (meson split_list)
  show ?thesis
  proof (cases A)
    case (Cons a A')
    then have "lay p x (a # A' @ m # B) y" using assms(1) AB by simp
    then have "x \<le> fst a" "mend p a \<le> fst m"
      using lay_mem(1) [OF assms(1), of a] lay_mem(1) [of p "mend p a" "A' @ m # B" y m] AB Cons by auto
    then show ?thesis using mend_gt(2) [OF assms(4), of a] assms(3) by simp
  qed (use AB in simp)
qed

section \<open>Contents of memory\<close>

text \<open>How far a message has come: reserved, header and size stored, content copied, ready.\<close>

datatype phase = PhRes | PhHead | PhCopied | PhReady

fun msg_cell :: "phase \<Rightarrow> 'h vmsg \<Rightarrow> nat \<Rightarrow> 'h pipe_cell" where
  "msg_cell PhRes (v, h, c) u = CBlank"
| "msg_cell PhHead (v, h, c) u = (if u = v then CHead (of_nat (length c)) h (replicate (length c) 0xFF) else CBody)"
| "msg_cell PhCopied (v, h, c) u = (if u = v then CHead (of_nat (length c)) h c else CBody)"
| "msg_cell PhReady (v, h, c) u = (if u = v then CHead (ready_word (length c)) h c else CBody)"

definition covers :: "'h mpsc_pipe \<Rightarrow> 'h vmsg \<Rightarrow> nat \<Rightarrow> bool" where
  "covers p m u \<longleftrightarrow> fst m \<le> u \<and> u < mend p m"

fun cell :: "'h mpsc_pipe \<Rightarrow> (nat \<Rightarrow> phase) \<Rightarrow> 'h vmsg list \<Rightarrow> nat \<Rightarrow> 'h pipe_cell" where
  "cell p ph [] u = CBlank"
| "cell p ph (m # ms) u = (if covers p m u then msg_cell (ph (fst m)) m u else cell p ph ms u)"

lemma cell_out: "(\<And>m. m \<in> set ms \<Longrightarrow> \<not> covers p m u) \<Longrightarrow> cell p ph ms u = CBlank"
  by (induction ms) auto

lemma covers_unique:
  assumes "lay p x ms y" "m \<in> set ms" "m' \<in> set ms" "covers p m u" "covers p m' u" "0 < msg_offset p"
  shows "m = m'"
  using lay_sep [OF assms(1-3) _ assms(6)] lay_sep [OF assms(1,3,2) _ assms(6)] assms(4,5)
  unfolding covers_def by (metis dual_order.trans linorder_not_less nle_le)

lemma cell_in:
  assumes "lay p x ms y" "m \<in> set ms" "covers p m u" "0 < msg_offset p"
  shows "cell p ph ms u = msg_cell (ph (fst m)) m u"
proof -
  have "cell p ph ns u = msg_cell (ph (fst m)) m u" if "set ns \<subseteq> set ms" "m \<in> set ns" for ns
    using that covers_unique [OF assms(1) _ assms(2) _ assms(3,4)] assms(3) by (induction ns) auto
  then show ?thesis using assms(2) by blast
qed

lemma cell_append_out:
  "(\<And>m. m \<in> set ns \<Longrightarrow> \<not> covers p m u) \<Longrightarrow> cell p ph (ms @ ns) u = cell p ph ms u"
  by (induction ms) (auto simp: cell_out)

lemma cell_cong: "(\<And>m. m \<in> set ms \<Longrightarrow> covers p m u \<Longrightarrow> ph (fst m) = ph' (fst m)) \<Longrightarrow> cell p ph ms u = cell p ph' ms u"
  by (induction ms) auto

text \<open>A step of one message changes the cells of that message only.\<close>

lemma cell_phase:
  assumes "lay p x ms y" "m \<in> set ms" "0 < msg_offset p"
  shows "cell p (ph(fst m := f)) ms u = (if covers p m u then msg_cell f m u else cell p ph ms u)"
proof (cases "covers p m u")
  case True
  then show ?thesis using cell_in [OF assms(1,2) True assms(3), of "ph(fst m := f)"] by simp
next
  case False
  have "fst b \<noteq> fst m" if "b \<in> set ms" "covers p b u" for b
    using lay_sep [OF assms(1) that(1) assms(2) _ assms(3)] that(2) False mend_gt(2) [OF assms(3), of b] by auto
  then show ?thesis using False by (auto intro!: cell_cong)
qed

section \<open>The invariant of the pipe\<close>

text \<open>What the proof knows beside the state: the positions of the senders' paces, of the receiver and of what
  it has still to blank, the messages published and pending with their positions, how far each has come, and
  the position each sender works at.\<close>

record 'h aux =
  ax_to :: nat
  ax_from :: nat
  ax_rd :: nat
  ax_low :: nat
  ax_pub :: "'h vmsg list"
  ax_pend :: "'h vmsg list"
  ax_ph :: "nat \<Rightarrow> phase"
  ax_at :: "nat \<Rightarrow> nat"

definition geom :: "'h mpsc_pipe \<Rightarrow> nat \<times> nat \<times> nat \<times> nat" where
  "geom p = (size_pipe p, max_size_content p, msg_offset p, pipe_begin p)"

definition laid_out :: "'h mpsc_pipe \<Rightarrow> 'h aux \<Rightarrow> bool" where
  "laid_out q x \<longleftrightarrow> (\<exists>y. lay q (ax_rd x) (ax_pub x) y \<and> lay q y (ax_pend x) (ax_to x)
     \<and> (ax_from x = y \<or> ax_from x = nxt q y \<and> (\<exists>m ms. ax_pend x = m # ms \<and> fst m = ax_from x)))"

definition mem_inv :: "'h mpsc_pipe \<Rightarrow> 'h mpsc_pipe \<Rightarrow> 'h aux \<Rightarrow> bool" where
  "mem_inv q p x \<longleftrightarrow> (\<forall>u. ax_rd x \<le> u \<and> u < ax_low x + turn q \<and> u mod turn q < size_pipe q
     \<longrightarrow> pipe_mem p (adr q u) = cell q (ax_ph x) (ax_pub x @ ax_pend x) u)"

fun rcv_inv :: "'h mpsc_pipe \<Rightarrow> 'h aux \<Rightarrow> rpc \<Rightarrow> bool" where
  "rcv_inv q x RIdle \<longleftrightarrow> ax_low x = ax_rd x"
| "rcv_inv q x RHas \<longleftrightarrow> ax_low x = ax_rd x \<and> (\<exists>m ms. ax_pub x = m # ms \<and> fst m = ax_rd x)"
| "rcv_inv q x (RBlank a b) \<longleftrightarrow> a = adr q (ax_low x) \<and> ax_low x < ax_rd x \<and> b = a + (ax_rd x - ax_low x)
     \<and> ax_low x mod turn q + (ax_rd x - ax_low x) \<le> size_pipe q"

definition order_inv :: "'h mpsc_pipe \<Rightarrow> 'h aux \<Rightarrow> bool" where
  "order_inv q x \<longleftrightarrow> ax_low x \<le> ax_rd x \<and> ax_rd x \<le> ax_from x \<and> ax_from x \<le> ax_to x \<and> ax_to x < ax_rd x + turn q
     \<and> ax_to x \<le> ax_low x + turn q \<and> (ax_to x mod turn q \<noteq> 0 \<or> ax_to x = 0)"

definition pace_inv :: "'h mpsc_pipe \<Rightarrow> 'h mpsc_pipe \<Rightarrow> 'h aux \<Rightarrow> bool" where
  "pace_inv q p x \<longleftrightarrow> geom p = geom q \<and> sender_pace_to p = pace_at q (ax_to x)
     \<and> sender_pace_from p = pace_at q (ax_from x) \<and> receiver_pace p = adr q (ax_rd x)"

definition pipe_inv :: "'h mpsc_pipe \<Rightarrow> 'h mpsc_pipe \<Rightarrow> rpc \<Rightarrow> 'h aux \<Rightarrow> bool" where
  "pipe_inv q p rc x \<longleftrightarrow> pipe_config q \<and> pace_inv q p x \<and> order_inv q x \<and> laid_out q x \<and> mem_inv q p x
     \<and> (\<forall>m \<in> set (ax_pub x). ax_ph x (fst m) = PhReady) \<and> rcv_inv q x rc"

lemmas geom_simps = geom_def end_of_pipe_def

lemma inv_offset: "pipe_inv q p rc x \<Longrightarrow> 0 < msg_offset q" by (simp add: pipe_inv_def pipe_config_def)

lemma inv_lay: "pipe_inv q p rc x \<Longrightarrow> lay q (ax_rd x) (ax_pub x @ ax_pend x) (ax_to x)"
  unfolding pipe_inv_def laid_out_def lay_append by blast

lemma pend_from:
  assumes "pipe_inv q p rc x" "m \<in> set (ax_pend x)"
  shows "ax_from x \<le> fst m" "fst m < ax_to x"
proof -
  obtain y where y: "lay q y (ax_pend x) (ax_to x)"
    "ax_from x = y \<or> (\<exists>m ms. ax_pend x = m # ms \<and> fst m = ax_from x)"
    using assms(1) by (auto simp: pipe_inv_def laid_out_def)
  from y(2) show "ax_from x \<le> fst m"
  proof
    assume "ax_from x = y"
    then show ?thesis using lay_mem(1) [OF y(1) assms(2)] by simp
  next
    assume "\<exists>n ms. ax_pend x = n # ms \<and> fst n = ax_from x"
    then obtain n ms where n: "ax_pend x = n # ms" "fst n = ax_from x" by blast
    then have "m = n \<or> mend q n \<le> fst m" using assms(2) y(1) lay_mem(1) [of q "mend q n" ms "ax_to x" m] by auto
    then show ?thesis using n mend_gt(1) [of n q] by auto
  qed
  show "fst m < ax_to x" using lay_mem(2) [OF y(1) assms(2)] mend_gt(2) [OF inv_offset [OF assms(1)], of m] by simp
qed

lemma pend_fits:
  assumes "pipe_inv q p rc x" "m \<in> set (ax_pend x)"
  shows "mend q m \<le> ax_to x" "length (snd (snd m)) \<le> max_size_content q"
    "fst m mod turn q + (msg_offset q + length (snd (snd m))) \<le> size_pipe q"
  using lay_mem [OF inv_lay [OF assms(1)], of m] assms(2) by auto

text \<open>A pending message at the published pace is the first one.\<close>

lemma pend_hd:
  assumes "pipe_inv q p rc x" "m \<in> set (ax_pend x)" "fst m = ax_from x"
  shows "\<exists>ms. ax_pend x = m # ms"
proof -
  obtain y n ms where y: "lay q y (ax_pend x) (ax_to x)" "ax_pend x = n # ms"
    using assms(1,2) by (cases "ax_pend x") (auto simp: pipe_inv_def laid_out_def)
  have "ax_from x \<le> fst n" using pend_from(1) [OF assms(1), of n] y by simp
  then have "m = n \<or> mend q m \<le> fst n"
    using lay_sep [OF y(1), of m n] assms inv_offset [OF assms(1)] y(2) by auto
  moreover have "m = n \<or> mend q n \<le> fst m" using y assms(2) lay_mem(1) [of q "mend q n" ms "ax_to x" m] by auto
  ultimately have "m = n"
    using mend_gt(2) [OF inv_offset [OF assms(1)], of m] mend_gt(2) [OF inv_offset [OF assms(1)], of n] by linarith
  then show ?thesis using y by simp
qed

text \<open>Addresses are those of one position only between the receiver and a turn later.\<close>

lemma adr_window:
  assumes "order_inv q x" "ax_rd x \<le> u" "u < ax_low x + turn q" "ax_rd x \<le> w" "w < ax_low x + turn q" "adr q u = adr q w"
  shows "u = w"
proof -
  have "ax_low x \<le> ax_rd x" using assms(1) by (simp add: order_inv_def)
  then have "u < w + turn q" "w < u + turn q" using assms(2-5) by linarith+
  then show ?thesis using adr_inj [of u w q] adr_inj [of w u q] assms(6) by (cases "u \<le> w") simp_all
qed

lemma covers_adr:
  assumes i: "pipe_inv q p rc x" "m \<in> set (ax_pend x)" and u: "ax_rd x \<le> u" "u < ax_low x + turn q"
  shows "covers q m u \<longleftrightarrow> adr q (fst m) \<le> adr q u \<and> adr q u < adr q (fst m) + (msg_offset q + length (snd (snd m)))"
proof
  have fit: "fst m mod turn q + n \<le> size_pipe q" if "n \<le> msg_offset q + length (snd (snd m))" for n
    using pend_fits(3) [OF i] that by simp
  assume "covers q m u"
  then have n: "u = fst m + (u - fst m)" "u - fst m < msg_offset q + length (snd (snd m))" by (auto simp: covers_def mend_def)
  then have "adr q u = adr q (fst m) + (u - fst m)"
    using pos_add(3) [OF fit, of "u - fst m"] by (metis less_imp_le)
  then show "adr q (fst m) \<le> adr q u \<and> adr q u < adr q (fst m) + (msg_offset q + length (snd (snd m)))"
    using n(2) by linarith
next
  assume a: "adr q (fst m) \<le> adr q u \<and> adr q u < adr q (fst m) + (msg_offset q + length (snd (snd m)))"
  define n where "n = adr q u - adr q (fst m)"
  have n: "n < msg_offset q + length (snd (snd m))" "adr q u = adr q (fst m) + n" using a by (auto simp: n_def)
  have "fst m mod turn q + n \<le> size_pipe q" using pend_fits(3) [OF i] n(1) by simp
  then have e: "adr q (fst m + n) = adr q u" using pos_add(3) n(2) by simp
  have o: "order_inv q x" using i by (simp add: pipe_inv_def)
  have "fst m + n < ax_to x" using n pend_fits(1) [OF i] by (simp add: mend_def)
  then have "fst m + n = u"
    using pend_from(1) [OF i] o u e by (intro adr_window [OF o _ _ u]) (auto simp: order_inv_def)
  then show "covers q m u" using n by (auto simp: covers_def mend_def)
qed

section \<open>The steps on the pipe\<close>

lemma pend_cell:
  assumes i: "pipe_inv q p rc x" "m \<in> set (ax_pend x)" and c: "covers q m u"
  shows "pipe_mem p (adr q u) = msg_cell (ax_ph x (fst m)) m u" "ax_rd x \<le> u" "u < ax_low x + turn q"
    "u mod turn q < size_pipe q"
proof -
  have o: "order_inv q x" "mem_inv q p x" using i by (simp_all add: pipe_inv_def)
  have n: "u = fst m + (u - fst m)" "u - fst m < msg_offset q + length (snd (snd m))"
    using c by (auto simp: covers_def mend_def)
  then have "fst m mod turn q + (u - fst m) < size_pipe q" using pend_fits(3) [OF i] by linarith
  then show u: "u mod turn q < size_pipe q" using pos_add(1) [of "fst m" q "u - fst m"] n(1) by (metis less_imp_le)
  show r: "ax_rd x \<le> u" "u < ax_low x + turn q"
    using pend_from(1) [OF i] pend_fits(1) [OF i] c o(1) by (auto simp: order_inv_def covers_def)
  show "pipe_mem p (adr q u) = msg_cell (ax_ph x (fst m)) m u"
    using o(2) r u cell_in [OF inv_lay [OF i(1)] _ c inv_offset [OF i(1)]] i(2) by (simp add: mem_inv_def)
qed

text \<open>One message advances by a phase.\<close>

lemma inv_phase:
  assumes i: "pipe_inv q p rc x" "m \<in> set (ax_pend x)"
    and inside: "\<And>u. covers q m u \<Longrightarrow> M (adr q u) = msg_cell f m u"
    and outside: "\<And>a. \<not> (adr q (fst m) \<le> a \<and> a < adr q (fst m) + (msg_offset q + length (snd (snd m)))) \<Longrightarrow> M a = pipe_mem p a"
  shows "pipe_inv q (p\<lparr>pipe_mem := M\<rparr>) rc (x\<lparr>ax_ph := (ax_ph x)(fst m := f)\<rparr>)"
proof -
  have l: "lay q (ax_rd x) (ax_pub x @ ax_pend x) (ax_to x)" "0 < msg_offset q" using inv_lay [OF i(1)] inv_offset [OF i(1)] .
  have "M (adr q u) = cell q ((ax_ph x)(fst m := f)) (ax_pub x @ ax_pend x) u"
    if u: "ax_rd x \<le> u" "u < ax_low x + turn q" "u mod turn q < size_pipe q" for u
    using inside [of u] outside [of "adr q u"] covers_adr [OF i u(1,2)] i u cell_phase [OF l(1) _ l(2), of m]
    by (auto simp: pipe_inv_def mem_inv_def)
  moreover have "fst m' \<noteq> fst m" if "m' \<in> set (ax_pub x)" for m'
  proof -
    obtain y where "lay q (ax_rd x) (ax_pub x) y" "lay q y (ax_pend x) (ax_to x)" using l(1) by (auto simp: lay_append)
    then have "mend q m' \<le> fst m" using lay_mem that i(2) by (metis le_trans)
    then show ?thesis using mend_gt(2) [OF l(2), of m'] by simp
  qed
  ultimately show ?thesis
    using i(1) by (cases rc) (auto simp: pipe_inv_def mem_inv_def laid_out_def pace_inv_def geom_def order_inv_def)
qed

lemma inv_write:
  assumes i: "pipe_inv q p rc x" "(v, h, c) \<in> set (ax_pend x)"
  shows "pipe_inv q (write_head (adr q v) h (length c) p) rc (x\<lparr>ax_ph := (ax_ph x)(v := PhHead)\<rparr>)"
proof -
  let ?M = "pipe_mem (write_head (adr q v) h (length c) p)"
  have o: "msg_offset p = msg_offset q" using i by (simp add: pipe_inv_def pace_inv_def geom_def)
  have "?M (adr q u) = msg_cell PhHead (v, h, c) u" if cov: "covers q (v, h, c) u" for u
  proof -
    have "adr q v \<le> adr q u" "adr q u < adr q v + (msg_offset q + length c)"
      using covers_adr [OF i pend_cell(2,3) [OF i cov]] cov by auto
    moreover have "adr q u = adr q v \<Longrightarrow> u = v"
      using adr_window [of q x u v] pend_cell(2,3) [OF i cov] pend_cell(2,3) [OF i, of v] i inv_offset [OF i(1)]
      by (auto simp: pipe_inv_def covers_def mend_def)
    ultimately show ?thesis using o by (auto simp: write_head_def write_msg_def)
  qed
  then have "pipe_inv q (p\<lparr>pipe_mem := ?M\<rparr>) rc (x\<lparr>ax_ph := (ax_ph x)(fst (v, h, c) := PhHead)\<rparr>)"
    by (rule inv_phase [OF i]) (use o inv_offset [OF i(1)] in \<open>auto simp: write_head_def write_msg_def\<close>)
  then show ?thesis by (simp add: write_head_def write_msg_def)
qed

lemma inv_stamp:
  assumes i: "pipe_inv q p rc x" "(v, h, c) \<in> set (ax_pend x)" and ph: "ax_ph x v = PhHead \<or> ax_ph x v = PhCopied"
    and f: "f = PhCopied \<or> f = PhReady"
  shows "pipe_inv q (p\<lparr>pipe_mem := (pipe_mem p)(adr q v := msg_cell f (v, h, c) v)\<rparr>) rc (x\<lparr>ax_ph := (ax_ph x)(v := f)\<rparr>)"
proof -
  have "((pipe_mem p)(adr q v := msg_cell f (v, h, c) v)) (adr q u) = msg_cell f (v, h, c) u" if cov: "covers q (v, h, c) u" for u
  proof (cases "u = v")
    case False
    then have "adr q u \<noteq> adr q v"
      using adr_window [of q x u v] pend_cell(2,3) [OF i cov] pend_cell(2,3) [OF i, of v] i inv_offset [OF i(1)]
      by (auto simp: pipe_inv_def covers_def mend_def)
    then show ?thesis using pend_cell(1) [OF i cov] ph f False by auto
  qed simp
  then have "pipe_inv q (p\<lparr>pipe_mem := (pipe_mem p)(adr q v := msg_cell f (v, h, c) v)\<rparr>) rc
      (x\<lparr>ax_ph := (ax_ph x)(fst (v, h, c) := f)\<rparr>)"
    by (rule inv_phase [OF i]) (use inv_offset [OF i(1)] in auto)
  then show ?thesis by simp
qed

lemma inv_copy:
  assumes i: "pipe_inv q p rc x" "(v, h, c) \<in> set (ax_pend x)" "ax_ph x v = PhHead"
  shows "pipe_inv q (copy_content (adr q v) c p) rc (x\<lparr>ax_ph := (ax_ph x)(v := PhCopied)\<rparr>)"
  using inv_stamp [OF i(1,2), of PhCopied] i(3) pend_cell(1) [OF i(1,2), of v] inv_offset [OF i(1)]
  by (simp add: copy_content_def covers_def mend_def)

lemma inv_ready:
  assumes i: "pipe_inv q p rc x" "(v, h, c) \<in> set (ax_pend x)" "ax_ph x v = PhCopied"
  shows "pipe_inv q (SetReady (adr q v) p) rc (x\<lparr>ax_ph := (ax_ph x)(v := PhReady)\<rparr>)"
  using inv_stamp [OF i(1,2), of PhReady] i(3) pend_cell(1) [OF i(1,2), of v] inv_offset [OF i(1)]
  by (simp add: SetReady_def ready_word_def covers_def mend_def)

text \<open>Two positions less than a turn apart are in the same turn or in consecutive ones, and their addresses tell which.\<close>

lemma turn_cases:
  assumes "r \<le> t" "t < r + turn q"
  obtains "t div turn q = r div turn q" "r mod turn q \<le> t mod turn q"
  | "t div turn q = r div turn q + 1" "t mod turn q < r mod turn q"
proof -
  let ?W = "turn q"
  have rt: "r = r div ?W * ?W + r mod ?W" "t = t div ?W * ?W + t mod ?W" "r mod ?W < ?W" "t mod ?W < ?W" by simp_all
  have "r div ?W \<le> t div ?W" using assms(1) by (rule div_le_mono)
  moreover have "t div ?W \<le> (r + ?W) div ?W" using assms(2) by (intro div_le_mono) simp
  then have "t div ?W \<le> r div ?W + 1" using div_add_self2 [OF turn_pos(2), of r q] by simp
  ultimately consider "t div ?W = r div ?W" | "t div ?W = r div ?W + 1" by linarith
  then show thesis
  proof cases
    case 1
    then show ?thesis using that(1) rt assms(1) by (metis add_le_cancel_left)
  next
    case 2
    then have "t = r div ?W * ?W + ?W + t mod ?W" using rt(2) by simp
    then have "t mod ?W < r mod ?W" using assms(2) rt(1) by linarith
    then show ?thesis using that(2) 2 by blast
  qed
qed

lemma pace_next_same:
  assumes "pipe_config q" "v mod turn q + n \<le> size_pipe q"
  shows "pace_next (pace_at q v) (adr q (v + n)) False = pace_at q (v + n)"
  using assms pos_add [OF assms(2)] by (simp add: pace_next_def pace_at_version pace_at_def [of q "v + n"] Let_def)

lemma pace_next_turn:
  assumes "pipe_config q" "n \<le> size_pipe q"
  shows "pace_next (pace_at q v) (adr q (nxt q v + n)) True = pace_at q (nxt q v + n)"
proof -
  have "(v div turn q mod kNumVersions + 1) mod kNumVersions = (v div turn q + 1) mod kNumVersions" by (simp add: mod_Suc_eq)
  then show ?thesis
    using assms pos_add(2) [of "nxt q v" q n] by (simp add: pace_next_def pace_at_version pace_at_def [of q "nxt q v + n"] Let_def)
qed

definition new_pos :: "'h mpsc_pipe \<Rightarrow> nat \<Rightarrow> bool \<Rightarrow> nat" where
  "new_pos q t rewind = (if rewind then nxt q t else t)"

lemma plan_pos:
  assumes cfg: "pipe_config q" "geom p = geom q" and r: "r \<le> t" "t < r + turn q"
    and plan: "reserve_plan p n (pace_at q t) (adr q r) = Some (new, rewind, a, bef)"
  defines "v \<equiv> new_pos q t rewind"
  shows "a = adr q v" "new = adr q (v + (msg_offset q + n))" "v mod turn q + (msg_offset q + n) \<le> size_pipe q"
    "v + (msg_offset q + n) < r + turn q" "bef = (if rewind then Some (adr q t) else None)"
    "pace_next (pace_at q t) new rewind = pace_at q (v + (msg_offset q + n))"
proof -
  let ?W = "turn q" and ?n = "msg_offset q + n"
  have g: "size_pipe p = size_pipe q" "msg_offset p = msg_offset q" "pipe_begin p = pipe_begin q"
    using cfg(2) by (simp_all add: geom_def)
  have ptr: "DecodeSenderPacePtr (pace_at q t) = adr q t" using pace_at_ptr [OF cfg(1)] .
  have le: "adr q t \<ge> adr q r \<longleftrightarrow> r mod ?W \<le> t mod ?W" by (simp add: adr_def)
  have rt: "r = r div ?W * ?W + r mod ?W" "t = t div ?W * ?W + t mod ?W" "r mod ?W \<le> size_pipe q" by (simp_all add: mod_turn)
  have main: "a = adr q v \<and> new = pipe_begin q + (v mod ?W + ?n) \<and> v mod ?W + ?n \<le> size_pipe q \<and> v + ?n < r + ?W
      \<and> bef = (if rewind then Some (adr q t) else None)"
    using r
  proof (cases rule: turn_cases)
    case 1
    have e: "t = r div ?W * ?W + t mod ?W" using rt(2) 1(1) by simp
    show ?thesis
    proof (cases "adr q t + ?n \<le> end_of_pipe q")
      case True
      then have "\<not> rewind" "a = adr q t" "new = adr q t + ?n" "bef = None"
        using plan le 1(2) by (auto simp: reserve_plan_def Let_def ptr g end_of_pipe_def)
      moreover have s: "t mod ?W + ?n \<le> size_pipe q" using True by (simp add: adr_def end_of_pipe_def)
      moreover have "t + ?n < r + ?W" using s e rt(1) by (simp add: turn_def)
      ultimately show ?thesis by (simp add: v_def new_pos_def adr_def)
    next
      case False
      then have f: "rewind" "a = pipe_begin q" "new = pipe_begin q + ?n" "bef = Some (adr q t)" "?n < r mod ?W"
        using plan le 1(2) by (auto simp: reserve_plan_def Let_def ptr g end_of_pipe_def adr_def split: if_splits)
      moreover have "nxt q t = r div ?W * ?W + ?W" using 1(1) by (simp add: nxt_def)
      then have "nxt q t + ?n < r + ?W" using f(5) rt(1) by linarith
      ultimately show ?thesis using rt(3) by (simp add: v_def new_pos_def)
    qed
  next
    case 2
    then have "\<not> adr q t \<ge> adr q r" using le by simp
    then have f: "\<not> rewind" "a = adr q t" "new = adr q t + ?n" "bef = None" "t mod ?W + ?n < r mod ?W"
      using plan by (auto simp: reserve_plan_def Let_def ptr g end_of_pipe_def adr_def split: if_splits)
    moreover have "t = r div ?W * ?W + ?W + t mod ?W" using rt(2) 2(1) by simp
    then have "t + ?n < r + ?W" using f(5) rt(1) by linarith
    ultimately show ?thesis using rt(3) by (simp add: v_def new_pos_def adr_def)
  qed
  then show r: "a = adr q v" "v mod turn q + ?n \<le> size_pipe q" "v + ?n < r + turn q"
    "bef = (if rewind then Some (adr q t) else None)" by auto
  show n: "new = adr q (v + ?n)" using main pos_add(3) [of v q ?n] by (simp add: adr_def)
  show "pace_next (pace_at q t) new rewind = pace_at q (v + ?n)"
    using pace_next_same [OF cfg(1), of v ?n] pace_next_turn [OF cfg(1), of ?n t] r n
    by (cases rewind) (simp_all add: v_def new_pos_def)
qed

text \<open>A message is reserved behind the others.\<close>

definition ax_reserve :: "'h mpsc_pipe \<Rightarrow> 'h vmsg \<Rightarrow> 'h aux \<Rightarrow> 'h aux" where
  "ax_reserve q m x = x\<lparr>ax_to := mend q m, ax_pend := ax_pend x @ [m], ax_ph := (ax_ph x)(fst m := PhRes)\<rparr>"

lemma inv_reserve:
  assumes i: "pipe_inv q p rc x" and v: "fst m = ax_to x \<or> fst m = nxt q (ax_to x)"
    and c: "length (snd (snd m)) \<le> max_size_content q"
      "fst m mod turn q + (msg_offset q + length (snd (snd m))) \<le> size_pipe q"
    and room: "mend q m < ax_rd x + turn q" "mend q m \<le> ax_low x + turn q"
  shows "pipe_inv q (p\<lparr>sender_pace_to := pace_at q (mend q m)\<rparr>) rc (ax_reserve q m x)"
proof -
  have off: "0 < msg_offset q" and o: "order_inv q x" using i inv_offset by (auto simp: pipe_inv_def)
  have t: "ax_to x \<le> fst m" "fst m < mend q m" using v nxt_gt(1) [of "ax_to x" q] mend_gt(2) [OF off] by auto
  have "mend q m mod turn q = fst m mod turn q + (msg_offset q + length (snd (snd m)))"
    using pos_add(1) [OF c(2)] by (simp add: mend_def)
  then have "order_inv q (ax_reserve q m x)" using o t room off by (auto simp: order_inv_def ax_reserve_def)
  moreover obtain y where y: "lay q (ax_rd x) (ax_pub x) y" "lay q y (ax_pend x) (ax_to x)"
    "ax_from x = y \<or> ax_from x = nxt q y \<and> (\<exists>m ms. ax_pend x = m # ms \<and> fst m = ax_from x)"
    using i by (auto simp: pipe_inv_def laid_out_def)
  have "lay q y (ax_pend x @ [m]) (mend q m)" using y(2) v c by (auto simp: lay_append)
  then have "laid_out q (ax_reserve q m x)" using y unfolding laid_out_def ax_reserve_def by auto
  moreover have old: "fst m' \<noteq> fst m" if "m' \<in> set (ax_pub x @ ax_pend x)" for m'
    using lay_mem(2) [OF inv_lay [OF i] that] mend_gt(2) [OF off, of m'] t by simp
  have cl: "cell q ((ax_ph x)(fst m := PhRes)) (ax_pub x @ ax_pend x @ [m]) u = cell q (ax_ph x) (ax_pub x @ ax_pend x) u" for u
  proof (cases "covers q m u")
    case True
    have "\<not> covers q m' u" if "m' \<in> set (ax_pub x @ ax_pend x)" for m'
      using lay_mem(2) [OF inv_lay [OF i] that] t True by (auto simp: covers_def)
    then have z: "cell q f (ax_pub x @ ax_pend x) u = CBlank" for f by (rule cell_out)
    have "cell q f (A @ [m]) u = (if cell q f A u = CBlank then msg_cell (f (fst m)) m u else cell q f A u)"
      if "\<And>m'. m' \<in> set A \<Longrightarrow> \<not> covers q m' u" for A f
      using that True by (induction A) auto
    from this [of "ax_pub x @ ax_pend x"] show ?thesis
      using z \<open>\<And>m'. m' \<in> set (ax_pub x @ ax_pend x) \<Longrightarrow> \<not> covers q m' u\<close> by (cases m) auto
  next
    case False
    have "cell q ((ax_ph x)(fst m := PhRes)) ((ax_pub x @ ax_pend x) @ [m]) u
        = cell q ((ax_ph x)(fst m := PhRes)) (ax_pub x @ ax_pend x) u"
      using False by (intro cell_append_out) auto
    then show ?thesis using cell_cong [of "ax_pub x @ ax_pend x" q u "(ax_ph x)(fst m := PhRes)" "ax_ph x"] old by auto
  qed
  moreover have "rcv_inv q (ax_reserve q m x) rc" using i by (cases rc) (auto simp: pipe_inv_def ax_reserve_def)
  ultimately show ?thesis using i old by (auto simp: pipe_inv_def pace_inv_def mem_inv_def ax_reserve_def geom_def)
qed

text \<open>The first pending message is published.\<close>

definition ax_publish :: "'h mpsc_pipe \<Rightarrow> 'h aux \<Rightarrow> 'h aux" where
  "ax_publish q x = x\<lparr>ax_from := mend q (hd (ax_pend x)), ax_pub := ax_pub x @ [hd (ax_pend x)], ax_pend := tl (ax_pend x)\<rparr>"

lemma inv_publish:
  assumes i: "pipe_inv q p rc x" and m: "ax_pend x = m # ms" "fst m = ax_from x" "ax_ph x (fst m) = PhReady"
  shows "pipe_inv q (p\<lparr>sender_pace_from := pace_at q (mend q m)\<rparr>) rc (ax_publish q x)"
proof -
  obtain y where y: "lay q (ax_rd x) (ax_pub x) y" "lay q y (ax_pend x) (ax_to x)" using i by (auto simp: pipe_inv_def laid_out_def)
  have "lay q (ax_rd x) (ax_pub x @ [m]) (mend q m)" "lay q (mend q m) ms (ax_to x)" using y m(1) by (auto simp: lay_append)
  then have "laid_out q (ax_publish q x)" using m(1) unfolding laid_out_def ax_publish_def by auto
  moreover have "order_inv q (ax_publish q x)"
    using i m pend_fits(1) [OF i, of m] mend_gt(1) [of m q] by (auto simp: pipe_inv_def order_inv_def ax_publish_def)
  moreover have "rcv_inv q (ax_publish q x) rc" using i by (cases rc) (auto simp: pipe_inv_def ax_publish_def)
  ultimately show ?thesis using i m by (auto simp: pipe_inv_def pace_inv_def mem_inv_def ax_publish_def geom_def)
qed

text \<open>The published pace goes to the next turn.\<close>

lemma inv_jump:
  assumes i: "pipe_inv q p rc x" and m: "ax_pend x = m # ms" "fst m = nxt q (ax_from x)"
  shows "pipe_inv q (p\<lparr>sender_pace_from := pace_at q (nxt q (ax_from x))\<rparr>) rc (x\<lparr>ax_from := nxt q (ax_from x)\<rparr>)"
proof -
  obtain y where y: "lay q (ax_rd x) (ax_pub x) y" "lay q y (ax_pend x) (ax_to x)"
    "ax_from x = y \<or> ax_from x = nxt q y \<and> fst m = ax_from x"
    using i m(1) by (auto simp: pipe_inv_def laid_out_def)
  then have "ax_from x = y" using m(2) nxt_gt(1) [of "ax_from x" q] by auto
  then have "laid_out q (x\<lparr>ax_from := nxt q (ax_from x)\<rparr>)" using y m unfolding laid_out_def by auto
  moreover have "order_inv q (x\<lparr>ax_from := nxt q (ax_from x)\<rparr>)"
    using i m pend_from(2) [OF i, of m] nxt_gt(1) [of "ax_from x" q] by (auto simp: pipe_inv_def order_inv_def)
  moreover have "rcv_inv q (x\<lparr>ax_from := nxt q (ax_from x)\<rparr>) rc" using i by (cases rc) (auto simp: pipe_inv_def)
  ultimately show ?thesis using i by (auto simp: pipe_inv_def pace_inv_def mem_inv_def geom_def)
qed

section \<open>The receiver\<close>

lemma inv_ptrs:
  assumes "pipe_inv q p rc x"
  shows "from_ptr p = adr q (ax_from x)" "to_ptr p = adr q (ax_to x)" "receiver_pace p = adr q (ax_rd x)"
    "end_of_pipe p = end_of_pipe q" "msg_offset p = msg_offset q" "pipe_begin p = pipe_begin q"
    "max_size_content p = max_size_content q" "size_pipe p = size_pipe q"
  using assms by (auto simp: pipe_inv_def pace_inv_def from_ptr_def to_ptr_def pace_at_ptr geom_def end_of_pipe_def)

lemma cell_before: "lay q v ms y \<Longrightarrow> u < v \<Longrightarrow> cell q ph ms u = CBlank"
proof (rule cell_out)
  fix m assume "lay q v ms y" "u < v" "m \<in> set ms"
  then show "\<not> covers q m u" using lay_mem(1) [of q v ms y m] by (simp add: covers_def)
qed

lemma cell_behind: "lay q v ms y \<Longrightarrow> y \<le> u \<Longrightarrow> cell q ph ms u = CBlank"
proof (rule cell_out)
  fix m assume "lay q v ms y" "y \<le> u" "m \<in> set ms"
  then show "\<not> covers q m u" using lay_mem(2) [of q v ms y m] by (simp add: covers_def)
qed

text \<open>The receiver skips the end of a turn.\<close>

definition ax_move :: "nat \<Rightarrow> 'h aux \<Rightarrow> 'h aux" where "ax_move v x = x\<lparr>ax_rd := v, ax_low := v\<rparr>"

lemma inv_move:
  assumes i: "pipe_inv q p RIdle x" and l: "laid_out q (ax_move v x)" and v: "ax_rd x \<le> v" "v \<le> ax_from x"
  shows "pipe_inv q (p\<lparr>receiver_pace := adr q v\<rparr>) RIdle (ax_move v x)"
proof -
  let ?ms = "ax_pub x @ ax_pend x"
  have o: "order_inv q x" "ax_low x = ax_rd x" "mem_inv q p x" using i by (auto simp: pipe_inv_def)
  have lv: "lay q v ?ms (ax_to x)" using l unfolding laid_out_def lay_append ax_move_def by auto
  have "pipe_mem p (adr q u) = cell q (ax_ph x) ?ms u" if u: "v \<le> u" "u < v + turn q" "u mod turn q < size_pipe q" for u
  proof (cases "u < ax_rd x + turn q")
    case True
    then show ?thesis using o u v by (simp add: mem_inv_def)
  next
    case False
    define w where "w = u - turn q"
    have w: "u = w + turn q" "ax_rd x \<le> w" "w < v" using False u(2) by (auto simp: w_def)
    have "w mod turn q < size_pipe q" "w < ax_low x + turn q"
      using u(3) w o(1,2) v by (simp_all add: order_inv_def)
    then have "pipe_mem p (adr q u) = cell q (ax_ph x) ?ms w" using o(3) w by (simp add: mem_inv_def)
    also have "\<dots> = CBlank" using cell_before [OF lv w(3)] .
    also have "\<dots> = cell q (ax_ph x) ?ms u"
      using cell_behind [OF lv] False o(1) by (simp add: order_inv_def)
    finally show ?thesis .
  qed
  then show ?thesis using i l v o(1,2) by (auto simp: pipe_inv_def pace_inv_def mem_inv_def ax_move_def geom_def order_inv_def)
qed

lemma todo_skip:
  assumes i: "pipe_inv q p RIdle x" and f: "nxt q (ax_rd x) \<le> ax_from x" and m: "\<And>m. m \<in> set (ax_pub x @ ax_pend x) \<Longrightarrow> ax_rd x < fst m"
  shows "HasTodo p = Inr (p\<lparr>receiver_pace := pipe_begin p\<rparr>, ax_from x \<noteq> nxt q (ax_rd x))"
proof -
  have o: "ax_rd x \<le> ax_from x" "ax_from x < ax_rd x + turn q" "ax_low x = ax_rd x" using i by (auto simp: pipe_inv_def order_inv_def)
  have lt: "adr q (ax_from x) < adr q (ax_rd x)"
    using o(1,2)
  proof (cases rule: turn_cases)
    case 1
    then show ?thesis using div_le_mono [OF f, of "turn q"] by simp
  qed (simp add: adr_def)
  have "adr q (ax_from x) = pipe_begin q \<longleftrightarrow> ax_from x = nxt q (ax_rd x)"
    using adr_inj [of "nxt q (ax_rd x)" "ax_from x" q] f o(2) nxt_gt(1) [of "ax_rd x" q] by auto
  moreover have "read_size p (adr q (ax_rd x)) = Inr (-1)" if "adr q (ax_rd x) + msg_offset q \<le> end_of_pipe q"
  proof -
    have "ax_rd x mod turn q < size_pipe q" using that inv_offset [OF i] by (simp add: adr_def end_of_pipe_def)
    then have "pipe_mem p (adr q (ax_rd x)) = cell q (ax_ph x) (ax_pub x @ ax_pend x) (ax_rd x)"
      using i o(3) by (simp add: pipe_inv_def mem_inv_def)
    also have "\<dots> = CBlank" using m by (intro cell_out) (auto simp: covers_def dest: leD)
    finally show ?thesis by (simp add: read_size_def)
  qed
  ultimately show ?thesis using lt inv_ptrs [OF i] by (auto simp: HasTodo_def IsBlank_size_def)
qed

lemma pub_bounds:
  assumes "pipe_inv q p rc x" "m \<in> set (ax_pub x)"
  shows "ax_rd x \<le> fst m" "mend q m \<le> ax_from x" "length (snd (snd m)) \<le> max_size_content q"
    "fst m mod turn q + (msg_offset q + length (snd (snd m))) \<le> size_pipe q"
proof -
  obtain y where y: "lay q (ax_rd x) (ax_pub x) y" "ax_from x = y \<or> ax_from x = nxt q y" using assms by (auto simp: pipe_inv_def laid_out_def)
  then have "y \<le> ax_from x" using nxt_gt(1) [of y q] by auto
  then show "ax_rd x \<le> fst m" "mend q m \<le> ax_from x" "length (snd (snd m)) \<le> max_size_content q"
    "fst m mod turn q + (msg_offset q + length (snd (snd m))) \<le> size_pipe q"
    using lay_mem [OF y(1) assms(2)] by auto
qed

lemma pub_cell:
  assumes i: "pipe_inv q p rc x" "m \<in> set (ax_pub x)" and low: "fst m < ax_low x + turn q"
  shows "pipe_mem p (adr q (fst m)) = CHead (ready_word (length (snd (snd m)))) (fst (snd m)) (snd (snd m))"
proof -
  have "covers q m (fst m)" using inv_offset [OF i(1)] by (simp add: covers_def mend_def)
  from cell_in [OF inv_lay [OF i(1)] _ this inv_offset [OF i(1)], of "ax_ph x"]
  have "cell q (ax_ph x) (ax_pub x @ ax_pend x) (fst m) = CHead (ready_word (length (snd (snd m)))) (fst (snd m)) (snd (snd m))"
    using i by (cases m) (auto simp: pipe_inv_def)
  moreover have "fst m mod turn q < size_pipe q" using pub_bounds(4) [OF i] inv_offset [OF i(1)] by simp
  ultimately show ?thesis using i low pub_bounds(1) [OF i] by (simp add: pipe_inv_def mem_inv_def)
qed

lemma receive_here:
  assumes i: "pipe_inv q p RIdle x" and m: "ax_pub x = m # ms" "fst m = ax_rd x"
  shows "ReceiveMsg1 p = Inr (p, Some (snd m))"
proof -
  have in_pub: "m \<in> set (ax_pub x)" using m(1) by simp
  have o: "ax_from x < ax_rd x + turn q" "ax_low x = ax_rd x" using i by (auto simp: pipe_inv_def order_inv_def)
  have "ax_rd x < ax_from x" using pub_bounds(2) [OF i in_pub] mend_gt(2) [OF inv_offset [OF i], of m] m(2) by simp
  then have ne: "adr q (ax_from x) \<noteq> adr q (ax_rd x)" using adr_inj [of "ax_rd x" "ax_from x" q] o(1) by auto
  have c: "pipe_mem p (adr q (ax_rd x)) = CHead (ready_word (length (snd (snd m)))) (fst (snd m)) (snd (snd m))"
    using pub_cell [OF i in_pub] m(2) o(2) by simp
  have fits: "\<not> adr q (ax_rd x) + msg_offset q > end_of_pipe q"
    using pub_bounds(4) [OF i in_pub] m(2) by (simp add: adr_def end_of_pipe_def)
  have "msg_offset q + max_size_content q < 2 ^ 31 - 1" using i by (simp add: pipe_inv_def pipe_config_def)
  then have "ready_word (length (snd (snd m))) \<noteq> -1" using ready_word_not_blank pub_bounds(3) [OF i in_pub] by simp
  then show ?thesis
    using c ne fits inv_ptrs [OF i] by (simp add: ReceiveMsg1_def HasTodo_def read_size_def IsBlank_size_def)
qed

lemma inv_move_same: "pipe_inv q p RIdle x \<Longrightarrow> p\<lparr>receiver_pace := adr q (ax_rd x)\<rparr> = p \<and> ax_move (ax_rd x) x = x"
  by (auto simp: ax_move_def pipe_inv_def pace_inv_def)

lemma conc_receive:
  assumes i: "pipe_inv q p RIdle x"
  obtains v p' where "p' = p\<lparr>receiver_pace := adr q v\<rparr>" "pipe_inv q p' RIdle (ax_move v x)" "ax_rd x \<le> v"
    "ReceiveMsg1 p = Inr (p', None) \<and> ax_pub x = [] \<and> ax_from x = v
      \<or> (\<exists>m ms. ax_pub x = m # ms \<and> fst m = v \<and> ReceiveMsg1 p = Inr (p', Some (snd m)))"
proof -
  note goal = that
  obtain y where y: "lay q (ax_rd x) (ax_pub x) y" "lay q y (ax_pend x) (ax_to x)"
    "ax_from x = y \<or> ax_from x = nxt q y \<and> (\<exists>m ms. ax_pend x = m # ms \<and> fst m = ax_from x)"
    using i by (auto simp: pipe_inv_def laid_out_def)
  let ?v = "nxt q (ax_rd x)"
  have skip: thesis if f: "?v \<le> ax_from x" and l: "laid_out q (ax_move ?v x)"
    and pub: "ax_pub x = [] \<and> ax_from x = ?v \<or> (\<exists>m ms. ax_pub x = m # ms \<and> fst m = ?v)"
  proof -
    let ?p = "p\<lparr>receiver_pace := adr q ?v\<rparr>"
    have "ax_rd x < ?v" by (rule nxt_gt(1))
    with f l have inv: "pipe_inv q ?p RIdle (ax_move ?v x)" by (intro inv_move [OF i]) simp_all
    have "ax_rd x < fst m" if "m \<in> set (ax_pub x @ ax_pend x)" for m
      using lay_mem(1) [OF inv_lay [OF inv], of m] that \<open>ax_rd x < ?v\<close> by (simp add: ax_move_def)
    then have todo: "HasTodo p = Inr (?p, ax_from x \<noteq> ?v)" using todo_skip [OF i f] inv_ptrs(6) [OF i] by simp
    from pub show thesis
    proof
      assume "ax_pub x = [] \<and> ax_from x = ?v"
      then show thesis using goal [OF refl inv] todo \<open>ax_rd x < ?v\<close> by (simp add: ReceiveMsg1_def)
    next
      assume "\<exists>m ms. ax_pub x = m # ms \<and> fst m = ?v"
      then obtain m ms where m: "ax_pub x = m # ms" "fst m = ?v" by blast
      have pm: "m \<in> set (ax_pub (ax_move ?v x))" using m by (simp add: ax_move_def)
      have "ax_from x \<noteq> ?v" using pub_bounds(2) [OF inv pm] mend_gt(2) [OF inv_offset [OF i], of m] m(2) by (simp add: ax_move_def)
      moreover have "pipe_mem p (adr q ?v) = CHead (ready_word (length (snd (snd m)))) (fst (snd m)) (snd (snd m))"
        using pub_cell [OF inv pm] m(2) by (simp add: ax_move_def)
      ultimately have "ReceiveMsg1 p = Inr (?p, Some (snd m))" using todo by (simp add: ReceiveMsg1_def)
      then show thesis using goal [OF refl inv] m \<open>ax_rd x < ?v\<close> by auto
    qed
  qed
  have stay: "p = p\<lparr>receiver_pace := adr q (ax_rd x)\<rparr>" "pipe_inv q p RIdle (ax_move (ax_rd x) x)"
    using inv_move_same [OF i] i by simp_all
  show thesis
  proof (cases "ax_pub x")
    case Nil
    then have "y = ax_rd x" using y(1) by simp
    with y(3) consider "ax_from x = ax_rd x" | "ax_from x = ?v" "\<exists>m ms. ax_pend x = m # ms \<and> fst m = ?v" by auto
    then show thesis
    proof cases
      case 1
      then have "ReceiveMsg1 p = Inr (p, None)" using inv_ptrs [OF i] by (simp add: ReceiveMsg1_def HasTodo_def)
      then show thesis using goal [OF stay] Nil 1 by simp
    next
      case 2
      then have "lay q ?v (ax_pend x) (ax_to x)" using y(2) \<open>y = ax_rd x\<close> by auto
      then show thesis using skip Nil 2 by (simp add: laid_out_def ax_move_def)
    qed
  next
    case (Cons m ms)
    then have m: "fst m = ax_rd x \<or> fst m = ?v" "lay q (mend q m) ms y" using y(1) by auto
    show thesis
    proof (cases "fst m = ax_rd x")
      case True
      then show thesis using goal [OF stay] receive_here [OF i Cons True] Cons by auto
    next
      case False
      then have v: "fst m = ?v" using m by simp
      then have "lay q ?v (ax_pub x) y" using y(1) Cons by simp
      then have "laid_out q (ax_move ?v x)" using y unfolding laid_out_def ax_move_def by auto
      moreover have "?v \<le> ax_from x" using pub_bounds(2) [OF i, of m] mend_gt(1) [of m q] Cons v by simp
      ultimately show thesis using skip Cons v by blast
    qed
  qed
qed

text \<open>A message is given back, first its space, then its bytes.\<close>

definition ax_pop :: "'h mpsc_pipe \<Rightarrow> 'h aux \<Rightarrow> 'h aux" where
  "ax_pop q x = x\<lparr>ax_rd := mend q (hd (ax_pub x)), ax_pub := tl (ax_pub x)\<rparr>"

lemma inv_pop:
  assumes i: "pipe_inv q p RHas x"
  obtains m ms r where "ax_pub x = m # ms" "read_size p (receiver_pace p) = Inr (ready_word (length (snd (snd m))))"
    "r = receiver_pace p + unat (GetMsgSize_size p (ready_word (length (snd (snd m)))))"
    "pipe_inv q (p\<lparr>receiver_pace := r\<rparr>) (RBlank (receiver_pace p) r) (ax_pop q x)"
proof -
  obtain m ms where m: "ax_pub x = m # ms" "fst m = ax_rd x" "ax_low x = ax_rd x" using i by (auto simp: pipe_inv_def)
  have in_pub: "m \<in> set (ax_pub x)" using m by simp
  let ?n = "msg_offset q + length (snd (snd m))"
  have o: "order_inv q x" "laid_out q x" "mem_inv q p x" using i by (auto simp: pipe_inv_def)
  have "msg_offset q + max_size_content q < 2 ^ 31 - 1" using i by (simp add: pipe_inv_def pipe_config_def)
  then have n: "unat (GetMsgSize_size p (ready_word (length (snd (snd m))))) = ?n"
    using ready_word_size(1) [of p "length (snd (snd m))"] pub_bounds(3) [OF i in_pub] inv_ptrs(5) [OF i] by simp
  have fin: "mend q m = ax_rd x + ?n" "adr q (mend q m) = adr q (ax_rd x) + ?n"
    using pos_add(3) [OF pub_bounds(4) [OF i in_pub]] m(2) by (simp_all add: mend_def)
  have "laid_out q (ax_pop q x)" using o(2) m(1) unfolding laid_out_def ax_pop_def by auto
  moreover have "order_inv q (ax_pop q x)"
    using o(1) m pub_bounds(2) [OF i in_pub] fin(1) by (auto simp: order_inv_def ax_pop_def)
  moreover have "cell q (ax_ph x) (ax_pub x @ ax_pend x) u = cell q (ax_ph x) (ms @ ax_pend x) u" if "mend q m \<le> u" for u
    using that m(1) by (simp add: covers_def)
  then have "pipe_mem p (adr q u) = cell q (ax_ph x) (ms @ ax_pend x) u"
    if "mend q m \<le> u" "u < ax_low x + turn q" "u mod turn q < size_pipe q" for u
    using o(3) that m(2) mend_gt(1) [of m q] by (simp add: mem_inv_def)
  then have "mem_inv q (p\<lparr>receiver_pace := adr q (ax_rd x) + ?n\<rparr>) (ax_pop q x)" using m(1) by (simp add: mem_inv_def ax_pop_def)
  moreover have "rcv_inv q (ax_pop q x) (RBlank (adr q (ax_rd x)) (adr q (ax_rd x) + ?n))"
    using m fin pub_bounds(4) [OF i in_pub] inv_offset [OF i] by (simp add: ax_pop_def)
  moreover have "pace_inv q (p\<lparr>receiver_pace := adr q (ax_rd x) + ?n\<rparr>) (ax_pop q x)"
    using i m(1) fin(2) by (simp add: pipe_inv_def pace_inv_def ax_pop_def geom_def)
  moreover have "pipe_config q" "\<forall>m \<in> set (ax_pub (ax_pop q x)). ax_ph (ax_pop q x) (fst m) = PhReady"
    using i m(1) by (simp_all add: pipe_inv_def ax_pop_def)
  ultimately have "pipe_inv q (p\<lparr>receiver_pace := adr q (ax_rd x) + ?n\<rparr>) (RBlank (adr q (ax_rd x)) (adr q (ax_rd x) + ?n)) (ax_pop q x)"
    unfolding pipe_inv_def by blast
  moreover have "read_size p (receiver_pace p) = Inr (ready_word (length (snd (snd m))))"
    using pub_cell [OF i in_pub] m inv_ptrs(3) [OF i] by (simp add: read_size_def)
  ultimately show thesis using that [OF m(1)] n inv_ptrs(3) [OF i] by simp
qed

lemma inv_blank:
  assumes i: "pipe_inv q p (RBlank a b) x"
  shows "pipe_inv q (p\<lparr>pipe_mem := SetBlank a b (pipe_mem p)\<rparr>) RIdle (x\<lparr>ax_low := ax_rd x\<rparr>)"
proof -
  have r: "a = adr q (ax_low x)" "ax_low x < ax_rd x" "b = a + (ax_rd x - ax_low x)"
    "ax_low x mod turn q + (ax_rd x - ax_low x) \<le> size_pipe q" and o: "order_inv q x" and l: "lay q (ax_rd x) (ax_pub x @ ax_pend x) (ax_to x)"
    using i inv_lay [OF i] by (auto simp: pipe_inv_def)
  have adr_low: "adr q (ax_low x + n) = a + n" if "n \<le> ax_rd x - ax_low x" for n
    using pos_add(3) [of "ax_low x" q n] r that by simp
  have "SetBlank a b (pipe_mem p) (adr q u) = cell q (ax_ph x) (ax_pub x @ ax_pend x) u"
    if u: "ax_rd x \<le> u" "u < ax_rd x + turn q" "u mod turn q < size_pipe q" for u
  proof (cases "u < ax_low x + turn q")
    case True
    have "\<not> (a \<le> adr q u \<and> adr q u < b)"
    proof
      assume ab: "a \<le> adr q u \<and> adr q u < b"
      then have n: "adr q u - a \<le> ax_rd x - ax_low x" "ax_low x + (adr q u - a) < ax_rd x" using r by auto
      then have "adr q (ax_low x + (adr q u - a)) = adr q u" using adr_low [OF n(1)] ab by simp
      then have "ax_low x + (adr q u - a) = u" using adr_inj [of "ax_low x + (adr q u - a)" u q] u n(2) True by simp
      then show False using u(1) n(2) by simp
    qed
    moreover have "mem_inv q p x" using i by (simp add: pipe_inv_def)
    ultimately show ?thesis using True u by (auto simp: SetBlank_def mem_inv_def)
  next
    case False
    define n where "n = u - (ax_low x + turn q)"
    have n: "u = (ax_low x + n) + turn q" "n < ax_rd x - ax_low x" using False u r by (auto simp: n_def)
    then have "adr q u = a + n" using adr_low [of n] by simp
    moreover have "a + n < b" using n(2) r(2,3) by linarith
    ultimately have "SetBlank a b (pipe_mem p) (adr q u) = CBlank" by (simp add: SetBlank_def)
    then show ?thesis using cell_behind [OF l] False o by (simp add: order_inv_def)
  qed
  then show ?thesis using i o by (auto simp: pipe_inv_def pace_inv_def mem_inv_def laid_out_def geom_def order_inv_def)
qed

end
