(* ===== verification/Mpsc_Fifo.thy ===== *)
theory Mpsc_Fifo
  imports Mpsc_Layout
begin

text \<open>
  The interleaved pipe is a FIFO queue, and loses nothing, in every run that avoids the three races of \<^verbatim>\<open>Mpsc_Concurrent\<close>. To the invariant of
  the layout comes what each sender knows at each place of \<^verbatim>\<open>SendMsg_\<close>, that senders work on different messages, and that
  a message that still waits has a sender which will see to it.
\<close>

section \<open>The invariant of the senders\<close>

text \<open>A message in a phase, the first pending message ready, and what the position before a rewind says.\<close>

definition pends :: "'h aux \<Rightarrow> nat \<Rightarrow> 'h \<Rightarrow> byte list \<Rightarrow> phase \<Rightarrow> bool" where
  "pends x v h c f \<longleftrightarrow> (v, h, c) \<in> set (ax_pend x) \<and> ax_ph x v = f"

definition head_at :: "'h aux \<Rightarrow> nat \<Rightarrow> bool" where
  "head_at x v \<longleftrightarrow> (\<exists>m ms. ax_pend x = m # ms \<and> fst m = v) \<and> ax_ph x v = PhReady"

definition bef_ok :: "'h mpsc_pipe \<Rightarrow> 'h aux \<Rightarrow> nat \<Rightarrow> nat option \<Rightarrow> bool" where
  "bef_ok q x v bef \<longleftrightarrow> (case bef of None \<Rightarrow> v mod turn q \<noteq> 0 \<or> v = 0
     | Some b \<Rightarrow> \<exists>y. b = adr q y \<and> v = nxt q y \<and> ax_from x \<le> y \<and> (\<forall>m \<in> set (ax_pend x). fst m < v \<longrightarrow> mend q m \<le> y))"

fun tinv :: "'h mpsc_pipe \<Rightarrow> 'h aux \<Rightarrow> nat \<Rightarrow> 'h spc \<Rightarrow> bool" where
  "tinv q x v SIdle \<longleftrightarrow> True"
| "tinv q x v (SLoadTo h c) \<longleftrightarrow> True"
| "tinv q x v (SLoadRcv h c pace) \<longleftrightarrow> length c \<le> max_size_content q \<and> pace = pace_at q v \<and> v \<le> ax_to x"
| "tinv q x v (SCas h c pace rcv) \<longleftrightarrow> length c \<le> max_size_content q \<and> pace = pace_at q v \<and> v \<le> ax_to x
     \<and> (v = ax_to x \<longrightarrow> (\<exists>r. r \<le> ax_rd x \<and> rcv = adr q r \<and> v < r + turn q))"
| "tinv q x v (SWrite a bef h c) \<longleftrightarrow> a = adr q v \<and> bef_ok q x v bef \<and> pends x v h c PhRes"
| "tinv q x v (SCopy a bef c) \<longleftrightarrow> a = adr q v \<and> bef_ok q x v bef \<and> (\<exists>h. pends x v h c PhHead)"
| "tinv q x v (SReady a bef) \<longleftrightarrow> a = adr q v \<and> bef_ok q x v bef \<and> (\<exists>h c. pends x v h c PhCopied)"
| "tinv q x v (SLoadFrom a bef) \<longleftrightarrow> a = adr q v
     \<and> (v < ax_from x \<and> v mod turn q \<noteq> 0 \<or> bef_ok q x v bef \<and> (\<exists>h c. pends x v h c PhReady))"
| "tinv q x v (SSpin bef version) \<longleftrightarrow> bef \<noteq> None \<and> bef_ok q x v bef \<and> (\<exists>h c. pends x v h c PhReady)
     \<and> (version + 1) mod kNumVersions = v div turn q mod kNumVersions"
| "tinv q x v (SJump version) \<longleftrightarrow> v = nxt q (ax_from x) \<and> head_at x v \<and> version = v div turn q mod kNumVersions"
| "tinv q x v (SSize pace ptr version) \<longleftrightarrow> pace = pace_at q v \<and> ptr = adr q v \<and> version = v div turn q mod kNumVersions
     \<and> v \<le> ax_from x \<and> (v = ax_from x \<longrightarrow> head_at x v)"
| "tinv q x v (SPub pace new version) \<longleftrightarrow> pace = pace_at q v \<and> version = v div turn q mod kNumVersions
     \<and> v \<le> ax_from x \<and> (v = ax_from x \<longrightarrow> head_at x v \<and> new = adr q (mend q (hd (ax_pend x))))"
| "tinv q x v (SLoop new version) \<longleftrightarrow> new = adr q v \<and> version = v div turn q mod kNumVersions
     \<and> v \<le> ax_from x \<and> v mod turn q \<noteq> 0"
| "tinv q x v (SLoopReady new version) \<longleftrightarrow> new = adr q v \<and> version = v div turn q mod kNumVersions
     \<and> v \<le> ax_from x \<and> v mod turn q \<noteq> 0 \<and> (v = ax_from x \<longrightarrow> v < ax_to x)"
| "tinv q x v (SLoopSize new version) \<longleftrightarrow> new = adr q v \<and> version = v div turn q mod kNumVersions
     \<and> v \<le> ax_from x \<and> v mod turn q \<noteq> 0 \<and> (v = ax_from x \<longrightarrow> head_at x v)"

text \<open>Senders that have loaded a pace, and senders that have a message of their own to publish.\<close>

fun working :: "'h spc \<Rightarrow> bool" where
  "working SIdle = False"
| "working (SLoadTo h c) = False"
| "working _ = True"

fun owns :: "'h mpsc_pipe \<Rightarrow> nat \<Rightarrow> 'h spc \<Rightarrow> bool" where
  "owns q v (SWrite a bef h c) = True"
| "owns q v (SCopy a bef c) = True"
| "owns q v (SReady a bef) = True"
| "owns q v (SLoadFrom a bef) = True"
| "owns q v (SSpin bef version) = True"
| "owns q v (SJump version) = True"
| "owns q v (SSize pace ptr version) = (v mod turn q = 0)"
| "owns q v (SPub pace new version) = (v mod turn q = 0)"
| "owns q v _ = False"

lemma pace_at_versions:
  assumes cfg: "pipe_config q" and ab: "a \<le> b" "b < a + kNumVersions * turn q" and eq: "pace_at q a = pace_at q b"
  shows "a = b"
proof -
  have "a mod turn q = b mod turn q" using pace_at_ptr [OF cfg] eq by (metis adr_def add_left_cancel)
  moreover have "a div turn q mod kNumVersions = b div turn q mod kNumVersions" using pace_at_version [OF cfg] eq by metis
  ultimately have "a mod (turn q * kNumVersions) = b mod (turn q * kNumVersions)" by (simp add: mod_mult2_eq)
  then have "turn q * kNumVersions dvd b - a" using mod_eq_dvd_iff_nat [OF ab(1)] by metis
  moreover have "b - a < turn q * kNumVersions" using ab by (simp add: mult.commute)
  ultimately have "b - a = 0" by (metis dvd_imp_le not_le zero_less_iff_neq_zero)
  then show ?thesis using ab by simp
qed

lemma pends_bounds:
  assumes "pipe_inv q p rc x" "pends x v h c f"
  shows "ax_from x \<le> v" "v < ax_to x"
  using pend_from [OF assms(1), of "(v, h, c)"] assms(2) by (simp_all add: pends_def)

lemma head_bounds:
  assumes "pipe_inv q p rc x" "head_at x v"
  shows "ax_from x \<le> v" "v < ax_to x"
  using pend_from [OF assms(1), of "hd (ax_pend x)"] assms(2) by (auto simp: head_at_def)

text \<open>The window of the positions in use is less than a turn.\<close>

lemma from_window:
  assumes "pipe_inv q p rc x" "v < ax_to x"
  shows "v < ax_from x + turn q"
  using assms by (auto simp: pipe_inv_def order_inv_def)

lemma owns_lt:
  assumes "pipe_inv q p rc x" "tinv q x v pc" "owns q v pc"
  shows "v < ax_to x"
proof -
  have "v < ax_from x \<Longrightarrow> v < ax_to x" using assms(1) by (simp add: pipe_inv_def order_inv_def)
  then show ?thesis
    using assms(2,3) by (cases pc) (auto simp: le_less dest: pends_bounds(2) [OF assms(1)] head_bounds(2) [OF assms(1)])
qed

text \<open>What each load of the senders finds.\<close>

lemma tinv_LoadFrom:
  assumes i: "pipe_inv q p rc x" and t: "tinv q x v (SLoadFrom a bef)" and ahead: "ax_to x \<le> v + size_pipe q"
  shows "sender_step g gt p (SLoadFrom a bef) = (p, pc) \<Longrightarrow> tinv q x v pc"
proof -
  let ?F = "ax_from x"
  have cfg: "pipe_config q" and pace: "sender_pace_from p = pace_at q ?F" and bg: "pipe_begin p = pipe_begin q" and ft: "?F \<le> ax_to x"
    using i inv_ptrs(6) by (auto simp: pipe_inv_def pace_inv_def order_inv_def)
  note dec = pace_at_ptr [OF cfg] pace_at_version [OF cfg]
  assume s: "sender_step g gt p (SLoadFrom a bef) = (p, pc)"
  have a: "a = adr q v" using t by simp
  consider "v < ?F" "v mod turn q \<noteq> 0" | h c where "bef_ok q x v bef" "pends x v h c PhReady" using t by auto
  then show "tinv q x v pc"
  proof cases
    case 1
    have "adr q ?F \<noteq> adr q v" using adr_inj [of v ?F q] 1(1) ahead ft by (auto simp: turn_def)
    moreover have "a \<noteq> pipe_begin q" using 1(2) a by (simp add: adr_def)
    ultimately show ?thesis using s a by (auto simp: Let_def pace dec bg)
  next
    case 2
    note b = pends_bounds [OF i 2(2)] from_window [OF i pends_bounds(2) [OF i 2(2)]]
    show ?thesis
    proof (cases "?F = v")
      case True
      then have "head_at x v" using 2(2) pend_hd [OF i, of "(v, h, c)"] by (auto simp: head_at_def pends_def)
      then show ?thesis using s True a by (auto simp: Let_def pace dec bg)
    next
      case False
      then have ne: "adr q ?F \<noteq> adr q v" using adr_inj [of ?F v q] b by auto
      show ?thesis
      proof (cases "a = pipe_begin q")
        case True
        then have "v mod turn q = 0" using a by (simp add: adr_def)
        with 2(1) False b(1) obtain y where y: "bef = Some (adr q y)" "v = nxt q y" "?F \<le> y"
          by (auto simp: bef_ok_def split: option.splits)
        then have "?F div turn q = y div turn q" using div_eq_nxt [of ?F y q] b(3) by simp
        then have "(?F div turn q mod kNumVersions + 1) mod kNumVersions = v div turn q mod kNumVersions"
          using y(2) by (simp add: mod_Suc_eq)
        moreover have "pc = SSpin bef (?F div turn q mod kNumVersions)" using s ne a True by (simp add: Let_def pace dec bg)
        moreover have "\<exists>h c. pends x v h c PhReady" using 2(2) by blast
        ultimately show ?thesis using y(1) 2(1) by simp
      next
        case False
        then show ?thesis using s ne a by (auto simp: Let_def pace dec bg)
      qed
    qed
  qed
qed

lemma tinv_Spin:
  assumes i: "pipe_inv q p rc x" and t: "tinv q x v (SSpin bef version)" and s: "sender_step g gt p (SSpin bef version) = (p, pc)"
  shows "tinv q x v pc"
proof (cases "Some (from_ptr p) = bef")
  case True
  obtain y h c where y: "bef = Some (adr q y)" "v = nxt q y" "ax_from x \<le> y" "\<forall>m \<in> set (ax_pend x). fst m < v \<longrightarrow> mend q m \<le> y"
    and p: "(v, h, c) \<in> set (ax_pend x)" "ax_ph x v = PhReady"
    using t by (auto simp: bef_ok_def pends_def split: option.splits)
  have "y < ax_to x" using pend_from(2) [OF i p(1)] y(2) nxt_gt(1) [of y q] by simp
  then have f: "ax_from x = y" using adr_inj [of "ax_from x" y q] from_window [OF i] y True inv_ptrs(1) [OF i] by simp
  obtain m ms where m: "ax_pend x = m # ms" using p(1) by (cases "ax_pend x") auto
  have "\<not> fst m < v"
  proof
    assume "fst m < v"
    then have "mend q m \<le> ax_from x" using y(4) m f by simp
    then show False using pend_from(1) [OF i, of m] mend_gt(2) [OF inv_offset [OF i], of m] m by simp
  qed
  moreover have "m = (v, h, c) \<or> mend q m \<le> v"
  proof -
    obtain z where "lay q z (ax_pend x) (ax_to x)" using i by (auto simp: pipe_inv_def laid_out_def)
    then show ?thesis using m p(1) lay_mem(1) [of q "mend q m" ms "ax_to x" "(v, h, c)"] by auto
  qed
  ultimately have "fst m = v" using mend_gt(2) [OF inv_offset [OF i], of m] by auto
  then have "head_at x v" using m p(2) by (simp add: head_at_def)
  then show ?thesis using s True t y(2) f by auto
next
  case False
  then show ?thesis using s t by auto
qed

lemma head_word:
  assumes i: "pipe_inv q p rc x" and h: "head_at x v"
  shows "read_word g gt p (adr q v) = ready_word (length (snd (snd (hd (ax_pend x)))))"
    "GetMsgSize_size p (ready_word (length (snd (snd (hd (ax_pend x)))))) \<noteq> -1"
    "adr q v + unat (GetMsgSize_size p (ready_word (length (snd (snd (hd (ax_pend x))))))) = adr q (mend q (hd (ax_pend x)))"
proof -
  obtain m ms where m: "ax_pend x = m # ms" "fst m = v" "ax_ph x v = PhReady" using h by (auto simp: head_at_def)
  have mem: "m \<in> set (ax_pend x)" using m by simp
  have fits: "v mod turn q + (msg_offset q + length (snd (snd m))) \<le> size_pipe q" using pend_fits(3) [OF i mem] m(2) by simp
  have "covers q m v" using inv_offset [OF i] m(2) by (simp add: covers_def mend_def)
  then have "pipe_mem p (adr q v) = CHead (ready_word (length (snd (snd m)))) (fst (snd m)) (snd (snd m))"
    using pend_cell(1) [OF i mem, of v] m by (cases m) simp
  moreover have "adr q v + msg_offset q \<le> end_of_pipe q" using fits by (simp add: adr_def end_of_pipe_def)
  ultimately show "read_word g gt p (adr q v) = ready_word (length (snd (snd (hd (ax_pend x)))))"
    using m inv_ptrs(4,5) [OF i] by (simp add: read_word_def)
  have "msg_offset q + max_size_content q < 2 ^ 31 - 1" using i by (simp add: pipe_inv_def pipe_config_def)
  then have "msg_offset p + length (snd (snd m)) < 2 ^ 31 - 1" using pend_fits(2) [OF i mem] inv_ptrs(5) [OF i] by simp
  note w = ready_word_size [OF this]
  then show "GetMsgSize_size p (ready_word (length (snd (snd (hd (ax_pend x)))))) \<noteq> -1" using m by simp
  show "adr q v + unat (GetMsgSize_size p (ready_word (length (snd (snd (hd (ax_pend x))))))) = adr q (mend q (hd (ax_pend x)))"
    using w m pos_add(3) [OF fits] inv_ptrs(5) [OF i] by (simp add: mend_def)
qed

lemma tinv_Size:
  assumes i: "pipe_inv q p rc x" and t: "tinv q x v (SSize pace ptr version)" and s: "sender_step g gt p (SSize pace ptr version) = (p, pc)"
  shows "tinv q x v pc"
  using s t head_word [OF i, of v] by (auto simp: Let_def split: if_splits)

lemma tinv_Loop:
  assumes i: "pipe_inv q p rc x" and t: "tinv q x v (SLoop new version)" and s: "sender_step g gt p (SLoop new version) = (p, pc)"
  shows "tinv q x v pc"
proof -
  have "ax_from x \<le> ax_to x" using i by (simp add: pipe_inv_def order_inv_def)
  moreover have "new \<noteq> to_ptr p \<Longrightarrow> v \<noteq> ax_to x" using t inv_ptrs(2) [OF i] by auto
  ultimately have "new \<noteq> to_ptr p \<Longrightarrow> v = ax_from x \<Longrightarrow> v < ax_to x" by simp
  then show ?thesis using s t by (auto split: if_splits)
qed

lemma tinv_LoopReady:
  assumes i: "pipe_inv q p rc x" and t: "tinv q x v (SLoopReady new version)" and gt: "\<not> IsReady_size gt"
    and s: "sender_step g gt p (SLoopReady new version) = (p, pc)"
  shows "tinv q x v pc"
proof (cases "v = ax_from x \<and> IsReady_size (read_word g gt p new)")
  case True
  have new: "new = adr q v" and v: "v mod turn q \<noteq> 0" "v < ax_to x" using t True by auto
  have fits: "adr q v + msg_offset q \<le> end_of_pipe q"
    using True gt new inv_ptrs(4,5) [OF i] by (auto simp: read_word_def split: if_splits)
  then have "v mod turn q < size_pipe q" using inv_offset [OF i] by (simp add: adr_def end_of_pipe_def)
  then have c: "pipe_mem p (adr q v) = cell q (ax_ph x) (ax_pub x @ ax_pend x) v"
    using i v True by (auto simp: pipe_inv_def mem_inv_def order_inv_def)
  have nb: "pipe_mem p (adr q v) \<noteq> CBlank"
    using True fits new inv_ptrs(4,5) [OF i] by (auto simp: read_word_def IsReady_size_def IsBlank_size_def)
  obtain m where m: "m \<in> set (ax_pub x @ ax_pend x)" "covers q m v" using c nb cell_out [of "ax_pub x @ ax_pend x" q v] by metis
  have "m \<in> set (ax_pend x)" using m pub_bounds(2) [OF i, of m] True by (auto simp: covers_def)
  note mp = this
  have "fst m = v" using pend_from(1) [OF i mp] m(2) True by (simp add: covers_def)
  obtain ms where hd: "ax_pend x = m # ms" using pend_hd [OF i mp] \<open>fst m = v\<close> True by auto
  have "pipe_mem p (adr q v) = msg_cell (ax_ph x v) m v" using pend_cell(1) [OF i mp m(2)] \<open>fst m = v\<close> by simp
  have small: "length (snd (snd m)) < 2 ^ 31" using pend_fits(2) [OF i mp] i by (simp add: pipe_inv_def pipe_config_def)
  have "\<not> IsNotWriting_size (of_nat n)" if "n < 2 ^ 31" for n
  proof -
    have "\<not> bit (of_nat n :: u32) 31" using nat_bit_bound [OF that, of 31] by (auto simp: bit_nat_word)
    then have "(of_nat n :: u32) AND kMaskNotWriting = 0" by (intro bit_word_eqI) (auto simp: bit_and_iff bit_kMaskNotWriting)
    then show ?thesis by (simp add: IsNotWriting_size_def)
  qed
  then have "ax_ph x v = PhReady"
    using \<open>pipe_mem p (adr q v) = msg_cell (ax_ph x v) m v\<close> True fits new inv_ptrs(4,5) [OF i] small nb \<open>fst m = v\<close>
    by (cases m; cases "ax_ph x v") (auto simp: read_word_def IsReady_size_def)
  then have "head_at x v" using hd \<open>fst m = v\<close> by (simp add: head_at_def)
  then show ?thesis using s t True by auto
next
  case False
  then show ?thesis using s t by (auto split: if_splits)
qed

lemma tinv_LoopSize:
  assumes i: "pipe_inv q p rc x" and t: "tinv q x v (SLoopSize new version)" and s: "sender_step g gt p (SLoopSize new version) = (p, pc)"
  shows "tinv q x v pc"
  using s t head_word [OF i, of v] by (auto simp: Let_def pace_at_def split: if_splits)

section \<open>What the other senders keep\<close>

text \<open>The receiver, and a sender that only changes its own position.\<close>

lemma tinv_mono:
  assumes "tinv q x v pc" "ax_to x' = ax_to x" "ax_from x' = ax_from x" "ax_pend x' = ax_pend x" "ax_ph x' = ax_ph x" "ax_rd x \<le> ax_rd x'"
  shows "tinv q x' v pc"
proof -
  have e: "bef_ok q x' w bef = bef_ok q x w bef" "pends x' w h c f = pends x w h c f" "head_at x' w = head_at x w" for w bef h c f
    using assms(2-5) by (simp_all add: bef_ok_def pends_def head_at_def split: option.split)
  show ?thesis using assms(1,6) by (cases pc) (auto simp: assms(2-4) e intro: order_trans)
qed

lemma tinv_reserve:
  assumes i: "pipe_inv q p rc x" and t: "tinv q x v pc" and m: "ax_to x \<le> fst m"
  shows "tinv q (ax_reserve q m x) v pc"
proof -
  let ?x = "ax_reserve q m x"
  have to: "ax_to x < ax_to ?x" "ax_from ?x = ax_from x" "ax_rd ?x = ax_rd x"
    using m mend_gt(2) [OF inv_offset [OF i], of m] by (auto simp: ax_reserve_def)
  have p: "pends ?x w h c f" if "pends x w h c f" for w h c f
    using that pends_bounds(2) [OF i that] m by (auto simp: pends_def ax_reserve_def)
  have h: "head_at ?x w \<and> hd (ax_pend ?x) = hd (ax_pend x)" if "head_at x w" for w
    using that head_bounds(2) [OF i that] m by (auto simp: head_at_def ax_reserve_def)
  have b: "bef_ok q ?x w bef" if "bef_ok q x w bef" "pends x w h c f" for w bef h c f
    using that(1) pends_bounds(2) [OF i that(2)] m by (auto simp: bef_ok_def ax_reserve_def split: option.splits)
  show ?thesis using t to by (cases pc) (auto intro: p b dest: h)
qed

lemma tinv_phase:
  assumes t: "tinv q x v pc" and w: "ax_ph x w \<noteq> PhReady" "owns q v pc \<Longrightarrow> v \<noteq> w"
  shows "tinv q (x\<lparr>ax_ph := (ax_ph x)(w := f)\<rparr>) v pc"
proof -
  let ?x = "x\<lparr>ax_ph := (ax_ph x)(w := f)\<rparr>"
  have b: "bef_ok q ?x u bef = bef_ok q x u bef" for u bef by (simp add: bef_ok_def split: option.split)
  have p: "pends ?x u h c g = pends x u h c g" if "u \<noteq> w" for u h c g using that by (simp add: pends_def)
  have h: "head_at ?x u" if "head_at x u" for u using that w(1) by (auto simp: head_at_def)
  show ?thesis using t w(2) h by (cases pc) (auto simp: b p)
qed

lemma tinv_publish:
  assumes i: "pipe_inv q p rc x" and hd: "head_at x (ax_from x)" and t: "tinv q x v pc"
    and own: "owns q v pc \<Longrightarrow> v mod turn q = 0 \<Longrightarrow> v \<noteq> ax_from x"
  shows "tinv q (ax_publish q x) v pc"
proof -
  let ?x = "ax_publish q x" and ?F = "ax_from x"
  obtain m ms where m: "ax_pend x = m # ms" "fst m = ?F" "ax_ph x ?F = PhReady" using hd by (auto simp: head_at_def)
  have f: "ax_from ?x = mend q m" "ax_pend ?x = ms" "ax_to ?x = ax_to x" "ax_rd ?x = ax_rd x" "ax_ph ?x = ax_ph x" "?F < mend q m"
    using m mend_gt(2) [OF inv_offset [OF i], of m] by (auto simp: ax_publish_def)
  have p: "pends ?x u h c g" if "pends x u h c g" "u \<noteq> ?F" for u h c g using that m by (auto simp: pends_def f)
  have b: "bef_ok q ?x u bef" if bo: "bef_ok q x u bef" for u bef
  proof (cases bef)
    case (Some b)
    then obtain y where y: "b = adr q y" "u = nxt q y" "?F \<le> y" "\<forall>m \<in> set (ax_pend x). fst m < u \<longrightarrow> mend q m \<le> y"
      using bo by (auto simp: bef_ok_def)
    have "fst m < u" using y(2,3) m(2) nxt_gt(1) [of y q] by simp
    then have "mend q m \<le> y" using y(4) m(1) by simp
    then show ?thesis using Some y m(1) by (auto simp: bef_ok_def f)
  qed (use bo in \<open>simp add: bef_ok_def\<close>)
  have spin: "u \<noteq> ?F" if bo: "bef_ok q x u bef" "bef \<noteq> None" for u bef
  proof -
    obtain y where "u = nxt q y" "?F \<le> y" using bo by (auto simp: bef_ok_def)
    then show ?thesis using nxt_gt(1) [of y q] by simp
  qed
  have res: "pends ?x u h c g" if "pends x u h c g" "g \<noteq> PhReady" for u h c g
    using that p [OF that(1)] m(3) by (auto simp: pends_def)
  have jump: "\<not> head_at x (nxt q ?F)" using m nxt_gt(1) [of ?F q] by (auto simp: head_at_def)
  show ?thesis
  proof (cases pc)
    case (SLoadFrom a bef)
    then show ?thesis using t own f by (cases "v = ?F") (auto intro: p b)
  next
    case (SSpin bef version)
    then show ?thesis using t spin [of v bef] by (auto intro: p b)
  qed (use t jump f in \<open>auto intro: res b\<close>)
qed

lemma tinv_jump:
  assumes i: "pipe_inv q p rc x" and m: "ax_pend x = m # ms" "fst m = nxt q (ax_from x)" and t: "tinv q x v pc"
    and own: "owns q v pc \<Longrightarrow> v \<noteq> nxt q (ax_from x)"
  shows "tinv q (x\<lparr>ax_from := nxt q (ax_from x)\<rparr>) v pc"
proof -
  let ?F = "ax_from x" and ?x = "x\<lparr>ax_from := nxt q (ax_from x)\<rparr>"
  have gt: "?F < nxt q ?F" by (rule nxt_gt(1))
  have e: "pends ?x u h c g = pends x u h c g" "head_at ?x u = head_at x u" for u h c g by (simp_all add: pends_def head_at_def)
  obtain z where z: "lay q z (ax_pend x) (ax_to x)" using i by (auto simp: pipe_inv_def laid_out_def)
  have b: "bef_ok q ?x u bef" if b: "bef_ok q x u bef" and p: "pends x u h c g" and u: "u \<noteq> nxt q ?F" for u bef h c g
  proof (cases bef)
    case (Some b')
    then obtain y where y: "b' = adr q y" "u = nxt q y" "\<forall>m \<in> set (ax_pend x). fst m < u \<longrightarrow> mend q m \<le> y"
      using b by (auto simp: bef_ok_def)
    have "(u, h, c) \<in> set ms" using p u m by (auto simp: pends_def)
    then have "mend q m \<le> u" using z m(1) lay_mem(1) [of q "mend q m" ms "ax_to x" "(u, h, c)"] by simp
    then have "mend q m \<le> y" using y(3) m(1) mend_gt(2) [OF inv_offset [OF i], of m] by simp
    then have "nxt q ?F \<le> y" using m(2) mend_gt(1) [of m q] by simp
    then show ?thesis using Some y by (auto simp: bef_ok_def)
  qed (use b in \<open>simp add: bef_ok_def\<close>)
  show ?thesis using t own gt by (cases pc) (auto simp: e intro: b)
qed

section \<open>The whole invariant\<close>

definition log_inv :: "'h conc \<Rightarrow> 'h aux \<Rightarrow> bool" where
  "log_inv s x \<longleftrightarrow> (\<exists>gone. cc_got s = gone @ (if cc_rcv s = RHas then [snd (hd (ax_pub x))] else [])
     \<and> cc_sent s = gone @ map snd (ax_pub x @ ax_pend x))"

definition thr_inv :: "'h mpsc_pipe \<Rightarrow> 'h conc \<Rightarrow> 'h aux \<Rightarrow> bool" where
  "thr_inv q s x \<longleftrightarrow> (\<forall>t. tinv q x (ax_at x t) (cc_snd s t) \<and> (working (cc_snd s t) \<longrightarrow> ax_to x \<le> ax_at x t + cc_ahead s t))
     \<and> (\<forall>t u. t \<noteq> u \<and> owns q (ax_at x t) (cc_snd s t) \<and> owns q (ax_at x u) (cc_snd s u) \<longrightarrow> ax_at x t \<noteq> ax_at x u)"

text \<open>Nothing pending is forgotten: a message that is not ready, or starts a turn, has its sender; the first message, ready and at the
  published pace, has a sender that will publish it.\<close>

fun publishes :: "'h spc \<Rightarrow> bool" where
  "publishes (SLoadFrom a bef) = True"
| "publishes (SSize pace ptr version) = True"
| "publishes (SPub pace new version) = True"
| "publishes (SLoop new version) = True"
| "publishes (SLoopReady new version) = True"
| "publishes (SLoopSize new version) = True"
| "publishes _ = False"

definition waits :: "'h mpsc_pipe \<Rightarrow> 'h aux \<Rightarrow> nat \<Rightarrow> bool" where
  "waits q x v \<longleftrightarrow> ax_ph x v \<noteq> PhReady \<or> v mod turn q = 0 \<and> v \<noteq> ax_from x"

definition live_inv :: "'h mpsc_pipe \<Rightarrow> 'h conc \<Rightarrow> 'h aux \<Rightarrow> bool" where
  "live_inv q s x \<longleftrightarrow> (\<forall>m \<in> set (ax_pend x). waits q x (fst m) \<longrightarrow> (\<exists>t. owns q (ax_at x t) (cc_snd s t) \<and> ax_at x t = fst m))
     \<and> (head_at x (ax_from x) \<longrightarrow> (\<exists>t. publishes (cc_snd s t) \<and> ax_at x t = ax_from x))"

definition conc_inv :: "'h mpsc_pipe \<Rightarrow> 'h conc \<Rightarrow> 'h aux \<Rightarrow> bool" where
  "conc_inv q s x \<longleftrightarrow> pipe_inv q (cc_pipe s) (cc_rcv s) x \<and> thr_inv q s x \<and> log_inv s x \<and> live_inv q s x"

lemma thr_step:
  assumes thr: "thr_inv q s x" and other: "\<And>u. u \<noteq> t \<Longrightarrow> tinv q x' (ax_at x u) (cc_snd s u)"
    and s': "cc_snd s' = (cc_snd s)(t := pc)" "ax_at x' = (ax_at x)(t := v)" and new: "tinv q x' v pc"
    and own: "\<And>u. owns q v pc \<Longrightarrow> u \<noteq> t \<Longrightarrow> owns q (ax_at x u) (cc_snd s u) \<Longrightarrow> ax_at x u \<noteq> v"
    and ahead: "working pc \<Longrightarrow> ax_to x' \<le> v + cc_ahead s' t"
      "\<And>u. u \<noteq> t \<Longrightarrow> ax_to x' + cc_ahead s u \<le> ax_to x + cc_ahead s' u"
  shows "thr_inv q s' x'"
proof -
  have "ax_to x' \<le> ax_at x u + cc_ahead s' u" if "u \<noteq> t" "working (cc_snd s u)" for u
    using thr that ahead(2) [OF that(1)] by (fastforce simp: thr_inv_def)
  moreover have "ax_at x u \<noteq> ax_at x w"
    if "u \<noteq> w" "owns q (ax_at x u) (cc_snd s u)" "owns q (ax_at x w) (cc_snd s w)" for u w
    using thr that by (auto simp: thr_inv_def)
  ultimately show ?thesis unfolding thr_inv_def s' using new other ahead(1) own by (auto, metis+)
qed

lemma live_step:
  assumes live: "live_inv q s x" and s': "cc_snd s' = (cc_snd s)(t := pc)" "ax_at x' = (ax_at x)(t := v)"
    and old: "\<And>m. m \<in> set (ax_pend x') \<Longrightarrow> waits q x' (fst m) \<Longrightarrow> owns q v pc \<and> v = fst m
      \<or> m \<in> set (ax_pend x) \<and> waits q x (fst m) \<and> \<not> (owns q (ax_at x t) (cc_snd s t) \<and> ax_at x t = fst m)"
    and hd: "head_at x' (ax_from x') \<Longrightarrow> publishes pc \<and> v = ax_from x'
      \<or> head_at x (ax_from x) \<and> ax_from x' = ax_from x \<and> \<not> (publishes (cc_snd s t) \<and> ax_at x t = ax_from x)"
  shows "live_inv q s' x'"
proof -
  have "\<exists>u. owns q (ax_at x' u) (cc_snd s' u) \<and> ax_at x' u = fst m" if m: "m \<in> set (ax_pend x')" "waits q x' (fst m)" for m
  proof (cases "owns q v pc \<and> v = fst m")
    case False
    with old [OF m] have o: "m \<in> set (ax_pend x)" "waits q x (fst m)" "\<not> (owns q (ax_at x t) (cc_snd s t) \<and> ax_at x t = fst m)" by auto
    then obtain u where u: "owns q (ax_at x u) (cc_snd s u)" "ax_at x u = fst m" using live by (auto simp: live_inv_def)
    then have "u \<noteq> t" using o(3) by auto
    then show ?thesis using u s' by (intro exI [of _ u]) simp
  qed (use s' in \<open>auto intro: exI [of _ t]\<close>)
  moreover have "\<exists>u. publishes (cc_snd s' u) \<and> ax_at x' u = ax_from x'" if h: "head_at x' (ax_from x')"
  proof (cases "publishes pc \<and> v = ax_from x'")
    case False
    with hd [OF h] have o: "head_at x (ax_from x)" "ax_from x' = ax_from x" "\<not> (publishes (cc_snd s t) \<and> ax_at x t = ax_from x)" by auto
    then obtain u where u: "publishes (cc_snd s u)" "ax_at x u = ax_from x" using live by (auto simp: live_inv_def)
    then have "u \<noteq> t" using o(3) by auto
    then show ?thesis using u s' o(2) by (intro exI [of _ u]) simp
  qed (use s' in \<open>auto intro: exI [of _ t]\<close>)
  ultimately show ?thesis by (simp add: live_inv_def)
qed

text \<open>A step that changes nothing shared: who gives up has nothing to publish.\<close>

lemma conc_local:
  assumes inv: "conc_inv q s x" and pc: "tinv q x (ax_at x t) pc" "working pc \<Longrightarrow> working (cc_snd s t)"
    "owns q (ax_at x t) pc \<Longrightarrow> owns q (ax_at x t) (cc_snd s t)"
    and keep: "\<And>h c. owns q (ax_at x t) (cc_snd s t) \<Longrightarrow> \<not> owns q (ax_at x t) pc \<Longrightarrow> (ax_at x t, h, c) \<in> set (ax_pend x) \<Longrightarrow> \<not> waits q x (ax_at x t)"
    "publishes (cc_snd s t) \<Longrightarrow> ax_at x t = ax_from x \<Longrightarrow> head_at x (ax_from x) \<Longrightarrow> publishes pc"
  shows "conc_inv q (s\<lparr>cc_snd := (cc_snd s)(t := pc)\<rparr>) x"
proof -
  let ?s = "s\<lparr>cc_snd := (cc_snd s)(t := pc)\<rparr>"
  have thr: "thr_inv q s x" and live: "live_inv q s x" using inv by (simp_all add: conc_inv_def)
  have "thr_inv q ?s x"
    by (rule thr_step [OF thr, where v = "ax_at x t" and t = t and pc = pc]) (use thr pc in \<open>auto simp: thr_inv_def\<close>)
  moreover have "live_inv q ?s x"
    by (rule live_step [OF live, where v = "ax_at x t" and t = t and pc = pc]) (use keep in \<open>auto, metis+\<close>)
  ultimately show ?thesis using inv by (simp add: conc_inv_def log_inv_def)
qed

section \<open>Every step keeps it\<close>

lemma snd_step_same:
  assumes "sender_step g gt (cc_pipe s) (cc_snd s t) = (p, pc)" "\<And>h c. cc_snd s t \<noteq> SLoadTo h c"
    "\<And>h c pace rcv. cc_snd s t = SCas h c pace rcv \<Longrightarrow> pc = SIdle"
  shows "snd_step t g gt s = s\<lparr>cc_pipe := p, cc_snd := (cc_snd s)(t := pc)\<rparr>"
  using assms by (cases "cc_snd s t") (auto simp: snd_step_def)

lemma snd_local:
  assumes inv: "conc_inv q s x" and s: "sender_step g gt (cc_pipe s) (cc_snd s t) = (cc_pipe s, pc)"
    and old: "\<And>h c. cc_snd s t \<noteq> SLoadTo h c" "\<And>h c pace rcv. cc_snd s t = SCas h c pace rcv \<Longrightarrow> pc = SIdle"
    and pc: "tinv q x (ax_at x t) pc" "working pc \<Longrightarrow> working (cc_snd s t)"
    "owns q (ax_at x t) pc \<Longrightarrow> owns q (ax_at x t) (cc_snd s t)"
    and keep: "\<And>h c. owns q (ax_at x t) (cc_snd s t) \<Longrightarrow> \<not> owns q (ax_at x t) pc \<Longrightarrow> (ax_at x t, h, c) \<in> set (ax_pend x) \<Longrightarrow> \<not> waits q x (ax_at x t)"
    "publishes (cc_snd s t) \<Longrightarrow> ax_at x t = ax_from x \<Longrightarrow> head_at x (ax_from x) \<Longrightarrow> publishes pc"
  shows "\<exists>x'. conc_inv q (snd_step t g gt s) x'"
proof -
  have e: "snd_step t g gt s = s\<lparr>cc_snd := (cc_snd s)(t := pc)\<rparr>" using snd_step_same [OF s old] by simp
  show ?thesis unfolding e by (rule exI, rule conc_local [OF inv pc keep])
qed

lemma snd_phase:
  assumes inv: "conc_inv q s x" and s: "sender_step g gt (cc_pipe s) (cc_snd s t) = (p, pc)"
    and old: "\<And>h c. cc_snd s t \<noteq> SLoadTo h c" "\<And>h c pace rcv. cc_snd s t \<noteq> SCas h c pace rcv"
    and ph: "ax_ph x (ax_at x t) \<noteq> PhReady" "owns q (ax_at x t) (cc_snd s t)" "working (cc_snd s t)"
    and p: "pipe_inv q p (cc_rcv s) (x\<lparr>ax_ph := (ax_ph x)(ax_at x t := f)\<rparr>)"
    and pc: "tinv q (x\<lparr>ax_ph := (ax_ph x)(ax_at x t := f)\<rparr>) (ax_at x t) pc" "owns q (ax_at x t) pc"
    and pub: "\<not> publishes (cc_snd s t)" "f = PhReady \<Longrightarrow> publishes pc"
  shows "\<exists>x'. conc_inv q (snd_step t g gt s) x'"
proof -
  let ?x = "x\<lparr>ax_ph := (ax_ph x)(ax_at x t := f)\<rparr>" and ?s = "s\<lparr>cc_pipe := p, cc_snd := (cc_snd s)(t := pc)\<rparr>"
  have thr: "thr_inv q s x" using inv by (simp add: conc_inv_def)
  have e: "snd_step t g gt s = ?s" using snd_step_same [OF s] old by blast
  have diff: "ax_at x u \<noteq> ax_at x t" if "u \<noteq> t" "owns q (ax_at x u) (cc_snd s u)" for u
    using thr that ph(2) by (auto simp: thr_inv_def)
  have "tinv q ?x (ax_at x u) (cc_snd s u)" if "u \<noteq> t" for u
    using thr diff [OF that] by (intro tinv_phase ph(1)) (auto simp: thr_inv_def)
  then have "thr_inv q ?s ?x"
    by (rule thr_step [OF thr, where v = "ax_at x t" and t = t and pc = pc]) (use thr pc diff ph(3) in \<open>auto simp: thr_inv_def\<close>)
  moreover have "live_inv q ?s ?x"
  proof (rule live_step [where v = "ax_at x t" and t = t and pc = pc])
    show "live_inv q s x" using inv by (simp add: conc_inv_def)
    show "publishes pc \<and> ax_at x t = ax_from ?x \<or> head_at x (ax_from x) \<and> ax_from ?x = ax_from x \<and> \<not> (publishes (cc_snd s t) \<and> ax_at x t = ax_from x)"
      if "head_at ?x (ax_from ?x)" using that pub by (auto simp: head_at_def split: if_splits)
  qed (use pc(2) in \<open>auto simp: waits_def\<close>)
  ultimately show ?thesis unfolding e using inv p by (auto simp: conc_inv_def log_inv_def)
qed

lemma inv_at:
  assumes "conc_inv q s x" "cc_snd s t = pc"
  shows "pipe_inv q (cc_pipe s) (cc_rcv s) x" "tinv q x (ax_at x t) pc" "working pc \<Longrightarrow> ax_to x \<le> ax_at x t + cc_ahead s t"
  using assms by (auto simp: conc_inv_def thr_inv_def)

lemma inv_apart:
  assumes "conc_inv q s x" "u \<noteq> t" "owns q (ax_at x t) (cc_snd s t)" "owns q (ax_at x u) (cc_snd s u)"
  shows "ax_at x u \<noteq> ax_at x t"
  using assms by (auto simp: conc_inv_def thr_inv_def)

lemma log_same:
  assumes "log_inv s x" "cc_got s' = cc_got s" "cc_sent s' = cc_sent s" "cc_rcv s' = cc_rcv s"
    "ax_pub x' @ ax_pend x' = ax_pub x @ ax_pend x" "cc_rcv s = RHas \<Longrightarrow> hd (ax_pub x') = hd (ax_pub x)"
  shows "log_inv s' x'"
  using assms unfolding log_inv_def by auto

lemma bef_ok_phase [simp]: "bef_ok q (x\<lparr>ax_ph := ph\<rparr>) v bef = bef_ok q x v bef"
  by (simp add: bef_ok_def split: option.split)

lemma snd_Write:
  assumes inv: "conc_inv q s x" and pc: "cc_snd s t = SWrite a bef h c"
  shows "\<exists>x'. conc_inv q (snd_step t g gt s) x'"
  using inv_write [OF inv_at(1) [OF inv pc], of "ax_at x t" h c] inv_at(2) [OF inv pc] pc
  by (intro snd_phase [OF inv, where p = "write_head a h (length c) (cc_pipe s)" and pc = "SCopy a bef c" and f = PhHead])
    (auto simp: pends_def)

lemma snd_Copy:
  assumes inv: "conc_inv q s x" and pc: "cc_snd s t = SCopy a bef c"
  shows "\<exists>x'. conc_inv q (snd_step t g gt s) x'"
  using inv_copy [OF inv_at(1) [OF inv pc], of "ax_at x t" _ c] inv_at(2) [OF inv pc] pc
  by (intro snd_phase [OF inv, where p = "copy_content a c (cc_pipe s)" and pc = "SReady a bef" and f = PhCopied])
    (auto simp: pends_def)

lemma snd_Ready:
  assumes inv: "conc_inv q s x" and pc: "cc_snd s t = SReady a bef"
  shows "\<exists>x'. conc_inv q (snd_step t g gt s) x'"
  using inv_ready [OF inv_at(1) [OF inv pc], of "ax_at x t"] inv_at(2) [OF inv pc] pc
  by (intro snd_phase [OF inv, where p = "SetReady a (cc_pipe s)" and pc = "SLoadFrom a bef" and f = PhReady])
    (auto simp: pends_def)

lemma snd_LoadTo:
  assumes inv: "conc_inv q s x" and pc: "cc_snd s t = SLoadTo h c"
  shows "\<exists>x'. conc_inv q (snd_step t g gt s) x'"
proof -
  let ?x = "x\<lparr>ax_at := (ax_at x)(t := ax_to x)\<rparr>"
  define pc' where "pc' = (if length c > max_size_content (cc_pipe s) then SIdle else SLoadRcv h c (sender_pace_to (cc_pipe s)))"
  let ?s = "s\<lparr>cc_snd := (cc_snd s)(t := pc'), cc_ahead := (cc_ahead s)(t := 0)\<rparr>"
  have i: "pipe_inv q (cc_pipe s) (cc_rcv s) x" and thr: "thr_inv q s x" using inv by (simp_all add: conc_inv_def)
  have "tinv q x (ax_to x) pc'"
    using i inv_ptrs(7) [OF i] by (auto simp: pc'_def pipe_inv_def pace_inv_def)
  then have "tinv q ?x (ax_to x) pc'" by (rule tinv_mono) simp_all
  moreover have "tinv q ?x (ax_at x u) (cc_snd s u)" for u
    by (rule tinv_mono [of q x]) (use thr in \<open>auto simp: thr_inv_def\<close>)
  ultimately have "thr_inv q ?s ?x"
    by (intro thr_step [OF thr, where v = "ax_to x" and t = t and pc = pc']) (auto simp: pc'_def split: if_splits)
  moreover have "pipe_inv q (cc_pipe s) (cc_rcv s) ?x"
    using i by (cases "cc_rcv s") (auto simp: pipe_inv_def pace_inv_def order_inv_def laid_out_def mem_inv_def)
  moreover have "log_inv ?s ?x" by (rule log_same [of s x]) (use inv in \<open>simp_all add: conc_inv_def\<close>)
  moreover have "live_inv q s x" using inv by (simp add: conc_inv_def)
  then have "live_inv q ?s ?x"
    by (rule live_step [where v = "ax_to x" and t = t and pc = pc']) (use pc in \<open>auto simp: waits_def head_at_def\<close>)
  ultimately have "conc_inv q ?s ?x" by (simp add: conc_inv_def)
  moreover have "snd_step t g gt s = ?s" using pc by (simp add: snd_step_def pc'_def)
  ultimately show ?thesis by auto
qed

lemma snd_Jump:
  assumes inv: "conc_inv q s x" and pc: "cc_snd s t = SJump version"
  shows "\<exists>x'. conc_inv q (snd_step t g gt s) x'"
proof -
  let ?F = "nxt q (ax_from x)"
  let ?x = "x\<lparr>ax_from := ?F\<rparr>" and ?p = "(cc_pipe s)\<lparr>sender_pace_from := pace_at q ?F\<rparr>"
  let ?pc = "SSize (pace_at q ?F) (adr q ?F) version :: 'a spc"
  have i: "pipe_inv q (cc_pipe s) (cc_rcv s) x" and thr: "thr_inv q s x" using inv by (simp_all add: conc_inv_def)
  have v: "ax_at x t = ?F" "head_at x ?F" "version = ?F div turn q mod kNumVersions" using inv_at(2) [OF inv pc] by auto
  obtain m ms where m: "ax_pend x = m # ms" "fst m = ?F" using v(2) by (auto simp: head_at_def)
  have diff: "ax_at x u \<noteq> ?F" if "u \<noteq> t" "owns q (ax_at x u) (cc_snd s u)" for u
    using inv_apart [OF inv that(1) _ that(2)] pc v(1) by simp
  have "tinv q ?x (ax_at x u) (cc_snd s u)" if "u \<noteq> t" for u
    using inv_at(2) [OF inv, of u] diff [OF that] by (intro tinv_jump [OF i m]) simp_all
  moreover have "tinv q ?x ?F ?pc" using v by (simp add: head_at_def)
  ultimately have "thr_inv q (s\<lparr>cc_pipe := ?p, cc_snd := (cc_snd s)(t := ?pc)\<rparr>) ?x"
    using diff v(1) inv_at(3) [OF inv pc] by (intro thr_step [OF thr, where v = ?F and t = t and pc = ?pc]) auto
  moreover have "snd_step t g gt s = s\<lparr>cc_pipe := ?p, cc_snd := (cc_snd s)(t := ?pc)\<rparr>"
    using pc v(3) inv_ptrs(6) [OF i] by (simp add: snd_step_def Let_def pace_at_def)
  moreover have "log_inv (s\<lparr>cc_pipe := ?p, cc_snd := (cc_snd s)(t := ?pc)\<rparr>) ?x"
    by (rule log_same [of s x]) (use inv in \<open>simp_all add: conc_inv_def\<close>)
  moreover have "live_inv q s x" using inv by (simp add: conc_inv_def)
  then have "live_inv q (s\<lparr>cc_pipe := ?p, cc_snd := (cc_snd s)(t := ?pc)\<rparr>) ?x"
  proof (rule live_step [where v = ?F and t = t and pc = ?pc])
    fix n assume "n \<in> set (ax_pend ?x)" "waits q ?x (fst n)"
    moreover have "ax_ph x ?F = PhReady" using v(2) by (simp add: head_at_def)
    moreover have "ax_from x < ?F" by (rule nxt_gt(1))
    moreover have "?F \<le> fst n" if "n \<in> set (ax_pend x)"
    proof -
      obtain z where "lay q z (ax_pend x) (ax_to x)" using i by (auto simp: pipe_inv_def laid_out_def)
      then show ?thesis using that m lay_mem(1) [of q "mend q m" ms "ax_to x" n] mend_gt(1) [of m q] by auto
    qed
    ultimately show "owns q ?F ?pc \<and> ?F = fst n \<or> n \<in> set (ax_pend x) \<and> waits q x (fst n)
        \<and> \<not> (owns q (ax_at x t) (cc_snd s t) \<and> ax_at x t = fst n)"
      using v(1) by (auto simp: waits_def)
  qed (use v(1) in auto)
  ultimately show ?thesis using inv_jump [OF i m] by (auto simp: conc_inv_def)
qed

lemma snd_Pub:
  assumes inv: "conc_inv q s x" and pc: "cc_snd s t = SPub pace new version" and ahead: "cc_ahead s t < kNumVersions * turn q"
  shows "\<exists>x'. conc_inv q (snd_step t g gt s) x'"
proof -
  let ?F = "ax_from x" and ?m = "hd (ax_pend x)"
  have i: "pipe_inv q (cc_pipe s) (cc_rcv s) x" and thr: "thr_inv q s x" using inv by (simp_all add: conc_inv_def)
  have p: "sender_pace_from (cc_pipe s) = pace_at q ?F" "pipe_config q" "?F \<le> ax_to x"
    using i by (auto simp: pipe_inv_def pace_inv_def order_inv_def)
  have t: "pace = pace_at q (ax_at x t)" "version = ax_at x t div turn q mod kNumVersions" "ax_at x t \<le> ?F"
    "ax_at x t = ?F \<Longrightarrow> head_at x ?F \<and> new = adr q (mend q ?m)" and to: "ax_to x \<le> ax_at x t + cc_ahead s t"
    using inv_at [OF inv pc] by auto
  show ?thesis
  proof (cases "sender_pace_from (cc_pipe s) = pace")
    case False
    have "ax_at x t \<noteq> ?F" using False p(1) t(1) by auto
    moreover have "?F \<le> ax_at x t" if "(ax_at x t, h, c) \<in> set (ax_pend x)" for h c using pend_from(1) [OF i that] by simp
    ultimately show ?thesis
      using False pc t(3) by (intro snd_local [OF inv, where pc = SIdle]) (auto simp: CASSenderPaceFrom_def)
  next
    case True
    then have "pace_at q (ax_at x t) = pace_at q ?F" using p(1) t(1) by simp
    moreover have "?F < ax_at x t + kNumVersions * turn q" using p(3) to ahead by linarith
    ultimately have at: "ax_at x t = ?F" using pace_at_versions [OF p(2) t(3)] by blast
    then have h: "head_at x ?F" "new = adr q (mend q ?m)" using t(4) by auto
    then obtain ms where m: "ax_pend x = ?m # ms" "fst ?m = ?F" "ax_ph x (fst ?m) = PhReady" by (auto simp: head_at_def)
    have mem: "?m \<in> set (ax_pend x)" using m(1) by (metis list.set_intros(1))
    note fits = pend_fits(3) [OF i mem, unfolded m(2)]
    have fin: "mend q ?m = ?F + (msg_offset q + length (snd (snd ?m)))" using m(2) by (simp add: mend_def)
    let ?x = "(ax_publish q x)\<lparr>ax_at := (ax_at x)(t := mend q ?m)\<rparr>" and ?p = "(cc_pipe s)\<lparr>sender_pace_from := pace_at q (mend q ?m)\<rparr>"
    let ?pc = "SLoop new version :: 'a spc"
    let ?s = "s\<lparr>cc_pipe := ?p, cc_snd := (cc_snd s)(t := ?pc)\<rparr>"
    have x: "ax_to ?x = ax_to x" "ax_from ?x = mend q ?m" by (simp_all add: ax_publish_def)
    have "tinv q (ax_publish q x) (ax_at x u) (cc_snd s u)" if "u \<noteq> t" for u
      using inv_apart [OF inv that] pc at inv_at(2) [OF inv, of u] by (intro tinv_publish [OF i h(1)]) auto
    then have "tinv q ?x (ax_at x u) (cc_snd s u)" if "u \<noteq> t" for u
      by (rule tinv_mono [of q "ax_publish q x"]) (use that in auto)
    moreover have "tinv q ?x (mend q ?m) ?pc"
      using h(2) t(2) at pos_add(1,2) [OF fits] inv_offset [OF i] x(2) fin by simp
    ultimately have "thr_inv q ?s ?x"
      using x to at fin by (intro thr_step [OF thr, where v = "mend q ?m" and t = t and pc = ?pc]) auto
    moreover have "pipe_inv q ?p (cc_rcv s) ?x"
      using inv_publish [OF i m] by (cases "cc_rcv s") (auto simp: pipe_inv_def pace_inv_def order_inv_def laid_out_def mem_inv_def)
    moreover have "log_inv ?s ?x"
    proof (rule log_same [of s x])
      show "log_inv s x" using inv by (simp add: conc_inv_def)
      show "ax_pub ?x @ ax_pend ?x = ax_pub x @ ax_pend x" using m(1) by (simp add: ax_publish_def) (metis list.sel(3))
      show "hd (ax_pub ?x) = hd (ax_pub x)" if "cc_rcv s = RHas" using i that by (auto simp: ax_publish_def pipe_inv_def)
    qed simp_all
    moreover have "live_inv q s x" using inv by (simp add: conc_inv_def)
    then have "live_inv q ?s ?x"
    proof (rule live_step [where v = "mend q ?m" and t = t and pc = ?pc])
      fix n assume n: "n \<in> set (ax_pend ?x)" "waits q ?x (fst n)"
      have "n \<in> set ms" using n(1) m(1) by (simp add: ax_publish_def) (metis list.sel(3))
      obtain z where "lay q z (ax_pend x) (ax_to x)" using i by (auto simp: pipe_inv_def laid_out_def)
      then have "lay q (mend q ?m) ms (ax_to x)" using m(1) by (metis lay.simps(2))
      then have "?F < fst n" using lay_mem(1) [of q "mend q ?m" ms _ n] \<open>n \<in> set ms\<close> fin inv_offset [OF i] by fastforce
      moreover have "n \<in> set (ax_pend x)" using \<open>n \<in> set ms\<close> m(1) by (metis list.set_intros(2))
      ultimately show "owns q (mend q ?m) ?pc \<and> mend q ?m = fst n \<or> n \<in> set (ax_pend x) \<and> waits q x (fst n)
          \<and> \<not> (owns q (ax_at x t) (cc_snd s t) \<and> ax_at x t = fst n)"
        using n(2) at by (auto simp: waits_def ax_publish_def)
    qed (use x in auto)
    moreover have "snd_step t g gt s = ?s"
      using pc True pace_next_same [OF p(2) fits] h(2) fin at t(1) by (simp add: snd_step_def CASSenderPaceFrom_def)
    ultimately show ?thesis by (auto simp: conc_inv_def)
  qed
qed

text \<open>When a reservation keeps clear of what the receiver has still to blank.\<close>

fun clear_of :: "rpc \<Rightarrow> nat \<Rightarrow> nat \<Rightarrow> bool" where
  "clear_of (RBlank lo hi) a b \<longleftrightarrow> b \<le> lo \<or> hi \<le> a"
| "clear_of _ a b \<longleftrightarrow> True"

lemma clear_low:
  assumes i: "pipe_inv q p rc x" and n: "v mod turn q + n \<le> size_pipe q" "0 < n" "v + n < ax_rd x + turn q"
    and clear: "clear_of rc (adr q v) (adr q (v + n))"
  shows "v + n \<le> ax_low x + turn q"
proof (rule ccontr)
  assume far: "\<not> v + n \<le> ax_low x + turn q"
  then have "ax_low x \<noteq> ax_rd x" using n(3) by auto
  then obtain lo hi where rc: "rc = RBlank lo hi" using i by (cases rc) (auto simp: pipe_inv_def)
  then have r: "lo = adr q (ax_low x)" "hi = lo + (ax_rd x - ax_low x)" "ax_low x < ax_rd x"
    "ax_low x mod turn q + (ax_rd x - ax_low x) \<le> size_pipe q" using i by (auto simp: pipe_inv_def)
  define k where "k = v + n - 1 - (ax_low x + turn q)"
  have k: "v + (n - 1) = (ax_low x + k) + turn q" "k < ax_rd x - ax_low x" using far n(2,3) by (auto simp: k_def)
  then have "adr q (v + (n - 1)) = lo + k" using pos_add(3) [of "ax_low x" q k] r by simp
  moreover have "adr q (v + (n - 1)) = adr q v + (n - 1)" "adr q (v + n) = adr q v + n"
    using pos_add(3) [of v q "n - 1"] pos_add(3) [of v q n] n(1) by simp_all
  ultimately show False using clear rc k(2) r(2,3) n(2) by simp linarith
qed

lemma advance_pos:
  assumes i: "pipe_inv q p rc x" and n: "new_pos q (ax_to x) rewind mod turn q + n \<le> size_pipe q"
  shows "pace_advance p (adr q (ax_to x)) (adr q (new_pos q (ax_to x) rewind + n)) rewind + ax_to x = new_pos q (ax_to x) rewind + n"
proof (cases rewind)
  case True
  have "ax_to x = ax_to x div turn q * turn q + ax_to x mod turn q" "nxt q (ax_to x) = ax_to x div turn q * turn q + turn q"
    by (simp_all add: nxt_def)
  moreover have "adr q (nxt q (ax_to x) + n) = pipe_begin q + n" using pos_add(3) [of "nxt q (ax_to x)" q n] n True by (simp add: new_pos_def)
  moreover have "end_of_pipe p + 1 - adr q (ax_to x) = turn q - ax_to x mod turn q"
    using inv_ptrs(4) [OF i] by (simp add: adr_def end_of_pipe_def turn_def)
  moreover have "ax_to x mod turn q < turn q" by simp
  ultimately show ?thesis
    using True inv_ptrs(6) [OF i] unfolding pace_advance_def new_pos_def by (simp only: if_True)
next
  case False
  then show ?thesis using pos_add(3) [of "ax_to x" q n] n by (simp add: pace_advance_def new_pos_def)
qed

lemma snd_Cas:
  assumes inv: "conc_inv q s x" and pc: "cc_snd s t = SCas h c pace rcv" and ahead: "cc_ahead s t < kNumVersions * turn q"
    and clear: "\<And>new rewind a bef. sender_pace_to (cc_pipe s) = pace \<Longrightarrow>
      reserve_plan (cc_pipe s) (length c) pace rcv = Some (new, rewind, a, bef) \<Longrightarrow> clear_of (cc_rcv s) a new"
  shows "\<exists>x'. conc_inv q (snd_step t g gt s) x'"
proof -
  have i: "pipe_inv q (cc_pipe s) (cc_rcv s) x" and thr: "thr_inv q s x" and lg: "log_inv s x"
    using inv by (simp_all add: conc_inv_def)
  show ?thesis
  proof (cases "reserve_plan (cc_pipe s) (length c) pace rcv = None \<or> sender_pace_to (cc_pipe s) \<noteq> pace")
    case True
    then show ?thesis using pc
      by (intro snd_local [OF inv, where pc = SIdle]) (auto simp: CASSenderPaceTo_def split: option.splits prod.splits)
  next
    case False
    then obtain new rewind a bef where plan: "reserve_plan (cc_pipe s) (length c) pace rcv = Some (new, rewind, a, bef)"
      and eq: "sender_pace_to (cc_pipe s) = pace" by auto
    let ?T = "ax_to x" and ?n = "msg_offset q + length c"
    have cfg: "pipe_config q" "geom (cc_pipe s) = geom q" "pace = pace_at q ?T" and o: "?T < ax_rd x + turn q" "ax_from x \<le> ?T" "ax_rd x \<le> ?T"
      "?T mod turn q \<noteq> 0 \<or> ?T = 0"
      using i eq by (auto simp: pipe_inv_def pace_inv_def order_inv_def)
    have t: "length c \<le> max_size_content q" "pace = pace_at q (ax_at x t)" "ax_at x t \<le> ?T" and to: "?T \<le> ax_at x t + cc_ahead s t"
      using inv_at [OF inv pc] by auto
    have "?T < ax_at x t + kNumVersions * turn q" using to ahead by linarith
    then have at: "ax_at x t = ?T" using pace_at_versions [OF cfg(1) t(3)] t(2) cfg(3) by metis
    then obtain r where r: "r \<le> ax_rd x" "rcv = adr q r" "?T < r + turn q" using inv_at(2) [OF inv pc] by auto
    have rT: "r \<le> ?T" using r(1) o(3) by simp
    define v where "v = new_pos q ?T rewind"
    note pl = plan_pos [OF cfg(1,2) rT r(3) plan [unfolded cfg(3) r(2)], folded v_def]
    let ?m = "(v, h, c)"
    have v: "v = ?T \<or> v = nxt q ?T" "?T \<le> v" "mend q ?m = v + ?n"
      using nxt_gt(1) [of ?T q] by (auto simp: v_def new_pos_def mend_def)
    have room: "v + ?n < ax_rd x + turn q" using pl(4) r(1) by simp
    have low: "v + ?n \<le> ax_low x + turn q"
      using clear_low [OF i pl(3) _ room] clear [OF eq plan] pl(1,2) inv_offset [OF i] by simp
    let ?p = "(cc_pipe s)\<lparr>sender_pace_to := pace_at q (v + ?n)\<rparr>" and ?x = "(ax_reserve q ?m x)\<lparr>ax_at := (ax_at x)(t := v)\<rparr>"
    let ?pc = "SWrite a bef h c"
    define d where "d = pace_advance ?p (to_ptr (cc_pipe s)) (to_ptr ?p) (bef \<noteq> None)"
    let ?s = "s\<lparr>cc_pipe := ?p, cc_snd := (cc_snd s)(t := ?pc), cc_sent := cc_sent s @ [(h, c)], cc_ahead := (\<lambda>u. cc_ahead s u + d)\<rparr>"
    have pipe: "pipe_inv q ?p (cc_rcv s) (ax_reserve q ?m x)"
      using inv_reserve [OF i, of ?m] v pl(3) t(1) room low by simp
    have x: "ax_to ?x = v + ?n" "ax_from ?x = ax_from x" "ax_pend ?x = ax_pend x @ [?m]" using v(3) by (simp_all add: ax_reserve_def)
    have "tinv q (ax_reserve q ?m x) (ax_at x u) (cc_snd s u)" for u
      using inv_at(2) [OF inv, of u] v(2) by (intro tinv_reserve [OF i]) simp_all
    then have frame: "tinv q ?x (ax_at x u) (cc_snd s u)" for u
      by (rule tinv_mono [of q "ax_reserve q ?m x"]) simp_all
    have "mend q m' \<le> ?T" if "m' \<in> set (ax_pend x)" for m' using pend_fits(1) [OF i that] .
    then have bef: "bef_ok q ?x v bef"
      using pl(5) o(2,4) v(2) x mend_gt(2) [OF inv_offset [OF i], of ?m] by (auto simp: bef_ok_def v_def new_pos_def)
    then have new: "tinv q ?x v ?pc" using pl(1) x by (simp add: pends_def) (simp add: ax_reserve_def)
    have "to_ptr ?p = adr q (v + ?n)" using pace_at_ptr [OF cfg(1)] by (simp add: to_ptr_def)
    then have d: "d + ?T = v + ?n"
      using advance_pos [OF i, of rewind ?n] pl(3,5) inv_ptrs(2,4,6) [OF i]
      by (simp add: d_def v_def pace_advance_def end_of_pipe_def split: if_splits)
    have "thr_inv q ?s ?x"
      by (rule thr_step [OF thr frame _ _ new, where t = t])
        (use owns_lt [OF i inv_at(2) [OF inv refl]] v(2) d x(1) in \<open>auto dest: less_le_trans\<close>)
    moreover have "pipe_inv q ?p (cc_rcv s) ?x"
      using pipe by (cases "cc_rcv s") (auto simp: pipe_inv_def pace_inv_def order_inv_def laid_out_def mem_inv_def)
    moreover have "log_inv ?s ?x"
      using lg by (auto simp: log_inv_def ax_reserve_def)
    moreover have "live_inv q ?s ?x"
    proof (rule live_step [where v = v and t = t and pc = ?pc])
      show "live_inv q s x" using inv by (simp add: conc_inv_def)
      fix n assume n: "n \<in> set (ax_pend ?x)" "waits q ?x (fst n)"
      show "owns q v ?pc \<and> v = fst n \<or> n \<in> set (ax_pend x) \<and> waits q x (fst n)
          \<and> \<not> (owns q (ax_at x t) (cc_snd s t) \<and> ax_at x t = fst n)"
        using n x pc by (auto simp: waits_def ax_reserve_def split: if_splits)
    next
      assume "head_at ?x (ax_from ?x)"
      then show "publishes ?pc \<and> v = ax_from ?x \<or> head_at x (ax_from x) \<and> ax_from ?x = ax_from x
          \<and> \<not> (publishes (cc_snd s t) \<and> ax_at x t = ax_from x)"
        using pc by (cases "ax_pend x") (auto simp: head_at_def ax_reserve_def split: if_splits)
    qed simp_all
    moreover have "snd_step t g gt s = ?s"
      using pc plan eq pl(6) cfg(3) by (simp add: snd_step_def CASSenderPaceTo_def d_def Let_def)
    ultimately show ?thesis by (auto simp: conc_inv_def)
  qed
qed

text \<open>The three conditions: before the published pace is compared with the address of a message, the senders' pace has not gone round the ring
  since the sender loaded it, nor \<open>2^16\<close> times before a compare-and-swap; a message is not placed in what has
  still to be blanked; the bytes behind the array do not look like a message that is ready.\<close>

fun step_ok :: "'h act \<Rightarrow> 'h conc \<Rightarrow> bool" where
  "step_ok (Snd t g gt) s =
     (let p = cc_pipe s in case cc_snd s t of
        SCas h c pace rcv \<Rightarrow> cc_ahead s t < kNumVersions * turn p \<and>
          (if sender_pace_to p = pace
           then (case reserve_plan p (length c) pace rcv of None \<Rightarrow> True | Some (new, _, a, _) \<Rightarrow> clear_of (cc_rcv s) a new)
           else True)
      | SLoadFrom a bef \<Rightarrow> cc_ahead s t < turn p
      | SPub pace new version \<Rightarrow> cc_ahead s t < kNumVersions * turn p
      | SLoopReady new version \<Rightarrow> \<not> IsReady_size gt
      | _ \<Rightarrow> True)"
| "step_ok _ s = True"

text \<open>A sender that gives up leaves nothing behind.\<close>

lemma keep_LoadFrom:
  assumes i: "pipe_inv q p rc x" and t: "tinv q x v (SLoadFrom a bef)" and s: "sender_step g gt p (SLoadFrom a bef) = (p, pc)"
  shows "(v, h, c) \<in> set (ax_pend x) \<Longrightarrow> \<not> owns q v pc \<Longrightarrow> \<not> waits q x v" "v = ax_from x \<Longrightarrow> publishes pc"
proof -
  have a: "a = adr q v" using t by simp
  have pace: "DecodeSenderPacePtr (sender_pace_from p) = adr q (ax_from x)" using inv_ptrs(1) [OF i] by (simp add: from_ptr_def)
  show "publishes pc" if "v = ax_from x" using s that pace a by (auto simp: Let_def)
  show "\<not> waits q x v" if m: "(v, h, c) \<in> set (ax_pend x)" and o: "\<not> owns q v pc"
  proof -
    have "\<not> v < ax_from x" using pend_from(1) [OF i m] by simp
    then have "ax_ph x v = PhReady" using t by (auto simp: pends_def)
    moreover have "v mod turn q \<noteq> 0"
      using s o a pace inv_ptrs(6) [OF i] by (auto simp: Let_def adr_def split: if_splits)
    ultimately show ?thesis by (simp add: waits_def)
  qed
qed

lemma keep_read:
  assumes i: "pipe_inv q p rc x" and h: "head_at x v"
  shows "GetMsgSize_size p (read_word g gt p (adr q v)) \<noteq> -1" "IsReady_size (read_word g gt p (adr q v))"
proof -
  obtain m where m: "m \<in> set (ax_pend x)" "hd (ax_pend x) = m" using h by (auto simp: head_at_def)
  have "length (snd (snd m)) < 2 ^ 31 - 1"
    using pend_fits(2) [OF i m(1)] i by (simp add: pipe_inv_def pipe_config_def)
  note nb = ready_word_not_blank [OF this]
  have "bit (ready_word (length (snd (snd m))) AND kMaskNotWriting) 31"
    by (simp add: ready_word_def bit_and_iff bit_or_iff bit_kMaskNotWriting)
  then have "IsNotWriting_size (ready_word (length (snd (snd m))))" unfolding IsNotWriting_size_def by (metis bit_0_eq bot_apply bot_bool_def)
  then show "IsReady_size (read_word g gt p (adr q v))" using nb head_word(1) [OF i h] m(2) by (simp add: IsReady_size_def IsBlank_size_def)
  show "GetMsgSize_size p (read_word g gt p (adr q v)) \<noteq> -1" using head_word(1,2) [OF i h] by simp
qed

lemma snd_LoadFrom:
  assumes inv: "conc_inv q s x" and pc: "cc_snd s t = SLoadFrom a bef" and ahead: "cc_ahead s t < turn q"
  shows "\<exists>x'. conc_inv q (snd_step t g gt s) x'"
proof -
  note at = inv_at [OF inv pc]
  obtain pc' where s: "sender_step g gt (cc_pipe s) (SLoadFrom a bef) = (cc_pipe s, pc')" by (simp add: Let_def)
  have "ax_to x \<le> ax_at x t + size_pipe q" using at(3) ahead by (simp add: turn_def)
  then have "tinv q x (ax_at x t) pc'" using tinv_LoadFrom [OF at(1,2) _ s] by blast
  then show ?thesis
  proof (rule snd_local [OF inv, where pc = pc', rotated 3])
    show "working pc' \<Longrightarrow> working (cc_snd s t)" "owns q (ax_at x t) pc' \<Longrightarrow> owns q (ax_at x t) (cc_snd s t)" using pc by simp_all
    show "\<And>h c. \<not> owns q (ax_at x t) pc' \<Longrightarrow> (ax_at x t, h, c) \<in> set (ax_pend x) \<Longrightarrow> \<not> waits q x (ax_at x t)"
      by (rule keep_LoadFrom(1) [OF at(1,2) s])
    show "ax_at x t = ax_from x \<Longrightarrow> publishes pc'" by (rule keep_LoadFrom(2) [OF at(1,2) s])
  qed (use s pc in simp_all)
qed

lemma snd_Spin:
  assumes inv: "conc_inv q s x" and pc: "cc_snd s t = SSpin bef version"
  shows "\<exists>x'. conc_inv q (snd_step t g gt s) x'"
proof -
  note at = inv_at [OF inv pc]
  obtain pc' where s: "sender_step g gt (cc_pipe s) (SSpin bef version) = (cc_pipe s, pc')" by simp
  have "pc' = SSpin bef version \<or> pc' = SJump ((version + 1) mod kNumVersions)" using s by (auto split: if_splits)
  then have o: "owns q (ax_at x t) pc'" by auto
  show ?thesis
    by (rule snd_local [OF inv, where pc = pc']) (use s pc o tinv_Spin [OF at(1,2) s] in simp_all)
qed

lemma snd_Size:
  assumes inv: "conc_inv q s x" and pc: "cc_snd s t = SSize pace ptr version"
  shows "\<exists>x'. conc_inv q (snd_step t g gt s) x'"
proof -
  note at = inv_at [OF inv pc]
  let ?n = "GetMsgSize_size (cc_pipe s) (read_word g gt (cc_pipe s) ptr)"
  obtain pc' where s: "sender_step g gt (cc_pipe s) (SSize pace ptr version) = (cc_pipe s, pc')"
    and pc': "pc' = (if ?n = -1 then SIdle else SPub pace (ptr + unat ?n) version)" by (simp add: Let_def)
  have n: "?n \<noteq> -1" if "ax_at x t = ax_from x" using keep_read(1) [OF at(1)] at(2) that by simp
  show ?thesis
  proof (rule snd_local [OF inv, where pc = pc'])
    fix h c assume "\<not> owns q (ax_at x t) pc'" "owns q (ax_at x t) (cc_snd s t)" "(ax_at x t, h, c) \<in> set (ax_pend x)"
    then show "\<not> waits q x (ax_at x t)" using pend_from(1) [OF at(1)] at(2) n pc pc' by (force split: if_splits)
  qed (use s pc pc' n tinv_Size [OF at(1,2) s] in \<open>simp_all split: if_splits\<close>)
qed

lemma snd_Loop:
  assumes inv: "conc_inv q s x" and pc: "cc_snd s t = SLoop new version"
  shows "\<exists>x'. conc_inv q (snd_step t g gt s) x'"
proof -
  note at = inv_at [OF inv pc]
  obtain pc' where s: "sender_step g gt (cc_pipe s) (SLoop new version) = (cc_pipe s, pc')"
    and pc': "pc' = (if new = to_ptr (cc_pipe s) then SIdle else SLoopReady new version)" by simp
  have "new \<noteq> to_ptr (cc_pipe s)" if h: "ax_at x t = ax_from x" "head_at x (ax_from x)"
  proof -
    have "ax_from x < ax_to x" "ax_to x < ax_from x + turn q"
      using head_bounds(2) [OF at(1) h(2)] at(1) by (auto simp: pipe_inv_def order_inv_def)
    then show ?thesis using adr_inj [of "ax_from x" "ax_to x" q] at(2) h(1) inv_ptrs(2) [OF at(1)] by auto
  qed
  then show ?thesis
    by (intro snd_local [OF inv, where pc = pc']) (use s pc pc' tinv_Loop [OF at(1,2) s] in \<open>simp_all split: if_splits\<close>)
qed

lemma snd_LoopReady:
  assumes inv: "conc_inv q s x" and pc: "cc_snd s t = SLoopReady new version" and tail: "\<not> IsReady_size gt"
  shows "\<exists>x'. conc_inv q (snd_step t g gt s) x'"
proof -
  note at = inv_at [OF inv pc]
  obtain pc' where s: "sender_step g gt (cc_pipe s) (SLoopReady new version) = (cc_pipe s, pc')"
    and pc': "pc' = (if IsReady_size (read_word g gt (cc_pipe s) new) then SLoopSize new version else SIdle)" by simp
  show ?thesis
    by (rule snd_local [OF inv, where pc = pc'])
      (use s pc pc' at(2) keep_read(2) [OF at(1)] tinv_LoopReady [OF at(1,2) tail s] in \<open>simp_all split: if_splits\<close>)
qed

lemma snd_LoopSize:
  assumes inv: "conc_inv q s x" and pc: "cc_snd s t = SLoopSize new version"
  shows "\<exists>x'. conc_inv q (snd_step t g gt s) x'"
proof -
  note at = inv_at [OF inv pc]
  let ?n = "GetMsgSize_size (cc_pipe s) (read_word g gt (cc_pipe s) new)"
  obtain pc' where s: "sender_step g gt (cc_pipe s) (SLoopSize new version) = (cc_pipe s, pc')"
    and pc': "pc' = (if ?n = -1 then SIdle else SPub (EncodeSenderPace new version) (new + unat ?n) version)" by (simp add: Let_def)
  show ?thesis
    by (rule snd_local [OF inv, where pc = pc'])
      (use s pc pc' at(2) keep_read(1) [OF at(1)] tinv_LoopSize [OF at(1,2) s] in \<open>simp_all split: if_splits\<close>)
qed

lemma conc_snd:
  assumes inv: "conc_inv q s x" and ok: "step_ok (Snd t g gt) s"
  shows "\<exists>x'. conc_inv q (snd_step t g gt s) x'"
proof -
  note at = inv_at [OF inv]
  have turn: "turn (cc_pipe s) = turn q" using inv_ptrs(8) [OF at(1) [OF refl]] by (simp add: turn_def)
  show ?thesis
  proof (cases "cc_snd s t")
    case SIdle
    then show ?thesis by (intro snd_local [OF inv, where pc = SIdle]) auto
  next
    case (SLoadRcv h c pace)
    have "tinv q x (ax_at x t) (SCas h c pace (receiver_pace (cc_pipe s)))"
      using at(2) [OF SLoadRcv] at(1) [OF refl] by (auto simp: pipe_inv_def pace_inv_def order_inv_def)
    then show ?thesis using SLoadRcv by (intro snd_local [OF inv, where pc = "SCas h c pace (receiver_pace (cc_pipe s))"]) auto
  next
    case (SCas h c pace rcv)
    then show ?thesis using ok turn by (intro snd_Cas [OF inv SCas]) (auto simp: Let_def split: if_splits)
  next
    case (SLoadFrom a bef)
    then show ?thesis using ok turn by (intro snd_LoadFrom [OF inv SLoadFrom]) (simp add: Let_def)
  next
    case (SPub pace new version)
    then show ?thesis using ok turn by (intro snd_Pub [OF inv SPub]) (simp add: Let_def)
  next
    case (SLoopReady new version)
    then show ?thesis using ok by (intro snd_LoopReady [OF inv SLoopReady]) simp
  qed (erule snd_LoadTo [OF inv] snd_Write [OF inv] snd_Copy [OF inv] snd_Ready [OF inv] snd_Spin [OF inv] snd_Jump [OF inv]
      snd_Size [OF inv] snd_Loop [OF inv] snd_LoopSize [OF inv])+
qed

lemma thr_rcv:
  assumes "thr_inv q s x" "cc_snd s' = cc_snd s" "cc_ahead s' = cc_ahead s" "ax_at x' = ax_at x" "ax_to x' = ax_to x"
    "ax_from x' = ax_from x" "ax_pend x' = ax_pend x" "ax_ph x' = ax_ph x" "ax_rd x \<le> ax_rd x'"
  shows "thr_inv q s' x'"
  unfolding thr_inv_def using assms(1) tinv_mono [OF _ assms(5-9), of q] by (simp add: assms(2-5) thr_inv_def)

lemma live_rcv:
  assumes "live_inv q s x" "cc_snd s' = cc_snd s" "ax_at x' = ax_at x" "ax_from x' = ax_from x" "ax_pend x' = ax_pend x" "ax_ph x' = ax_ph x"
  shows "live_inv q s' x'"
  using assms by (simp add: live_inv_def waits_def head_at_def)

text \<open>What a step of the receiver does to its messages.\<close>

fun rcv_moves :: "'h vmsg list \<Rightarrow> rpc \<Rightarrow> 'h vmsg list \<Rightarrow> rpc \<Rightarrow> bool" where
  "rcv_moves pub RIdle pub' rc \<longleftrightarrow> pub' = pub \<and> rc = (if pub = [] then RIdle else RHas)"
| "rcv_moves pub RHas pub' rc \<longleftrightarrow> pub' = tl pub \<and> (\<exists>a b. rc = RBlank a b)"
| "rcv_moves pub (RBlank a b) pub' rc \<longleftrightarrow> pub' = pub \<and> rc = RIdle"

lemma conc_rcv:
  assumes inv: "conc_inv q s x"
  shows "\<exists>s' x'. rcv_step s = Inr s' \<and> conc_inv q s' x' \<and> rcv_moves (ax_pub x) (cc_rcv s) (ax_pub x') (cc_rcv s')
    \<and> ax_pend x' = ax_pend x \<and> cc_snd s' = cc_snd s \<and> cc_sent s' = cc_sent s"
proof -
  have i: "pipe_inv q (cc_pipe s) (cc_rcv s) x" and thr: "thr_inv q s x" and lg: "log_inv s x"
    and live: "live_inv q s x" using inv by (simp_all add: conc_inv_def)
  show ?thesis
  proof (cases "cc_rcv s")
    case RIdle
    with i have i': "pipe_inv q (cc_pipe s) RIdle x" by simp
    obtain v p' where p': "pipe_inv q p' RIdle (ax_move v x)" "ax_rd x \<le> v"
      and r: "ReceiveMsg1 (cc_pipe s) = Inr (p', None) \<and> ax_pub x = [] \<or>
        (\<exists>m ms. ax_pub x = m # ms \<and> fst m = v \<and> ReceiveMsg1 (cc_pipe s) = Inr (p', Some (snd m)))"
      by (rule conc_receive [OF i']) blast
    have thr': "thr_inv q s' (ax_move v x)" "live_inv q s' (ax_move v x)" if "cc_snd s' = cc_snd s" "cc_ahead s' = cc_ahead s" for s'
      by (rule thr_rcv [OF thr] live_rcv [OF live]; use that p'(2) in \<open>simp add: ax_move_def\<close>)+
    from r show ?thesis
    proof
      assume n: "ReceiveMsg1 (cc_pipe s) = Inr (p', None) \<and> ax_pub x = []"
      then have "rcv_step s = Inr (s\<lparr>cc_pipe := p'\<rparr>)" using RIdle by (simp add: rcv_step_def)
      moreover have "log_inv (s\<lparr>cc_pipe := p'\<rparr>) (ax_move v x)"
        by (rule log_same [OF lg]) (simp_all add: ax_move_def)
      ultimately show ?thesis
        using p'(1) thr' RIdle n by (intro exI [of _ "s\<lparr>cc_pipe := p'\<rparr>"] exI [of _ "ax_move v x"]) (simp add: conc_inv_def, simp add: ax_move_def)
    next
      assume "\<exists>m ms. ax_pub x = m # ms \<and> fst m = v \<and> ReceiveMsg1 (cc_pipe s) = Inr (p', Some (snd m))"
      then obtain m ms where m: "ax_pub x = m # ms" "fst m = v" "ReceiveMsg1 (cc_pipe s) = Inr (p', Some (snd m))" by blast
      let ?s = "s\<lparr>cc_pipe := p', cc_rcv := RHas, cc_got := cc_got s @ [snd m]\<rparr>"
      have "rcv_step s = Inr ?s" using m(3) RIdle by (cases "snd m") (simp add: rcv_step_def)
      moreover have "pipe_inv q p' RHas (ax_move v x)" using p'(1) m by (auto simp: pipe_inv_def ax_move_def)
      moreover have "log_inv ?s (ax_move v x)" using lg RIdle m(1) by (auto simp: log_inv_def ax_move_def)
      ultimately show ?thesis
        using thr' RIdle m(1) by (intro exI [of _ ?s] exI [of _ "ax_move v x"]) (simp add: conc_inv_def, simp add: ax_move_def)
    qed
  next
    case RHas
    with i have i': "pipe_inv q (cc_pipe s) RHas x" by simp
    obtain m ms r where m: "ax_pub x = m # ms" "read_size (cc_pipe s) (receiver_pace (cc_pipe s)) = Inr (ready_word (length (snd (snd m))))"
      "r = receiver_pace (cc_pipe s) + unat (GetMsgSize_size (cc_pipe s) (ready_word (length (snd (snd m)))))"
      "pipe_inv q ((cc_pipe s)\<lparr>receiver_pace := r\<rparr>) (RBlank (receiver_pace (cc_pipe s)) r) (ax_pop q x)"
      by (rule inv_pop [OF i']) blast
    let ?s = "s\<lparr>cc_pipe := (cc_pipe s)\<lparr>receiver_pace := r\<rparr>, cc_rcv := RBlank (receiver_pace (cc_pipe s)) r\<rparr>"
    have "rcv_step s = Inr ?s" using RHas m(2,3) by (simp add: rcv_step_def Let_def)
    moreover have "ax_rd x \<le> mend q m"
      using i' m(1) mend_gt(1) [of m q] by (auto simp: pipe_inv_def)
    then have "thr_inv q ?s (ax_pop q x)"
      by (intro thr_rcv [OF thr]) (simp_all add: ax_pop_def m(1))
    moreover have "live_inv q ?s (ax_pop q x)" by (rule live_rcv [OF live]) (simp_all add: ax_pop_def)
    moreover have "log_inv ?s (ax_pop q x)" using lg RHas m(1) by (auto simp: log_inv_def ax_pop_def)
    ultimately show ?thesis
      using m(4) RHas by (intro exI [of _ ?s] exI [of _ "ax_pop q x"]) (simp add: conc_inv_def, simp add: ax_pop_def)
  next
    case (RBlank a b)
    let ?s = "s\<lparr>cc_pipe := (cc_pipe s)\<lparr>pipe_mem := SetBlank a b (pipe_mem (cc_pipe s))\<rparr>, cc_rcv := RIdle\<rparr>"
    have "rcv_step s = Inr ?s" using RBlank by (simp add: rcv_step_def Let_def)
    moreover have "thr_inv q ?s (x\<lparr>ax_low := ax_rd x\<rparr>)" by (rule thr_rcv [OF thr]) simp_all
    moreover have "live_inv q ?s (x\<lparr>ax_low := ax_rd x\<rparr>)" by (rule live_rcv [OF live]) simp_all
    moreover have "log_inv ?s (x\<lparr>ax_low := ax_rd x\<rparr>)" using lg RBlank by (auto simp: log_inv_def)
    ultimately show ?thesis using inv_blank [of q "cc_pipe s" a b x] i RBlank
      by (intro exI [of _ ?s] exI [of _ "x\<lparr>ax_low := ax_rd x\<rparr>"]) (simp add: conc_inv_def)
  qed
qed

section \<open>Runs\<close>

fun ok_run :: "'h act list \<Rightarrow> 'h conc \<Rightarrow> bool" where
  "ok_run [] s = True"
| "ok_run (a # as) s = (step_ok a s \<and> (case act_step a s of Inl _ \<Rightarrow> True | Inr s' \<Rightarrow> ok_run as s'))"

lemma conc_step:
  assumes inv: "conc_inv q s x" and ok: "step_ok a s"
  shows "\<exists>s' x'. act_step a s = Inr s' \<and> conc_inv q s' x'"
proof (cases a)
  case (Call t h c)
  have "conc_inv q (s\<lparr>cc_snd := (cc_snd s)(t := SLoadTo h c)\<rparr>) x" if "cc_snd s t = SIdle"
    by (rule conc_local [OF inv]) (use that in simp_all)
  then show ?thesis using inv Call by auto
next
  case (Snd t g gt)
  then show ?thesis using conc_snd [OF inv] ok by auto
next
  case Rcv
  then show ?thesis using conc_rcv [OF inv] by auto
qed

lemma conc_run:
  assumes "conc_inv q s x" "ok_run as s"
  shows "\<exists>s' x'. act_run as s = Inr s' \<and> conc_inv q s' x'"
  using assms
proof (induction as arbitrary: s x)
  case (Cons a as)
  then have "step_ok a s" by simp
  with conc_step [OF Cons.prems(1)] obtain s' x' where s': "act_step a s = Inr s'" "conc_inv q s' x'" by blast
  then have "ok_run as s'" using Cons.prems(2) by simp
  from Cons.IH [OF s'(2) this] show ?case using s'(1) by simp
qed auto

lemma conc_inv_init:
  assumes init: "pipe_Init offset base sz max_size threshold has = Some p" "0 < offset" "base + sz < 2 ^ 48" "offset + max_size < 2 ^ 31 - 1"
  shows "conc_inv p (conc_init p) \<lparr>ax_to = 0, ax_from = 0, ax_rd = 0, ax_low = 0, ax_pub = [], ax_pend = [], ax_ph = (\<lambda>_. PhRes), ax_at = (\<lambda>_. 0)\<rparr>"
    (is "conc_inv p _ ?x")
proof -
  have p: "size_pipe p = sz" "msg_offset p = offset" "pipe_begin p = base" "max_size_content p = max_size" "receiver_pace p = base"
    "sender_pace_from p = EncodeSenderPace base 0" "sender_pace_to p = EncodeSenderPace base 0"
    "pipe_mem p = SetBlank base (base + sz) (\<lambda>_. CBody)" "max_size + offset < sz"
    using init(1) by (auto simp: pipe_Init_def split: if_splits)
  have "pipe_config p" using p init(2-) by (simp add: pipe_config_def end_of_pipe_def)
  moreover have "adr p 0 = base" "pace_at p 0 = EncodeSenderPace base 0" by (simp_all add: adr_def pace_at_def p)
  moreover have "mem_inv p p ?x" by (simp add: mem_inv_def p adr_def SetBlank_def)
  ultimately have "pipe_inv p p RIdle ?x"
    by (simp add: pipe_inv_def pace_inv_def order_inv_def laid_out_def p)
  then show ?thesis by (simp add: conc_inv_def thr_inv_def log_inv_def live_inv_def conc_init_def head_at_def)
qed

text \<open>When all senders have returned everything sent is published.\<close>

lemma quiet_published:
  assumes inv: "conc_inv q s x" and quiet: "cc_snd s = (\<lambda>_. SIdle)"
  shows "ax_pend x = []"
proof (cases "ax_pend x")
  case (Cons m ms)
  have i: "pipe_inv q (cc_pipe s) (cc_rcv s) x" and live: "live_inv q s x" using inv by (simp_all add: conc_inv_def)
  obtain y where "lay q y (ax_pend x) (ax_to x)" "ax_from x = y \<or> fst m = ax_from x"
    using i Cons by (auto simp: pipe_inv_def laid_out_def)
  then have m: "fst m = ax_from x \<or> fst m mod turn q = 0" using Cons by auto
  have "\<not> waits q x (fst m)" "\<not> head_at x (ax_from x)" using live quiet Cons by (auto simp: live_inv_def)
  then show ?thesis using m Cons by (auto simp: waits_def head_at_def)
qed

text \<open>Then the receiver gets all of it, in three steps for each message.\<close>

lemma quiet_received:
  assumes "conc_inv q s x" "cc_rcv s = RIdle" "ax_pend x = []" "length (ax_pub x) = n"
  shows "\<exists>s'. act_run (replicate (3 * n) Rcv) s = Inr s' \<and> cc_got s' = cc_sent s"
  using assms
proof (induction n arbitrary: s x)
  case 0
  then show ?case by (auto simp: conc_inv_def log_inv_def)
next
  case (Suc n)
  then have ne: "ax_pub x \<noteq> []" by auto
  obtain s1 x1 where 1: "rcv_step s = Inr s1" "conc_inv q s1 x1" "ax_pub x1 = ax_pub x" "cc_rcv s1 = RHas" "ax_pend x1 = []" "cc_sent s1 = cc_sent s"
    using conc_rcv [OF Suc.prems(1)] Suc.prems(2,3) ne by auto
  obtain s2 x2 a b where 2: "rcv_step s1 = Inr s2" "conc_inv q s2 x2" "ax_pub x2 = tl (ax_pub x)" "cc_rcv s2 = RBlank a b" "ax_pend x2 = []" "cc_sent s2 = cc_sent s"
    using conc_rcv [OF 1(2)] 1(3-6) by auto
  obtain s3 x3 where 3: "rcv_step s2 = Inr s3" "conc_inv q s3 x3" "ax_pub x3 = tl (ax_pub x)" "cc_rcv s3 = RIdle" "ax_pend x3 = []" "cc_sent s3 = cc_sent s"
    using conc_rcv [OF 2(2)] 2(3-6) by auto
  from Suc.IH [OF 3(2,4,5)] 3(3,6) Suc.prems(4) show ?case using 1(1) 2(1) 3(1) by (simp add: numeral_eq_Suc)
qed

section \<open>Properties\<close>

text \<open>C6. The pipe is a FIFO queue for any number of senders and a receiver that interrupt each other between any two accesses to
  shared memory, in every run in which no sender's message is overtaken by a whole turn of the ring before that sender publishes, none is
  placed where the receiver has still to blank, and the bytes behind the array do not look like a ready message: the receiver
  never reads memory where no message starts, and the messages whose space was reserved are those received so far followed by
  those still queued, in the order of reservation and with their contents.\<close>

theorem conc_fifo:
  assumes "pipe_Init offset base sz max_size threshold has = Some p" "0 < offset" "base + sz < 2 ^ 48"
    "offset + max_size < 2 ^ 31 - 1" "ok_run as (conc_init p)"
  shows "\<exists>s queued. act_run as (conc_init p) = Inr s \<and> cc_sent s = cc_got s @ queued"
proof -
  obtain s x where s: "act_run as (conc_init p) = Inr s" "conc_inv p s x"
    using conc_run [OF conc_inv_init [OF assms(1-4)] assms(5)] by blast
  then obtain gone where g: "cc_got s = gone @ (if cc_rcv s = RHas then [snd (hd (ax_pub x))] else [])"
    "cc_sent s = gone @ map snd (ax_pub x @ ax_pend x)" by (auto simp: conc_inv_def log_inv_def)
  have "ax_pub x \<noteq> []" if "cc_rcv s = RHas" using s(2) that by (auto simp: conc_inv_def pipe_inv_def)
  then have "\<exists>queued. cc_sent s = cc_got s @ queued" using g by (cases "ax_pub x") auto
  then show ?thesis using s(1) by blast
qed

text \<open>Two senders: the second reserves behind the first and is ready before it; the first then publishes both.\<close>

definition mixed_run :: "nat act list" where
  "mixed_run = Call 1 1 [1] # some_steps 1 3 @ Call 2 2 [2, 2] # some_steps 2 7 @ Rcv # some_steps 1 11 @ replicate 3 Rcv"

lemma mixed_run_ok: "ok_run mixed_run (conc_init (small_pipe 40))"
  by (simp add: mixed_run_def run_eval turn_def)

lemma mixed_run_end: "\<exists>s. act_run mixed_run (conc_init (small_pipe 40)) = Inr s \<and> cc_sent s = [(1, [1]), (2, [2, 2])]
   \<and> cc_got s = [(1, [1])] \<and> cc_snd s = (\<lambda>_. SIdle) \<and> cc_rcv s = RIdle"
  by (simp add: mixed_run_def run_eval fun_upd_idem)

lemma small_pipe_init: "16 < n \<Longrightarrow> pipe_Init 8 4096 n 8 0 False = Some (small_pipe n)"
  by (simp add: pipe_Init_def)

theorem conc_fifo_witness:
  "\<exists>s. act_run mixed_run (conc_init (small_pipe 40)) = Inr s \<and> cc_sent s = cc_got s @ [(2, [2, 2])] \<and> cc_got s = [(1, [1])]"
proof -
  have "pipe_Init 8 4096 40 8 0 False = Some (small_pipe 40)" by (rule small_pipe_init) simp
  from conc_fifo [OF this _ _ _ mixed_run_ok] show ?thesis using mixed_run_end by auto
qed

text \<open>C30. Nothing is left behind: when, after such a run, every sender has returned and the receiver is between two messages, it receives
  everything that was sent and not yet received, in three steps for each message.\<close>

theorem conc_drains:
  assumes "pipe_Init offset base sz max_size threshold has = Some p" "0 < offset" "base + sz < 2 ^ 48"
    "offset + max_size < 2 ^ 31 - 1" "ok_run as (conc_init p)" "act_run as (conc_init p) = Inr s"
    "cc_snd s = (\<lambda>_. SIdle)" "cc_rcv s = RIdle"
  shows "\<exists>s'. act_run (replicate (3 * (length (cc_sent s) - length (cc_got s))) Rcv) s = Inr s' \<and> cc_got s' = cc_sent s"
proof -
  obtain x where x: "conc_inv p s x" using conc_run [OF conc_inv_init [OF assms(1-4)] assms(5)] assms(6) by auto
  have pend: "ax_pend x = []" using quiet_published [OF x assms(7)] .
  then have "length (ax_pub x) = length (cc_sent s) - length (cc_got s)"
    using x assms(8) by (auto simp: conc_inv_def log_inv_def)
  then show ?thesis by (rule quiet_received [OF x assms(8) pend])
qed

theorem conc_drains_witness:
  "\<exists>s s'. act_run mixed_run (conc_init (small_pipe 40)) = Inr s \<and> cc_got s = [(1, [1])]
     \<and> act_run (replicate 3 Rcv) s = Inr s' \<and> cc_got s' = [(1, [1]), (2, [2, 2])]"
proof -
  obtain s where s: "act_run mixed_run (conc_init (small_pipe 40)) = Inr s" "cc_sent s = [(1, [1]), (2, [2, 2])]"
    "cc_got s = [(1, [1])]" "cc_snd s = (\<lambda>_. SIdle)" "cc_rcv s = RIdle" using mixed_run_end by blast
  have "pipe_Init 8 4096 40 8 0 False = Some (small_pipe 40)" by (rule small_pipe_init) simp
  from conc_drains [OF this _ _ _ mixed_run_ok s(1,4,5)] s(2,3)
  obtain s' where "act_run (replicate 3 Rcv) s = Inr s'" "cc_got s' = cc_sent s" by auto
  then show ?thesis using s by auto
qed

end
