(* ===== verification/Byte_Order.thy ===== *)
theory Byte_Order
  imports Mag_Prelude
begin

text \<open>
  Words in memory and on the wire. The program runs on little-endian machines (it is built
  for x86-64), so that \<^verbatim>\<open>htons\<close>, \<^verbatim>\<open>htonl\<close> and their inverses reverse the bytes of a word,
  and a struct stored with converted fields reads, byte by byte, in network order.
\<close>

unbundle bit_operations_syntax

definition bytes_of16 :: "u16 \<Rightarrow> byte list" where
  "bytes_of16 w = [ucast w, ucast (drop_bit 8 w)]"

definition bytes_of32 :: "u32 \<Rightarrow> byte list" where
  "bytes_of32 w = [ucast w, ucast (drop_bit 8 w), ucast (drop_bit 16 w), ucast (drop_bit 24 w)]"

fun word_of16 :: "byte list \<Rightarrow> u16" where
  "word_of16 (a # b # _) = ucast a OR push_bit 8 (ucast b)"
| "word_of16 _ = 0"

fun word_of32 :: "byte list \<Rightarrow> u32" where
  "word_of32 (a # b # c # d # _) =
     ucast a OR push_bit 8 (ucast b) OR push_bit 16 (ucast c) OR push_bit 24 (ucast d)"
| "word_of32 _ = 0"

definition htons :: "u16 \<Rightarrow> u16" where "htons w = word_of16 (rev (bytes_of16 w))"
definition htonl :: "u32 \<Rightarrow> u32" where "htonl w = word_of32 (rev (bytes_of32 w))"

lemma length_bytes [simp]: "length (bytes_of16 w) = 2" "length (bytes_of32 v) = 4"
  by (simp_all add: bytes_of16_def bytes_of32_def)

lemma word_bytes16 [simp]: "word_of16 (bytes_of16 w @ xs) = w"
proof (rule bit_word_eqI)
  fix n assume "n < LENGTH(16)"
  then show "bit (word_of16 (bytes_of16 w @ xs)) n = bit w n"
    by (cases "n < 8") (auto simp: bytes_of16_def bit_simps)
qed

lemma word_bytes32 [simp]: "word_of32 (bytes_of32 w @ xs) = w"
proof (rule bit_word_eqI)
  fix n assume n: "n < LENGTH(32)"
  consider "n < 8" | "8 \<le> n" "n < 16" | "16 \<le> n" "n < 24" | "24 \<le> n" by linarith
  then show "bit (word_of32 (bytes_of32 w @ xs)) n = bit w n"
    using n by cases (auto simp: bytes_of32_def bit_simps)
qed

lemma bytes_word16 [simp]: "length bs = 2 \<Longrightarrow> bytes_of16 (word_of16 bs) = bs"
proof -
  assume "length bs = 2"
  then obtain a b where "bs = [a, b]" by (auto simp: length_Suc_conv numeral_2_eq_2)
  then show ?thesis by (auto simp: bytes_of16_def intro!: bit_word_eqI) (auto simp: bit_simps dest: bit_imp_le_length)
qed

lemma bytes_word32 [simp]: "length bs = 4 \<Longrightarrow> bytes_of32 (word_of32 bs) = bs"
proof -
  assume "length bs = 4"
  then obtain a b c d where "bs = [a, b, c, d]" by (auto simp: length_Suc_conv eval_nat_numeral)
  then show ?thesis by (auto simp: bytes_of32_def intro!: bit_word_eqI) (auto simp: bit_simps dest: bit_imp_le_length)
qed

lemma htons_bytes: "bytes_of16 (htons w) = rev (bytes_of16 w)"
  by (simp add: htons_def)

lemma htonl_bytes: "bytes_of32 (htonl w) = rev (bytes_of32 w)"
  by (simp add: htonl_def)

lemma htons_htons [simp]: "htons (htons w) = w"
  unfolding htons_def [of "htons w"] htons_bytes using word_bytes16 [of w "[]"] by simp

lemma htonl_htonl [simp]: "htonl (htonl w) = w"
  unfolding htonl_def [of "htonl w"] htonl_bytes using word_bytes32 [of w "[]"] by simp

end
