(* ===== verification/Protocols.thy ===== *)
theory Protocols
  imports Byte_Order
begin

text \<open>
  What all protocols share: \<^verbatim>\<open>src/protocols/protocol.h\<close> (addresses, categories),
  \<^verbatim>\<open>src/protocols/pool_protocols.h\<close> (choice of the category by name), the ping protocol, and
  the non-blocking calls of \<^verbatim>\<open>IOHelper\<close>. \<^verbatim>\<open>ReadNonBlock\<close>, \<^verbatim>\<open>WriteNonBlock\<close> and
  \<^verbatim>\<open>WriteVecNonBlock\<close> come with the public-cpp library in binary form and \<^verbatim>\<open>inet_addr\<close> with the
  system: they are arguments of the definitions.
\<close>

section \<open>Addresses\<close>

record sockaddr_in =
  sin_family :: nat
  s_addr :: u32
  sin_port :: u16

definition AF_INET :: nat where "AF_INET = 2"
definition INADDR_NONE :: u32 where "INADDR_NONE = -1"

definition is_digit :: "char \<Rightarrow> bool" where
  "is_digit c \<longleftrightarrow> 48 \<le> (of_char c :: nat) \<and> (of_char c :: nat) \<le> 57"

definition digit_val :: "char \<Rightarrow> int" where
  "digit_val c = int (of_char c) - 48"

text \<open>\<^verbatim>\<open>atoi\<close>: white space, a sign, then digits as far as they go.\<close>

definition is_space :: "char \<Rightarrow> bool" where
  "is_space c \<longleftrightarrow> c = CHR '' '' \<or> (9 \<le> (of_char c :: nat) \<and> (of_char c :: nat) \<le> 13)"

definition digits_val :: "string \<Rightarrow> int" where
  "digits_val s = foldl (\<lambda>acc c. acc * 10 + digit_val c) 0 (takeWhile is_digit s)"

definition atoi :: "string \<Rightarrow> int" where
  "atoi s = to_int32 (case dropWhile is_space s of
     [] \<Rightarrow> 0
   | c # r \<Rightarrow> if c = CHR ''-'' then - digits_val r else if c = CHR ''+'' then digits_val r
             else digits_val (c # r))"

text \<open>\<^verbatim>\<open>Addr::Assign\<close>.\<close>

definition Addr_Assign :: "(string \<Rightarrow> u32) \<Rightarrow> string \<Rightarrow> sockaddr_in \<Rightarrow> sockaddr_in \<times> bool" where
  "Addr_Assign inet_addr addr_str old =
     (case dropWhile (\<lambda>c. c \<noteq> CHR '':'') addr_str of
        [] \<Rightarrow> (old, False)
      | _ # port \<Rightarrow>
          let ip = inet_addr (takeWhile (\<lambda>c. c \<noteq> CHR '':'') addr_str);
              a = \<lparr>sin_family = AF_INET, s_addr = ip, sin_port = 0\<rparr>
          in if ip = INADDR_NONE then (a, False)
             else (a\<lparr>sin_port := htons (word_of_int (atoi port))\<rparr>, True))"

section \<open>Categories\<close>

datatype protocol_category = PcRapid | PcPing | PcRedis | PcThrift | PcHttp | PcInvalid

record listen_addr =
  la_name :: string
  la_category :: protocol_category
  la_addr :: sockaddr_in

text \<open>\<^verbatim>\<open>PoolProtocols::GetCategory\<close>; the first argument is whether the build supports
  thrift.\<close>

definition GetCategory :: "bool \<Rightarrow> string \<Rightarrow> protocol_category" where
  "GetCategory thrift category =
     (if category = ''rapid'' then PcRapid
      else if category = ''ping'' then PcPing
      else if category = ''redis'' then PcRedis
      else if thrift \<and> category = ''thrift'' then PcThrift
      else PcInvalid)"

text \<open>The categories \<^verbatim>\<open>GetWrite\<close> and \<^verbatim>\<open>GetRead\<close> have a protocol for; for the others they
  return the null pointer.\<close>

definition category_served :: "bool \<Rightarrow> protocol_category \<Rightarrow> bool" where
  "category_served thrift c =
     (case c of PcPing \<Rightarrow> True | PcRapid \<Rightarrow> True | PcRedis \<Rightarrow> True | PcThrift \<Rightarrow> thrift | _ \<Rightarrow> False)"

definition kEnd :: int where "kEnd = -100"

section \<open>Ping\<close>

text \<open>\<^verbatim>\<open>ProtocolWritePing::Write\<close> and \<^verbatim>\<open>ProtocolReadPing::Read\<close>, on what \<^verbatim>\<open>WriteNonBlock\<close> and
  \<^verbatim>\<open>ReadNonBlock\<close> return for one byte.\<close>

definition ping_Write :: "(byte list \<Rightarrow> int) \<Rightarrow> int" where
  "ping_Write write_nb = (let ret = write_nb [0x70] in if ret > 0 then 0 else if ret = 0 then kEnd else ret)"

definition ping_Read :: "('s \<Rightarrow> nat \<Rightarrow> 's \<times> int \<times> byte list) \<Rightarrow> byte \<Rightarrow> 's \<Rightarrow> 's \<times> byte \<times> int" where
  "ping_Read rnb buffer s =
     (case rnb s 1 of (s', ret, bs) \<Rightarrow>
        (s', if ret > 0 then hd (bs @ [buffer]) else buffer,
         if ret > 0 then 0 else if ret = 0 then kEnd else ret))"

section \<open>Non-blocking reads\<close>

text \<open>What the protocols rely on of \<^verbatim>\<open>ReadNonBlock\<close>: a positive result is the number of
  bytes stored, the next ones of the stream and no more than were asked for; any other result
  leaves the stream where it was.\<close>

definition reads_stream :: "('s \<Rightarrow> nat \<Rightarrow> 's \<times> int \<times> byte list) \<Rightarrow> ('s \<Rightarrow> byte list) \<Rightarrow> bool" where
  "reads_stream rnb strm \<longleftrightarrow> (\<forall>s n s' ret bs. rnb s n = (s', ret, bs) \<longrightarrow>
     (if ret > 0 then int (length bs) = ret \<and> length bs \<le> n \<and> strm s = bs @ strm s'
      else bs = [] \<and> strm s' = strm s))"

lemma reads_streamD:
  assumes "reads_stream rnb strm" "rnb s n = (s', ret, bs)"
  shows "ret > 0 \<Longrightarrow> int (length bs) = ret \<and> length bs \<le> n \<and> strm s = bs @ strm s'"
    "ret \<le> 0 \<Longrightarrow> bs = [] \<and> strm s' = strm s"
  using assms unfolding reads_stream_def by (metis, metis not_less)

text \<open>A socket that has received a number of pieces, as an instance.\<close>

fun piece_rnb :: "byte list list \<Rightarrow> nat \<Rightarrow> byte list list \<times> int \<times> byte list" where
  "piece_rnb [] n = ([], 0, [])"
| "piece_rnb (p # ps) n =
     (if take n p = [] then (p # ps, 0, [])
      else (if drop n p = [] then ps else drop n p # ps, int (length (take n p)), take n p))"

lemma piece_rnb_reads: "reads_stream piece_rnb concat"
  unfolding reads_stream_def
proof (intro allI impI)
  fix s n s' ret bs assume "piece_rnb s n = (s', ret, bs)"
  then show "if ret > 0 then int (length bs) = ret \<and> length bs \<le> n \<and> concat s = bs @ concat s'
    else bs = [] \<and> concat s' = concat s"
    by (cases "(s, n)" rule: piece_rnb.cases) (auto split: if_splits)
qed

end
