(* ===== verification/Protocol_Rapid.thy ===== *)
theory Protocol_Rapid
  imports Protocols
begin

text \<open>
  The rapid protocol, \<^verbatim>\<open>src/protocols/rapid/\<close>: a header of magic, version and size in network
  order, then the payload. The reader is resumable: \<^verbatim>\<open>Read\<close> is called each time the socket
  is readable and returns how many bytes are missing. It is shown that however the bytes of a
  message are cut into pieces, the reader ends exactly at the end of the message with the
  payload that was written.
\<close>

section \<open>State\<close>

record rapid_header =
  rh_magic :: u16
  rh_version :: u16
  rh_size :: u32

definition kMagic :: u16 where "kMagic = 58764"
definition kMaxVersion :: u16 where "kMaxVersion = 10"

text \<open>The struct in memory: 8 bytes, fields in host order.\<close>

definition header_bytes :: "rapid_header \<Rightarrow> byte list" where
  "header_bytes h = bytes_of16 (rh_magic h) @ bytes_of16 (rh_version h) @ bytes_of32 (rh_size h)"

definition header_of :: "byte list \<Rightarrow> rapid_header" where
  "header_of bs = \<lparr>rh_magic = word_of16 bs, rh_version = word_of16 (drop 2 bs), rh_size = word_of32 (drop 4 bs)\<rparr>"

definition sizeof_header :: nat where "sizeof_header = 8"

section \<open>Writing\<close>

text \<open>An I/O vector points into the header or the payload, at an offset.\<close>

datatype rapid_iov = IovHeader nat | IovBody nat

record rapid_write =
  rw_buf :: "byte list"
  rw_header :: rapid_header
  rw_iovs :: "rapid_iov list"

definition rapid_write_Reset :: "byte list \<Rightarrow> rapid_write \<Rightarrow> rapid_write" where
  "rapid_write_Reset buf w = w\<lparr>rw_buf := buf, rw_iovs := [IovHeader 0, IovBody 0]\<rparr>"

definition rapid_Encode :: "rapid_write \<Rightarrow> rapid_write \<times> bool" where
  "rapid_Encode w = (w\<lparr>rw_header := \<lparr>rh_magic = htons kMagic, rh_version = htons 0,
     rh_size = htonl (of_nat (length (rw_buf w)))\<rparr>\<rparr>, True)"

definition iov_bytes :: "rapid_write \<Rightarrow> rapid_iov \<Rightarrow> byte list" where
  "iov_bytes w v = (case v of IovHeader k \<Rightarrow> drop k (header_bytes (rw_header w)) | IovBody k \<Rightarrow> drop k (rw_buf w))"

definition iovs_bytes :: "rapid_write \<Rightarrow> byte list" where
  "iovs_bytes w = concat (map (iov_bytes w) (rw_iovs w))"

text \<open>\<^verbatim>\<open>Write\<close>; the first argument stands for \<^verbatim>\<open>WriteVecNonBlock\<close>, which advances the
  vectors past what it wrote.\<close>

definition rapid_Write :: "(rapid_write \<Rightarrow> int \<times> rapid_iov list) \<Rightarrow> rapid_write \<Rightarrow> rapid_write \<times> int" where
  "rapid_Write wvnb w =
     (case wvnb w of (ret, iovs) \<Rightarrow>
      let w' = w\<lparr>rw_iovs := iovs\<rparr> in
      (w', if ret > 0
           then (if iovs = [] then 0
                 else if length iovs = 1 then to_int32 (int (length (iov_bytes w' (iovs ! 0))))
                 else to_int32 (int (length (iov_bytes w' (iovs ! 0)) + length (iov_bytes w' (iovs ! 1)))))
           else if ret = 0 then kEnd else ret))"

section \<open>Reading\<close>

record rapid_read =
  rr_buffer :: "byte list"
  rr_read_header :: bool

definition rapid_read_Reset :: "rapid_read \<Rightarrow> rapid_read" where
  "rapid_read_Reset r = r\<lparr>rr_buffer := [], rr_read_header := True\<rparr>"

definition rr_header :: "rapid_read \<Rightarrow> rapid_header" where
  "rr_header r = header_of (rr_buffer r)"

definition rapid_Data :: "rapid_read \<Rightarrow> byte list" where
  "rapid_Data r = drop sizeof_header (rr_buffer r)"

definition rapid_Size :: "rapid_read \<Rightarrow> nat" where
  "rapid_Size r = unat (rh_size (rr_header r))"

text \<open>\<^verbatim>\<open>header->size = ntohl(header->size)\<close> in the buffer.\<close>

definition rr_ntoh_size :: "rapid_read \<Rightarrow> rapid_read" where
  "rr_ntoh_size r = r\<lparr>rr_buffer :=
     header_bytes ((rr_header r)\<lparr>rh_size := htonl (rh_size (rr_header r))\<rparr>) @ drop sizeof_header (rr_buffer r)\<rparr>"

text \<open>\<^verbatim>\<open>Read\<close>: the loop reads header bytes until there are eight, then the body once. The
  first argument stands for \<^verbatim>\<open>ReadNonBlock\<close>.\<close>

partial_function (option) rapid_Read_loop ::
  "('s \<Rightarrow> nat \<Rightarrow> 's \<times> int \<times> byte list) \<Rightarrow> bool \<Rightarrow> 's \<Rightarrow> rapid_read \<Rightarrow> ('s \<times> rapid_read \<times> int) option" where
  "rapid_Read_loop rnb has_bytes_read s r =
     (if rr_read_header r then
        let bytes_left = sizeof_header - length (rr_buffer r) in
        case rnb s bytes_left of (s', ret, bs) \<Rightarrow>
          if ret > 0 then
            let r' = r\<lparr>rr_buffer := rr_buffer r @ bs\<rparr> in
            if sizeof_header = length (rr_buffer r')
            then rapid_Read_loop rnb True s' (rr_ntoh_size (r'\<lparr>rr_read_header := False\<rparr>))
            else rapid_Read_loop rnb True s' r'
          else if ret = 0 then Some (s', r, if has_bytes_read then to_int32 (int bytes_left) else kEnd)
          else Some (s', r, ret)
      else
        let bytes_left = sizeof_header + rapid_Size r - length (rr_buffer r) in
        case rnb s bytes_left of (s', ret, bs) \<Rightarrow>
          if ret > 0
          then Some (s', r\<lparr>rr_buffer := rr_buffer r @ bs\<rparr>, to_int32 (int bytes_left - ret))
          else if ret = 0 then Some (s', r, if has_bytes_read then to_int32 (int bytes_left) else kEnd)
          else Some (s', r, ret))"

declare rapid_Read_loop.simps [code]

definition rapid_Read :: "('s \<Rightarrow> nat \<Rightarrow> 's \<times> int \<times> byte list) \<Rightarrow> 's \<Rightarrow> rapid_read \<Rightarrow> ('s \<times> rapid_read \<times> int) option" where
  "rapid_Read rnb s r = rapid_Read_loop rnb False s r"

definition rapid_Decode :: "rapid_read \<Rightarrow> rapid_read \<times> bool" where
  "rapid_Decode r =
     (let h = (rr_header r)\<lparr>rh_magic := htons (rh_magic (rr_header r)), rh_version := htons (rh_version (rr_header r))\<rparr>
      in (r\<lparr>rr_buffer := header_bytes h @ drop sizeof_header (rr_buffer r)\<rparr>,
          rh_magic h = kMagic \<and> rh_version h \<le> kMaxVersion))"

section \<open>The bytes of a message\<close>

text \<open>Magic and version as written, then the size in network order, then the payload.\<close>

definition wire_head :: "nat \<Rightarrow> byte list" where
  "wire_head n = rev (bytes_of16 kMagic) @ rev (bytes_of16 0) @ rev (bytes_of32 (of_nat n))"

definition wire :: "byte list \<Rightarrow> byte list" where
  "wire payload = wire_head (length payload) @ payload"

lemma length_wire_head [simp]: "length (wire_head n) = sizeof_header"
  by (simp add: wire_head_def sizeof_header_def)

lemma rapid_encoded_bytes:
  "iovs_bytes (fst (rapid_Encode (rapid_write_Reset payload w))) = wire payload"
  by (simp add: iovs_bytes_def rapid_Encode_def rapid_write_Reset_def iov_bytes_def header_bytes_def
    htons_bytes htonl_bytes wire_def wire_head_def)

lemma header_of_bytes [simp]: "header_of (header_bytes h @ xs) = h"
  by (simp add: header_of_def header_bytes_def drop_append)

lemma length_header_bytes [simp]: "length (header_bytes h) = 8"
  by (simp add: header_bytes_def)

text \<open>The header as the reader sees it before and after the size is converted.\<close>

definition wire_header :: "nat \<Rightarrow> rapid_header" where
  "wire_header n = \<lparr>rh_magic = htons kMagic, rh_version = htons 0, rh_size = htonl (of_nat n)\<rparr>"

lemma wire_head_bytes: "wire_head n = header_bytes (wire_header n)"
  by (simp add: wire_head_def header_bytes_def wire_header_def htons_bytes htonl_bytes)

section \<open>The reader\<close>

text \<open>The reader is somewhere in a message: so many bytes of it are in the buffer, the rest is
  what the socket still gives, followed by whatever comes after the message.\<close>

definition rapid_inv :: "byte list \<Rightarrow> byte list \<Rightarrow> byte list \<Rightarrow> rapid_read \<Rightarrow> bool" where
  "rapid_inv payload rest strm r \<longleftrightarrow> length payload < 2 ^ 31 - 8 \<and>
     (if rr_read_header r
      then length (rr_buffer r) < sizeof_header \<and> rr_buffer r @ strm = wire payload @ rest
      else \<exists>p. rr_buffer r = header_bytes ((wire_header (length payload))\<lparr>rh_size := of_nat (length payload)\<rparr>) @ p
             \<and> p @ strm = payload @ rest \<and> length p \<le> length payload)"

definition rapid_missing :: "byte list \<Rightarrow> rapid_read \<Rightarrow> nat" where
  "rapid_missing payload r = sizeof_header + length payload - length (rr_buffer r)"

lemma reset_inv: "length payload < 2 ^ 31 - 8 \<Longrightarrow> strm = wire payload @ rest \<Longrightarrow>
    rapid_inv payload rest strm (rapid_read_Reset r)"
  by (simp add: rapid_inv_def rapid_read_Reset_def sizeof_header_def)

lemma inv_size:
  assumes "rapid_inv payload rest strm r" "\<not> rr_read_header r"
  shows "rapid_Size r = length payload" "sizeof_header \<le> length (rr_buffer r)"
    "length (rr_buffer r) \<le> sizeof_header + length payload"
proof -
  from assms obtain p where b: "rr_buffer r = header_bytes ((wire_header (length payload))\<lparr>rh_size := of_nat (length payload)\<rparr>) @ p"
    "length p \<le> length payload" by (auto simp: rapid_inv_def)
  have "unat (of_nat (length payload) :: u32) = length payload"
    using assms(1) by (simp add: rapid_inv_def unsigned_of_nat take_bit_nat_eq_self)
  then show "rapid_Size r = length payload" by (simp add: rapid_Size_def rr_header_def b)
  show "sizeof_header \<le> length (rr_buffer r)" "length (rr_buffer r) \<le> sizeof_header + length payload"
    using b by (simp_all add: sizeof_header_def)
qed

lemma header_done:
  assumes "rr_buffer r @ strm = wire payload @ rest" "length (rr_buffer r) = sizeof_header"
    "length payload < 2 ^ 31 - 8"
  shows "rapid_inv payload rest strm (rr_ntoh_size (r\<lparr>rr_read_header := False\<rparr>))"
    "length (rr_buffer (rr_ntoh_size (r\<lparr>rr_read_header := False\<rparr>))) = sizeof_header"
    "\<not> rr_read_header (rr_ntoh_size (r\<lparr>rr_read_header := False\<rparr>))"
proof -
  have b: "rr_buffer r = header_bytes (wire_header (length payload))" "strm = payload @ rest"
    using assms(1,2) by (auto simp: wire_def wire_head_bytes append_eq_append_conv sizeof_header_def)
  have h: "rr_header (r\<lparr>rr_read_header := False\<rparr>) = wire_header (length payload)"
    using header_of_bytes [of _ "[]"] by (simp add: rr_header_def b)
  have "rr_buffer (rr_ntoh_size (r\<lparr>rr_read_header := False\<rparr>))
    = header_bytes ((wire_header (length payload))\<lparr>rh_size := of_nat (length payload)\<rparr>)"
    unfolding rr_ntoh_size_def h by (simp add: b sizeof_header_def) (simp add: wire_header_def)
  then show "rapid_inv payload rest strm (rr_ntoh_size (r\<lparr>rr_read_header := False\<rparr>))"
    "length (rr_buffer (rr_ntoh_size (r\<lparr>rr_read_header := False\<rparr>))) = sizeof_header"
    "\<not> rr_read_header (rr_ntoh_size (r\<lparr>rr_read_header := False\<rparr>))"
    using assms(3) b(2) by (simp_all add: rapid_inv_def sizeof_header_def) (simp_all add: rr_ntoh_size_def)
qed

text \<open>What one call of \<^verbatim>\<open>Read\<close> achieves.\<close>

definition read_result :: "byte list \<Rightarrow> byte list \<Rightarrow> bool \<Rightarrow> rapid_read \<Rightarrow> byte list \<Rightarrow> rapid_read \<Rightarrow> int \<Rightarrow> bool" where
  "read_result payload rest hb r strm' r' ret \<longleftrightarrow> rapid_inv payload rest strm' r'
     \<and> rapid_missing payload r' \<le> rapid_missing payload r
     \<and> (ret = 0 \<longrightarrow> rapid_missing payload r' = 0 \<and> \<not> rr_read_header r')
     \<and> (ret > 0 \<longrightarrow> rapid_missing payload r' > 0)
     \<and> (ret \<ge> 0 \<and> \<not> hb \<longrightarrow> rapid_missing payload r' < rapid_missing payload r)"

lemma small_int32: "n < 2 ^ 31 \<Longrightarrow> to_int32 (int n) = int n"
  by (simp add: to_int32_small)

lemma read_body:
  assumes rs: "reads_stream rnb strm" and inv: "rapid_inv payload rest (strm s) r" and b: "\<not> rr_read_header r"
  shows "\<exists>s' r' ret. rapid_Read_loop rnb hb s r = Some (s', r', ret)
    \<and> read_result payload rest hb r (strm s') r' ret"
proof -
  let ?left = "sizeof_header + rapid_Size r - length (rr_buffer r)"
  note sz = inv_size [OF inv b]
  have left: "?left = rapid_missing payload r" "?left < 2 ^ 31"
    using sz inv by (auto simp: rapid_missing_def rapid_inv_def sizeof_header_def)
  obtain s' ret bs where q: "rnb s ?left = (s', ret, bs)" by (metis prod_cases3)
  note rd = reads_streamD [OF rs q]
  show ?thesis
  proof (cases "ret > 0")
    case True
    note rd = rd(1) [OF True]
    let ?r = "r\<lparr>rr_buffer := rr_buffer r @ bs\<rparr>"
    have "rapid_inv payload rest (strm s') ?r"
      using inv b rd left(1) by (auto simp: rapid_inv_def rapid_missing_def sizeof_header_def)
    moreover have m: "int (rapid_missing payload ?r) = int ?left - ret"
      using rd left(1) sz by (simp add: rapid_missing_def) linarith
    moreover have "to_int32 (int ?left - ret) = int ?left - ret"
      using rd left(2) True by (intro to_int32_small) auto
    moreover have "rapid_Read_loop rnb hb s r = Some (s', ?r, to_int32 (int ?left - ret))"
      using b q True by (subst rapid_Read_loop.simps) (simp add: Let_def)
    ultimately show ?thesis using True rd b left(1) by (auto simp: read_result_def)
  next
    case False
    then have e: "strm s' = strm s" using rd(2) by simp
    have "rapid_Read_loop rnb hb s r = Some (s', r, if ret = 0 then if hb then to_int32 (int ?left) else kEnd else ret)"
      using b q False by (subst rapid_Read_loop.simps) (simp add: Let_def)
    then show ?thesis using inv e b left small_int32 [OF left(2)] False
      by (auto simp: read_result_def kEnd_def)
  qed
qed

lemma read_any:
  assumes rs: "reads_stream rnb strm" and inv: "rapid_inv payload rest (strm s) r"
  shows "\<exists>s' r' ret. rapid_Read_loop rnb hb s r = Some (s', r', ret)
    \<and> read_result payload rest hb r (strm s') r' ret"
  using inv
proof (induction "rapid_missing payload r" arbitrary: s r hb rule: less_induct)
  case less
  show ?case
  proof (cases "rr_read_header r")
    case False
    then show ?thesis by (rule read_body [OF rs less.prems])
  next
    case True
    let ?left = "sizeof_header - length (rr_buffer r)"
    have len: "length (rr_buffer r) < sizeof_header" "rr_buffer r @ strm s = wire payload @ rest"
      "length payload < 2 ^ 31 - 8"
      using less.prems True by (auto simp: rapid_inv_def)
    obtain s' ret bs where q: "rnb s ?left = (s', ret, bs)" by (metis prod_cases3)
    note rd = reads_streamD [OF rs q]
    show ?thesis
    proof (cases "ret > 0")
      case False
      then have e: "strm s' = strm s" using rd(2) by simp
      have l: "to_int32 (int ?left) = int ?left" by (rule small_int32) (simp add: sizeof_header_def)
      have "rapid_Read_loop rnb hb s r = Some (s', r, if ret = 0 then if hb then to_int32 (int ?left) else kEnd else ret)"
        using True q False by (subst rapid_Read_loop.simps) (simp add: Let_def)
      then show ?thesis using less.prems e len False unfolding l
        by (auto simp: read_result_def kEnd_def rapid_missing_def)
    next
      case pos: True
      note rd = rd(1) [OF pos]
      let ?r = "r\<lparr>rr_buffer := rr_buffer r @ bs\<rparr>"
      let ?n = "if sizeof_header = length (rr_buffer ?r) then rr_ntoh_size (?r\<lparr>rr_read_header := False\<rparr>) else ?r"
      have app: "rr_buffer ?r @ strm s' = wire payload @ rest" using len(2) rd by simp
      have nle: "length (rr_buffer ?r) \<le> sizeof_header" using rd len(1) by simp linarith
      have inv: "rapid_inv payload rest (strm s') ?n" and bl: "length (rr_buffer ?n) = length (rr_buffer ?r)"
        using header_done [OF app _ len(3)] app nle len(3) True by (auto simp: rapid_inv_def)
      have m: "rapid_missing payload ?n < rapid_missing payload r"
      proof -
        have l: "length (rr_buffer ?n) = length (rr_buffer r) + length bs" using bl by simp
        have "1 \<le> length bs" using rd pos by linarith
        then show ?thesis unfolding rapid_missing_def l using len(1) by linarith
      qed
      have "rapid_Read_loop rnb hb s r = rapid_Read_loop rnb True s' ?n"
        using True q pos by (subst rapid_Read_loop.simps) (simp add: Let_def)
      moreover obtain s'' r'' ret' where "rapid_Read_loop rnb True s' ?n = Some (s'', r'', ret')"
        "read_result payload rest True ?n (strm s'') r'' ret'"
        using less.hyps [OF m inv, of True] by blast
      ultimately show ?thesis using m by (auto simp: read_result_def)
    qed
  qed
qed

section \<open>Calls of Read\<close>

text \<open>The states between calls of \<^verbatim>\<open>Read\<close>, as long as bytes are missing; a call that found
  nothing (\<^verbatim>\<open>kEnd\<close>) may be repeated.\<close>

inductive rapid_calls :: "('s \<Rightarrow> nat \<Rightarrow> 's \<times> int \<times> byte list) \<Rightarrow> 's \<Rightarrow> rapid_read \<Rightarrow> 's \<Rightarrow> rapid_read \<Rightarrow> bool"
  for rnb s0 r0 where
  start: "rapid_calls rnb s0 r0 s0 r0"
| call: "rapid_calls rnb s0 r0 s r \<Longrightarrow> rapid_Read rnb s r = Some (s', r', ret) \<Longrightarrow> ret > 0 \<or> ret = kEnd \<Longrightarrow>
    rapid_calls rnb s0 r0 s' r'"

lemma read_one:
  assumes "reads_stream rnb strm" "rapid_inv payload rest (strm s) r" "rapid_Read rnb s r = Some (s', r', ret)"
  shows "read_result payload rest False r (strm s') r' ret"
  using read_any [OF assms(1,2), of False] assms(3) by (auto simp: rapid_Read_def)

lemma calls_inv:
  assumes "rapid_calls rnb s0 r0 s r" "reads_stream rnb strm" "rapid_inv payload rest (strm s0) r0"
  shows "rapid_inv payload rest (strm s) r"
  using assms(1)
proof (induction rule: rapid_calls.induct)
  case start
  show ?case by (rule assms(3))
next
  case (call s r s' r' ret)
  from read_one [OF assms(2) call.IH call.hyps(2)] show ?case unfolding read_result_def by blast
qed

lemma complete_message:
  assumes "rapid_inv payload rest strm r" "\<not> rr_read_header r" "rapid_missing payload r = 0"
  shows "rapid_Data r = payload \<and> rapid_Size r = length payload \<and> snd (rapid_Decode r) \<and> strm = rest"
proof -
  let ?h = "(wire_header (length payload))\<lparr>rh_size := of_nat (length payload)\<rparr>"
  obtain p where b: "rr_buffer r = header_bytes ?h @ p" "p @ strm = payload @ rest"
    using assms(1,2) by (auto simp: rapid_inv_def)
  have "length (rr_buffer r) = sizeof_header + length p" by (simp add: b(1) sizeof_header_def)
  then have "length p = length payload"
    using inv_size(3) [OF assms(1,2)] assms(3) unfolding rapid_missing_def by linarith
  then have p: "p = payload" "strm = rest" using b(2) by simp_all
  have "rr_header r = ?h" by (simp add: rr_header_def b)
  then have "snd (rapid_Decode r)" by (simp add: rapid_Decode_def Let_def wire_header_def kMaxVersion_def)
  then show ?thesis using inv_size [OF assms(1,2)] p b by (simp add: rapid_Data_def sizeof_header_def)
qed

section \<open>Properties\<close>

text \<open>C16. Round trip over a socket: let the stream be what \<^verbatim>\<open>Reset\<close> and \<^verbatim>\<open>Encode\<close> prepare for
  a payload, followed by anything. However \<^verbatim>\<open>ReadNonBlock\<close> cuts it into pieces over any
  number of calls of \<^verbatim>\<open>Read\<close>, when a call returns 0 the payload read is the payload written,
  the size is its length, \<^verbatim>\<open>Decode\<close> accepts it, and what follows is still on the stream.\<close>

theorem rapid_roundtrip:
  assumes "reads_stream rnb strm" "length payload < 2 ^ 31 - 8"
    "strm s0 = iovs_bytes (fst (rapid_Encode (rapid_write_Reset payload w))) @ rest"
    "rapid_calls rnb s0 (rapid_read_Reset r0) s r" "rapid_Read rnb s r = Some (s', r', 0)"
  shows "rapid_Data r' = payload \<and> rapid_Size r' = length payload \<and> snd (rapid_Decode r') \<and> strm s' = rest"
proof -
  have "rapid_inv payload rest (strm s0) (rapid_read_Reset r0)"
    using assms(2,3) by (intro reset_inv) (simp_all add: rapid_encoded_bytes)
  from read_one [OF assms(1) calls_inv [OF assms(4,1) this] assms(5)]
  show ?thesis by (intro complete_message) (simp_all add: read_result_def)
qed

text \<open>A stored header, a payload of three bytes and one byte more, arriving in pieces.\<close>

definition rapid_pieces :: "byte list list" where
  "rapid_pieces = [[0xE5, 0x8C, 0], [0, 0, 0, 0, 3, 7], [8, 9, 1]]"

definition rapid_read_demo :: rapid_read where
  "rapid_read_demo = rapid_read_Reset \<lparr>rr_buffer = [], rr_read_header = True\<rparr>"

definition rapid_write_demo :: rapid_write where
  "rapid_write_demo = \<lparr>rw_buf = [], rw_header = header_of [], rw_iovs = []\<rparr>"

lemma rapid_demo_calls:
  "rapid_Read piece_rnb rapid_pieces rapid_read_demo
     = Some ([[8, 9, 1]], \<lparr>rr_buffer = [0xE5, 0x8C, 0, 0, 3, 0, 0, 0, 7], rr_read_header = False\<rparr>, 2)"
  "rapid_Read piece_rnb [[8, 9, 1]] \<lparr>rr_buffer = [0xE5, 0x8C, 0, 0, 3, 0, 0, 0, 7], rr_read_header = False\<rparr>
     = Some ([[1]], \<lparr>rr_buffer = [0xE5, 0x8C, 0, 0, 3, 0, 0, 0, 7, 8, 9], rr_read_header = False\<rparr>, 0)"
  by code_simp+

theorem rapid_roundtrip_witness:
  "rapid_calls piece_rnb rapid_pieces rapid_read_demo [[8, 9, 1]]
       \<lparr>rr_buffer = [0xE5, 0x8C, 0, 0, 3, 0, 0, 0, 7], rr_read_header = False\<rparr>
   \<and> rapid_Data \<lparr>rr_buffer = [0xE5, 0x8C, 0, 0, 3, 0, 0, 0, 7, 8, 9], rr_read_header = False\<rparr> = [7, 8, 9]"
proof -
  let ?r = "\<lparr>rr_buffer = [0xE5, 0x8C, 0, 0, 3, 0, 0, 0, 7], rr_read_header = False\<rparr>"
  have w: "concat rapid_pieces
    = iovs_bytes (fst (rapid_Encode (rapid_write_Reset [7, 8, 9] rapid_write_demo))) @ [1]"
    by code_simp
  have c: "rapid_calls piece_rnb rapid_pieces rapid_read_demo [[8, 9, 1]] ?r"
    by (rule rapid_calls.call [OF rapid_calls.start rapid_demo_calls(1)]) simp
  from rapid_roundtrip [OF piece_rnb_reads _ w c [unfolded rapid_read_demo_def] rapid_demo_calls(2)] c
  show ?thesis by simp
qed

text \<open>Every call of \<^verbatim>\<open>Read\<close> returns, whatever pieces \<^verbatim>\<open>ReadNonBlock\<close> gives; a result that
  is not negative means that at least one byte was taken, a positive one that the message is
  not complete, and 0 that it is. So a message is complete after at most as many such calls as
  it has bytes.\<close>

theorem rapid_Read_progress:
  assumes "reads_stream rnb strm" "length payload < 2 ^ 31 - 8" "strm s0 = wire payload @ rest"
    "rapid_calls rnb s0 (rapid_read_Reset r0) s r"
  shows "\<exists>s' r' ret. rapid_Read rnb s r = Some (s', r', ret)
    \<and> (ret \<ge> 0 \<longrightarrow> rapid_missing payload r' < rapid_missing payload r)
    \<and> (ret > 0 \<longrightarrow> rapid_missing payload r' > 0) \<and> (ret = 0 \<longrightarrow> rapid_missing payload r' = 0)
    \<and> rapid_missing payload r \<le> 8 + length payload"
proof -
  have "rapid_inv payload rest (strm s) r"
    using assms(2,3) by (intro calls_inv [OF assms(4,1)] reset_inv)
  from read_any [OF assms(1) this, of False] show ?thesis
    by (auto simp: rapid_Read_def read_result_def) (simp add: rapid_missing_def sizeof_header_def)+
qed

theorem rapid_Read_progress_witness:
  "\<exists>s' r' ret. rapid_Read piece_rnb rapid_pieces rapid_read_demo = Some (s', r', ret)
     \<and> rapid_missing [7, 8, 9] r' < rapid_missing [7, 8, 9] rapid_read_demo"
proof -
  have w: "concat rapid_pieces = wire [7, 8, 9] @ [1]" by code_simp
  have "rapid_read_Reset rapid_read_demo = rapid_read_demo"
    by (simp add: rapid_read_demo_def rapid_read_Reset_def)
  then show ?thesis
    using rapid_Read_progress [OF piece_rnb_reads _ w rapid_calls.start, of rapid_read_demo] rapid_demo_calls(1)
    by auto
qed

end
