(* ===== verification/Redis_Parser.thy ===== *)
theory Redis_Parser
  imports Protocols
begin

text \<open>
  The redis protocol, \<^verbatim>\<open>src/protocols/redis/\<close>: \<^verbatim>\<open>ParseCmd\<close> turns a command whose words are
  separated by the byte 1 into a RESP array, \<^verbatim>\<open>ParseReply\<close> turns a RESP reply into such a
  separated string. The string functions of the standard library the parser uses (\<^verbatim>\<open>find\<close>,
  \<^verbatim>\<open>strtol\<close>, \<^verbatim>\<open>sprintf\<close> of an unsigned number) are modelled on character lists. It is shown that
  \<^verbatim>\<open>ParseCmd\<close> is the RESP encoding of the words and that \<^verbatim>\<open>ParseReply\<close> reads it back.
\<close>

section \<open>Strings\<close>

definition kSep :: char where "kSep = CHR 0x01"

definition crlf :: string where "crlf = [CHR 0x0D, CHR 0x0A]"

fun str_find :: "string \<Rightarrow> string \<Rightarrow> nat option" where
  "str_find sub [] = (if sub = [] then Some 0 else None)"
| "str_find sub (c # s) =
     (if take (length sub) (c # s) = sub then Some 0 else map_option Suc (str_find sub s))"

text \<open>\<^verbatim>\<open>s.find(sub, from)\<close>, with \<^term>\<open>None\<close> for \<^verbatim>\<open>npos\<close>.\<close>

definition find_from :: "string \<Rightarrow> string \<Rightarrow> nat \<Rightarrow> nat option" where
  "find_from s sub start = (if start \<le> length s then map_option ((+) start) (str_find sub (drop start s)) else None)"

text \<open>Decimal digits of a number, as \<^verbatim>\<open>sprintf\<close> prints it.\<close>

definition digit_char :: "nat \<Rightarrow> char" where
  "digit_char d = char_of (48 + d)"

function dec :: "nat \<Rightarrow> string" where
  "dec n = (if n < 10 then [digit_char n] else dec (n div 10) @ [digit_char (n mod 10)])"
  by auto
termination by (relation "measure id") auto

declare dec.simps [simp del]

text \<open>\<^verbatim>\<open>strtol\<close> in base 10 at an offset: the value, clamped to 64 bits, and whether there was a
  number (otherwise \<^verbatim>\<open>endptr\<close> is the start).\<close>

definition LONG_MAX :: int where "LONG_MAX = 2 ^ 63 - 1"
definition LONG_MIN :: int where "LONG_MIN = - (2 ^ 63)"

definition clamp64 :: "int \<Rightarrow> int" where
  "clamp64 x = (if x > LONG_MAX then LONG_MAX else if x < LONG_MIN then LONG_MIN else x)"

definition strtol :: "string \<Rightarrow> nat \<Rightarrow> int \<times> nat" where
  "strtol s start =
     (let t = drop start s; u = dropWhile is_space t;
          neg = (u \<noteq> [] \<and> hd u = CHR ''-''); sgn = (u \<noteq> [] \<and> (hd u = CHR ''-'' \<or> hd u = CHR ''+''));
          ds = takeWhile is_digit (if sgn then tl u else u)
      in if ds = [] then (0, start)
         else (clamp64 (if neg then - digits_val ds else digits_val ds),
               start + length (takeWhile is_space t) + (if sgn then 1 else 0) + length ds))"

section \<open>Commands\<close>

text \<open>The loop of \<^verbatim>\<open>ParseCmd\<close>. The cursor moves right in every round, so as many rounds as
  there are characters, and one more, are enough. The lengths and the count are 32-bit numbers.\<close>

fun ParseCmd_loop :: "nat \<Rightarrow> string \<Rightarrow> nat \<Rightarrow> nat \<Rightarrow> string \<Rightarrow> (nat \<times> string) option" where
  "ParseCmd_loop 0 inp follower num_segs result = None"
| "ParseCmd_loop (Suc fuel) inp follower num_segs result =
     (let leader = find_from inp [kSep] follower in
      if leader = Some follower then None
      else let len_seg = (case leader of Some l \<Rightarrow> l - follower | None \<Rightarrow> length inp - follower) mod 2 ^ 32 in
        if len_seg = 0 then Some (num_segs, result)
        else let num_segs' = (num_segs + 1) mod 2 ^ 32;
                 result' = result @ ''$'' @ dec len_seg @ crlf @ take len_seg (drop follower inp) @ crlf
             in case leader of
               Some l \<Rightarrow> ParseCmd_loop fuel inp (l + 1) num_segs' result'
             | None \<Rightarrow> Some (num_segs', result'))"

definition ParseCmd :: "string \<Rightarrow> string option" where
  "ParseCmd inp =
     (if inp = [] then None
      else case ParseCmd_loop (length inp + 1) inp 0 0 crlf of
        None \<Rightarrow> None
      | Some (n, result) \<Rightarrow> Some (''*'' @ dec n @ result))"

section \<open>Replies\<close>

record redis_reply =
  rp_ret :: int
  rp_out :: string
  rp_size :: "nat option"
  rp_pong :: bool

text \<open>\<^verbatim>\<open>ParseReplySeg_\<close>: the return code, the size of the segment and the output. The test
  \<^verbatim>\<open>endptr==reply.c_str()+3\<close> is as written.\<close>

definition ParseReplySeg :: "string \<Rightarrow> nat \<Rightarrow> nat \<Rightarrow> string \<Rightarrow> int \<times> nat \<times> string" where
  "ParseReplySeg reply start size_seg out =
     (case find_from reply crlf start of
        None \<Rightarrow> (1, size_seg, out)
      | Some idx_cr \<Rightarrow>
          (case strtol reply (start + 1) of (len_answer, endptr) \<Rightarrow>
             if len_answer = -1 then (0, idx_cr + 2 - start, out @ ''__null'')
             else if len_answer = LONG_MAX \<or> len_answer = LONG_MIN \<or> endptr = 3 \<or> len_answer \<le> 0
             then (-1, size_seg, out)
             else case find_from reply crlf (idx_cr + 1) of
               None \<Rightarrow> (1, size_seg, out)
             | Some idx_second_cr \<Rightarrow>
                 if to_int32 (int idx_second_cr - int idx_cr - 2) \<noteq> len_answer then (-1, size_seg, out)
                 else (0, idx_second_cr + 2 - start,
                       out @ take (nat len_answer) (drop (idx_cr + 2) reply))))"

text \<open>The loop over the answers of a multi-bulk reply; the first argument counts those still
  to come.\<close>

fun ParseReply_loop :: "nat \<Rightarrow> string \<Rightarrow> nat \<Rightarrow> nat \<Rightarrow> string \<Rightarrow> int \<times> nat \<times> nat \<times> string" where
  "ParseReply_loop 0 reply idx_dollar size_seg out = (0, idx_dollar, size_seg, out)"
| "ParseReply_loop (Suc left) reply idx_dollar size_seg out =
     (case find_from reply ''$'' idx_dollar of
        None \<Rightarrow> (1, idx_dollar, size_seg, out)
      | Some i \<Rightarrow>
          (case ParseReplySeg reply i size_seg out of (ret, size_seg, out) \<Rightarrow>
             if ret \<noteq> 0 then (ret, i, size_seg, out)
             else ParseReply_loop left reply (i + 1) size_seg (if left \<noteq> 0 then out @ [kSep] else out)))"

definition strtol_bad :: "int \<times> nat \<Rightarrow> bool" where
  "strtol_bad r \<longleftrightarrow> fst r = LONG_MAX \<or> fst r = LONG_MIN \<or> snd r = 1"

definition ParseReply :: "string \<Rightarrow> string \<Rightarrow> redis_reply" where
  "ParseReply reply out =
     (let bad = \<lparr>rp_ret = -1, rp_out = out, rp_size = None, rp_pong = False\<rparr>;
          more = bad\<lparr>rp_ret := 1\<rparr>
      in if reply = [] then bad
         else case find_from reply crlf 0 of
           None \<Rightarrow> more
         | Some idx_cr \<Rightarrow>
             let fin = (\<lambda>out size. bad\<lparr>rp_ret := 0, rp_out := out, rp_size := Some size\<rparr>)
             in if hd reply = CHR ''*'' then
                  (let n = strtol reply 1 in
                   if strtol_bad n then bad
                   else if fst n \<le> 0
                   then if fst n = -1 then fin (out @ ''0'') (idx_cr + 2) else bad
                   else case ParseReply_loop (nat (fst n)) reply 0 0 (out @ dec (nat (fst n)) @ [kSep]) of
                     (ret, idx_dollar, size_seg, out') \<Rightarrow>
                       if ret \<noteq> 0 then bad\<lparr>rp_ret := ret, rp_out := out'\<rparr>
                       else fin out' (idx_dollar + size_seg - 1))
                else if hd reply = CHR ''$'' then
                  (let n = strtol reply 1 in
                   if strtol_bad n then bad
                   else if fst n \<noteq> -1 then
                     case find_from reply crlf (idx_cr + 1) of
                       None \<Rightarrow> more
                     | Some idx_second_cr \<Rightarrow>
                         if to_int32 (int idx_second_cr - int idx_cr) \<noteq> 2 + fst n then bad
                         else fin (out @ ''1'' @ [kSep] @ take (nat (fst n)) (drop (idx_cr + 2) reply))
                                (idx_second_cr + 2)
                   else fin (out @ ''0'') (idx_cr + 2))
                else if hd reply = CHR '':'' then
                  fin (out @ ''1'' @ [kSep] @ take (idx_cr - 1) (drop 1 reply)) (idx_cr + 2)
                else if hd reply = CHR ''+'' then
                  (fin (out @ ''0'') (idx_cr + 2))\<lparr>rp_pong :=
                     length reply \<ge> 5 \<and> find_from reply ''PONG'' 0 \<noteq> None\<rparr>
                else if hd reply = CHR ''-'' then fin (out @ ''__null'') (idx_cr + 2)
                else bad)"

section \<open>The protocol objects\<close>

record redis_write =
  rdw_in :: string
  rdw_out :: string
  rdw_pos :: nat

text \<open>\<^verbatim>\<open>in_.assign(buf.first.Data())\<close> copies up to the first null character.\<close>

definition redis_write_Reset :: "string \<Rightarrow> redis_write \<Rightarrow> redis_write" where
  "redis_write_Reset buf w = w\<lparr>rdw_in := takeWhile (\<lambda>c. c \<noteq> CHR 0x00) buf, rdw_pos := 0\<rparr>"

definition redis_Encode :: "redis_write \<Rightarrow> redis_write \<times> bool" where
  "redis_Encode w = (case ParseCmd (rdw_in w) of None \<Rightarrow> (w, False) | Some o' \<Rightarrow> (w\<lparr>rdw_out := o'\<rparr>, True))"

definition redis_Write :: "(string \<Rightarrow> int) \<Rightarrow> redis_write \<Rightarrow> redis_write \<times> int" where
  "redis_Write write_nb w =
     (let ret = write_nb (drop (rdw_pos w) (rdw_out w)) in
      if ret > 0
      then (w\<lparr>rdw_pos := rdw_pos w + nat ret\<rparr>, to_int32 (int (length (rdw_out w)) - int (rdw_pos w + nat ret)))
      else (w, if ret = 0 then kEnd else ret))"

record redis_read =
  rdr_reply :: string
  rdr_out :: string

definition redis_read_Reset :: "redis_read \<Rightarrow> redis_read" where
  "redis_read_Reset r = r\<lparr>rdr_reply := [], rdr_out := []\<rparr>"

definition kTmpBufSize :: nat where "kTmpBufSize = 100"

text \<open>\<^verbatim>\<open>Read\<close>: the first argument gives the results of the calls of \<^verbatim>\<open>ReadNonBlock\<close>, one per
  round of the loop. The buffer is appended as a null-terminated string.\<close>

fun redis_Read_loop :: "(int \<times> string) list \<Rightarrow> redis_read \<Rightarrow> redis_read \<times> bool" where
  "redis_Read_loop [] r = (r, True)"
| "redis_Read_loop ((ret, bs) # rs) r =
     (if ret < 0 then (r, False)
      else let r' = r\<lparr>rdr_reply := rdr_reply r @ takeWhile (\<lambda>c. c \<noteq> CHR 0x00) bs\<rparr>
           in if ret < int kTmpBufSize then (r', True) else redis_Read_loop rs r')"

definition redis_Read :: "(int \<times> string) list \<Rightarrow> redis_read \<Rightarrow> redis_read \<times> int" where
  "redis_Read reads r =
     (case redis_Read_loop reads r of (r', ok) \<Rightarrow>
      if ok then (let p = ParseReply (rdr_reply r') (rdr_out r') in (r'\<lparr>rdr_out := rp_out p\<rparr>, rp_ret p))
      else (r', -1))"

section \<open>Reference encoding\<close>

fun join :: "string list \<Rightarrow> string" where
  "join [] = []"
| "join [s] = s"
| "join (s # t # ts) = s @ kSep # join (t # ts)"

definition resp_bulk :: "string \<Rightarrow> string" where
  "resp_bulk s = ''$'' @ dec (length s) @ crlf @ s @ crlf"

definition resp_array :: "string list \<Rightarrow> string" where
  "resp_array segs = ''*'' @ dec (length segs) @ crlf @ concat (map resp_bulk segs)"

lemma str_find_char: "c \<notin> set s \<Longrightarrow> str_find [c] (s @ t) = map_option ((+) (length s)) (str_find [c] t)"
proof (induction s)
  case Nil
  show ?case by (cases "str_find [c] t") simp_all
next
  case (Cons a s)
  then show ?case by (cases "str_find [c] t") auto
qed

lemma str_find_char_here: "c \<notin> set s \<Longrightarrow> str_find [c] (s @ c # t) = Some (length s)"
  by (simp add: str_find_char)

lemma str_find_char_none: "c \<notin> set s \<Longrightarrow> str_find [c] s = None"
  using str_find_char [of c s "[]"] by simp

text \<open>A text without a line end; single carriage returns do no harm.\<close>

definition no_crlf :: "string \<Rightarrow> bool" where
  "no_crlf s \<longleftrightarrow> str_find crlf s = None"

lemma no_crlf_Cons: "no_crlf (c # s) \<longleftrightarrow> \<not> (c = CHR 0x0D \<and> s \<noteq> [] \<and> hd s = CHR 0x0A) \<and> no_crlf s"
  by (cases s) (auto simp: no_crlf_def crlf_def)

lemma no_crlf_no_cr: "CHR 0x0D \<notin> set s \<Longrightarrow> no_crlf s"
  by (induction s) (auto simp: no_crlf_Cons, simp add: no_crlf_def crlf_def)

lemma str_find_crlf: "no_crlf a \<Longrightarrow> str_find crlf (a @ crlf @ t) = Some (length a)"
proof (induction a)
  case (Cons c a)
  then have "take 2 (c # a @ crlf @ t) \<noteq> crlf" by (cases a) (auto simp: no_crlf_Cons crlf_def)
  then show ?case using Cons by (simp add: no_crlf_Cons crlf_def)
qed (simp add: crlf_def)

lemma find_from_app: "find_from (pre @ s) sub (length pre) = map_option ((+) (length pre)) (str_find sub s)"
  by (simp add: find_from_def)

lemma cmd_loop:
  assumes "segs \<noteq> []" "\<forall>s \<in> set segs. s \<noteq> [] \<and> kSep \<notin> set s" "length segs \<le> fuel" "length pre = follower"
    "length (join segs) < 2 ^ 32" "n + length segs < 2 ^ 32"
  shows "ParseCmd_loop fuel (pre @ join segs) follower n result
    = Some (n + length segs, result @ concat (map resp_bulk segs))"
  using assms
proof (induction segs arbitrary: fuel pre follower n result rule: join.induct)
  case (2 s)
  then obtain k where "fuel = Suc k" by (cases fuel) auto
  then show ?case using 2 find_from_app [of pre s "[kSep]"]
    by (simp add: str_find_char_none resp_bulk_def Let_def)
next
  case (3 s t ts)
  then obtain k where k: "fuel = Suc k" by (cases fuel) auto
  let ?bulk = "resp_bulk s" and ?inp = "pre @ join (s # t # ts)"
  have f: "find_from ?inp [kSep] follower = Some (follower + length s)"
    using 3(5) find_from_app [of pre "s @ kSep # join (t # ts)" "[kSep]"] 3(3)
    by (auto simp: str_find_char_here)
  have i: "?inp = (pre @ s @ [kSep]) @ join (t # ts)" by simp
  have "ParseCmd_loop k ?inp (follower + length s + 1) (n + 1) (result @ ?bulk)
    = Some (n + 1 + length (t # ts), (result @ ?bulk) @ concat (map resp_bulk (t # ts)))"
    unfolding i by (rule "3.IH") (use 3 k in auto)
  moreover have t: "take (length s) (drop follower ?inp) = s" using 3(5) by auto
  have m: "length s mod 2 ^ 32 = length s" "(n + 1) mod 2 ^ 32 = n + 1" "s \<noteq> []" using 3 by auto
  have "ParseCmd_loop fuel inp follower n result
      = ParseCmd_loop k inp (follower + length s + 1) (n + 1) (result @ ?bulk)" if "inp = ?inp" for inp
    unfolding k ParseCmd_loop.simps Let_def f [folded that] option.case add_diff_cancel_left' m t [folded that]
    using m(3) by (simp add: resp_bulk_def)
  ultimately show ?case by simp
qed simp

lemma length_join:
  "\<forall>s \<in> set segs. s \<noteq> [] \<Longrightarrow> 2 * length segs \<le> length (join segs) + 1"
proof (induction segs rule: join.induct)
  case (3 s t ts)
  then show ?case by (cases s) auto
qed (auto simp: Suc_le_eq)

lemma ParseCmd_join:
  assumes "segs \<noteq> []" "\<forall>s \<in> set segs. s \<noteq> [] \<and> kSep \<notin> set s" "length (join segs) < 2 ^ 32"
  shows "ParseCmd (join segs) = Some (resp_array segs)"
proof -
  have "join segs \<noteq> []" using assms by (cases segs rule: join.cases) auto
  moreover have "length segs < 2 ^ 32" "length segs \<le> length (join segs) + 1"
    using length_join [of segs] assms(2,3) by auto
  then have "ParseCmd_loop (length (join segs) + 1) (join segs) 0 0 crlf
    = Some (length segs, crlf @ concat (map resp_bulk segs))"
    using cmd_loop [of segs "length (join segs) + 1" "[]" 0 0 crlf] assms by simp
  ultimately show ?thesis by (simp add: ParseCmd_def resp_array_def)
qed

section \<open>Numbers\<close>

lemma of_digit_char: "d < 10 \<Longrightarrow> of_char (digit_char d) = 48 + d"
  by (simp add: digit_char_def)

lemma digit_char_digit: "d < 10 \<Longrightarrow> is_digit (digit_char d)"
  by (simp add: is_digit_def of_digit_char)

lemma dec_digits: "\<forall>c \<in> set (dec n). is_digit c"
proof (induction n rule: dec.induct)
  case (1 n)
  then show ?case by (subst dec.simps) (auto simp: digit_char_digit)
qed

lemma dec_nonempty [simp]: "dec n \<noteq> []"
  by (subst dec.simps) simp

lemma digits_val_snoc:
  "\<forall>c \<in> set xs. is_digit c \<Longrightarrow> is_digit d \<Longrightarrow> digits_val (xs @ [d]) = digits_val xs * 10 + digit_val d"
  by (simp add: digits_val_def takeWhile_eq_all_conv [THEN iffD2])

lemma digits_val_dec: "digits_val (dec n) = int n"
proof (induction n rule: dec.induct)
  case (1 n)
  show ?case
  proof (cases "n < 10")
    case True
    then show ?thesis
      by (subst dec.simps) (simp add: digits_val_def digit_char_digit digit_val_def of_digit_char)
  next
    case False
    then have "digits_val (dec n) = int (n div 10) * 10 + int (n mod 10)"
      using 1 digits_val_snoc [OF dec_digits, of "digit_char (n mod 10)" "n div 10"]
      by (subst dec.simps) (simp add: digit_char_digit digit_val_def of_digit_char)
    then show ?thesis by (metis of_nat_add of_nat_mult of_nat_numeral div_mult_mod_eq)
  qed
qed

lemma digit_not: "is_digit c \<Longrightarrow> c \<noteq> CHR ''-'' \<and> c \<noteq> CHR ''+'' \<and> \<not> is_space c \<and> c \<noteq> CHR ''$'' \<and> c \<noteq> CHR 0x0D"
  by (auto simp: is_digit_def is_space_def)

lemma strtol_dec:
  assumes "int n < LONG_MAX" "rest = [] \<or> \<not> is_digit (hd rest)"
  shows "strtol (pre @ dec n @ rest) (length pre) = (int n, length pre + length (dec n))"
proof -
  obtain c cs where d: "dec n = c # cs" by (cases "dec n") auto
  then have c: "is_digit c" using dec_digits [of n] by auto
  note nc = digit_not [OF c]
  have tw: "takeWhile is_digit (dec n @ rest) = dec n"
    using assms(2) dec_digits [of n] by (cases rest) (auto simp: takeWhile_append)
  have "clamp64 (int n) = int n" using assms(1) by (simp add: clamp64_def LONG_MIN_def)
  then show ?thesis using nc tw d digits_val_dec [of n] by (simp add: strtol_def Let_def)
qed

section \<open>Replies are read back\<close>

text \<open>A word that can travel as a bulk string: not empty, no line end, and short enough for the comparison of
  lengths at 32 bits. The parser looks for the next word by its dollar sign, so only the last word of
  several may hold one.\<close>

definition plain_word :: "string \<Rightarrow> bool" where
  "plain_word s \<longleftrightarrow> s \<noteq> [] \<and> no_crlf s \<and> length s < 2 ^ 31 - 2"

definition dollar_last :: "string list \<Rightarrow> bool" where
  "dollar_last segs \<longleftrightarrow> (\<forall>s \<in> set (butlast segs). CHR ''$'' \<notin> set s)"

lemma dec_chars: "CHR 0x0D \<notin> set (dec n)" "CHR ''$'' \<notin> set (dec n)"
  using dec_digits [of n] digit_not by auto

lemma crlf_not_digit: "\<not> is_digit (hd (crlf @ xs))"
  by (simp add: crlf_def is_digit_def)

text \<open>The two line ends of a bulk string that starts at the end of \<^verbatim>\<open>pre\<close>.\<close>

lemma bulk_cr:
  fixes pre w rest :: string
  assumes "no_crlf w"
  defines "r \<equiv> pre @ resp_bulk w @ rest" and "i \<equiv> length pre + 1 + length (dec (length w))"
  shows "find_from r crlf (length pre) = Some i"
    "find_from r crlf (i + 1) = Some (i + 2 + length w)"
    "take (length w) (drop (i + 2) r) = w"
proof -
  have r1: "r = pre @ (''$'' @ dec (length w)) @ crlf @ (w @ crlf @ rest)"
    by (simp add: r_def resp_bulk_def)
  have "no_crlf (''$'' @ dec (length w))" using dec_chars by (intro no_crlf_no_cr) simp
  from str_find_crlf [OF this, of "w @ crlf @ rest"]
  show "find_from r crlf (length pre) = Some i" unfolding r1 find_from_app by (simp add: i_def)
  let ?p = "pre @ ''$'' @ dec (length w) @ [CHR 0x0D]"
  have r2: "r = ?p @ (CHR 0x0A # w) @ crlf @ rest" by (simp add: r1 crlf_def)
  have "length ?p = i + 1" by (simp add: i_def)
  moreover have "no_crlf (CHR 0x0A # w)" using assms(1) by (simp add: no_crlf_Cons)
  from str_find_crlf [OF this, of rest]
  have "find_from r crlf (length ?p) = Some (length ?p + length (CHR 0x0A # w))"
    unfolding r2 find_from_app by simp
  ultimately show "find_from r crlf (i + 1) = Some (i + 2 + length w)" by simp
  have "r = (?p @ [CHR 0x0A]) @ w @ crlf @ rest" "length (?p @ [CHR 0x0A]) = i + 2"
    by (simp_all add: r2 i_def)
  then show "take (length w) (drop (i + 2) r) = w" by (metis append_eq_conv_conj)
qed

lemma bulk_strtol:
  assumes "length w < 2 ^ 31 - 2"
  shows "strtol (pre @ resp_bulk w @ rest) (length pre + 1)
    = (int (length w), length pre + 1 + length (dec (length w)))"
proof -
  have "strtol ((pre @ ''$'') @ dec (length w) @ crlf @ w @ crlf @ rest) (length (pre @ ''$''))
    = (int (length w), length (pre @ ''$'') + length (dec (length w)))"
    using assms crlf_not_digit by (intro strtol_dec) (simp_all add: LONG_MAX_def)
  then show ?thesis by (simp add: resp_bulk_def)
qed

lemma seg_bulk:
  assumes "plain_word w" "3 \<le> length pre"
  shows "ParseReplySeg (pre @ resp_bulk w @ rest) (length pre) sz out = (0, length (resp_bulk w), out @ w)"
proof -
  let ?i = "length pre + 1 + length (dec (length w))"
  note w = assms(1) [unfolded plain_word_def]
  have t: "to_int32 (int (length w)) = int (length w)" using w by (intro to_int32_small) auto
  have n: "int (length w) \<noteq> LONG_MAX" "int (length w) \<noteq> LONG_MIN" "0 < int (length w)"
    using w by (auto simp: LONG_MAX_def LONG_MIN_def)
  have "?i \<noteq> 3" using assms(2) by (cases "dec (length w)") auto
  moreover have "?i + 2 + length w + 2 - length pre = length (resp_bulk w)"
    by (simp add: resp_bulk_def crlf_def)
  ultimately show ?thesis
    unfolding ParseReplySeg_def bulk_cr(1) [OF w [THEN conjunct2, THEN conjunct1]]
      bulk_strtol [OF w [THEN conjunct2, THEN conjunct2]]
    using bulk_cr(2,3) [of w pre rest] w n t by simp
qed

lemma find_dollar:
  assumes "idx \<le> length pre" "CHR ''$'' \<notin> set (drop idx pre)"
  shows "find_from (pre @ CHR ''$'' # rest) ''$'' idx = Some (length pre)"
proof -
  have "drop idx (pre @ CHR ''$'' # rest) = drop idx pre @ CHR ''$'' # rest" using assms(1) by simp
  moreover have "str_find ''$'' (drop idx pre @ CHR ''$'' # rest) = Some (length (drop idx pre))"
    using str_find_char_here [OF assms(2)] by simp
  ultimately show ?thesis using assms(1) by (simp add: find_from_def)
qed

lemma reply_loop_step:
  "find_from r ''$'' idx = Some i \<Longrightarrow> ParseReplySeg r i sz out = (0, sz', out') \<Longrightarrow>
    ParseReply_loop (Suc k) r idx sz out = ParseReply_loop k r (i + 1) sz' (if k \<noteq> 0 then out' @ [kSep] else out')"
  by simp

lemma reply_loop:
  assumes "segs \<noteq> []" "\<forall>w \<in> set segs. plain_word w" "idx \<le> length pre" "3 \<le> length pre"
    "CHR ''$'' \<notin> set (drop idx pre)" "dollar_last segs"
  shows "\<exists>i sz'. ParseReply_loop (length segs) (pre @ concat (map resp_bulk segs) @ rest) idx sz out
      = (0, i, sz', out @ join segs)
    \<and> i + sz' = length pre + length (concat (map resp_bulk segs)) + 1"
  using assms
proof (induction segs arbitrary: idx pre sz out)
  case (Cons w ws)
  let ?r = "pre @ concat (map resp_bulk (w # ws)) @ rest"
  have r: "?r = pre @ resp_bulk w @ (concat (map resp_bulk ws) @ rest)" by simp
  have "find_from ?r ''$'' idx = Some (length pre)"
    using find_dollar [OF Cons.prems(3,5)] by (simp add: resp_bulk_def)
  moreover have "ParseReplySeg ?r (length pre) sz out = (0, length (resp_bulk w), out @ w)"
    unfolding r using Cons.prems by (intro seg_bulk) auto
  ultimately have step: "ParseReply_loop (length (w # ws)) ?r idx sz out
    = ParseReply_loop (length ws) ?r (length pre + 1) (length (resp_bulk w)) (if ws \<noteq> [] then out @ w @ [kSep] else out @ w)"
    using reply_loop_step [of ?r idx "length pre" sz out "length (resp_bulk w)" "out @ w" "length ws"]
    by (simp del: ParseReply_loop.simps)
  show ?case
  proof (cases ws)
    case Nil
    then show ?thesis unfolding step by simp
  next
    case ws: (Cons v vs)
    have "CHR ''$'' \<notin> set (drop (length pre + 1) (pre @ resp_bulk w))"
      using Cons.prems(6) ws dec_chars by (auto simp: resp_bulk_def crlf_def dollar_last_def)
    moreover have "length pre + 1 \<le> length (pre @ resp_bulk w)" by (simp add: resp_bulk_def)
    ultimately obtain i sz' where
      "ParseReply_loop (length ws) ((pre @ resp_bulk w) @ concat (map resp_bulk ws) @ rest) (length pre + 1)
         (length (resp_bulk w)) (out @ w @ [kSep]) = (0, i, sz', (out @ w @ [kSep]) @ join ws)"
      "i + sz' = length (pre @ resp_bulk w) + length (concat (map resp_bulk ws)) + 1"
      using Cons.IH [of "length pre + 1" "pre @ resp_bulk w" "length (resp_bulk w)" "out @ w @ [kSep]"]
        Cons.prems ws by (auto simp: dollar_last_def)
    then show ?thesis unfolding step using ws by simp
  qed
qed simp

section \<open>Properties\<close>

lemma ParseReply_array:
  assumes "segs \<noteq> []" "\<forall>w \<in> set segs. plain_word w" "int (length segs) < LONG_MAX" "dollar_last segs"
  shows "ParseReply (resp_array segs @ rest) out = \<lparr>rp_ret = 0, rp_out = out @ dec (length segs) @ [kSep] @ join segs,
    rp_size = Some (length (resp_array segs)), rp_pong = False\<rparr>"
proof -
  let ?n = "length segs" and ?body = "concat (map resp_bulk segs)"
  let ?pre = "''*'' @ dec ?n @ crlf"
  have r: "resp_array segs @ rest = ?pre @ ?body @ rest" by (simp add: resp_array_def)
  have st: "strtol (?pre @ ?body @ rest) 1 = (int ?n, 1 + length (dec ?n))"
    using strtol_dec [OF assms(3), of "crlf @ ?body @ rest" "''*''"] crlf_not_digit by simp
  have nb: "\<not> strtol_bad (int ?n, 1 + length (dec ?n))"
    using assms(3) by (simp add: strtol_bad_def LONG_MIN_def)
  have "no_crlf (''*'' @ dec ?n)" using dec_chars by (intro no_crlf_no_cr) simp
  from str_find_crlf [OF this, of "?body @ rest"]
  have cr: "find_from (?pre @ ?body @ rest) crlf 0 = Some (1 + length (dec ?n))"
    using find_from_app [of "[]" "?pre @ ?body @ rest" crlf] by simp
  have "3 \<le> length ?pre" by (cases "dec ?n") (simp_all add: crlf_def)
  moreover have "CHR ''$'' \<notin> set (drop 0 ?pre)" using dec_chars by (simp add: crlf_def)
  ultimately obtain i sz where
    l: "ParseReply_loop ?n (?pre @ ?body @ rest) 0 0 (out @ dec ?n @ [kSep]) = (0, i, sz, (out @ dec ?n @ [kSep]) @ join segs)"
      "i + sz = length ?pre + length ?body + 1"
    using reply_loop [OF assms(1,2), of 0 ?pre rest 0 "out @ dec ?n @ [kSep]"] assms(4) by auto
  have "hd (?pre @ ?body @ rest) = CHR ''*''" "?pre @ ?body @ rest \<noteq> []" "0 < int ?n" using assms(1) by simp_all
  then show ?thesis unfolding r ParseReply_def Let_def cr st using nb l
    by (simp add: resp_array_def del: append.simps)
qed

text \<open>A bulk reply alone: the marker \<^verbatim>\<open>1\<close> and the bytes, empty or not.\<close>

lemma ParseReply_bulk:
  assumes "no_crlf w" "length w < 2 ^ 31 - 2"
  shows "ParseReply (resp_bulk w @ rest) out = \<lparr>rp_ret = 0, rp_out = out @ ''1'' @ [kSep] @ w,
    rp_size = Some (length (resp_bulk w)), rp_pong = False\<rparr>"
proof -
  let ?i = "1 + length (dec (length w))" and ?r = "resp_bulk w @ rest"
  have c: "find_from ?r crlf 0 = Some ?i" "find_from ?r crlf (?i + 1) = Some (?i + 2 + length w)"
    "take (length w) (drop (?i + 2) ?r) = w"
    using bulk_cr [OF assms(1), of "[]" rest] by simp_all
  have s: "strtol ?r 1 = (int (length w), ?i)" using bulk_strtol [OF assms(2), of "[]" rest] by simp
  have nb: "\<not> strtol_bad (int (length w), ?i)"
    using assms(2) by (simp add: strtol_bad_def LONG_MIN_def LONG_MAX_def)
  have h: "hd ?r = CHR ''$''" "?r \<noteq> []" by (simp_all add: resp_bulk_def)
  have "to_int32 (2 + int (length w)) = 2 + int (length w)" using assms(2) by (intro to_int32_small) auto
  moreover have "int (?i + 2 + length w) - int ?i = 2 + int (length w)" by simp
  moreover have "?i + 2 + length w + 2 = length (resp_bulk w)" by (simp add: resp_bulk_def crlf_def)
  ultimately show ?thesis unfolding ParseReply_def Let_def c(1) s using c(2,3) nb h by simp
qed

text \<open>C35. \<^verbatim>\<open>ParseCmd\<close> on words joined by the separator gives their RESP array: the number of
  words, then each as a bulk string with its length.\<close>

theorem ParseCmd_encodes:
  assumes "segs \<noteq> []" "\<forall>s \<in> set segs. s \<noteq> [] \<and> kSep \<notin> set s" "length (join segs) < 2 ^ 32"
  shows "ParseCmd (join segs) = Some (''*'' @ dec (length segs) @ crlf
    @ concat (map (\<lambda>s. ''$'' @ dec (length s) @ crlf @ s @ crlf) segs))"
  using ParseCmd_join [OF assms] by (simp add: resp_array_def resp_bulk_def [abs_def])

lemma get_k_facts: "dec (Suc (Suc 0)) = ''2''" "dec (Suc (Suc (Suc 0))) = ''3''" "dec (Suc 0) = ''1''" "kSep \<notin> set ''get''" "kSep \<notin> set ''k''"
  by code_simp+

theorem ParseCmd_encodes_witness:
  "ParseCmd (''get'' @ [kSep] @ ''k'') = Some (''*2'' @ crlf @ ''$3'' @ crlf @ ''get'' @ crlf @ ''$1'' @ crlf @ ''k'' @ crlf)"
  using ParseCmd_encodes [of "[''get'', ''k'']"] get_k_facts by simp

text \<open>C17. Words that are not empty, hold no line end and, the last one apart, no dollar sign travel unharmed, through \<^verbatim>\<open>ParseCmd\<close> and back
  through \<^verbatim>\<open>ParseReply\<close>: from the bytes of the command, followed by anything, the parser delivers the number of words and the words joined by
  the separator, and reports exactly the bytes of the command as consumed.\<close>

theorem redis_roundtrip:
  assumes "segs \<noteq> []" "\<forall>s \<in> set segs. plain_word s \<and> kSep \<notin> set s" "dollar_last segs" "length (join segs) < 2 ^ 32"
  shows "\<exists>r. ParseCmd (join segs) = Some r \<and> (\<forall>rest out. ParseReply (r @ rest) out =
    \<lparr>rp_ret = 0, rp_out = out @ dec (length segs) @ [kSep] @ join segs, rp_size = Some (length r), rp_pong = False\<rparr>)"
proof -
  have "int (length segs) < LONG_MAX"
    using length_join [of segs] assms(2,4) by (auto simp: LONG_MAX_def plain_word_def)
  then show ?thesis using ParseReply_array [of segs] ParseCmd_join [of segs] assms
    by (auto simp: plain_word_def)
qed

theorem redis_roundtrip_witness:
  "\<exists>r. ParseCmd (''get'' @ [kSep] @ ''a$b'') = Some r \<and> rp_out (ParseReply r []) = ''2'' @ [kSep] @ ''get'' @ [kSep] @ ''a$b''"
proof -
  have "plain_word ''get''" "plain_word ''a$b''" by (simp_all add: plain_word_def no_crlf_no_cr)
  moreover have "dollar_last [''get'', ''a$b'']" "kSep \<notin> set ''a$b''" by (simp_all add: dollar_last_def kSep_def)
  ultimately show ?thesis using redis_roundtrip [of "[''get'', ''a$b'']"] get_k_facts
    by simp (metis append_Nil append_Nil2 redis_reply.select_convs(2))
qed

text \<open>The side conditions are needed. In a reply of several values an empty one, which is legal, makes the whole reply an error, wherever it is
  among values that are read; and a dollar sign in a value that is not the last is taken for the start of the next one.\<close>

lemma seg_empty:
  assumes "3 \<le> length pre"
  shows "ParseReplySeg (pre @ resp_bulk [] @ rest) (length pre) sz out = (-1, sz, out)"
proof -
  have "no_crlf []" by (simp add: no_crlf_def crlf_def)
  from bulk_cr(1) [OF this] show ?thesis using bulk_strtol [of "[]" pre rest] by (simp add: ParseReplySeg_def)
qed

lemma reply_loop_empty:
  assumes "\<forall>w \<in> set segs. plain_word w \<and> CHR ''$'' \<notin> set w" "idx \<le> length pre" "3 \<le> length pre" "CHR ''$'' \<notin> set (drop idx pre)"
  shows "fst (ParseReply_loop (length segs + Suc k) (pre @ concat (map resp_bulk segs) @ resp_bulk [] @ rest) idx sz out) = -1"
  using assms
proof (induction segs arbitrary: idx pre sz out)
  case Nil
  have "find_from (pre @ resp_bulk [] @ rest) ''$'' idx = Some (length pre)"
    using find_dollar [OF Nil.prems(2,4)] by (simp add: resp_bulk_def)
  then show ?case using seg_empty [OF Nil.prems(3)] by simp
next
  case (Cons w ws)
  let ?r = "pre @ concat (map resp_bulk (w # ws)) @ resp_bulk [] @ rest"
  have "find_from ?r ''$'' idx = Some (length pre)"
    using find_dollar [OF Cons.prems(2,4)] by (simp add: resp_bulk_def)
  moreover have "ParseReplySeg ?r (length pre) sz out = (0, length (resp_bulk w), out @ w)"
    using seg_bulk [of w pre "concat (map resp_bulk ws) @ resp_bulk [] @ rest"] Cons.prems by simp
  ultimately have step: "ParseReply_loop (length (w # ws) + Suc k) ?r idx sz out
      = ParseReply_loop (length ws + Suc k) ?r (length pre + 1) (length (resp_bulk w)) (out @ w @ [kSep])"
    using reply_loop_step [of ?r idx "length pre" sz out "length (resp_bulk w)" "out @ w" "length ws + Suc k"]
    by (simp del: ParseReply_loop.simps)
  have "CHR ''$'' \<notin> set (drop (length pre + 1) (pre @ resp_bulk w))"
    using Cons.prems(1) dec_chars by (auto simp: resp_bulk_def crlf_def)
  moreover have "length pre + 1 \<le> length (pre @ resp_bulk w)" by (simp add: resp_bulk_def)
  ultimately show ?case
    using Cons.IH [of "length pre + 1" "pre @ resp_bulk w" "length (resp_bulk w)" "out @ w @ [kSep]"] Cons.prems
    unfolding step by (simp del: ParseReply_loop.simps)
qed

lemma redis_empty_refused:
  assumes "\<forall>w \<in> set segs. plain_word w \<and> CHR ''$'' \<notin> set w" "int (length (segs @ [] # others)) < LONG_MAX"
  shows "rp_ret (ParseReply (resp_array (segs @ [] # others) @ rest) out) = -1"
proof -
  let ?n = "length segs + Suc (length others)" and ?body = "concat (map resp_bulk segs) @ resp_bulk [] @ concat (map resp_bulk others) @ rest"
  let ?pre = "''*'' @ dec ?n @ crlf"
  have r: "resp_array (segs @ [] # others) @ rest = ?pre @ ?body" by (simp add: resp_array_def)
  have st: "strtol (?pre @ ?body) 1 = (int ?n, 1 + length (dec ?n))"
    using strtol_dec [of ?n "crlf @ ?body" "''*''"] assms(2) crlf_not_digit by simp
  have "no_crlf (''*'' @ dec ?n)" using dec_chars by (intro no_crlf_no_cr) simp
  from str_find_crlf [OF this, of ?body]
  have cr: "find_from (?pre @ ?body) crlf 0 = Some (1 + length (dec ?n))"
    using find_from_app [of "[]" "?pre @ ?body" crlf] by simp
  have "3 \<le> length ?pre" by (cases "dec ?n") (simp_all add: crlf_def)
  moreover have "CHR ''$'' \<notin> set (drop 0 ?pre)" using dec_chars by (simp add: crlf_def)
  ultimately have "fst (ParseReply_loop ?n (?pre @ ?body) 0 0 (out @ dec ?n @ [kSep])) = -1"
    using reply_loop_empty [OF assms(1), of 0 ?pre "length others" "concat (map resp_bulk others) @ rest"] by blast
  then obtain x where "ParseReply_loop ?n (?pre @ ?body) 0 0 (out @ dec ?n @ [kSep]) = (-1, x)" by (metis prod.collapse)
  moreover have "hd (?pre @ ?body) = CHR ''*''" "?pre @ ?body \<noteq> []" "nat (int ?n) = ?n" "\<not> int ?n \<le> 0" by simp_all
  ultimately show ?thesis unfolding r ParseReply_def Let_def cr st
    by (cases x) (simp del: append.simps ParseReply_loop.simps)
qed

lemma redis_dollar_refused: "rp_ret (ParseReply (resp_array [''a$b'', ''c'']) []) = -1"
  by code_simp

text \<open>A multi-bulk reply that is not complete yet leaves what was parsed in the output, so
  parsing again when more bytes have arrived, which is what the read object does, delivers the
  words parsed so far twice.\<close>

theorem redis_partial_duplicates:
  "\<exists>first second. rp_out (ParseReply (first @ second) []) = ''2'' @ [kSep] @ ''a'' @ [kSep] @ ''b'' \<and>
    (case redis_Read [(int (length first), first)] \<lparr>rdr_reply = [], rdr_out = []\<rparr> of (r, ret) \<Rightarrow>
      ret = 1 \<and> (case redis_Read [(int (length second), second)] r of (r', ret') \<Rightarrow>
        ret' = 0 \<and> rdr_out r' = ''2'' @ [kSep] @ ''a'' @ [kSep] @ ''2'' @ [kSep] @ ''a'' @ [kSep] @ ''b''))"
  by (rule exI [of _ "''*2'' @ crlf @ ''$1'' @ crlf @ ''a'' @ crlf"], rule exI [of _ "''$1'' @ crlf @ ''b'' @ crlf"])
    code_simp

end
