(* ===== verification/Protocol_Thrift.thy ===== *)
theory Protocol_Thrift
  imports Protocols
begin

text \<open>
  The thrift protocol, \<^verbatim>\<open>src/protocols/thrift/\<close> (built with \<^verbatim>\<open>MAGNETO_THRIFT_SUPPORT\<close>), and the growing byte buffer its reader uses,
  \<^verbatim>\<open>deps/public-cpp/include/public-cpp/buffer.hpp\<close>: a frame of four bytes of size in network order, the head of a message in the binary protocol
  of thrift, and a struct. The head is written and read by the thrift library, which is an argument of the definitions; \<^verbatim>\<open>realloc\<close> is taken to succeed.
  It is shown that a message is read back as it was written, however it is cut into pieces.
\<close>

section \<open>Buffer\<close>

text \<open>The block and the number of bytes in use; what new memory holds is an argument.\<close>

record buffer =
  bf_buf :: "byte list"
  bf_len :: nat

definition Buffer_new :: buffer where "Buffer_new = \<lparr>bf_buf = [], bf_len = 0\<rparr>"

definition bf_SetLen :: "nat \<Rightarrow> buffer \<Rightarrow> buffer" where "bf_SetLen n b = b\<lparr>bf_len := n\<rparr>"

definition bf_Clear :: "buffer \<Rightarrow> buffer" where "bf_Clear b = b\<lparr>bf_len := 0\<rparr>"

definition bf_Reserve :: "(nat \<Rightarrow> byte) \<Rightarrow> nat \<Rightarrow> buffer \<Rightarrow> buffer" where
  "bf_Reserve junk n b = (if n > length (bf_buf b) then b\<lparr>bf_buf := bf_buf b @ map junk [length (bf_buf b)..<n]\<rparr> else b)"

text \<open>Bytes stored from an offset on, as \<^verbatim>\<open>memcpy\<close> and \<^verbatim>\<open>read\<close> do.\<close>

definition bf_store :: "nat \<Rightarrow> byte list \<Rightarrow> buffer \<Rightarrow> buffer" where
  "bf_store pos bs b = b\<lparr>bf_buf := take pos (bf_buf b) @ bs @ drop (pos + length bs) (bf_buf b)\<rparr>"

definition bf_Set :: "(nat \<Rightarrow> byte) \<Rightarrow> byte list \<Rightarrow> nat \<Rightarrow> buffer \<Rightarrow> buffer" where
  "bf_Set junk bs pos b = bf_store pos bs (bf_Reserve junk (length bs + pos) b)"

definition bf_data :: "buffer \<Rightarrow> byte list" where "bf_data b = take (bf_len b) (bf_buf b)"

section \<open>Writing\<close>

datatype thrift_dir = TdRequest | TdReply | TdOneway

text \<open>\<^verbatim>\<open>TMessageType\<close> of the thrift library.\<close>

datatype mtype = T_CALL | T_REPLY | T_EXCEPTION | T_ONEWAY

text \<open>\<^verbatim>\<open>writeMessageBegin\<close> and \<^verbatim>\<open>readMessageBegin\<close>: the bytes of a head, and the number of bytes read with what they say; \<^term>\<open>None\<close> is an exception.\<close>

type_synonym tb_write = "string \<Rightarrow> mtype \<Rightarrow> int \<Rightarrow> byte list option"
type_synonym tb_read = "byte list \<Rightarrow> (nat \<times> string \<times> mtype \<times> int) option"

record thrift_params =
  tw_fn :: string
  tw_dir :: thrift_dir
  tw_seqid :: int

record thrift_write =
  tw_params :: thrift_params
  tw_struct :: "byte list"
  tw_size_all :: u32
  tw_iovs :: "byte list list"

definition thrift_write_Reset :: "byte list \<Rightarrow> thrift_params \<Rightarrow> thrift_write \<Rightarrow> thrift_write" where
  "thrift_write_Reset struct params w = w\<lparr>tw_struct := struct, tw_params := params\<rparr>"

fun dir_mtype :: "thrift_dir \<Rightarrow> mtype" where
  "dir_mtype TdRequest = T_CALL" | "dir_mtype TdReply = T_REPLY" | "dir_mtype TdOneway = T_ONEWAY"

definition thrift_Encode :: "tb_write \<Rightarrow> thrift_write \<Rightarrow> thrift_write \<times> bool" where
  "thrift_Encode tbw w =
     (case tbw (tw_fn (tw_params w)) (dir_mtype (tw_dir (tw_params w))) (tw_seqid (tw_params w)) of
        None \<Rightarrow> (w, False)
      | Some head \<Rightarrow>
          let size = htonl (of_nat (length head + length (tw_struct w)))
          in (w\<lparr>tw_size_all := size, tw_iovs := [bytes_of32 size, head, tw_struct w]\<rparr>, True))"

text \<open>\<^verbatim>\<open>Write\<close>; the first argument stands for \<^verbatim>\<open>WriteVecNonBlock\<close>, which drops what it has written from the vectors.\<close>

definition thrift_Write :: "(byte list list \<Rightarrow> int \<times> byte list list) \<Rightarrow> thrift_write \<Rightarrow> thrift_write \<times> int" where
  "thrift_Write wvnb w =
     (case wvnb (tw_iovs w) of (ret, iovs) \<Rightarrow>
        (w\<lparr>tw_iovs := iovs\<rparr>,
         if ret > 0 then to_int32 (int (sum_list (map length (take 3 iovs)))) else if ret = 0 then kEnd else ret))"

section \<open>Reading\<close>

record thrift_read =
  tr_buffer :: buffer
  tr_read_header :: bool
  tr_size_body :: nat
  tr_struct :: "byte list"
  tr_fn :: string
  tr_dir :: thrift_dir
  tr_seqid :: int

definition thrift_read_Reset :: "(nat \<Rightarrow> byte) \<Rightarrow> thrift_read \<Rightarrow> thrift_read" where
  "thrift_read_Reset junk r = r\<lparr>tr_buffer := bf_Reserve junk 4 (bf_Clear (tr_buffer r)), tr_read_header := True\<rparr>"

text \<open>Bytes read at \<^verbatim>\<open>Stop()\<close> and the new length.\<close>

definition bf_fill :: "byte list \<Rightarrow> buffer \<Rightarrow> buffer" where
  "bf_fill bs b = bf_SetLen (bf_len b + length bs) (bf_store (bf_len b) bs b)"

text \<open>Bytes of the size have been read: when there are four of them the body begins.\<close>

definition got_header :: "(nat \<Rightarrow> byte) \<Rightarrow> byte list \<Rightarrow> thrift_read \<Rightarrow> thrift_read" where
  "got_header junk bs r =
     (let b = bf_fill bs (tr_buffer r) in
      if bf_len b = 4
      then let size = unat (htonl (word_of32 (bf_buf b)))
           in r\<lparr>tr_buffer := bf_Reserve junk size (bf_Clear b), tr_read_header := False, tr_size_body := size\<rparr>
      else r\<lparr>tr_buffer := b\<rparr>)"

partial_function (option) thrift_Read_loop ::
  "(nat \<Rightarrow> byte) \<Rightarrow> ('s \<Rightarrow> nat \<Rightarrow> 's \<times> int \<times> byte list) \<Rightarrow> bool \<Rightarrow> 's \<Rightarrow> thrift_read \<Rightarrow> ('s \<times> thrift_read \<times> int) option" where
  "thrift_Read_loop junk rnb has_bytes_read s r =
     (if tr_read_header r then
        let bytes_left = 4 - bf_len (tr_buffer r) in
        case rnb s bytes_left of (s', ret, bs) \<Rightarrow>
          if ret > 0 then thrift_Read_loop junk rnb True s' (got_header junk bs r)
          else if ret = 0 then Some (s', r, if has_bytes_read then to_int32 (int bytes_left) else kEnd)
          else Some (s', r, ret)
      else
        let bytes_left = tr_size_body r - bf_len (tr_buffer r) in
        case rnb s bytes_left of (s', ret, bs) \<Rightarrow>
          if ret > 0 then Some (s', r\<lparr>tr_buffer := bf_fill bs (tr_buffer r)\<rparr>, to_int32 (int bytes_left - ret))
          else if ret = 0 then Some (s', r, if has_bytes_read then to_int32 (int bytes_left) else kEnd)
          else Some (s', r, ret))"

declare thrift_Read_loop.simps [code]

definition thrift_Read :: "(nat \<Rightarrow> byte) \<Rightarrow> ('s \<Rightarrow> nat \<Rightarrow> 's \<times> int \<times> byte list) \<Rightarrow> 's \<Rightarrow> thrift_read \<Rightarrow> ('s \<times> thrift_read \<times> int) option" where
  "thrift_Read junk rnb s r = thrift_Read_loop junk rnb False s r"

definition kMinSizeBuf :: nat where "kMinSizeBuf = 9"
definition kMaxSizeBuf :: nat where "kMaxSizeBuf = 8 * 2 ^ 20"

fun mtype_dir :: "mtype \<Rightarrow> thrift_dir option" where
  "mtype_dir T_CALL = Some TdRequest" | "mtype_dir T_REPLY = Some TdReply" | "mtype_dir T_ONEWAY = Some TdOneway"
| "mtype_dir T_EXCEPTION = None"

definition thrift_Decode :: "tb_read \<Rightarrow> thrift_read \<Rightarrow> thrift_read \<times> bool" where
  "thrift_Decode tbr r =
     (let len = bf_len (tr_buffer r) in
      if len < kMinSizeBuf \<or> len > kMaxSizeBuf then (r, False)
      else case tbr (bf_data (tr_buffer r)) of
        None \<Rightarrow> (r, False)
      | Some (size_func, fn, mt, seqid) \<Rightarrow>
          let r = r\<lparr>tr_fn := fn, tr_seqid := seqid\<rparr>
          in case mtype_dir mt of
               None \<Rightarrow> (r, False)
             | Some d \<Rightarrow> (r\<lparr>tr_dir := d, tr_struct := drop size_func (bf_data (tr_buffer r))\<rparr>, True))"

section \<open>The buffer\<close>

lemma bf_store_data:
  assumes "bf_len b + length bs \<le> length (bf_buf b)"
  shows "bf_data (bf_fill bs b) = bf_data b @ bs" "length (bf_buf (bf_fill bs b)) = length (bf_buf b)" "bf_len (bf_fill bs b) = bf_len b + length bs"
  using assms by (simp_all add: bf_data_def bf_fill_def bf_SetLen_def bf_store_def)

lemma bf_Reserve_props:
  "length (bf_buf (bf_Reserve junk n b)) = max n (length (bf_buf b))" "bf_len (bf_Reserve junk n b) = bf_len b"
  "bf_len b \<le> length (bf_buf b) \<Longrightarrow> bf_data (bf_Reserve junk n b) = bf_data b"
  by (auto simp: bf_Reserve_def bf_data_def)

text \<open>\<^verbatim>\<open>Set\<close> puts bytes at a position and keeps the others.\<close>

lemma bf_Set_bytes:
  "pos \<le> length (bf_buf b) \<Longrightarrow> take (length bs) (drop pos (bf_buf (bf_Set junk bs pos b))) = bs"
  "i < pos \<Longrightarrow> i < length (bf_buf b) \<Longrightarrow> bf_buf (bf_Set junk bs pos b) ! i = bf_buf b ! i"
  by (simp_all add: bf_Set_def bf_store_def bf_Reserve_def nth_append)

section \<open>The reader\<close>

definition frame_head :: "nat \<Rightarrow> byte list" where "frame_head n = rev (bytes_of32 (of_nat n))"

lemma frame_head_props [simp]: "length (frame_head n) = 4" "htonl (word_of32 (frame_head n @ xs)) = of_nat n"
proof -
  show l: "length (frame_head n) = 4" by (simp add: frame_head_def)
  have "frame_head n = bytes_of32 (htonl (of_nat n))" by (simp add: frame_head_def htonl_bytes)
  then show "htonl (word_of32 (frame_head n @ xs)) = of_nat n" by simp
qed

text \<open>The reader is somewhere in a frame: in its size or in its body, of which so many bytes are in the buffer; the rest is still on the stream.\<close>

definition thrift_inv :: "byte list \<Rightarrow> byte list \<Rightarrow> byte list \<Rightarrow> thrift_read \<Rightarrow> bool" where
  "thrift_inv body rest strm r \<longleftrightarrow> length body < 2 ^ 31 \<and>
     (let b = tr_buffer r in
      if tr_read_header r
      then bf_len b < 4 \<and> 4 \<le> length (bf_buf b) \<and> bf_data b @ strm = frame_head (length body) @ body @ rest
      else tr_size_body r = length body \<and> bf_len b \<le> length body \<and> length body \<le> length (bf_buf b) \<and> bf_data b @ strm = body @ rest)"

definition thrift_missing :: "byte list \<Rightarrow> thrift_read \<Rightarrow> nat" where
  "thrift_missing body r = (if tr_read_header r then 4 + length body else length body) - bf_len (tr_buffer r)"

lemma thrift_reset_inv:
  "length body < 2 ^ 31 \<Longrightarrow> thrift_inv body rest (frame_head (length body) @ body @ rest) (thrift_read_Reset junk r)"
  by (simp add: thrift_inv_def thrift_read_Reset_def bf_Reserve_props bf_Clear_def bf_data_def Let_def)

text \<open>What one call of \<^verbatim>\<open>Read\<close> achieves.\<close>

definition thrift_result :: "byte list \<Rightarrow> byte list \<Rightarrow> bool \<Rightarrow> thrift_read \<Rightarrow> byte list \<Rightarrow> thrift_read \<Rightarrow> int \<Rightarrow> bool" where
  "thrift_result body rest hb r strm' r' ret \<longleftrightarrow> thrift_inv body rest strm' r'
     \<and> thrift_missing body r' \<le> thrift_missing body r
     \<and> (ret = 0 \<longrightarrow> thrift_missing body r' = 0 \<and> \<not> tr_read_header r')
     \<and> (ret > 0 \<longrightarrow> thrift_missing body r' > 0)
     \<and> (ret \<ge> 0 \<and> \<not> hb \<longrightarrow> thrift_missing body r' < thrift_missing body r)"

lemma thrift_body:
  assumes rs: "reads_stream rnb strm" and inv: "thrift_inv body rest (strm s) r" and b: "\<not> tr_read_header r"
  shows "\<exists>s' r' ret. thrift_Read_loop junk rnb hb s r = Some (s', r', ret) \<and> thrift_result body rest hb r (strm s') r' ret"
proof -
  let ?left = "tr_size_body r - bf_len (tr_buffer r)"
  have st: "tr_size_body r = length body" "bf_len (tr_buffer r) \<le> length body" "length body \<le> length (bf_buf (tr_buffer r))"
    "bf_data (tr_buffer r) @ strm s = body @ rest" "length body < 2 ^ 31"
    using inv b by (simp_all add: thrift_inv_def Let_def)
  have left: "?left = thrift_missing body r" "?left < 2 ^ 31" using st b by (simp_all add: thrift_missing_def)
  obtain s' ret bs where q: "rnb s ?left = (s', ret, bs)" by (metis prod_cases3)
  note rd = reads_streamD [OF rs q]
  show ?thesis
  proof (cases "ret > 0")
    case True
    note rd = rd(1) [OF True]
    let ?r = "r\<lparr>tr_buffer := bf_fill bs (tr_buffer r)\<rparr>"
    have fit: "bf_len (tr_buffer r) + length bs \<le> length (bf_buf (tr_buffer r))" "bf_len (tr_buffer r) + length bs \<le> length body"
      using rd st by auto
    note fl = bf_store_data [OF fit(1)]
    have "thrift_inv body rest (strm s') ?r"
      using st b rd fit fl by (simp add: thrift_inv_def Let_def)
    moreover have m: "int (thrift_missing body ?r) = int ?left - ret"
      using rd left(1) b fl fit(2) by (simp add: thrift_missing_def)
    moreover have "to_int32 (int ?left - ret) = int ?left - ret"
      using rd left(2) True by (intro to_int32_small) auto
    moreover have "thrift_Read_loop junk rnb hb s r = Some (s', ?r, to_int32 (int ?left - ret))"
      using b q True by (subst thrift_Read_loop.simps) (simp add: Let_def)
    ultimately show ?thesis using True rd b left(1) by (auto simp: thrift_result_def)
  next
    case False
    then have e: "strm s' = strm s" using rd(2) by simp
    have l: "to_int32 (int ?left) = int ?left" using left(2) by (intro to_int32_small) auto
    have "thrift_Read_loop junk rnb hb s r = Some (s', r, if ret = 0 then if hb then to_int32 (int ?left) else kEnd else ret)"
      using b q False by (subst thrift_Read_loop.simps) (simp add: Let_def)
    then show ?thesis using inv e b left l False by (auto simp: thrift_result_def kEnd_def)
  qed
qed

text \<open>The header step: the bytes of the size are gathered, and when they are complete the body begins.\<close>

lemma thrift_header:
  assumes inv: "thrift_inv body rest strm r" and h: "tr_read_header r" and rd: "strm = bs @ strm'" "bs \<noteq> []" "length bs \<le> 4 - bf_len (tr_buffer r)"
  shows "thrift_inv body rest strm' (got_header junk bs r)" "thrift_missing body (got_header junk bs r) < thrift_missing body r"
proof -
  have st: "bf_len (tr_buffer r) < 4" "4 \<le> length (bf_buf (tr_buffer r))" "bf_data (tr_buffer r) @ strm = frame_head (length body) @ body @ rest"
    "length body < 2 ^ 31" using inv h by (simp_all add: thrift_inv_def Let_def)
  define b where "b = bf_fill bs (tr_buffer r)"
  define n where "n = unat (htonl (word_of32 (bf_buf b)))"
  let ?r = "got_header junk bs r"
  have r: "?r = (if bf_len b = 4 then r\<lparr>tr_buffer := bf_Reserve junk n (bf_Clear b), tr_read_header := False, tr_size_body := n\<rparr> else r\<lparr>tr_buffer := b\<rparr>)"
    by (simp add: got_header_def Let_def b_def n_def)
  have fit: "bf_len (tr_buffer r) + length bs \<le> length (bf_buf (tr_buffer r))" using rd(3) st by linarith
  note fl = bf_store_data [OF fit, folded b_def]
  have app: "bf_data b @ strm' = frame_head (length body) @ body @ rest" using st(3) rd(1) fl(1) by simp
  have le: "bf_len b \<le> 4" "0 < length bs" using fl(3) rd(2,3) st(1) by auto
  have "thrift_inv body rest strm' ?r \<and> thrift_missing body ?r < thrift_missing body r"
  proof (cases "bf_len b = 4")
    case False
    have "4 + length body - bf_len b < 4 + length body - bf_len (tr_buffer r)" using le fl(3) by linarith
    moreover have "bf_len b < 4" using False le(1) by simp
    ultimately show ?thesis using fl(2) st app h by (simp add: r thrift_inv_def thrift_missing_def Let_def)
  next
    case True
    have "length (bf_data b) = 4" using True fl(2) st(2) by (simp add: bf_data_def)
    then have d: "bf_data b = frame_head (length body)" "strm' = body @ rest" using app by (simp_all add: append_eq_append_conv)
    have "bf_buf b = frame_head (length body) @ drop 4 (bf_buf b)" using d(1) True by (metis append_take_drop_id bf_data_def)
    then have "n = unat (of_nat (length body) :: u32)" unfolding n_def by (metis frame_head_props(2))
    then have n: "n = length body" using st(4) by (simp add: unsigned_of_nat take_bit_nat_eq_self)
    have "thrift_inv body rest strm' ?r"
      using True n d(2) st(4) by (simp add: r thrift_inv_def Let_def bf_Reserve_props bf_Clear_def bf_data_def)
    moreover have "thrift_missing body ?r < thrift_missing body r"
      using True h st(1) by (simp add: r thrift_missing_def bf_Reserve_props bf_Clear_def)
    ultimately show ?thesis by simp
  qed
  then show "thrift_inv body rest strm' ?r" "thrift_missing body ?r < thrift_missing body r" by simp_all
qed

lemma thrift_any:
  assumes rs: "reads_stream rnb strm" and inv: "thrift_inv body rest (strm s) r"
  shows "\<exists>s' r' ret. thrift_Read_loop junk rnb hb s r = Some (s', r', ret) \<and> thrift_result body rest hb r (strm s') r' ret"
  using inv
proof (induction "thrift_missing body r" arbitrary: s r hb rule: less_induct)
  case less
  show ?case
  proof (cases "tr_read_header r")
    case False
    then show ?thesis by (rule thrift_body [OF rs less.prems])
  next
    case True
    let ?left = "4 - bf_len (tr_buffer r)"
    have len: "bf_len (tr_buffer r) < 4" using less.prems True by (simp add: thrift_inv_def Let_def)
    obtain s' ret bs where q: "rnb s ?left = (s', ret, bs)" by (metis prod_cases3)
    note rd = reads_streamD [OF rs q]
    show ?thesis
    proof (cases "ret > 0")
      case False
      then have e: "strm s' = strm s" using rd(2) by simp
      have l: "to_int32 (int ?left) = int ?left" by (rule to_int32_small) auto
      have "thrift_Read_loop junk rnb hb s r = Some (s', r, if ret = 0 then if hb then to_int32 (int ?left) else kEnd else ret)"
        using True q False by (subst thrift_Read_loop.simps) (simp add: Let_def)
      then show ?thesis using less.prems e len False True unfolding l
        by (auto simp: thrift_result_def kEnd_def thrift_missing_def)
    next
      case pos: True
      note rd = rd(1) [OF pos]
      let ?r = "got_header junk bs r"
      have "bs \<noteq> []" using rd pos by auto
      from thrift_header [OF less.prems True _ this, of "strm s'" junk] rd
      have inv: "thrift_inv body rest (strm s') ?r" and m: "thrift_missing body ?r < thrift_missing body r" by auto
      have "thrift_Read_loop junk rnb hb s r = thrift_Read_loop junk rnb True s' ?r"
        using True q pos by (subst thrift_Read_loop.simps) (simp add: Let_def)
      moreover obtain s'' r'' ret' where "thrift_Read_loop junk rnb True s' ?r = Some (s'', r'', ret')"
        "thrift_result body rest True ?r (strm s'') r'' ret'"
        using less.hyps [OF m inv, of True] by blast
      ultimately show ?thesis using m by (auto simp: thrift_result_def)
    qed
  qed
qed

section \<open>Calls of Read\<close>

inductive thrift_calls :: "(nat \<Rightarrow> byte) \<Rightarrow> ('s \<Rightarrow> nat \<Rightarrow> 's \<times> int \<times> byte list) \<Rightarrow> 's \<Rightarrow> thrift_read \<Rightarrow> 's \<Rightarrow> thrift_read \<Rightarrow> bool"
  for junk rnb s0 r0 where
  start: "thrift_calls junk rnb s0 r0 s0 r0"
| call: "thrift_calls junk rnb s0 r0 s r \<Longrightarrow> thrift_Read junk rnb s r = Some (s', r', ret) \<Longrightarrow> ret > 0 \<or> ret = kEnd \<Longrightarrow>
    thrift_calls junk rnb s0 r0 s' r'"

lemma thrift_one:
  assumes "reads_stream rnb strm" "thrift_inv body rest (strm s) r" "thrift_Read junk rnb s r = Some (s', r', ret)"
  shows "thrift_result body rest False r (strm s') r' ret"
  using thrift_any [OF assms(1,2), of junk False] assms(3) by (auto simp: thrift_Read_def)

lemma thrift_calls_inv:
  assumes "thrift_calls junk rnb s0 r0 s r" "reads_stream rnb strm" "thrift_inv body rest (strm s0) r0"
  shows "thrift_inv body rest (strm s) r"
  using assms(1)
proof (induction rule: thrift_calls.induct)
  case start
  show ?case by (rule assms(3))
next
  case (call s r s' r' ret)
  from thrift_one [OF assms(2) call.IH call.hyps(2)] show ?case unfolding thrift_result_def by blast
qed

lemma thrift_complete:
  assumes "thrift_inv body rest strm r" "\<not> tr_read_header r" "thrift_missing body r = 0"
  shows "bf_data (tr_buffer r) = body" "strm = rest" "bf_len (tr_buffer r) = length body"
proof -
  have st: "bf_len (tr_buffer r) \<le> length body" "length body \<le> length (bf_buf (tr_buffer r))" "bf_data (tr_buffer r) @ strm = body @ rest"
    using assms by (simp_all add: thrift_inv_def Let_def)
  show l: "bf_len (tr_buffer r) = length body" using st(1) assms(2,3) by (simp add: thrift_missing_def)
  then have "length (bf_data (tr_buffer r)) = length body" using st(2) by (simp add: bf_data_def)
  then show "bf_data (tr_buffer r) = body" "strm = rest" using st(3) by (simp_all add: append_eq_append_conv)
qed

section \<open>Properties\<close>

text \<open>What the binary protocol promises: a head reads back as it was written, whatever follows it.\<close>

definition tb_reads_back :: "tb_write \<Rightarrow> tb_read \<Rightarrow> bool" where
  "tb_reads_back tbw tbr \<longleftrightarrow> (\<forall>fn mt seqid head rest. tbw fn mt seqid = Some head \<longrightarrow> tbr (head @ rest) = Some (length head, fn, mt, seqid))"

text \<open>C33. Round trip of a thrift message over a socket: let the stream be what \<^verbatim>\<open>Reset\<close> and \<^verbatim>\<open>Encode\<close> prepare for a struct and its parameters, followed by anything, and of a size
  that \<^verbatim>\<open>Decode\<close> admits. However it is cut into pieces, when a call of \<^verbatim>\<open>Read\<close> returns 0 \<^verbatim>\<open>Decode\<close> accepts it and gives the struct, the name, the direction and the number
  that were written, and what follows is still on the stream.\<close>

theorem thrift_roundtrip:
  assumes "reads_stream rnb strm" "tb_reads_back tbw tbr"
    "thrift_Encode tbw (thrift_write_Reset struct params w) = (w', True)" "strm s0 = concat (tw_iovs w') @ rest"
    "kMinSizeBuf + 4 \<le> length (concat (tw_iovs w'))" "length (concat (tw_iovs w')) \<le> kMaxSizeBuf + 4"
    "thrift_calls junk rnb s0 (thrift_read_Reset junk r0) s r" "thrift_Read junk rnb s r = Some (s', r', 0)"
  shows "\<exists>r''. thrift_Decode tbr r' = (r'', True) \<and> tr_struct r'' = struct \<and> tr_fn r'' = tw_fn params \<and> tr_dir r'' = tw_dir params
    \<and> tr_seqid r'' = tw_seqid params \<and> strm s' = rest"
proof -
  obtain head where head: "tbw (tw_fn params) (dir_mtype (tw_dir params)) (tw_seqid params) = Some head"
    and iovs: "tw_iovs w' = [bytes_of32 (htonl (of_nat (length head + length struct))), head, struct]"
    using assms(3) by (auto simp: thrift_Encode_def thrift_write_Reset_def Let_def split: option.splits)
  let ?body = "head @ struct"
  have size: "kMinSizeBuf \<le> length ?body" "length ?body \<le> kMaxSizeBuf" using assms(5,6) iovs by simp_all
  then have small: "length ?body < 2 ^ 31" by (simp add: kMaxSizeBuf_def)
  have "strm s0 = frame_head (length ?body) @ ?body @ rest" using assms(4) iovs by (simp add: frame_head_def htonl_bytes)
  then have "thrift_inv ?body rest (strm s0) (thrift_read_Reset junk r0)" using thrift_reset_inv [OF small] by simp
  from thrift_one [OF assms(1) thrift_calls_inv [OF assms(7,1) this] assms(8)]
  have "thrift_inv ?body rest (strm s') r'" "\<not> tr_read_header r'" "thrift_missing ?body r' = 0" by (simp_all add: thrift_result_def)
  note done' = thrift_complete [OF this]
  have "tbr ?body = Some (length head, tw_fn params, dir_mtype (tw_dir params), tw_seqid params)"
    using assms(2) head by (simp add: tb_reads_back_def)
  moreover have "mtype_dir (dir_mtype d) = Some d" for d by (cases d) simp_all
  ultimately show ?thesis using done' size by (simp add: thrift_Decode_def Let_def)
qed

text \<open>An instance that knows one head, that of a call of \<^verbatim>\<open>f\<close> with number 7 in the encoding of the binary protocol.\<close>

definition demo_tbw :: tb_write where
  "demo_tbw fn mt seqid = (if mt = T_CALL \<and> seqid = 7 \<and> fn = ''f'' then Some [0x80, 1, 0, 1, 0, 0, 0, 1, 0x66, 0, 0, 0, 7] else None)"

definition demo_tbr :: tb_read where
  "demo_tbr bs = (if take 13 bs = [0x80, 1, 0, 1, 0, 0, 0, 1, 0x66, 0, 0, 0, 7] then Some (13, ''f'', T_CALL, 7) else None)"

lemma demo_tb: "tb_reads_back demo_tbw demo_tbr"
  by (auto simp: tb_reads_back_def demo_tbw_def demo_tbr_def split: if_splits)

definition thrift_pieces :: "byte list list" where
  "thrift_pieces = [[0, 0], [0, 15, 0x80, 1, 0], [1, 0, 0, 0, 1, 0x66, 0, 0, 0, 7, 9, 9, 5]]"

definition thrift_read_demo :: thrift_read where
  "thrift_read_demo = \<lparr>tr_buffer = Buffer_new, tr_read_header = True, tr_size_body = 0, tr_struct = [], tr_fn = [], tr_dir = TdReply, tr_seqid = 0\<rparr>"

definition thrift_write_demo :: thrift_write where
  "thrift_write_demo = \<lparr>tw_params = \<lparr>tw_fn = [], tw_dir = TdReply, tw_seqid = 0\<rparr>, tw_struct = [], tw_size_all = 0, tw_iovs = []\<rparr>"

definition thrift_half :: thrift_read where
  "thrift_half = thrift_read_demo\<lparr>tr_buffer := \<lparr>bf_buf = [0x80, 1, 0, 15, 0, 0, 0, 0, 0, 0, 0, 0, 0, 0, 0], bf_len = 3\<rparr>,
     tr_read_header := False, tr_size_body := 15\<rparr>"

definition thrift_full :: thrift_read where
  "thrift_full = thrift_half\<lparr>tr_buffer := \<lparr>bf_buf = [0x80, 1, 0, 1, 0, 0, 0, 1, 0x66, 0, 0, 0, 7, 9, 9], bf_len = 15\<rparr>\<rparr>"

lemma thrift_demo_reads:
  "thrift_Read (\<lambda>_. 0) piece_rnb thrift_pieces (thrift_read_Reset (\<lambda>_. 0) thrift_read_demo)
     = Some ([[1, 0, 0, 0, 1, 0x66, 0, 0, 0, 7, 9, 9, 5]], thrift_half, 12)"
  "thrift_Read (\<lambda>_. 0) piece_rnb [[1, 0, 0, 0, 1, 0x66, 0, 0, 0, 7, 9, 9, 5]] thrift_half = Some ([[5]], thrift_full, 0)"
  by code_simp+

definition thrift_sent :: thrift_write where
  "thrift_sent = fst (thrift_Encode demo_tbw (thrift_write_Reset [9, 9] \<lparr>tw_fn = ''f'', tw_dir = TdRequest, tw_seqid = 7\<rparr> thrift_write_demo))"

theorem thrift_roundtrip_witness:
  "\<exists>r. thrift_Decode demo_tbr thrift_full = (r, True) \<and> tr_struct r = [9, 9] \<and> tr_fn r = ''f'' \<and> tr_dir r = TdRequest \<and> tr_seqid r = 7"
proof -
  let ?p = "\<lparr>tw_fn = ''f'', tw_dir = TdRequest, tw_seqid = 7\<rparr>"
  have e: "thrift_Encode demo_tbw (thrift_write_Reset [9, 9] ?p thrift_write_demo) = (thrift_sent, True)"
    by (simp add: thrift_sent_def thrift_Encode_def thrift_write_Reset_def demo_tbw_def Let_def)
  have w: "concat thrift_pieces = concat (tw_iovs thrift_sent) @ [5]" by code_simp
  have l: "length (concat (tw_iovs thrift_sent)) = 19"
    by (simp add: thrift_sent_def thrift_Encode_def thrift_write_Reset_def demo_tbw_def Let_def)
  have c: "thrift_calls (\<lambda>_. 0) piece_rnb thrift_pieces (thrift_read_Reset (\<lambda>_. 0) thrift_read_demo) [[1, 0, 0, 0, 1, 0x66, 0, 0, 0, 7, 9, 9, 5]] thrift_half"
    by (rule thrift_calls.call [OF thrift_calls.start thrift_demo_reads(1)]) simp
  from thrift_roundtrip [OF piece_rnb_reads demo_tb e w _ _ c thrift_demo_reads(2)] l
  show ?thesis by (auto simp: kMinSizeBuf_def kMaxSizeBuf_def)
qed

text \<open>The size a peer announces is not checked before memory is reserved for it: any four bytes make the buffer as large as they say, beyond \<^verbatim>\<open>kMaxSizeBuf\<close> too.\<close>

lemma thrift_reserves_announced:
  assumes "n < 2 ^ 32"
  shows "tr_size_body (got_header junk (frame_head n) (thrift_read_Reset junk r)) = n"
    "n \<le> length (bf_buf (tr_buffer (got_header junk (frame_head n) (thrift_read_Reset junk r))))"
proof -
  let ?b = "tr_buffer (thrift_read_Reset junk r)"
  have b: "bf_len ?b = 0" "4 \<le> length (bf_buf ?b)" by (simp_all add: thrift_read_Reset_def bf_Reserve_props bf_Clear_def)
  then have "bf_buf (bf_fill (frame_head n) ?b) = frame_head n @ drop 4 (bf_buf ?b)" "bf_len (bf_fill (frame_head n) ?b) = 4"
    by (simp_all add: bf_fill_def bf_store_def bf_SetLen_def)
  moreover have "unat (of_nat n :: u32) = n" using assms by (simp add: unsigned_of_nat take_bit_nat_eq_self)
  ultimately show "tr_size_body (got_header junk (frame_head n) (thrift_read_Reset junk r)) = n"
    "n \<le> length (bf_buf (tr_buffer (got_header junk (frame_head n) (thrift_read_Reset junk r))))"
    by (simp_all add: got_header_def Let_def bf_Reserve_props)
qed

end
