(* ===== verification/Talk_Model.thy ===== *)
theory Talk_Model
  imports Protocols
begin

text \<open>
  The data the components exchange, \<^verbatim>\<open>src/model.h\<close> and \<^verbatim>\<open>src/details/model.cpp\<close>: remotes,
  services and talks. The protocol classes are reached through virtual functions, so that
  what a talk does with its protocol objects is written over a table of them, \<open>proto_ops\<close>;
  \<open>'w\<close> and \<open>'r\<close> are the types of the objects. The table also stands for the socket: each
  call of a handler gets its own.
\<close>

section \<open>Remotes and services\<close>

record remote =
  rm_addr :: sockaddr_in
  rm_weight :: nat
  rm_long_conns :: nat
  rm_ctimeo_ms :: msec
  rm_rtimeo_ms :: msec
  rm_wtimeo_ms :: msec

definition EqRemote :: "remote \<Rightarrow> remote \<Rightarrow> bool" where
  "EqRemote left right \<longleftrightarrow> s_addr (rm_addr left) = s_addr (rm_addr right)
     \<and> sin_port (rm_addr left) = sin_port (rm_addr right)"

text \<open>\<^verbatim>\<open>std::tr1::hash\<close> of a \<^verbatim>\<open>size_t\<close> is the number itself.\<close>

definition HashRemote :: "remote \<Rightarrow> nat" where
  "HashRemote r = unat (sin_port (rm_addr r)) * 2 ^ 32 + unat (s_addr (rm_addr r))"

text \<open>The assignment operator copies the address without the family.\<close>

definition Remote_assign :: "remote \<Rightarrow> remote \<Rightarrow> remote" where
  "Remote_assign other this = other\<lparr>rm_addr := (rm_addr this)
     \<lparr>s_addr := s_addr (rm_addr other), sin_port := sin_port (rm_addr other)\<rparr>\<rparr>"

datatype service_strategy = SsNormal | SsWeight | SsInvalid

definition kDefaultStrategy :: service_strategy where "kDefaultStrategy = SsWeight"

definition GetServiceStrategy :: "string \<Rightarrow> service_strategy" where
  "GetServiceStrategy s =
     (if s = ''normal'' then SsNormal else if s = ''weight'' then SsWeight else SsInvalid)"

record service =
  sv_no :: nat
  sv_name :: string
  sv_category :: protocol_category
  sv_strategy :: service_strategy
  sv_remotes :: "remote list"
  sv_weight_all :: nat
  sv_retry :: nat

section \<open>Talks\<close>

datatype talk_category = TcWriteOnly | TcReadOnly | TcWriteAndRead

datatype talk_status = TsStart | TsConn | TsRead | TsWrite | TsClose | TsEnd

text \<open>A \<^verbatim>\<open>const Remote*\<close> points into a service of the configuration, which does not change,
  or into the connection manager's scratch vector, which does.\<close>

datatype remote_ptr = RpConf remote | RpTmp nat

record ('w, 'r) talk =
  no_talk :: nat
  tk_category :: talk_category
  tk_service :: "service option"
  tk_buf :: "byte list option"
  protocol_write :: "'w option"
  protocol_read :: "'r option"
  starttime_ms :: msec
  endtime_ms :: msec
  tk_status :: talk_status
  tk_error :: int
  fail_remotes :: "remote list"
  tk_retry :: nat
  tk_fd :: fd
  tk_remote :: "remote_ptr option"

text \<open>The virtual functions of the protocol classes and the pools of their objects.\<close>

record ('w, 'r) proto_ops =
  po_GetWrite :: "protocol_category \<Rightarrow> 'w option"
  po_GetRead :: "protocol_category \<Rightarrow> 'r option"
  po_wReset :: "byte list \<Rightarrow> 'w \<Rightarrow> 'w"
  po_Encode :: "'w \<Rightarrow> 'w \<times> bool"
  po_Write :: "fd \<Rightarrow> 'w \<Rightarrow> 'w \<times> int"
  po_rReset :: "listen_addr option \<Rightarrow> 'r \<Rightarrow> 'r"
  po_Read :: "fd \<Rightarrow> 'r \<Rightarrow> 'r \<times> int"
  po_Decode :: "'r \<Rightarrow> 'r \<times> bool"
  po_rCategory :: "'r \<Rightarrow> protocol_category"

text \<open>\<^verbatim>\<open>Assign\<close>: the talk, and the protocol objects given back to their pool. The argument
  \<open>now\<close> is the cached clock. \<^verbatim>\<open>Reset\<close> through the null pointer that the pools return for a
  category without protocol is a crash.\<close>

definition Assign_write ::
  "('w, 'r) proto_ops \<Rightarrow> protocol_category \<Rightarrow> byte list \<Rightarrow> ('w, 'r) talk \<Rightarrow> (('w, 'r) talk \<times> bool \<times> 'w list) outcome" where
  "Assign_write ops pcat buf t =
     (case po_GetWrite ops pcat of
        None \<Rightarrow> Inl NullDeref
      | Some w \<Rightarrow>
          (case po_Encode ops (po_wReset ops buf w) of (w', ret) \<Rightarrow>
             if ret then Inr (t\<lparr>protocol_write := Some w'\<rparr>, True, [])
             else Inr (t\<lparr>protocol_write := Some w', tk_fd := -1, tk_error := kEncode\<rparr>, False, [w'])))"

definition Talk_Assign ::
  "('w, 'r) proto_ops \<Rightarrow> msec \<Rightarrow> nat \<Rightarrow> talk_category \<Rightarrow> service option \<Rightarrow> protocol_category \<Rightarrow> byte list option
     \<Rightarrow> msec \<Rightarrow> fd \<Rightarrow> remote_ptr option \<Rightarrow> (('w, 'r) talk \<times> 'w list) outcome" where
  "Talk_Assign ops now no cat svc pcat buf timeo_ms f rem =
     (let t = \<lparr>no_talk = no, tk_category = cat, tk_service = svc, tk_buf = buf, protocol_write = None,
               protocol_read = None, starttime_ms = now, endtime_ms = now + timeo_ms, tk_status = TsStart,
               tk_error = kOk, fail_remotes = [],
               tk_retry = (case svc of Some s \<Rightarrow> sv_retry s | None \<Rightarrow> 0), tk_fd = f, tk_remote = rem\<rparr>
      in case buf of
        None \<Rightarrow> Inr (t\<lparr>tk_status := TsEnd\<rparr>, [])
      | Some b \<Rightarrow>
          (case cat of
             TcWriteAndRead \<Rightarrow>
               obind (Assign_write ops pcat b t) (\<lambda>(t, ok, freed).
                 if \<not> ok then Inr (t, freed)
                 else case po_GetRead ops pcat of
                   None \<Rightarrow> Inl NullDeref
                 | Some r \<Rightarrow> Inr (t\<lparr>protocol_read := Some (po_rReset ops None r), tk_status := TsWrite\<rparr>, freed))
           | TcWriteOnly \<Rightarrow>
               obind (Assign_write ops pcat b t) (\<lambda>(t, ok, freed).
                 if \<not> ok then Inr (t, freed)
                 else Inr (t\<lparr>protocol_read := None, tk_status := TsWrite\<rparr>, freed))
           | TcReadOnly \<Rightarrow>
               (case po_GetRead ops pcat of
                  None \<Rightarrow> Inl NullDeref
                | Some r \<Rightarrow> Inr (t\<lparr>protocol_write := None, protocol_read := Some (po_rReset ops None r),
                                   tk_status := TsRead\<rparr>, []))))"

section \<open>Lemmas\<close>

lemma EqRemote_refl [simp]: "EqRemote r r"
  by (simp add: EqRemote_def)

lemma EqRemote_sym: "EqRemote a b \<Longrightarrow> EqRemote b a"
  by (simp add: EqRemote_def)

lemma EqRemote_trans: "EqRemote a b \<Longrightarrow> EqRemote b c \<Longrightarrow> EqRemote a c"
  by (simp add: EqRemote_def)

text \<open>The hash separates remotes exactly as the equality does.\<close>

lemma HashRemote_eq: "HashRemote a = HashRemote b \<longleftrightarrow> EqRemote a b"
proof
  assume h: "HashRemote a = HashRemote b"
  let ?p = "\<lambda>r. unat (sin_port (rm_addr r))" and ?s = "\<lambda>r. unat (s_addr (rm_addr r))"
  have s: "?s r < 2 ^ 32" for r using unsigned_less [of "s_addr (rm_addr r)"] by simp
  have "?s r = HashRemote r mod 2 ^ 32" "?p r = HashRemote r div 2 ^ 32" for r
    using s [of r] by (simp_all add: HashRemote_def)
  with h have "?s a = ?s b" "?p a = ?p b" by simp_all
  then show "EqRemote a b" by (simp add: EqRemote_def unsigned_word_eqI)
qed (simp add: EqRemote_def HashRemote_def)

lemma HashRemote_bound: "HashRemote r < 2 ^ 48"
proof -
  have "unat (sin_port (rm_addr r)) < 2 ^ LENGTH(16)" "unat (s_addr (rm_addr r)) < 2 ^ LENGTH(32)"
    by (rule unsigned_less)+
  then show ?thesis by (simp add: HashRemote_def)
qed

lemma Remote_assign_eq: "EqRemote (Remote_assign other this) other"
  by (simp add: EqRemote_def Remote_assign_def)

end
