(* ===== verification/Conns_Pool.thy ===== *)
theory Conns_Pool
  imports Talk_Model
begin

text \<open>
  The pool of idle connections to one remote, \<^verbatim>\<open>src/conns_mgr/pool_conns_per_remote.h\<close> and
  \<^verbatim>\<open>.cpp\<close>, and the calls of \<^verbatim>\<open>IOHelper\<close> (\<^verbatim>\<open>deps/public-cpp/include/public-cpp/io_helper.h\<close>) it
  makes. What the system answers is in \<open>conn_env\<close>. Operations return the descriptors they
  close. It is shown that a pool never drops a descriptor, that its size is bounded, that
  the health mark stays in range and recovers, and how a stale expiry time closes a fresh
  connection.
\<close>

section \<open>IOHelper\<close>

definition EINTR :: int where "EINTR = 4"
definition EAGAIN :: int where "EAGAIN = 11"
definition EWOULDBLOCK :: int where "EWOULDBLOCK = 11"
definition EINPROGRESS :: int where "EINPROGRESS = 115"

lemmas errnos = EINTR_def EAGAIN_def EWOULDBLOCK_def EINPROGRESS_def

text \<open>\<^verbatim>\<open>CheckConn\<close> on the result of \<^verbatim>\<open>recv\<close> and \<^verbatim>\<open>errno\<close>.\<close>

definition io_CheckConn :: "int \<times> int \<Rightarrow> bool" where
  "io_CheckConn r \<longleftrightarrow> fst r < 0 \<and> (snd r = EWOULDBLOCK \<or> snd r = EAGAIN)"

text \<open>\<^verbatim>\<open>Connect\<close> on the attempts in turn, each the result of \<^verbatim>\<open>CreateSocket\<close>, the one of
  \<^verbatim>\<open>connect\<close> and \<^verbatim>\<open>errno\<close>; an interrupted call starts over with a new socket.\<close>

fun io_Connect :: "(fd \<times> int \<times> int) list \<Rightarrow> ((fd \<times> bool) \<times> fd list) outcome" where
  "io_Connect [] = Inl NoReturn"
| "io_Connect ((f, ret, errno) # rest) =
     (if f \<le> 0 then Inr ((-1, True), [])
      else if ret = 0 then Inr ((f, True), [])
      else if errno = EINPROGRESS then Inr ((f, False), [])
      else if errno = EINTR then io_Connect rest
      else Inr ((-1, True), [f]))"

section \<open>State and operations\<close>

record conn_env =
  ce_now_sec :: sec
  ce_recv :: "fd \<Rightarrow> int \<times> int"
  ce_attempts :: "sockaddr_in \<Rightarrow> (fd \<times> int \<times> int) list"
  ce_rand :: nat

record conns_pool =
  cp_remote :: remote
  cp_keepalive_sec :: sec
  health_mark :: nat
  cp_fds :: "fd list"
  expiretime_sec :: "sec list"

definition kDefaultMaxFd :: nat where "kDefaultMaxFd = 10240"
definition kFullMarkHealth :: nat where "kFullMarkHealth = 100"

definition PoolConns_new :: "remote \<Rightarrow> sec \<Rightarrow> conns_pool" where
  "PoolConns_new rem keepalive = \<lparr>cp_remote = rem, cp_keepalive_sec = keepalive,
     health_mark = kFullMarkHealth, cp_fds = [], expiretime_sec = replicate kDefaultMaxFd 0\<rparr>"

definition SetNumLongConnsPerRemote :: "nat \<Rightarrow> conns_pool \<Rightarrow> conns_pool" where
  "SetNumLongConnsPerRemote n p = p\<lparr>cp_remote := (cp_remote p)\<lparr>rm_long_conns := n\<rparr>\<rparr>"

definition pc_ReportStatus :: "bool \<Rightarrow> conns_pool \<Rightarrow> conns_pool" where
  "pc_ReportStatus status p = p\<lparr>health_mark :=
     (if status then min (health_mark p * 2) kFullMarkHealth else max (health_mark p div 2) 1)\<rparr>"

definition pc_IsHealthy :: "conns_pool \<Rightarrow> bool" where
  "pc_IsHealthy p \<longleftrightarrow> kFullMarkHealth = health_mark p"

definition pc_Get :: "conn_env \<Rightarrow> conns_pool \<Rightarrow> (conns_pool \<times> (fd \<times> bool) \<times> fd list) outcome" where
  "pc_Get env p =
     (let (f, p') = (if cp_fds p \<noteq> [] then (last (cp_fds p), p\<lparr>cp_fds := butlast (cp_fds p)\<rparr>) else (0, p))
      in if f \<noteq> 0 \<and> io_CheckConn (ce_recv env f) then Inr (p', (f, True), [])
         else obind (io_Connect (ce_attempts env (rm_addr (cp_remote p'))))
                (\<lambda>(r, cl). Inr (p', r, (if f \<noteq> 0 then [f] else []) @ cl)))"

definition pc_grow :: "fd \<Rightarrow> conns_pool \<Rightarrow> conns_pool" where
  "pc_grow f p = (if f \<ge> int (length (expiretime_sec p))
     then p\<lparr>expiretime_sec := expiretime_sec p @ replicate (nat (f + 1) - length (expiretime_sec p)) 0\<rparr> else p)"

definition pc_Put :: "conn_env \<Rightarrow> fd \<Rightarrow> conns_pool \<Rightarrow> (conns_pool \<times> fd list) outcome" where
  "pc_Put env f p0 =
     (if length (cp_fds p0) \<ge> rm_long_conns (cp_remote p0) then Inr (p0, [f])
      else let p = pc_grow f p0 in
        if length (cp_fds p) < rm_long_conns (cp_remote p) then
          if f < 0 then Inl OutOfRange
          else if expiretime_sec p ! nat f \<noteq> 0 then
            if expiretime_sec p ! nat f > ce_now_sec env then Inr (p\<lparr>cp_fds := cp_fds p @ [f]\<rparr>, [])
            else Inr (p\<lparr>expiretime_sec := (expiretime_sec p)[nat f := 0]\<rparr>, [f])
          else Inr (p\<lparr>expiretime_sec := (expiretime_sec p)[nat f := ce_now_sec env + cp_keepalive_sec p],
                      cp_fds := cp_fds p @ [f]\<rparr>, [])
        else Inr (p, [f]))"

section \<open>Lemmas\<close>

definition pc_inv :: "conns_pool \<Rightarrow> bool" where
  "pc_inv p \<longleftrightarrow> 1 \<le> health_mark p \<and> health_mark p \<le> kFullMarkHealth \<and> (\<forall>f \<in> set (cp_fds p). 0 < f)"

lemma pc_new_inv: "pc_inv (PoolConns_new r k)" "pc_IsHealthy (PoolConns_new r k)"
  by (simp_all add: pc_inv_def PoolConns_new_def kFullMarkHealth_def pc_IsHealthy_def)

lemma pc_SetNum_inv [simp]:
  "pc_inv (SetNumLongConnsPerRemote n p) = pc_inv p" "pc_IsHealthy (SetNumLongConnsPerRemote n p) = pc_IsHealthy p"
  by (simp_all add: pc_inv_def SetNumLongConnsPerRemote_def pc_IsHealthy_def)

lemma pc_ReportStatus_inv: "pc_inv p \<Longrightarrow> pc_inv (pc_ReportStatus s p)"
  by (auto simp: pc_inv_def pc_ReportStatus_def kFullMarkHealth_def)

lemma pc_grow_frame [simp]:
  "cp_fds (pc_grow f p) = cp_fds p" "cp_remote (pc_grow f p) = cp_remote p"
  "health_mark (pc_grow f p) = health_mark p" "cp_keepalive_sec (pc_grow f p) = cp_keepalive_sec p"
  by (simp_all add: pc_grow_def)

lemma pc_grow_length: "0 \<le> f \<Longrightarrow> nat f < length (expiretime_sec (pc_grow f p))"
  by (auto simp: pc_grow_def)

text \<open>The descriptor handed in is either the new top of the pool or closed.\<close>

lemma pc_Put_cases:
  assumes "0 \<le> f"
  shows "\<exists>p' cl. pc_Put env f p = Inr (p', cl) \<and> cp_remote p' = cp_remote p \<and> health_mark p' = health_mark p
    \<and> (cp_fds p' = cp_fds p @ [f] \<and> cl = [] \<and> length (cp_fds p) < rm_long_conns (cp_remote p)
       \<or> cp_fds p' = cp_fds p \<and> cl = [f])"
  using assms by (auto simp: pc_Put_def Let_def)

lemma pc_Put_inv:
  assumes "pc_Put env f p = Inr (p', cl)" "pc_inv p" "0 < f"
  shows "pc_inv p'" "pc_IsHealthy p' = pc_IsHealthy p"
  using pc_Put_cases [of f env p] assms by (auto simp: pc_inv_def pc_IsHealthy_def)

lemma pc_Get_inv:
  assumes "pc_Get env p = Inr (p', r, cl)" "pc_inv p"
  shows "pc_inv p'" "pc_IsHealthy p' = pc_IsHealthy p"
  using assms in_set_butlastD [of _ "cp_fds p"]
  by (auto simp: pc_Get_def pc_inv_def pc_IsHealthy_def obind_Inr_iff split: if_splits)

text \<open>A connection is reported with a positive descriptor or -1.\<close>

lemma io_Connect_fd: "io_Connect as = Inr ((f, b), cl) \<Longrightarrow> f > 0 \<or> f = -1"
  by (induction as rule: io_Connect.induct) (auto split: if_splits)

lemma io_Connect_total:
  "(f, ret, e) \<in> set as \<Longrightarrow> f \<le> 0 \<or> ret = 0 \<or> e \<noteq> EINTR \<Longrightarrow> \<exists>r. io_Connect as = Inr r"
  by (induction as rule: io_Connect.induct) (auto simp: errnos)

section \<open>Properties\<close>

text \<open>Handing a connection back to a pool never loses it: it becomes the top of the pool,
  and only below the configured number of idle connections, or it is closed. The next
  \<^verbatim>\<open>Get\<close> gives out the top, if it is still alive, and leaves the pool as it was before.\<close>

theorem pool_conns_Put_Get:
  assumes "0 < f"
  shows "\<exists>p' cl. pc_Put env f p = Inr (p', cl)
    \<and> (if cl = [] then cp_fds p' = cp_fds p @ [f] \<and> length (cp_fds p') \<le> rm_long_conns (cp_remote p)
         \<and> (io_CheckConn (ce_recv env' f) \<longrightarrow> pc_Get env' p' = Inr (p'\<lparr>cp_fds := cp_fds p\<rparr>, (f, True), []))
       else cp_fds p' = cp_fds p \<and> cl = [f])"
proof -
  obtain p' cl where p': "pc_Put env f p = Inr (p', cl)" "cp_remote p' = cp_remote p"
    "cp_fds p' = cp_fds p @ [f] \<and> cl = [] \<and> length (cp_fds p) < rm_long_conns (cp_remote p)
       \<or> cp_fds p' = cp_fds p \<and> cl = [f]"
    using pc_Put_cases [of f env p] assms by auto
  then show ?thesis using assms by (auto simp: pc_Get_def)
qed

definition demo_remote :: remote where
  "demo_remote = \<lparr>rm_addr = \<lparr>sin_family = AF_INET, s_addr = 1, sin_port = 80\<rparr>, rm_weight = 3,
     rm_long_conns = 2, rm_ctimeo_ms = 10, rm_rtimeo_ms = 20, rm_wtimeo_ms = 30\<rparr>"

definition demo_env :: "sec \<Rightarrow> (fd \<Rightarrow> bool) \<Rightarrow> (fd \<times> int \<times> int) list \<Rightarrow> nat \<Rightarrow> conn_env" where
  "demo_env now alive as rnd = \<lparr>ce_now_sec = now, ce_recv = (\<lambda>f. if alive f then (-1, EAGAIN) else (0, 0)),
     ce_attempts = (\<lambda>_. as), ce_rand = rnd\<rparr>"

definition demo_pool :: conns_pool where
  "demo_pool = \<lparr>cp_remote = demo_remote, cp_keepalive_sec = 10, health_mark = 100, cp_fds = [], expiretime_sec = []\<rparr>"

theorem pool_conns_Put_Get_witness:
  "\<exists>p'. pc_Put (demo_env 1 (\<lambda>_. True) [] 0) 5 demo_pool = Inr (p', [])
    \<and> pc_Get (demo_env 2 (\<lambda>_. True) [] 0) p' = Inr (p'\<lparr>cp_fds := []\<rparr>, (5, True), [])"
proof -
  have "\<exists>p'. pc_Put (demo_env 1 (\<lambda>_. True) [] 0) 5 demo_pool = Inr (p', [])"
    by (simp add: pc_Put_def demo_pool_def demo_remote_def pc_grow_def demo_env_def Let_def eval_nat_numeral)
  moreover have "io_CheckConn (ce_recv (demo_env 2 (\<lambda>_. True) [] 0) 5)"
    by (simp add: io_CheckConn_def demo_env_def errnos)
  moreover have "cp_fds demo_pool = []" by (simp add: demo_pool_def)
  ultimately show ?thesis
    using pool_conns_Put_Get [of 5 "demo_env 1 (\<lambda>_. True) [] 0" demo_pool "demo_env 2 (\<lambda>_. True) [] 0"] by auto
qed

text \<open>C36. The health mark of a remote stays between 1 and 100 through any reports, and seven
  successes in a row make any remote healthy again.\<close>

theorem health_mark_recovers:
  assumes "1 \<le> health_mark p" "health_mark p \<le> kFullMarkHealth"
  shows "1 \<le> health_mark (fold pc_ReportStatus reports p) \<and> health_mark (fold pc_ReportStatus reports p) \<le> kFullMarkHealth
    \<and> pc_IsHealthy (fold pc_ReportStatus (reports @ replicate 7 True) p)"
proof -
  let ?m = "\<lambda>rs. health_mark (fold pc_ReportStatus rs p)"
  have range: "1 \<le> ?m rs \<and> ?m rs \<le> kFullMarkHealth" for rs
  proof (induction rs rule: rev_induct)
    case (snoc s rs)
    then show ?case by (auto simp: pc_ReportStatus_def kFullMarkHealth_def)
  qed (use assms in simp)
  have up: "health_mark (fold pc_ReportStatus (replicate k True) q) = min (health_mark q * 2 ^ k) kFullMarkHealth"
    if "health_mark q \<le> kFullMarkHealth" for k q
    using that
  proof (induction k arbitrary: q)
    case (Suc k)
    let ?m = "health_mark q" and ?F = kFullMarkHealth
    have one: "health_mark (pc_ReportStatus True q) = min (?m * 2) ?F" by (simp add: pc_ReportStatus_def)
    have "health_mark (fold pc_ReportStatus (replicate (Suc k) True) q) = min (min (?m * 2) ?F * 2 ^ k) ?F"
      using Suc.IH [of "pc_ReportStatus True q"] one by (simp add: fold_replicate)
    also have "\<dots> = min (?m * 2 ^ Suc k) ?F"
    proof (cases "?m * 2 \<le> ?F")
      case False
      have p: "x \<le> x * 2 ^ k" for x :: nat by simp
      have "?F \<le> ?m * 2 * 2 ^ k" using p [of "?m * 2"] False by linarith
      then have "min (?m * 2 ^ Suc k) ?F = ?F" by (simp add: mult.assoc)
      moreover have "min (?m * 2) ?F = ?F" "min (?F * 2 ^ k) ?F = ?F" using False p [of ?F] by (auto simp: min_absorb2)
      ultimately show ?thesis by (simp only:)
    qed (simp add: mult.assoc)
    finally show ?case .
  qed simp
  show ?thesis using range [of reports] up [of "fold pc_ReportStatus reports p" 7]
    by (simp add: pc_IsHealthy_def min_def kFullMarkHealth_def)
qed

theorem health_mark_recovers_witness:
  "pc_IsHealthy (fold pc_ReportStatus ([False, False, True] @ replicate 7 True) demo_pool)"
  using health_mark_recovers [of demo_pool "[False, False, True]"] by (simp add: demo_pool_def kFullMarkHealth_def)

text \<open>The expiry time is kept per descriptor number and not forgotten when the descriptor
  is closed: a connection that died in the pool leaves its time behind, and a new connection
  that gets the same number is closed on its first return.\<close>

theorem pool_conns_stale_expiry:
  "\<exists>p1 p2 p3. pc_Put (demo_env 100 (\<lambda>_. True) [] 0) 5 demo_pool = Inr (p1, [])
    \<and> pc_Get (demo_env 111 (\<lambda>_. False) [(5, 0, 0)] 0) p1 = Inr (p2, (5, True), [5])
    \<and> pc_Put (demo_env 112 (\<lambda>_. True) [] 0) 5 p2 = Inr (p3, [5])
    \<and> (\<exists>p4. pc_Put (demo_env 112 (\<lambda>_. True) [] 0) 5 demo_pool = Inr (p4, []))"
  by (simp add: pc_Put_def pc_Get_def demo_pool_def demo_remote_def pc_grow_def demo_env_def Let_def
    io_CheckConn_def eval_nat_numeral)

end
