(* ===== verification/Conns_Mgr.thy ===== *)
theory Conns_Mgr
  imports Conns_Pool Close_Hashmap
begin

text \<open>
  The connection manager, \<^verbatim>\<open>src/conns_mgr/conns_mgr.h\<close> and \<^verbatim>\<open>.cpp\<close>: a table of connection
  pools by remote, the set of remotes that are not healthy, and the choice of a remote for a
  service. The table is the closed hash map, whose interface \<open>hash_keys\<close> is interpreted on the
  equality and the hash of remotes. It is shown that the set of unhealthy remotes always
  matches the marks of the pools, that the choice by weight is proportional, that remotes
  that failed before are avoided, and what \<^verbatim>\<open>ConfigRemotes\<close> leaves in the table.
\<close>

interpretation rt: hash_keys EqRemote HashRemote
  by unfold_locales (auto simp: HashRemote_eq intro: EqRemote_sym EqRemote_trans)

section \<open>State\<close>

definition kNumRemotes :: nat where "kNumRemotes = 1000"

text \<open>The unordered set of remotes is the list of its elements.\<close>

record conns_mgr =
  cm_keepalive_sec :: sec
  cm_conns :: "(remote, conns_pool) close_hashmap"
  unhealthy_guys :: "remote list"
  tmp_remotes :: "remote list"
  tmp_weights :: "nat list"

definition set_has :: "remote \<Rightarrow> remote list \<Rightarrow> bool" where
  "set_has r s \<longleftrightarrow> list_ex (EqRemote r) s"

definition set_insert :: "remote \<Rightarrow> remote list \<Rightarrow> remote list" where
  "set_insert r s = (if set_has r s then s else s @ [r])"

definition set_erase :: "remote \<Rightarrow> remote list \<Rightarrow> remote list" where
  "set_erase r s = filter (\<lambda>x. \<not> EqRemote r x) s"

abbreviation cm_Get :: "conns_mgr \<Rightarrow> remote \<Rightarrow> conns_pool option" where
  "cm_Get cm r \<equiv> hm_Get EqRemote HashRemote (cm_conns cm) r"

definition ConnsMgr_new :: "sec \<Rightarrow> remote \<times> conns_pool \<Rightarrow> conns_mgr option" where
  "ConnsMgr_new keepalive blank = map_option (\<lambda>h. \<lparr>cm_keepalive_sec = keepalive, cm_conns = h,
     unhealthy_guys = [], tmp_remotes = [], tmp_weights = []\<rparr>) (hm_Init (kNumRemotes * 100) blank)"

section \<open>Operations\<close>

text \<open>Writing to the pool behind the pointer that \<^verbatim>\<open>Get\<close> returned.\<close>

definition cm_set_pool :: "remote \<Rightarrow> conns_pool \<Rightarrow> conns_mgr \<Rightarrow> conns_mgr" where
  "cm_set_pool r p cm = cm\<lparr>cm_conns := hm_Set EqRemote HashRemote r p (cm_conns cm)\<rparr>"

definition cm_insert :: "remote \<Rightarrow> conns_pool \<Rightarrow> conns_mgr \<Rightarrow> conns_mgr" where
  "cm_insert r p cm = cm\<lparr>cm_conns := fst (hm_Insert EqRemote HashRemote r p (cm_conns cm))\<rparr>"

text \<open>The two loops of \<^verbatim>\<open>ConfigRemotes\<close>. The second walks the table with the iterator; an
  erased slot is only marked, so one round per slot and one more are fuel enough.\<close>

definition Config_add :: "remote \<Rightarrow> conns_mgr \<Rightarrow> conns_mgr outcome" where
  "Config_add r cm0 =
     (let cm = (if cm_Get cm0 r = None then cm_insert r (PoolConns_new r (cm_keepalive_sec cm0)) cm0 else cm0)
      in case cm_Get cm r of
        None \<Rightarrow> Inl NullDeref
      | Some p \<Rightarrow> Inr (cm_set_pool r (SetNumLongConnsPerRemote (rm_long_conns r) p) cm))"

fun Config_prune :: "nat \<Rightarrow> remote list \<Rightarrow> nat \<Rightarrow> conns_mgr \<Rightarrow> conns_mgr outcome" where
  "Config_prune 0 remotes pos cm = Inr cm"
| "Config_prune (Suc n) remotes pos cm =
     (if pos = size_array (cm_conns cm) then Inr cm
      else let key = it_key (hm_items (cm_conns cm) ! pos) in
        if set_has key remotes then Config_prune n remotes (hm_Next (cm_conns cm) pos) cm
        else case cm_Get cm key of
          None \<Rightarrow> Inl NullDeref
        | Some p \<Rightarrow>
            let cm' = cm\<lparr>unhealthy_guys := set_erase key (unhealthy_guys cm),
                         cm_conns := fst (hm_Erase EqRemote HashRemote key (cm_conns cm))\<rparr>
            in Config_prune n remotes (hm_Next (cm_conns cm') pos) cm')"

definition ConfigRemotes :: "remote list \<Rightarrow> conns_mgr \<Rightarrow> conns_mgr outcome" where
  "ConfigRemotes remotes cm =
     obind (ofold Config_add remotes cm) (\<lambda>cm.
       Config_prune (Suc (size_array (cm_conns cm))) remotes (hm_Begin (cm_conns cm)) cm)"

definition cm_FreeFd :: "conn_env \<Rightarrow> remote \<Rightarrow> fd \<Rightarrow> conns_mgr \<Rightarrow> (conns_mgr \<times> fd list) outcome" where
  "cm_FreeFd env r f cm =
     (case cm_Get cm r of
        None \<Rightarrow> Inr (cm, [f])
      | Some p \<Rightarrow>
          if rm_long_conns (cp_remote p) > 0
          then obind (pc_Put env f p) (\<lambda>(p', cl). Inr (cm_set_pool r p' cm, cl))
          else Inr (cm, [f]))"

definition cm_ReportStatus :: "remote \<Rightarrow> bool \<Rightarrow> conns_mgr \<Rightarrow> conns_mgr" where
  "cm_ReportStatus r status cm =
     (case cm_Get cm r of
        None \<Rightarrow> cm
      | Some p \<Rightarrow>
          let p' = pc_ReportStatus status p; cm' = cm_set_pool r p' cm
          in if pc_IsHealthy p \<and> \<not> pc_IsHealthy p'
             then cm'\<lparr>unhealthy_guys := set_insert r (unhealthy_guys cm')\<rparr>
             else if \<not> pc_IsHealthy p \<and> pc_IsHealthy p'
             then cm'\<lparr>unhealthy_guys := set_erase r (unhealthy_guys cm')\<rparr> else cm')"

text \<open>\<^verbatim>\<open>GetFd_\<close>. A pool that the table does not take is used all the same.\<close>

definition cm_GetFd1 :: "conn_env \<Rightarrow> remote \<Rightarrow> conns_mgr \<Rightarrow> (conns_mgr \<times> (fd \<times> bool) \<times> fd list) outcome" where
  "cm_GetFd1 env r cm0 =
     (let (p, cm) = (case cm_Get cm0 r of
            None \<Rightarrow> let p = PoolConns_new r (cm_keepalive_sec cm0) in (p, cm_insert r p cm0)
          | Some p \<Rightarrow> (p, cm0))
      in obind (pc_Get env p) (\<lambda>(p', res, cl). Inr (cm_set_pool r p' cm, res, cl)))"

definition IsHealthy :: "conns_mgr \<Rightarrow> remote \<Rightarrow> bool" where
  "IsHealthy cm r \<longleftrightarrow> \<not> list_ex (\<lambda>g. EqRemote g r) (unhealthy_guys cm)"

definition FailedBefore :: "remote \<Rightarrow> remote list \<Rightarrow> bool" where
  "FailedBefore r fails \<longleftrightarrow> list_ex (EqRemote r) fails"

definition GetRemoteNormal :: "conn_env \<Rightarrow> service \<Rightarrow> remote list \<Rightarrow> conns_mgr \<Rightarrow> remote_ptr outcome" where
  "GetRemoteNormal env svc fails cm =
     (case find (\<lambda>r. IsHealthy cm r \<and> \<not> FailedBefore r fails) (sv_remotes svc) of
        Some r \<Rightarrow> Inr (RpConf r)
      | None \<Rightarrow> if sv_remotes svc = [] then Inl DivByZero
                else Inr (RpConf (sv_remotes svc ! (ce_rand env mod length (sv_remotes svc)))))"

text \<open>The loop over the weights; the running sum is an \<^verbatim>\<open>int\<close>.\<close>

fun pick_weight :: "nat list \<Rightarrow> int \<Rightarrow> int \<Rightarrow> nat option" where
  "pick_weight [] weight random = None"
| "pick_weight (w # ws) weight random =
     (let weight = to_int32 (weight + int w)
      in if weight > random then Some 0 else map_option Suc (pick_weight ws weight random))"

fun tmp_weights_of :: "conns_mgr \<Rightarrow> remote list \<Rightarrow> nat list outcome" where
  "tmp_weights_of cm [] = Inr []"
| "tmp_weights_of cm (r # rs) =
     (case cm_Get cm r of
        None \<Rightarrow> Inl NullDeref
      | Some p \<Rightarrow> obind (tmp_weights_of cm rs) (\<lambda>ws. Inr ((rm_weight r * health_mark p) mod 2 ^ 64 # ws)))"

definition GetRemoteWeight ::
  "conn_env \<Rightarrow> service \<Rightarrow> remote list \<Rightarrow> conns_mgr \<Rightarrow> (conns_mgr \<times> remote_ptr option) outcome" where
  "GetRemoteWeight env svc fails cm =
     (if unhealthy_guys cm = [] then
        if sv_weight_all svc = 0 then Inl DivByZero
        else Inr (cm, map_option (\<lambda>i. RpConf (sv_remotes svc ! i))
               (pick_weight (map rm_weight (sv_remotes svc)) 0 (to_int32 (int (ce_rand env mod sv_weight_all svc)))))
      else
        let tmp = filter (\<lambda>r. \<not> FailedBefore r fails) (sv_remotes svc) in
        obind (tmp_weights_of cm tmp) (\<lambda>ws.
          let cm' = cm\<lparr>tmp_remotes := tmp, tmp_weights := ws\<rparr>; weight_all = sum_list ws mod 2 ^ 64 in
          if ws \<noteq> [] then
            if weight_all = 0 then Inl DivByZero
            else Inr (cm', map_option RpTmp (pick_weight ws 0 (to_int32 (int (ce_rand env mod weight_all)))))
          else if sv_remotes svc = [] then Inl DivByZero
          else Inr (cm', Some (RpConf (sv_remotes svc ! (ce_rand env mod length (sv_remotes svc)))))))"

definition GetRemote ::
  "conn_env \<Rightarrow> service \<Rightarrow> remote list \<Rightarrow> conns_mgr \<Rightarrow> (conns_mgr \<times> remote_ptr option) outcome" where
  "GetRemote env svc fails cm =
     (case sv_strategy svc of
        SsNormal \<Rightarrow> obind (GetRemoteNormal env svc fails cm) (\<lambda>r. Inr (cm, Some r))
      | SsWeight \<Rightarrow> GetRemoteWeight env svc fails cm
      | SsInvalid \<Rightarrow> Inr (cm, None))"

text \<open>Reading through a pointer to a remote.\<close>

definition cm_deref :: "conns_mgr \<Rightarrow> remote_ptr \<Rightarrow> remote outcome" where
  "cm_deref cm p = (case p of RpConf r \<Rightarrow> Inr r
     | RpTmp i \<Rightarrow> if i < length (tmp_remotes cm) then Inr (tmp_remotes cm ! i) else Inl Dangling)"

definition cm_GetFd ::
  "conn_env \<Rightarrow> service \<Rightarrow> remote list \<Rightarrow> conns_mgr \<Rightarrow> (conns_mgr \<times> remote_ptr \<times> (fd \<times> bool) \<times> fd list) outcome" where
  "cm_GetFd env svc fails cm =
     obind (GetRemote env svc fails cm) (\<lambda>(cm, ptr).
       case ptr of
         None \<Rightarrow> Inl NullDeref
       | Some q \<Rightarrow> obind (cm_deref cm q) (\<lambda>r.
           obind (cm_GetFd1 env r cm) (\<lambda>(cm, res, cl). Inr (cm, q, res, cl))))"

section \<open>Invariant\<close>

abbreviation cm_map :: "conns_mgr \<Rightarrow> remote \<Rightarrow> conns_pool option" where
  "cm_map cm \<equiv> hm_map EqRemote (cm_conns cm)"

text \<open>The table is well-formed, its pools are, and a remote is in the set exactly when its
  pool is not healthy.\<close>

definition cm_inv :: "conns_mgr \<Rightarrow> bool" where
  "cm_inv cm \<longleftrightarrow> hm_wf EqRemote HashRemote (cm_conns cm)
     \<and> (\<forall>r p. cm_map cm r = Some p \<longrightarrow> pc_inv p)
     \<and> (\<forall>r. set_has r (unhealthy_guys cm) \<longleftrightarrow> (\<exists>p. cm_map cm r = Some p \<and> \<not> pc_IsHealthy p))"

lemma cm_Get_map: "cm_inv cm \<Longrightarrow> cm_Get cm r = cm_map cm r"
  by (simp add: cm_inv_def rt.get_map)

lemma set_has_insert: "set_has x (set_insert r s) \<longleftrightarrow> EqRemote x r \<or> set_has x s"
  by (auto simp: set_insert_def set_has_def list_ex_iff EqRemote_def)

lemma set_has_erase: "set_has x (set_erase r s) \<longleftrightarrow> \<not> EqRemote x r \<and> set_has x s"
  by (auto simp: set_erase_def set_has_def list_ex_iff EqRemote_def)

lemma set_pool_ok:
  assumes "cm_inv cm" "cm_map cm r = Some q"
  shows "hm_wf EqRemote HashRemote (cm_conns (cm_set_pool r p cm))"
    "cm_map (cm_set_pool r p cm) a = (if EqRemote a r then Some p else cm_map cm a)"
    "unhealthy_guys (cm_set_pool r p cm) = unhealthy_guys cm"
    "cm_keepalive_sec (cm_set_pool r p cm) = cm_keepalive_sec cm"
  using rt.set_ok [of "cm_conns cm" r p] assms by (auto simp: cm_set_pool_def cm_inv_def)

lemma set_pool_same_health:
  assumes inv: "cm_inv cm" and q: "cm_map cm r = Some q" and p: "pc_inv p" "pc_IsHealthy p = pc_IsHealthy q"
  shows "cm_inv (cm_set_pool r p cm)"
proof -
  note s = set_pool_ok [OF inv q, of p]
  have e: "cm_map cm a = Some q" if "EqRemote a r" for a using rt.map_keq [OF that, of "cm_conns cm"] q by simp
  have "set_has a (unhealthy_guys cm) \<longleftrightarrow> (\<exists>p. cm_map cm a = Some p \<and> \<not> pc_IsHealthy p)"
    "\<And>x. cm_map cm a = Some x \<Longrightarrow> pc_inv x" for a using inv by (auto simp: cm_inv_def)
  then show ?thesis unfolding cm_inv_def s(2,3) using s(1) p e by auto
qed

lemma cm_insert_ok:
  assumes inv: "cm_inv cm" and n: "cm_map cm r = None" and p: "pc_inv p" "pc_IsHealthy p"
  shows "cm_inv (cm_insert r p cm)" "unhealthy_guys (cm_insert r p cm) = unhealthy_guys cm"
    "cm_insert r p cm = cm \<or> (\<forall>a. cm_map (cm_insert r p cm) a = (if EqRemote a r then Some p else cm_map cm a))"
proof -
  obtain h' ok where h': "hm_Insert EqRemote HashRemote r p (cm_conns cm) = (h', ok)"
    by (cases "hm_Insert EqRemote HashRemote r p (cm_conns cm)")
  have wf: "hm_wf EqRemote HashRemote (cm_conns cm)" using inv by (simp add: cm_inv_def)
  note i = rt.insert_ok [OF wf h']
  show "unhealthy_guys (cm_insert r p cm) = unhealthy_guys cm" by (simp add: cm_insert_def)
  show "cm_insert r p cm = cm \<or> (\<forall>a. cm_map (cm_insert r p cm) a = (if EqRemote a r then Some p else cm_map cm a))"
    using i(2,3) by (cases ok) (simp_all add: cm_insert_def h')
  have "cm_inv (cm_insert r p cm)" if ok
  proof -
    have e: "cm_map cm a = None" if "EqRemote a r" for a using rt.map_keq [OF that, of "cm_conns cm"] n by simp
    have m: "cm_map (cm_insert r p cm) a = (if EqRemote a r then Some p else cm_map cm a)" for a
      using i(2) [OF that] by (simp add: cm_insert_def h')
    have "set_has a (unhealthy_guys cm) \<longleftrightarrow> (\<exists>p. cm_map cm a = Some p \<and> \<not> pc_IsHealthy p)"
      "\<And>x. cm_map cm a = Some x \<Longrightarrow> pc_inv x" for a using inv by (auto simp: cm_inv_def)
    then show ?thesis unfolding cm_inv_def m using i(1) p e by (auto simp: cm_insert_def h')
  qed
  moreover have "cm_inv (cm_insert r p cm)" if "\<not> ok" using i(3) [OF that] inv by (simp add: cm_insert_def h')
  ultimately show "cm_inv (cm_insert r p cm)" by blast
qed

lemma cm_ReportStatus_inv:
  assumes inv: "cm_inv cm"
  shows "cm_inv (cm_ReportStatus r status cm)"
proof (cases "cm_map cm r")
  case (Some p)
  let ?p = "pc_ReportStatus status p" and ?cm = "cm_set_pool r (pc_ReportStatus status p) cm"
  note s = set_pool_ok [OF inv Some, of ?p]
  have pi: "pc_inv ?p" using inv Some pc_ReportStatus_inv by (auto simp: cm_inv_def)
  have e: "cm_map cm a = Some p" if "EqRemote a r" for a using rt.map_keq [OF that, of "cm_conns cm"] Some by simp
  have u: "set_has a (unhealthy_guys cm) \<longleftrightarrow> (\<exists>p. cm_map cm a = Some p \<and> \<not> pc_IsHealthy p)"
    "\<And>x. cm_map cm a = Some x \<Longrightarrow> pc_inv x" for a using inv by (auto simp: cm_inv_def)
  consider "pc_IsHealthy ?p = pc_IsHealthy p" | "pc_IsHealthy p" "\<not> pc_IsHealthy ?p"
    | "\<not> pc_IsHealthy p" "pc_IsHealthy ?p" by blast
  then show ?thesis
  proof cases
    case 1
    then have "cm_ReportStatus r status cm = ?cm"
      using Some inv by (simp add: cm_ReportStatus_def cm_Get_map)
    then show ?thesis using set_pool_same_health [OF inv Some pi 1] by simp
  next
    case 2
    then have "cm_ReportStatus r status cm = ?cm\<lparr>unhealthy_guys := set_insert r (unhealthy_guys cm)\<rparr>"
      using Some inv s(3) by (simp add: cm_ReportStatus_def cm_Get_map Let_def)
    then show ?thesis using s(1,2) 2 pi e u by (auto simp: cm_inv_def set_has_insert)
  next
    case 3
    then have "cm_ReportStatus r status cm = ?cm\<lparr>unhealthy_guys := set_erase r (unhealthy_guys cm)\<rparr>"
      using Some inv s(3) by (simp add: cm_ReportStatus_def cm_Get_map Let_def)
    then show ?thesis using s(1,2) 3 pi e u by (auto simp: cm_inv_def set_has_erase)
  qed
qed (simp add: cm_ReportStatus_def cm_Get_map inv)

lemma cm_FreeFd_inv:
  assumes inv: "cm_inv cm" and f: "0 < f"
  shows "\<exists>cm' cl. cm_FreeFd env r f cm = Inr (cm', cl) \<and> cm_inv cm'"
proof (cases "cm_map cm r")
  case (Some p)
  have pi: "pc_inv p" using inv Some by (auto simp: cm_inv_def)
  obtain p' cl where p': "pc_Put env f p = Inr (p', cl)" using pc_Put_cases [of f env p] f by auto
  have "cm_inv (cm_set_pool r p' cm)"
    using set_pool_same_health [OF inv Some] pc_Put_inv [OF p' pi f] by simp
  then show ?thesis using Some inv p' by (simp add: cm_FreeFd_def cm_Get_map)
qed (simp add: cm_FreeFd_def cm_Get_map inv)

lemma cm_inv_tmp [simp]: "cm_inv (cm\<lparr>tmp_remotes := x, tmp_weights := y\<rparr>) = cm_inv cm"
  by (simp add: cm_inv_def)

lemma cm_GetFd1_inv:
  assumes inv: "cm_inv cm" and g: "cm_GetFd1 env r cm = Inr (cm', res, cl)"
  shows "cm_inv cm'" "tmp_remotes cm' = tmp_remotes cm"
proof -
  show "tmp_remotes cm' = tmp_remotes cm"
    using g by (auto simp: cm_GetFd1_def cm_set_pool_def cm_insert_def Let_def obind_Inr_iff split: option.splits)
  let ?new = "PoolConns_new r (cm_keepalive_sec cm)"
  show "cm_inv cm'"
  proof (cases "cm_map cm r")
    case None
    note i = cm_insert_ok [OF inv None pc_new_inv, of r "cm_keepalive_sec cm"]
    obtain p' where p': "pc_Get env ?new = Inr (p', res, cl)" "cm' = cm_set_pool r p' (cm_insert r ?new cm)"
      using g None inv by (auto simp: cm_GetFd1_def cm_Get_map obind_Inr_iff Let_def)
    note pp = pc_Get_inv [OF p'(1) pc_new_inv(1)]
    show ?thesis
    proof (cases "cm_map (cm_insert r ?new cm) r")
      case None
      then have "cm_set_pool r p' (cm_insert r ?new cm) = cm_insert r ?new cm"
        using i(1) rt.get_map [of "cm_conns (cm_insert r ?new cm)" r]
        by (auto simp: cm_set_pool_def hm_Set_def hm_Get_def cm_inv_def split: option.splits if_splits)
      then show ?thesis using p'(2) i(1) by simp
    next
      case (Some q)
      have "cm_insert r ?new cm \<noteq> cm" using Some None by auto
      then have "q = ?new" using i(3) Some by simp
      then show ?thesis using set_pool_same_health [OF i(1) Some] pp p'(2) by simp
    qed
  next
    case (Some p)
    obtain p' where p': "pc_Get env p = Inr (p', res, cl)" "cm' = cm_set_pool r p' cm"
      using g Some inv by (auto simp: cm_GetFd1_def cm_Get_map obind_Inr_iff)
    have "pc_inv p" using inv Some by (auto simp: cm_inv_def)
    then show ?thesis using set_pool_same_health [OF inv Some] pc_Get_inv [OF p'(1)] p'(2) by simp
  qed
qed

lemma GetRemoteWeight_inv:
  assumes "cm_inv cm" "GetRemoteWeight env svc fails cm = Inr (cm', ptr)"
  shows "cm_inv cm'"
proof (cases "unhealthy_guys cm = []")
  case True
  then have "cm' = cm" using assms(2) by (simp add: GetRemoteWeight_def split: if_splits)
  then show ?thesis using assms(1) by simp
next
  case False
  then obtain ws where "cm' = cm\<lparr>tmp_remotes := filter (\<lambda>r. \<not> FailedBefore r fails) (sv_remotes svc), tmp_weights := ws\<rparr>"
    using assms(2) by (auto simp: GetRemoteWeight_def Let_def obind_Inr_iff split: if_splits)
  then show ?thesis using assms(1) by simp
qed

lemma GetRemote_inv:
  assumes "cm_inv cm" "GetRemote env svc fails cm = Inr (cm', ptr)"
  shows "cm_inv cm'"
proof (cases "sv_strategy svc")
  case SsNormal
  then show ?thesis using assms by (cases "GetRemoteNormal env svc fails cm") (simp_all add: GetRemote_def)
qed (use assms GetRemoteWeight_inv in \<open>auto simp: GetRemote_def\<close>)

lemma cm_GetFd_cases:
  assumes "cm_GetFd env svc fails cm = Inr (cm', q, res, cl)"
  obtains cm1 r where "GetRemote env svc fails cm = Inr (cm1, Some q)" "cm_deref cm1 q = Inr r"
    "cm_GetFd1 env r cm1 = Inr (cm', res, cl)"
  using assms by (auto simp: cm_GetFd_def obind_Inr_iff split: option.splits)

lemma cm_GetFd_inv:
  assumes "cm_inv cm" "cm_GetFd env svc fails cm = Inr (cm', q, res, cl)"
  shows "cm_inv cm'"
  using cm_GetFd_cases [OF assms(2)] GetRemote_inv [OF assms(1)] cm_GetFd1_inv(1) by metis

section \<open>Configuration\<close>

text \<open>Slots that were never used: each insertion takes at most one, nothing gives one back.\<close>

definition hm_fresh :: "('k, 'v) close_hashmap \<Rightarrow> nat set" where
  "hm_fresh h = {i. i < size_array h \<and> it_first (hm_items h ! i) = 0}"

lemma finite_hm_fresh [simp]: "finite (hm_fresh h)"
  by (simp add: hm_fresh_def)

lemma fresh_insert: "card (hm_fresh h) \<le> Suc (card (hm_fresh (fst (hm_Insert keq hash k v h))))"
proof (cases "fst (hm_Insert keq hash k v h) = h")
  case False
  then obtain i where "fst (hm_Insert keq hash k v h)
      = h\<lparr>hm_items := (hm_items h)[i := \<lparr>it_first = 1, it_key = k, it_val = v\<rparr>], num_elm := num_elm h + 1\<rparr>"
    by (auto simp: hm_Insert_def split: option.splits if_splits)
  then have "hm_fresh h - {i} \<subseteq> hm_fresh (fst (hm_Insert keq hash k v h))" by (auto simp: hm_fresh_def)
  then have "card (hm_fresh h - {i}) \<le> card (hm_fresh (fst (hm_Insert keq hash k v h)))" by (simp add: card_mono)
  then show ?thesis by (metis Suc_le_mono card_Suc_Diff1 finite_hm_fresh le_SucI Diff_empty Diff_insert0)
qed simp

lemma fresh_set: "hm_fresh (hm_Set keq hash k v h) = hm_fresh h"
proof (cases "hm_GetItem keq hash h k")
  case (Some i)
  show ?thesis
  proof (cases "it_first (hm_items h ! i) > 0 \<and> i < length (hm_items h)")
    case True
    then show ?thesis using Some by (auto simp: hm_Set_def hm_fresh_def nth_list_update)
  qed (use Some in \<open>auto simp: hm_Set_def hm_fresh_def list_update_beyond\<close>)
qed (simp add: hm_Set_def)

lemma Config_add_ok:
  assumes inv: "cm_inv cm" and ok: "Config_add r cm = Inr cm'"
  shows "cm_inv cm'" "cm_map cm' a = (if EqRemote a r
      then Some (SetNumLongConnsPerRemote (rm_long_conns r)
        (case cm_map cm r of Some p \<Rightarrow> p | None \<Rightarrow> PoolConns_new r (cm_keepalive_sec cm)))
      else cm_map cm a)"
    "card (hm_fresh (cm_conns cm)) \<le> Suc (card (hm_fresh (cm_conns cm')))"
    "cm_keepalive_sec cm' = cm_keepalive_sec cm"
proof -
  let ?new = "PoolConns_new r (cm_keepalive_sec cm)"
  let ?cm = "if cm_map cm r = None then cm_insert r ?new cm else cm"
  have inv1: "cm_inv ?cm" using cm_insert_ok(1) [OF inv _ pc_new_inv] inv by simp
  obtain p where p: "cm_map ?cm r = Some p" "cm' = cm_set_pool r (SetNumLongConnsPerRemote (rm_long_conns r) p) ?cm"
    using ok cm_Get_map [OF inv1] by (auto simp: Config_add_def cm_Get_map [OF inv] Let_def split: option.splits)
  have "cm_insert r ?new cm \<noteq> cm" if "cm_map cm r = None" using p(1) that by auto
  then have m: "cm_map ?cm a = (if EqRemote a r \<and> cm_map cm r = None then Some ?new else cm_map cm a)" for a
    using cm_insert_ok(3) [OF inv _ pc_new_inv, of r r "cm_keepalive_sec cm"] by auto
  have pe: "p = (case cm_map cm r of Some p \<Rightarrow> p | None \<Rightarrow> ?new)" using p(1) m [of r] by (auto split: option.splits)
  note s = set_pool_ok [OF inv1 p(1), of "SetNumLongConnsPerRemote (rm_long_conns r) p", folded p(2)]
  show "cm_map cm' a = (if EqRemote a r
      then Some (SetNumLongConnsPerRemote (rm_long_conns r)
        (case cm_map cm r of Some p \<Rightarrow> p | None \<Rightarrow> ?new)) else cm_map cm a)"
    using s(2) [of a] m [of a] pe by simp
  have "pc_inv p" using inv1 p(1) by (auto simp: cm_inv_def)
  then show "cm_inv cm'" using set_pool_same_health [OF inv1 p(1)] p(2) by simp
  have "hm_fresh (cm_conns cm') = hm_fresh (cm_conns ?cm)" using p(2) by (simp add: cm_set_pool_def fresh_set)
  moreover have "card (hm_fresh (cm_conns cm)) \<le> Suc (card (hm_fresh (cm_conns ?cm)))"
    using fresh_insert [of "cm_conns cm" EqRemote HashRemote r ?new] by (simp add: cm_insert_def)
  ultimately show "card (hm_fresh (cm_conns cm)) \<le> Suc (card (hm_fresh (cm_conns cm')))" by simp
  show "cm_keepalive_sec cm' = cm_keepalive_sec cm" using p(2) by (simp add: cm_set_pool_def cm_insert_def)
qed

lemma Config_add_accepts:
  assumes inv: "cm_inv cm" and fr: "hm_fresh (cm_conns cm) \<noteq> {}"
  shows "\<exists>cm'. Config_add r cm = Inr cm'"
proof (cases "cm_map cm r")
  case None
  let ?new = "PoolConns_new r (cm_keepalive_sec cm)"
  obtain j where j: "j < size_array (cm_conns cm)" "it_first (hm_items (cm_conns cm) ! j) = 0"
    using fr by (auto simp: hm_fresh_def)
  have wf: "hm_wf EqRemote HashRemote (cm_conns cm)" using inv by (simp add: cm_inv_def)
  obtain h' where h': "hm_Insert EqRemote HashRemote r ?new (cm_conns cm) = (h', True)"
    using rt.insert_accepts [OF wf None j, of ?new] by (metis prod.collapse)
  have "cm_map (cm_insert r ?new cm) r = Some ?new"
    using rt.insert_ok(2) [OF wf h'] by (simp add: cm_insert_def h')
  then show ?thesis using None inv cm_insert_ok(1) [OF inv None pc_new_inv]
    by (simp add: Config_add_def cm_Get_map Let_def)
qed (simp add: Config_add_def cm_Get_map inv)

lemma SetNum_id: "\<exists>n. p = SetNumLongConnsPerRemote n p"
  by (rule exI [of _ "rm_long_conns (cp_remote p)"]) (simp add: SetNumLongConnsPerRemote_def)

lemma Config_adds_ok:
  assumes "cm_inv cm" "ofold Config_add rs cm = Inr cm'"
  shows "cm_inv cm' \<and> (\<forall>a. cm_map cm' a \<noteq> None \<longleftrightarrow> set_has a rs \<or> cm_map cm a \<noteq> None)
    \<and> (\<forall>a. \<not> set_has a rs \<longrightarrow> cm_map cm' a = cm_map cm a)
    \<and> (\<forall>a p. cm_map cm a = Some p \<longrightarrow> (\<exists>n. cm_map cm' a = Some (SetNumLongConnsPerRemote n p)))"
  using assms
proof (induction rs arbitrary: cm)
  case Nil
  then show ?case using SetNum_id by (auto simp: set_has_def)
next
  case (Cons r rs)
  obtain cm1 where c: "Config_add r cm = Inr cm1" "ofold Config_add rs cm1 = Inr cm'"
    using Cons.prems(2) by (auto simp: obind_Inr_iff)
  note a = Config_add_ok [OF Cons.prems(1) c(1)]
  note ih = Cons.IH [OF a(1) c(2)]
  have k: "EqRemote a r \<Longrightarrow> cm_map cm a = cm_map cm r" for a by (rule rt.map_keq)
  have "\<exists>n. cm_map cm1 a = Some (SetNumLongConnsPerRemote n p)" if "cm_map cm a = Some p" for a p
  proof (cases "EqRemote a r")
    case True
    then have "cm_map cm r = Some p" using k [OF True] that by simp
    then show ?thesis using a(2) [of a] True by auto
  next
    case False
    then show ?thesis using that a(2) [of a] SetNum_id [of p] by auto
  qed
  moreover have "SetNumLongConnsPerRemote n (SetNumLongConnsPerRemote m p) = SetNumLongConnsPerRemote n p" for n m p
    by (simp add: SetNumLongConnsPerRemote_def)
  ultimately have "\<exists>n. cm_map cm' a = Some (SetNumLongConnsPerRemote n p)" if "cm_map cm a = Some p" for a p
    using ih that by metis
  moreover have "set_has a (r # rs) \<longleftrightarrow> EqRemote a r \<or> set_has a rs" for a by (simp add: set_has_def)
  ultimately show ?case using ih a(2) by auto
qed

lemma Config_adds_accept:
  assumes "cm_inv cm" "length rs \<le> card (hm_fresh (cm_conns cm))"
  shows "\<exists>cm'. ofold Config_add rs cm = Inr cm'"
  using assms
proof (induction rs arbitrary: cm)
  case (Cons r rs)
  then have "hm_fresh (cm_conns cm) \<noteq> {}" by auto
  with Config_add_accepts Cons.prems(1) obtain cm1 where c: "Config_add r cm = Inr cm1" by blast
  show ?case using Cons.IH [of cm1] Config_add_ok(1,3) [OF Cons.prems(1) c] Cons.prems(2) c by simp
qed simp

text \<open>The iterator: the next live slot, or the end.\<close>

lemma iter_from_ok:
  assumes "pos \<le> size_array h" "size_array h - pos \<le> n"
  shows "pos \<le> hm_iter_from h pos n \<and> hm_iter_from h pos n \<le> size_array h
    \<and> (hm_iter_from h pos n = size_array h \<or> hm_iter_from h pos n \<in> hm_live h)
    \<and> (\<forall>i \<in> hm_live h. pos \<le> i \<longrightarrow> hm_iter_from h pos n \<le> i)"
  using assms
proof (induction n arbitrary: pos)
  case (Suc n)
  show ?case
  proof (cases "pos < size_array h \<and> \<not> it_first (hm_items h ! pos) > 0")
    case True
    then have "pos \<notin> hm_live h" by (simp add: hm_live_def)
    moreover have "Suc pos \<le> i" if "pos \<le> i" "pos \<notin> hm_live h" "i \<in> hm_live h" for i
      using that by (metis Suc_leI le_neq_implies_less)
    moreover have "size_array h - Suc pos \<le> n" "Suc pos \<le> size_array h" using Suc.prems True by auto
    ultimately show ?thesis using True Suc.IH [of "Suc pos"] by (auto dest: Suc_leD)
  qed (use Suc.prems in \<open>auto simp: hm_live_def\<close>)
qed (auto simp: hm_live_def)

lemma erase_live:
  assumes wf: "hm_wf EqRemote HashRemote h" and pos: "pos \<in> hm_live h"
  shows "fst (hm_Erase EqRemote HashRemote (it_key (hm_items h ! pos)) h)
    = h\<lparr>hm_items := (hm_items h)[pos := (hm_items h ! pos)\<lparr>it_first := -1\<rparr>], num_elm := num_elm h - 1\<rparr>"
proof -
  have "hm_GetItem EqRemote HashRemote h (it_key (hm_items h ! pos)) = Some pos" using assms by (simp add: hm_wf_def)
  then show ?thesis using pos by (simp add: hm_Erase_def hm_live_def)
qed

text \<open>One round of the second loop: the pool of a remote that is no longer configured goes.\<close>

lemma prune_step:
  assumes inv: "cm_inv cm" and pos: "pos \<in> hm_live (cm_conns cm)"
  defines "key \<equiv> it_key (hm_items (cm_conns cm) ! pos)"
  defines "cm' \<equiv> cm\<lparr>unhealthy_guys := set_erase key (unhealthy_guys cm),
                  cm_conns := fst (hm_Erase EqRemote HashRemote key (cm_conns cm))\<rparr>"
  shows "cm_inv cm'" "cm_map cm' a = (if EqRemote a key then None else cm_map cm a)"
    "hm_live (cm_conns cm') = hm_live (cm_conns cm) - {pos}" "size_array (cm_conns cm') = size_array (cm_conns cm)"
    "i \<noteq> pos \<Longrightarrow> hm_items (cm_conns cm') ! i = hm_items (cm_conns cm) ! i"
    "cm_Get cm key \<noteq> None" "hm_fresh (cm_conns cm') = hm_fresh (cm_conns cm)"
proof -
  have wf: "hm_wf EqRemote HashRemote (cm_conns cm)" using inv by (simp add: cm_inv_def)
  have p: "pos < size_array (cm_conns cm)" "pos < length (hm_items (cm_conns cm))" "it_first (hm_items (cm_conns cm) ! pos) > 0"
    using pos wf by (auto simp: hm_live_def hm_wf_def)
  note e = erase_live [OF wf pos, folded key_def]
  show "hm_live (cm_conns cm') = hm_live (cm_conns cm) - {pos}"
    using p by (auto simp: cm'_def e hm_live_def nth_list_update)
  show "hm_fresh (cm_conns cm') = hm_fresh (cm_conns cm)"
    using p by (auto simp: cm'_def e hm_fresh_def nth_list_update)
  show "size_array (cm_conns cm') = size_array (cm_conns cm)" by (simp add: cm'_def e)
  show "i \<noteq> pos \<Longrightarrow> hm_items (cm_conns cm') ! i = hm_items (cm_conns cm) ! i" by (simp add: cm'_def e)
  have "cm_map cm key \<noteq> None" unfolding rt.map_None [OF wf] key_def using pos EqRemote_refl by blast
  then show "cm_Get cm key \<noteq> None" by (simp add: cm_Get_map [OF inv])
  obtain h ok where h: "hm_Erase EqRemote HashRemote key (cm_conns cm) = (h, ok)"
    by (cases "hm_Erase EqRemote HashRemote key (cm_conns cm)")
  have m: "cm_map cm' b = (if EqRemote b key then None else cm_map cm b)" "hm_wf EqRemote HashRemote (cm_conns cm')" for b
    using rt.erase_ok [OF wf h] by (simp_all add: cm'_def h)
  show "cm_map cm' a = (if EqRemote a key then None else cm_map cm a)" by (rule m)
  have "set_has b (unhealthy_guys cm) \<longleftrightarrow> (\<exists>p. cm_map cm b = Some p \<and> \<not> pc_IsHealthy p)"
    "\<And>x. cm_map cm b = Some x \<Longrightarrow> pc_inv x" for b using inv by (auto simp: cm_inv_def)
  then show "cm_inv cm'" unfolding cm_inv_def m(1) using m(2) by (auto simp: cm'_def set_has_erase)
qed

lemma prune_ok:
  assumes "cm_inv cm" "pos = size_array (cm_conns cm) \<or> pos \<in> hm_live (cm_conns cm)" "size_array (cm_conns cm) - pos < n"
    "\<forall>i \<in> hm_live (cm_conns cm). i < pos \<longrightarrow> set_has (it_key (hm_items (cm_conns cm) ! i)) remotes"
  shows "\<exists>cm'. Config_prune n remotes pos cm = Inr cm' \<and> cm_inv cm' \<and> hm_fresh (cm_conns cm') = hm_fresh (cm_conns cm)
    \<and> (\<forall>r. cm_map cm' r = (if set_has r remotes then cm_map cm r else None))"
  using assms
proof (induction n arbitrary: pos cm)
  case (Suc n)
  let ?h = "cm_conns cm"
  have k: "EqRemote a b \<Longrightarrow> set_has a remotes = set_has b remotes" for a b
    by (auto simp: set_has_def list_ex_iff EqRemote_def)
  show ?case
  proof (cases "pos = size_array ?h")
    case True
    have "cm_map cm r = None" if "\<not> set_has r remotes" for r
    proof -
      have "hm_wf EqRemote HashRemote ?h" using Suc.prems(1) by (simp add: cm_inv_def)
      then show ?thesis using Suc.prems(4) True k that by (auto simp: rt.map_None hm_live_def)
    qed
    then show ?thesis using True Suc.prems(1) by auto
  next
    case False
    then have live: "pos \<in> hm_live ?h" "pos < size_array ?h" using Suc.prems(2) by (auto simp: hm_live_def)
    let ?key = "it_key (hm_items ?h ! pos)"
    show ?thesis
    proof (cases "set_has ?key remotes")
      case True
      let ?q = "hm_Next ?h pos"
      have q: "pos < ?q" "?q \<le> size_array ?h" "?q = size_array ?h \<or> ?q \<in> hm_live ?h"
        "\<forall>i \<in> hm_live ?h. Suc pos \<le> i \<longrightarrow> ?q \<le> i"
        using iter_from_ok [of "Suc pos" ?h "size_array ?h - Suc pos"] live(2) by (auto simp: hm_Next_def)
      have "\<forall>i \<in> hm_live ?h. i < ?q \<longrightarrow> set_has (it_key (hm_items ?h ! i)) remotes"
        using q(4) True Suc.prems(4) by (metis Suc_leI linorder_neqE_nat not_le)
      then show ?thesis using Suc.IH [OF Suc.prems(1) q(3)] True False q(1) live(2) Suc.prems(3) by auto
    next
      case drop: False
      define c where "c = cm\<lparr>unhealthy_guys := set_erase ?key (unhealthy_guys cm),
                  cm_conns := fst (hm_Erase EqRemote HashRemote ?key ?h)\<rparr>"
      note st = prune_step [OF Suc.prems(1) live(1), folded c_def]
      let ?q = "hm_Next (cm_conns c) pos"
      have q: "pos < ?q" "?q \<le> size_array (cm_conns c)" "?q = size_array (cm_conns c) \<or> ?q \<in> hm_live (cm_conns c)"
        "\<forall>i \<in> hm_live (cm_conns c). Suc pos \<le> i \<longrightarrow> ?q \<le> i"
        using iter_from_ok [of "Suc pos" "cm_conns c" "size_array ?h - Suc pos"] live(2) st(4)
        by (auto simp: hm_Next_def)
      have keys: "\<forall>i \<in> hm_live (cm_conns c). i < ?q \<longrightarrow> set_has (it_key (hm_items (cm_conns c) ! i)) remotes"
      proof (intro ballI impI)
        fix i assume that: "i \<in> hm_live (cm_conns c)" "i < ?q"
        have i: "i \<in> hm_live ?h" "i \<noteq> pos" using that(1) unfolding st(3) by auto
        then have "i < pos" using q(4) that by (metis Suc_leI linorder_neqE_nat not_le)
        then show "set_has (it_key (hm_items (cm_conns c) ! i)) remotes" using Suc.prems(4) i st(5) [of i] by auto
      qed
      have fuel: "size_array (cm_conns c) - ?q < n" using q(1,2) st(4) live(2) Suc.prems(3) by linarith
      obtain cm' where cm': "Config_prune n remotes ?q c = Inr cm'" "cm_inv cm'"
        "hm_fresh (cm_conns cm') = hm_fresh (cm_conns c)"
        "\<forall>r. cm_map cm' r = (if set_has r remotes then cm_map c r else None)"
        using Suc.IH [OF st(1) q(3) fuel keys] by blast
      have "cm_map cm' r = (if set_has r remotes then cm_map cm r else None)" for r
        using cm'(4) st(2) [of r] drop k [of r ?key] by auto
      moreover have "Config_prune (Suc n) remotes pos cm = Config_prune n remotes ?q c"
        using drop False st(6) by (auto simp: c_def Let_def)
      ultimately show ?thesis using cm' st(7) by simp
    qed
  qed
qed simp

lemma prune_all:
  assumes "cm_inv cm"
  shows "\<exists>cm'. Config_prune (Suc (size_array (cm_conns cm))) remotes (hm_Begin (cm_conns cm)) cm = Inr cm' \<and> cm_inv cm'
    \<and> (\<forall>r. cm_map cm' r = (if set_has r remotes then cm_map cm r else None))"
proof -
  let ?h = "cm_conns cm"
  have b: "hm_Begin ?h = size_array ?h \<or> hm_Begin ?h \<in> hm_live ?h" "\<forall>i \<in> hm_live ?h. hm_Begin ?h \<le> i"
    using iter_from_ok [of 0 ?h "size_array ?h"] by (simp_all add: hm_Begin_def)
  have f: "size_array ?h - hm_Begin ?h < Suc (size_array ?h)" by simp
  have "\<forall>i \<in> hm_live ?h. i < hm_Begin ?h \<longrightarrow> set_has (it_key (hm_items ?h ! i)) remotes"
    using b(2) by (meson not_le)
  from prune_ok [OF assms b(1) f this] show ?thesis by blast
qed

lemma ConfigRemotes_ok:
  assumes "cm_inv cm" "ConfigRemotes remotes cm = Inr cm'"
  shows "cm_inv cm'" "cm_map cm' r \<noteq> None \<longleftrightarrow> set_has r remotes"
    "cm_map cm r = Some p \<Longrightarrow> set_has r remotes \<Longrightarrow> \<exists>n. cm_map cm' r = Some (SetNumLongConnsPerRemote n p)"
proof -
  obtain cm1 where c: "ofold Config_add remotes cm = Inr cm1"
    "Config_prune (Suc (size_array (cm_conns cm1))) remotes (hm_Begin (cm_conns cm1)) cm1 = Inr cm'"
    using assms(2) by (auto simp: ConfigRemotes_def obind_Inr_iff)
  note a = Config_adds_ok [OF assms(1) c(1)]
  have cm': "cm_inv cm'" "cm_map cm' r = (if set_has r remotes then cm_map cm1 r else None)" for r
    using prune_all [of cm1 remotes] a c(2) by auto
  show "cm_inv cm'" by (rule cm')
  show "cm_map cm' r \<noteq> None \<longleftrightarrow> set_has r remotes" using cm'(2) [of r] a by auto
  show "cm_map cm r = Some p \<Longrightarrow> set_has r remotes \<Longrightarrow> \<exists>n. cm_map cm' r = Some (SetNumLongConnsPerRemote n p)"
    using cm'(2) [of r] a by simp
qed

lemma ConfigRemotes_accepts:
  assumes "cm_inv cm" "length remotes \<le> card (hm_fresh (cm_conns cm))"
  shows "\<exists>cm'. ConfigRemotes remotes cm = Inr cm'"
proof -
  obtain cm1 where c: "ofold Config_add remotes cm = Inr cm1" using Config_adds_accept [OF assms] by blast
  then have "cm_inv cm1" using Config_adds_ok [OF assms(1) c] by blast
  from prune_all [OF this, of remotes] show ?thesis using c by (auto simp: ConfigRemotes_def)
qed

lemma ConnsMgr_new_ok:
  assumes "ConnsMgr_new keepalive blank = Some cm"
  shows "cm_inv cm" "cm_map cm = Map.empty" "card (hm_fresh (cm_conns cm)) = 100000" "unhealthy_guys cm = []"
proof -
  obtain h where h: "hm_Init 100000 blank = Some h" "cm = \<lparr>cm_keepalive_sec = keepalive, cm_conns = h,
     unhealthy_guys = [], tmp_remotes = [], tmp_weights = []\<rparr>"
    using assms by (auto simp: ConnsMgr_new_def kNumRemotes_def)
  note i = hm_Init_wf [OF h(1) kPrimes_coprime_100000]
  show "cm_inv cm" "cm_map cm = Map.empty" "unhealthy_guys cm = []" using i h(2) by (simp_all add: cm_inv_def set_has_def)
  have "hm_fresh h = {..<100000}" using i(3,4) by (auto simp: hm_fresh_def)
  then show "card (hm_fresh (cm_conns cm)) = 100000" using h(2) by simp
qed

lemma ConnsMgr_new_ex: "\<exists>cm. ConnsMgr_new keepalive blank = Some cm"
  using hm_Init_100000 [of blank] by (auto simp: ConnsMgr_new_def kNumRemotes_def)

section \<open>Reachable states\<close>

inductive cm_reach :: "conns_mgr \<Rightarrow> bool" where
  cm_new: "ConnsMgr_new keepalive blank = Some cm \<Longrightarrow> cm_reach cm"
| cm_config: "cm_reach cm \<Longrightarrow> ConfigRemotes remotes cm = Inr cm' \<Longrightarrow> cm_reach cm'"
| cm_get: "cm_reach cm \<Longrightarrow> cm_GetFd env svc fails cm = Inr (cm', q, res, cl) \<Longrightarrow> cm_reach cm'"
| cm_free: "cm_reach cm \<Longrightarrow> 0 < f \<Longrightarrow> cm_FreeFd env r f cm = Inr (cm', cl) \<Longrightarrow> cm_reach cm'"
| cm_report: "cm_reach cm \<Longrightarrow> cm_reach (cm_ReportStatus r status cm)"

lemma cm_reach_inv: "cm_reach cm \<Longrightarrow> cm_inv cm"
proof (induction rule: cm_reach.induct)
  case (cm_free cm f env r cm' cl)
  then show ?case using cm_FreeFd_inv [of cm f env r] by auto
qed (auto intro: ConnsMgr_new_ok(1) ConfigRemotes_ok(1) cm_GetFd_inv cm_ReportStatus_inv)

section \<open>The choice by weight\<close>

lemma pick_weight_iff:
  assumes "0 \<le> acc" "acc \<le> r" "acc + int (sum_list ws) < 2 ^ 31"
  shows "pick_weight ws acc r = Some i \<longleftrightarrow>
    i < length ws \<and> acc + int (sum_list (take i ws)) \<le> r \<and> r < acc + int (sum_list (take (Suc i) ws))"
  using assms
proof (induction ws arbitrary: acc i)
  case (Cons w ws)
  have t: "to_int32 (acc + int w) = acc + int w" using Cons.prems by (intro to_int32_small) auto
  show ?case
  proof (cases "acc + int w > r")
    case True
    have "\<not> acc + int (sum_list (take i (w # ws))) \<le> r" if "i \<noteq> 0" using that True by (cases i) auto
    then show ?thesis using True t Cons.prems by (cases i) auto
  next
    case False
    have p: "pick_weight (w # ws) acc r = map_option Suc (pick_weight ws (acc + int w) r)" using False t by simp
    have ih: "pick_weight ws (acc + int w) r = Some j \<longleftrightarrow> j < length ws
      \<and> acc + int w + int (sum_list (take j ws)) \<le> r \<and> r < acc + int w + int (sum_list (take (Suc j) ws))" for j
      by (rule Cons.IH) (use Cons.prems False in auto)
    show ?thesis
    proof (cases i)
      case 0
      then show ?thesis using p False by simp
    next
      case (Suc j)
      then show ?thesis unfolding p using ih [of j] by (simp add: add.assoc)
    qed
  qed
qed simp

lemma sum_take_Suc: "i < length ws \<Longrightarrow> sum_list (take (Suc i) ws) = sum_list (take i ws) + ws ! i"
  by (simp add: take_Suc_conv_app_nth)

lemma sum_take_le: "sum_list (take i ws) \<le> sum_list (ws :: nat list)"
  by (metis append_take_drop_id le_add1 sum_list_append)

lemma pick_weight_card:
  assumes "sum_list ws < 2 ^ 31" "i < length ws"
  shows "card {n. n < sum_list ws \<and> pick_weight ws 0 (int n) = Some i} = ws ! i"
proof -
  define a b where "a = sum_list (take i ws)" and "b = sum_list (take (Suc i) ws)"
  have "pick_weight ws 0 (int n) = Some i \<longleftrightarrow> a \<le> n \<and> n < b" for n
    using pick_weight_iff [of 0 "int n" ws i] assms by (simp add: a_def b_def del: take_Suc)
  moreover have "b \<le> sum_list ws" unfolding b_def by (rule sum_take_le)
  ultimately have "n < sum_list ws \<and> pick_weight ws 0 (int n) = Some i \<longleftrightarrow> n \<in> {a..<b}" for n
    by (metis atLeastLessThan_iff less_le_trans)
  then have "{n. n < sum_list ws \<and> pick_weight ws 0 (int n) = Some i} = {a..<b}" by blast
  then show ?thesis using sum_take_Suc [OF assms(2)] by (simp add: a_def b_def)
qed

lemma pick_weight_some:
  assumes "n < sum_list ws" "sum_list ws < 2 ^ 31"
  shows "\<exists>i < length ws. pick_weight ws 0 (int n) = Some i"
proof -
  have "\<exists>i < length ws. sum_list (take i ws) \<le> n \<and> n < sum_list (take (Suc i) ws)"
    using assms(1)
  proof (induction ws rule: rev_induct)
    case (snoc w ws)
    show ?case
    proof (cases "n < sum_list ws")
      case True
      then obtain i where "i < length ws" "sum_list (take i ws) \<le> n" "n < sum_list (take (Suc i) ws)"
        using snoc.IH by blast
      then show ?thesis by (intro exI [of _ i]) (simp add: Suc_le_eq)
    next
      case False
      then show ?thesis using snoc.prems by (intro exI [of _ "length ws"]) simp
    qed
  qed simp
  then show ?thesis using pick_weight_iff [of 0 "int n" ws] assms by auto
qed

lemma pick_weight_length: "pick_weight ws acc r = Some i \<Longrightarrow> i < length ws"
  by (induction ws acc r arbitrary: i rule: pick_weight.induct) (auto simp: Let_def split: if_splits)

lemma GetRemoteWeight_healthy:
  assumes "unhealthy_guys cm = []" "0 < sv_weight_all svc" "sv_weight_all svc < 2 ^ 31"
  shows "GetRemoteWeight env svc fails cm = Inr (cm, map_option (\<lambda>i. RpConf (sv_remotes svc ! i))
    (pick_weight (map rm_weight (sv_remotes svc)) 0 (int (ce_rand env mod sv_weight_all svc))))"
proof -
  have "ce_rand env mod sv_weight_all svc < sv_weight_all svc" using assms(2) by simp
  then have "to_int32 (int (ce_rand env mod sv_weight_all svc)) = int (ce_rand env mod sv_weight_all svc)"
    using assms(3) by (intro to_int32_small) auto
  then show ?thesis using assms by (simp add: GetRemoteWeight_def)
qed

text \<open>After a failure was reported for a remote with a pool, the set is not empty.\<close>

lemma report_failure_unhealthy:
  assumes inv: "cm_inv cm" and p: "cm_map cm r \<noteq> None"
  shows "unhealthy_guys (cm_ReportStatus r False cm) \<noteq> []"
proof -
  obtain q where q: "cm_map cm r = Some q" using p by blast
  have qi: "pc_inv q" using inv q by (auto simp: cm_inv_def)
  let ?q = "pc_ReportStatus False q"
  have bad: "\<not> pc_IsHealthy ?q" using qi by (auto simp: pc_IsHealthy_def pc_ReportStatus_def pc_inv_def kFullMarkHealth_def)
  note s = set_pool_ok(2) [OF inv q, of ?q]
  have "cm_map (cm_ReportStatus r False cm) r = Some ?q"
    using q s [of r] by (simp add: cm_ReportStatus_def cm_Get_map inv Let_def)
  then have "set_has r (unhealthy_guys (cm_ReportStatus r False cm))"
    using cm_ReportStatus_inv [OF inv, of r False] bad by (auto simp: cm_inv_def)
  then show ?thesis by (auto simp: set_has_def)
qed

lemma GetRemoteWeight_avoids:
  assumes u: "unhealthy_guys cm \<noteq> []" and g: "\<exists>x \<in> set (sv_remotes svc). \<not> FailedBefore x fails"
    and r: "GetRemoteWeight env svc fails cm = Inr (cm', Some q)"
  shows "\<exists>i. q = RpTmp i \<and> i < length (tmp_remotes cm') \<and> \<not> FailedBefore (tmp_remotes cm' ! i) fails"
proof -
  let ?tmp = "filter (\<lambda>r. \<not> FailedBefore r fails) (sv_remotes svc)"
  have ne: "?tmp \<noteq> []" using g by (auto simp: filter_empty_conv)
  obtain ws where ws: "tmp_weights_of cm ?tmp = Inr ws" "length ws = length ?tmp"
  proof -
    have len: "tmp_weights_of cm rs = Inr ws \<Longrightarrow> length ws = length rs" for rs ws
      by (induction rs arbitrary: ws) (auto simp: obind_Inr_iff split: option.splits)
    obtain ws where "tmp_weights_of cm ?tmp = Inr ws"
      using r u by (auto simp: GetRemoteWeight_def obind_Inr_iff Let_def)
    then show ?thesis using that len by blast
  qed
  have wn: "ws \<noteq> []" using ws(2) ne by auto
  obtain i where i: "pick_weight ws 0 (to_int32 (int (ce_rand env mod (sum_list ws mod 2 ^ 64)))) = Some i" "q = RpTmp i"
    "cm' = cm\<lparr>tmp_remotes := ?tmp, tmp_weights := ws\<rparr>"
    using r u ws(1) wn by (auto simp: GetRemoteWeight_def Let_def split: if_splits)
  have "i < length ?tmp" using pick_weight_length [OF i(1)] ws(2) by simp
  moreover from nth_mem [OF this] have "\<not> FailedBefore (?tmp ! i) fails" by auto
  ultimately show ?thesis using i by simp
qed

section \<open>Properties\<close>

text \<open>C10. In every state the manager can get into, the set of unhealthy remotes is exactly the
  set of remotes whose pool has lost marks, and every mark is between 1 and 100. The set is
  what the choice of a remote looks at, the marks are what the reports change.\<close>

theorem conns_unhealthy_exact:
  assumes "cm_reach cm"
  shows "(\<not> IsHealthy cm r \<longleftrightarrow> (\<exists>p. cm_Get cm r = Some p \<and> health_mark p < kFullMarkHealth))
    \<and> (\<forall>p. cm_Get cm r = Some p \<longrightarrow> 1 \<le> health_mark p \<and> health_mark p \<le> kFullMarkHealth)"
proof -
  note inv = cm_reach_inv [OF assms]
  have p: "1 \<le> health_mark p \<and> health_mark p \<le> kFullMarkHealth" if "cm_map cm r = Some p" for p
    using inv that by (auto simp: cm_inv_def pc_inv_def)
  have "\<not> IsHealthy cm r \<longleftrightarrow> set_has r (unhealthy_guys cm)"
    unfolding IsHealthy_def set_has_def list_ex_iff using EqRemote_sym by blast
  also have "\<dots> \<longleftrightarrow> (\<exists>p. cm_map cm r = Some p \<and> \<not> pc_IsHealthy p)" using inv by (simp add: cm_inv_def)
  also have "\<dots> \<longleftrightarrow> (\<exists>p. cm_map cm r = Some p \<and> health_mark p < kFullMarkHealth)"
    using p by (fastforce simp: pc_IsHealthy_def)
  finally show ?thesis using p by (simp add: cm_Get_map [OF inv])
qed

lemma demo_mgr:
  "\<exists>cm cm'. ConnsMgr_new 10 (demo_remote, demo_pool) = Some cm \<and> ConfigRemotes [demo_remote] cm = Inr cm'
    \<and> cm_reach cm \<and> cm_reach cm' \<and> cm_Get cm' demo_remote \<noteq> None"
proof -
  obtain cm where cm: "ConnsMgr_new 10 (demo_remote, demo_pool) = Some cm" using ConnsMgr_new_ex by blast
  note n = ConnsMgr_new_ok [OF cm]
  obtain cm' where cm': "ConfigRemotes [demo_remote] cm = Inr cm'"
    using ConfigRemotes_accepts [OF n(1), of "[demo_remote]"] n(3) by auto
  have r: "cm_reach cm" "cm_reach cm'" using cm cm' by (blast intro: cm_reach.intros)+
  have "cm_map cm' demo_remote \<noteq> None"
    unfolding ConfigRemotes_ok(2) [OF n(1) cm'] by (simp add: set_has_def)
  then show ?thesis using cm cm' r cm_Get_map [OF cm_reach_inv [OF r(2)]] by auto
qed

theorem conns_unhealthy_exact_witness:
  "\<exists>cm. cm_reach cm \<and> \<not> IsHealthy cm demo_remote \<and> (\<exists>p. cm_Get cm demo_remote = Some p \<and> health_mark p < kFullMarkHealth)"
proof -
  obtain cm where cm: "cm_reach cm" "cm_Get cm demo_remote \<noteq> None" using demo_mgr by blast
  let ?cm = "cm_ReportStatus demo_remote False cm"
  have inv: "cm_inv cm" and r: "cm_reach ?cm" using cm(1) by (auto intro: cm_reach_inv cm_report)
  obtain p where p: "cm_map cm demo_remote = Some p" using cm(2) cm_Get_map [OF inv] by auto
  note s = set_pool_ok(2) [OF inv p, of "pc_ReportStatus False p" demo_remote]
  have "cm_map ?cm demo_remote = Some (pc_ReportStatus False p)"
    using p s by (simp add: cm_ReportStatus_def cm_Get_map inv Let_def)
  moreover have "health_mark p \<le> kFullMarkHealth" using inv p by (auto simp: cm_inv_def pc_inv_def)
  then have "health_mark (pc_ReportStatus False p) < kFullMarkHealth" by (auto simp: pc_ReportStatus_def kFullMarkHealth_def)
  ultimately have "\<exists>p. cm_Get ?cm demo_remote = Some p \<and> health_mark p < kFullMarkHealth"
    by (simp add: cm_Get_map [OF cm_reach_inv [OF r]])
  then show ?thesis using r conns_unhealthy_exact [OF r, of demo_remote] by blast
qed

text \<open>C28. While all remotes are healthy, the choice by weight always finds a remote of the
  service, and of the residues a random number can have, each remote gets as many as its
  weight. The sum of the weights must fit the \<^verbatim>\<open>int\<close> the code adds them up in.\<close>

theorem conns_weight_proportional:
  assumes "unhealthy_guys cm = []" "sv_weight_all svc = sum_list (map rm_weight (sv_remotes svc))"
    "0 < sv_weight_all svc" "sv_weight_all svc < 2 ^ 31"
  shows "(\<exists>i < length (sv_remotes svc). GetRemoteWeight env svc fails cm = Inr (cm, Some (RpConf (sv_remotes svc ! i))))
    \<and> (distinct (sv_remotes svc) \<longrightarrow> (\<forall>i. i < length (sv_remotes svc) \<longrightarrow>
      card {n. n < sv_weight_all svc \<and> GetRemoteWeight (env\<lparr>ce_rand := n\<rparr>) svc fails cm = Inr (cm, Some (RpConf (sv_remotes svc ! i)))}
        = rm_weight (sv_remotes svc ! i)))"
proof (intro conjI impI allI)
  let ?ws = "map rm_weight (sv_remotes svc)"
  note h = GetRemoteWeight_healthy [OF assms(1,3,4)]
  have "ce_rand env mod sv_weight_all svc < sum_list ?ws" using assms(2,3) by simp
  from pick_weight_some [OF this] assms(2,4)
  show "\<exists>i < length (sv_remotes svc). GetRemoteWeight env svc fails cm = Inr (cm, Some (RpConf (sv_remotes svc ! i)))"
    by (auto simp: h)
  fix i assume d: "distinct (sv_remotes svc)" and i: "i < length (sv_remotes svc)"
  have "GetRemoteWeight (env\<lparr>ce_rand := n\<rparr>) svc fails cm = Inr (cm, Some (RpConf (sv_remotes svc ! i)))
    \<longleftrightarrow> pick_weight ?ws 0 (int n) = Some i" if "n < sv_weight_all svc" for n
    using d i that pick_weight_length [of ?ws 0 "int n"] by (auto simp: h nth_eq_iff_index_eq)
  then have "{n. n < sv_weight_all svc \<and> GetRemoteWeight (env\<lparr>ce_rand := n\<rparr>) svc fails cm = Inr (cm, Some (RpConf (sv_remotes svc ! i)))}
    = {n. n < sum_list ?ws \<and> pick_weight ?ws 0 (int n) = Some i}" using assms(2) by auto
  then show "card {n. n < sv_weight_all svc \<and> GetRemoteWeight (env\<lparr>ce_rand := n\<rparr>) svc fails cm = Inr (cm, Some (RpConf (sv_remotes svc ! i)))}
        = rm_weight (sv_remotes svc ! i)"
    using pick_weight_card [of ?ws i] assms(2,4) i by simp
qed

definition demo_service :: service where
  "demo_service = \<lparr>sv_no = 0, sv_name = ''s'', sv_category = PcRapid, sv_strategy = SsWeight,
     sv_remotes = [demo_remote, demo_remote\<lparr>rm_addr := (rm_addr demo_remote)\<lparr>sin_port := 81\<rparr>, rm_weight := 5\<rparr>],
     sv_weight_all = 8, sv_retry = 1\<rparr>"

lemma demo_service_facts:
  "sv_weight_all demo_service = sum_list (map rm_weight (sv_remotes demo_service))"
  "distinct (sv_remotes demo_service)" "length (sv_remotes demo_service) = 2"
  "rm_weight (sv_remotes demo_service ! 1) = 5" "sv_weight_all demo_service = 8" "sv_strategy demo_service = SsWeight"
  by (simp_all add: demo_service_def demo_remote_def)

theorem conns_weight_proportional_witness:
  "\<exists>cm. ConnsMgr_new 10 (demo_remote, demo_pool) = Some cm
    \<and> card {n. n < 8 \<and> GetRemoteWeight ((demo_env 0 (\<lambda>_. True) [] 0)\<lparr>ce_rand := n\<rparr>) demo_service [] cm
        = Inr (cm, Some (RpConf (sv_remotes demo_service ! 1)))} = 5"
proof -
  obtain cm where cm: "ConnsMgr_new 10 (demo_remote, demo_pool) = Some cm" using ConnsMgr_new_ex by blast
  show ?thesis
    using conns_weight_proportional [OF ConnsMgr_new_ok(4) [OF cm] demo_service_facts(1), of
        "demo_env 0 (\<lambda>_. True) [] 0" "[]"] cm demo_service_facts by simp
qed

text \<open>C9. A retry stays away from what failed: after the failure of a remote was reported, the
  choice by weight among the remotes of the service never returns to a remote of the list of
  failures, as long as the service has another one.\<close>

theorem conns_retry_avoids_failed:
  assumes "cm_reach cm" "cm_Get cm r \<noteq> None" "sv_strategy svc = SsWeight"
    "\<exists>x \<in> set (sv_remotes svc). \<not> FailedBefore x (fails @ [r])"
    "cm_GetFd env svc (fails @ [r]) (cm_ReportStatus r False cm) = Inr (cm', q, res, cl)"
  shows "\<exists>x. cm_deref cm' q = Inr x \<and> \<not> FailedBefore x (fails @ [r])"
proof -
  note inv = cm_reach_inv [OF assms(1)]
  from cm_GetFd_cases [OF assms(5)] obtain cm1 x where g:
    "GetRemote env svc (fails @ [r]) (cm_ReportStatus r False cm) = Inr (cm1, Some q)" "cm_deref cm1 q = Inr x"
    "cm_GetFd1 env x cm1 = Inr (cm', res, cl)" by metis
  have u: "unhealthy_guys (cm_ReportStatus r False cm) \<noteq> []"
    using report_failure_unhealthy [OF inv] assms(2) cm_Get_map [OF inv] by simp
  obtain i where i: "q = RpTmp i" "i < length (tmp_remotes cm1)" "\<not> FailedBefore (tmp_remotes cm1 ! i) (fails @ [r])"
  proof -
    have "GetRemoteWeight env svc (fails @ [r]) (cm_ReportStatus r False cm) = Inr (cm1, Some q)"
      using g(1) assms(3) by (simp add: GetRemote_def)
    from GetRemoteWeight_avoids [OF u assms(4) this] show ?thesis using that by blast
  qed
  have "cm_inv cm1" using GetRemote_inv [OF cm_ReportStatus_inv [OF inv] g(1)] .
  from cm_GetFd1_inv(2) [OF this g(3)] show ?thesis using i by (auto simp: cm_deref_def)
qed

text \<open>The second remote of the service is left, and the manager gets a connection to it.\<close>

lemma demo_retry:
  fixes cm :: conns_mgr
  defines "env \<equiv> demo_env 0 (\<lambda>_. True) [(7, 0, 0)] 3" and "other \<equiv> sv_remotes demo_service ! 1"
  assumes inv: "cm_inv cm" and u: "unhealthy_guys cm \<noteq> []" and p: "cm_map cm other = Some p"
  shows "\<exists>cm' q res cl. cm_GetFd env demo_service ([] @ [demo_remote]) cm = Inr (cm', q, res, cl)"
proof -
  have pm: "1 \<le> health_mark p" "health_mark p \<le> 100" using inv p by (auto simp: cm_inv_def pc_inv_def kFullMarkHealth_def)
  let ?w = "5 * health_mark p"
  have o: "other = demo_remote\<lparr>rm_addr := (rm_addr demo_remote)\<lparr>sin_port := 81\<rparr>, rm_weight := 5\<rparr>"
    by (simp add: other_def demo_service_def)
  have tmp: "filter (\<lambda>r. \<not> FailedBefore r ([] @ [demo_remote])) (sv_remotes demo_service) = [other]"
    by (simp add: o demo_service_def FailedBefore_def EqRemote_def demo_remote_def)
  have ws: "tmp_weights_of cm [other] = Inr [?w]"
    using p pm by (simp add: cm_Get_map [OF inv] o)
  have "3 mod ?w < ?w" "?w < 2 ^ 31" using pm by auto
  then obtain i where "pick_weight [?w] 0 (int (3 mod ?w)) = Some i" "i < 1"
    using pick_weight_some [of "3 mod ?w" "[?w]"] by auto
  then have pk: "pick_weight [?w] 0 (int (3 mod ?w)) = Some 0" by simp
  have t: "to_int32 (int (3 mod ?w)) = int (3 mod ?w)" using pm by (intro to_int32_small) auto
  let ?cm = "cm\<lparr>tmp_remotes := [other], tmp_weights := [?w]\<rparr>"
  have "GetRemote env demo_service ([] @ [demo_remote]) cm = Inr (?cm, Some (RpTmp 0))"
    using u ws pk t pm unfolding GetRemote_def GetRemoteWeight_def tmp Let_def
    by (simp add: demo_service_facts env_def demo_env_def)
  moreover have "\<exists>r. cm_GetFd1 env other ?cm = Inr r"
    using p inv by (auto simp: cm_GetFd1_def cm_Get_map pc_Get_def env_def demo_env_def)
  ultimately show ?thesis by (auto simp: cm_GetFd_def cm_deref_def)
qed

theorem conns_retry_avoids_failed_witness:
  "\<exists>cm cm' q res cl x. cm_GetFd (demo_env 0 (\<lambda>_. True) [(7, 0, 0)] 3) demo_service ([] @ [demo_remote])
      (cm_ReportStatus demo_remote False cm) = Inr (cm', q, res, cl)
    \<and> cm_deref cm' q = Inr x \<and> \<not> FailedBefore x [demo_remote]"
proof -
  let ?rs = "sv_remotes demo_service"
  obtain cm0 where cm0: "ConnsMgr_new 10 (demo_remote, demo_pool) = Some cm0" using ConnsMgr_new_ex by blast
  note n = ConnsMgr_new_ok [OF cm0]
  obtain cm where cm: "ConfigRemotes ?rs cm0 = Inr cm"
    using ConfigRemotes_accepts [OF n(1), of ?rs] n(3) demo_service_facts(3) by auto
  have r: "cm_reach cm" using cm0 cm by (blast intro: cm_reach.intros)
  note inv = cm_reach_inv [OF r]
  have has: "set_has demo_remote ?rs" "set_has (?rs ! 1) ?rs" by (simp_all add: set_has_def demo_service_def)
  then have m: "cm_map cm demo_remote \<noteq> None" "cm_map cm (?rs ! 1) \<noteq> None"
    using ConfigRemotes_ok(2) [OF n(1) cm] by blast+
  let ?cm = "cm_ReportStatus demo_remote False cm"
  obtain a b where ab: "cm_map cm demo_remote = Some a" "cm_map cm (?rs ! 1) = Some b" using m by blast
  have ne: "\<not> EqRemote (?rs ! 1) demo_remote" by (simp add: demo_service_def EqRemote_def demo_remote_def)
  have "cm_map ?cm (?rs ! 1) = Some b"
    using ab ne set_pool_ok(2) [OF inv ab(1), of "pc_ReportStatus False a" "?rs ! 1"]
    by (simp add: cm_ReportStatus_def cm_Get_map inv Let_def)
  from demo_retry [OF cm_ReportStatus_inv [OF inv] report_failure_unhealthy [OF inv m(1)] this]
  obtain cm' q res cl where g: "cm_GetFd (demo_env 0 (\<lambda>_. True) [(7, 0, 0)] 3) demo_service ([] @ [demo_remote]) ?cm = Inr (cm', q, res, cl)"
    by blast
  have "\<exists>x \<in> set ?rs. \<not> FailedBefore x ([] @ [demo_remote])"
    by (simp add: demo_service_def FailedBefore_def EqRemote_def demo_remote_def)
  from conns_retry_avoids_failed [OF r _ demo_service_facts(6) this g] m(1)
  obtain x where "cm_deref cm' q = Inr x" "\<not> FailedBefore x [demo_remote]" using cm_Get_map [OF inv] by auto
  with g show ?thesis by blast
qed

text \<open>C27. After a configuration the table holds a pool for exactly the configured remotes, and
  a remote that stays configured keeps its pool: the idle connections and the marks, with
  only the number of connections to keep changed. The call returns as long as the table has a
  fresh slot per remote; a new manager has 100000.\<close>

theorem conns_ConfigRemotes_exact:
  assumes "cm_reach cm" "length remotes \<le> card (hm_fresh (cm_conns cm))"
  shows "\<exists>cm'. ConfigRemotes remotes cm = Inr cm'
    \<and> (\<forall>r. cm_Get cm' r \<noteq> None \<longleftrightarrow> set_has r remotes)
    \<and> (\<forall>r p. cm_Get cm r = Some p \<and> set_has r remotes \<longrightarrow> (\<exists>n. cm_Get cm' r = Some (SetNumLongConnsPerRemote n p)))"
proof -
  note inv = cm_reach_inv [OF assms(1)]
  obtain cm' where c: "ConfigRemotes remotes cm = Inr cm'" using ConfigRemotes_accepts [OF inv assms(2)] by blast
  note ok = ConfigRemotes_ok [OF inv c]
  show ?thesis using c ok(2,3) by (auto simp: cm_Get_map [OF inv] cm_Get_map [OF ok(1)])
qed

theorem conns_ConfigRemotes_exact_witness:
  "\<exists>cm cm'. ConnsMgr_new 10 (demo_remote, demo_pool) = Some cm \<and> ConfigRemotes [demo_remote] cm = Inr cm'
    \<and> cm_Get cm' demo_remote \<noteq> None \<and> cm_Get cm' (sv_remotes demo_service ! 1) = None"
proof -
  obtain cm where cm: "ConnsMgr_new 10 (demo_remote, demo_pool) = Some cm" using ConnsMgr_new_ex by blast
  have "length [demo_remote] \<le> card (hm_fresh (cm_conns cm))" using ConnsMgr_new_ok(3) [OF cm] by simp
  moreover have "set_has demo_remote [demo_remote]" "\<not> set_has (sv_remotes demo_service ! 1) [demo_remote]"
    by (simp_all add: set_has_def demo_service_def EqRemote_def demo_remote_def)
  ultimately show ?thesis using conns_ConfigRemotes_exact [OF cm_new [OF cm], of "[demo_remote]"] cm by blast
qed

text \<open>An erased slot of the table is used again only for the very key it held at its home
  position: a table that is empty can refuse an insertion.\<close>

theorem hashmap_empty_refuses:
  "\<exists>h :: (remote, nat) close_hashmap. hm_Init 1 (demo_remote, 0) = Some h
    \<and> (let h' = fst (hm_Erase EqRemote HashRemote demo_remote (fst (hm_Insert EqRemote HashRemote demo_remote 0 h)))
        in num_elm h' = 0 \<and> hm_Insert EqRemote HashRemote (sv_remotes demo_service ! 1) 0 h' = (h', False))"
  by (simp add: hm_Init_def kPrimes_def hm_Insert_def hm_Erase_def hm_GetItem_def EqRemote_def demo_service_def
    demo_remote_def Let_def)

end
