(* ===== verification/Json_Val.thy ===== *)
theory Json_Val
  imports Mag_Prelude
begin

text \<open>
  The configuration values of \<^verbatim>\<open>deps/public-cpp/include/public-cpp/jsontype/jsontype.h\<close>: the
  tests, the accessors, the comparisons and the index operators that are defined in the
  header. Values are shared by counted references there; as no two holders see each other's
  writes (\<^verbatim>\<open>Normalize_\<close> copies a shared value before it is changed), they are plain values
  here. A dictionary is the list of its entries in the order of its iterator. Parsing is in
  the binary library and not modelled: configurations are arguments.
\<close>

datatype json = JNull | JBool bool | JInt int | JDouble u64 | JStr string | JList "json list"
  | JDict "(string \<times> json) list"

definition IsInt :: "json \<Rightarrow> bool" where "IsInt j = (case j of JInt _ \<Rightarrow> True | _ \<Rightarrow> False)"
definition IsStr :: "json \<Rightarrow> bool" where "IsStr j = (case j of JStr _ \<Rightarrow> True | _ \<Rightarrow> False)"
definition IsList :: "json \<Rightarrow> bool" where "IsList j = (case j of JList _ \<Rightarrow> True | _ \<Rightarrow> False)"
definition IsDict :: "json \<Rightarrow> bool" where "IsDict j = (case j of JDict _ \<Rightarrow> True | _ \<Rightarrow> False)"

text \<open>The accessors are only called behind the matching test.\<close>

definition AsInt :: "json \<Rightarrow> int" where "AsInt j = (case j of JInt i \<Rightarrow> i | _ \<Rightarrow> 0)"
definition AsStr :: "json \<Rightarrow> string" where "AsStr j = (case j of JStr s \<Rightarrow> s | _ \<Rightarrow> [])"
definition AsList :: "json \<Rightarrow> json list" where "AsList j = (case j of JList l \<Rightarrow> l | _ \<Rightarrow> [])"
definition AsDict :: "json \<Rightarrow> (string \<times> json) list" where "AsDict j = (case j of JDict d \<Rightarrow> d | _ \<Rightarrow> [])"

definition json_Size :: "json \<Rightarrow> nat" where
  "json_Size j = (case j of JNull \<Rightarrow> 0 | JBool _ \<Rightarrow> 1 | JInt _ \<Rightarrow> 1 | JDouble _ \<Rightarrow> 1 | JStr _ \<Rightarrow> 1
     | JList l \<Rightarrow> length l | JDict d \<Rightarrow> length d)"

definition json_eq_bool :: "json \<Rightarrow> bool \<Rightarrow> bool" where
  "json_eq_bool j b \<longleftrightarrow> (case j of JBool c \<Rightarrow> b = c | _ \<Rightarrow> False)"

definition json_eq_int :: "json \<Rightarrow> int \<Rightarrow> bool" where
  "json_eq_int j i \<longleftrightarrow> (case j of JInt k \<Rightarrow> i = k | _ \<Rightarrow> False)"

definition json_eq_int32 :: "json \<Rightarrow> 32 word \<Rightarrow> bool" where
  "json_eq_int32 j i \<longleftrightarrow> json_eq_int j (sint i)"

text \<open>Strings are compared by \<^verbatim>\<open>strcmp\<close>, up to the first null character.\<close>

definition c_str :: "string \<Rightarrow> string" where
  "c_str s = takeWhile (\<lambda>c. c \<noteq> CHR 0x00) s"

definition json_eq_str :: "json \<Rightarrow> string \<Rightarrow> bool" where
  "json_eq_str j s \<longleftrightarrow> (case j of JStr t \<Rightarrow> c_str s = c_str t | _ \<Rightarrow> False)"

text \<open>The constant index operators: a missing element is the null value.\<close>

definition json_nth :: "json \<Rightarrow> nat \<Rightarrow> json" where
  "json_nth j i = (case j of JList l \<Rightarrow> if length l \<le> i then JNull else l ! i | _ \<Rightarrow> JNull)"

definition json_get :: "json \<Rightarrow> string \<Rightarrow> json" where
  "json_get j key = (case j of JDict d \<Rightarrow> (case map_of d key of Some v \<Rightarrow> v | None \<Rightarrow> JNull) | _ \<Rightarrow> JNull)"

text \<open>The other index operators return a place to write to. They turn the value into a list
  or a dictionary and extend it, a list by nulls, a dictionary by an empty dictionary;
  the second component is the value at the place.\<close>

definition json_at :: "json \<Rightarrow> nat \<Rightarrow> json \<times> json" where
  "json_at j i =
     (let l = (case j of JList l \<Rightarrow> l | _ \<Rightarrow> []);
          l' = (if length l \<le> i then l @ replicate (i + 1 - length l) JNull else l)
      in (JList l', l' ! i))"

definition json_at_key :: "json \<Rightarrow> string \<Rightarrow> json \<times> json" where
  "json_at_key j key =
     (let d = (case j of JDict d \<Rightarrow> d | _ \<Rightarrow> [])
      in case map_of d key of Some v \<Rightarrow> (JDict d, v) | None \<Rightarrow> (JDict (d @ [(key, JDict [])]), JDict []))"

lemma IsInt_iff: "IsInt j \<longleftrightarrow> (\<exists>i. j = JInt i)"
  by (cases j) (simp_all add: IsInt_def)

lemma IsStr_iff: "IsStr j \<longleftrightarrow> (\<exists>s. j = JStr s)"
  by (cases j) (simp_all add: IsStr_def)

lemma json_simps [simp]: "AsInt (JInt i) = i" "AsStr (JStr s) = s" "AsList (JList l) = l" "AsDict (JDict d) = d"
  by (simp_all add: AsInt_def AsStr_def AsList_def AsDict_def)

text \<open>On strings without null characters the comparison is equality.\<close>

lemma c_str_id: "CHR 0x00 \<notin> set s \<Longrightarrow> c_str s = s"
  unfolding c_str_def by (induction s) auto

lemma json_eq_str_iff: "CHR 0x00 \<notin> set s \<Longrightarrow> CHR 0x00 \<notin> set t \<Longrightarrow> json_eq_str (JStr t) s \<longleftrightarrow> s = t"
  by (simp add: json_eq_str_def c_str_id)

text \<open>What the extending operators leave is found by the constant ones.\<close>

lemma json_at_nth: "json_nth (fst (json_at j i)) i = snd (json_at j i)"
  by (simp add: json_at_def json_nth_def Let_def)

lemma json_at_key_get: "json_get (fst (json_at_key j key)) key = snd (json_at_key j key)"
  by (auto simp: json_at_key_def json_get_def Let_def map_add_def split: option.splits)

end
