(* ===== verification/Confs.thy ===== *)
theory Confs
  imports Talk_Model Json_Val
begin

text \<open>
  The configuration, \<^verbatim>\<open>src/confs/\<close>: \<^verbatim>\<open>normal.conf\<close> with the numbers and the addresses to listen
  on, \<^verbatim>\<open>services.conf\<close> with the services and sets of services, and the version pointer that
  keeps a replaced configuration alive for a while
  (\<^verbatim>\<open>deps/public-cpp/include/public-cpp/delay_del_ptr.hpp\<close>). A file is an argument, the value
  \<^verbatim>\<open>CreateConf\<close> returned for it; \<^verbatim>\<open>inet_addr\<close> is one, too. An \<^verbatim>\<open>Init\<close> that fails gives
  \<^term>\<open>None\<close>: its object is deleted by the caller.
\<close>

section \<open>Tags\<close>

text \<open>\<^verbatim>\<open>ConfHelper::ParseServiceTag\<close>: the name and the category around the first bar.\<close>

definition ParseServiceTag :: "bool \<Rightarrow> string \<Rightarrow> (string \<times> protocol_category) option" where
  "ParseServiceTag thrift tag =
     (let name = takeWhile (\<lambda>c. c \<noteq> CHR ''|'') tag in
      if length name = length tag \<or> name = [] then None
      else let cat = GetCategory thrift (drop (length name + 1) tag)
           in if cat = PcInvalid then None else Some (name, cat))"

section \<open>Normal configuration\<close>

record conf_normal =
  num_schedulers :: nat
  num_agents :: nat
  client_keepalive_sec :: sec
  max_num_clients_keepalive :: nat
  long_conn_keepalive_sec :: sec
  ctimeo_ms :: msec
  wtimeo_ms :: msec
  rtimeo_ms :: msec
  listen_addrs :: "listen_addr list"
  size_scheduler_mailbox :: nat
  size_agent_mailbox :: nat
  size_stack :: nat
  low_latency :: bool
  default_long_conns :: nat
  default_weight :: nat

text \<open>A number under a key, at least as large as the bound.\<close>

definition conf_int :: "json \<Rightarrow> string \<Rightarrow> int \<Rightarrow> int option" where
  "conf_int j key least =
     (if \<not> IsInt (json_get j key) \<or> AsInt (json_get j key) < least then None else Some (AsInt (json_get j key)))"

text \<open>The loop over the addresses. The result of \<^verbatim>\<open>Assign\<close> is not looked at; \<open>junk\<close> is what
  the memory of the local \<^verbatim>\<open>ListenAddr\<close> holds before.\<close>

fun build_listen_addrs ::
  "bool \<Rightarrow> (string \<Rightarrow> u32) \<Rightarrow> sockaddr_in \<Rightarrow> (string \<times> json) list \<Rightarrow> listen_addr list option" where
  "build_listen_addrs thrift inet_addr junk [] = Some []"
| "build_listen_addrs thrift inet_addr junk ((tag, v) # rest) =
     (case ParseServiceTag thrift tag of
        None \<Rightarrow> None
      | Some (name, cat) \<Rightarrow>
          if \<not> IsStr v then None
          else map_option ((#) \<lparr>la_name = name, la_category = cat, la_addr = fst (Addr_Assign inet_addr (AsStr v) junk)\<rparr>)
                 (build_listen_addrs thrift inet_addr junk rest))"

definition ConfNormal_Init :: "bool \<Rightarrow> (string \<Rightarrow> u32) \<Rightarrow> sockaddr_in \<Rightarrow> json option \<Rightarrow> conf_normal option" where
  "ConfNormal_Init thrift inet_addr junk file =
     (case file of None \<Rightarrow> None | Some j \<Rightarrow>
      if \<not> IsDict j then None else
      Option.bind (conf_int j ''num_schedulers'' 1) (\<lambda>schedulers.
      Option.bind (conf_int j ''num_agents'' 1) (\<lambda>agents.
      Option.bind (conf_int j ''client_keepalive_sec'' 0) (\<lambda>client_keepalive.
      Option.bind (conf_int j ''max_num_clients_keepalive'' 0) (\<lambda>max_clients.
      Option.bind (conf_int j ''long_conn_keepalive_sec'' 0) (\<lambda>long_keepalive.
      Option.bind (conf_int j ''ctimeo_ms'' 0) (\<lambda>ctimeo.
      Option.bind (conf_int j ''wtimeo_ms'' 0) (\<lambda>wtimeo.
      Option.bind (conf_int j ''rtimeo_ms'' 0) (\<lambda>rtimeo.
      if \<not> IsDict (json_get j ''listen_addrs'') then None else
      Option.bind (build_listen_addrs thrift inet_addr junk (AsDict (json_get j ''listen_addrs''))) (\<lambda>addrs.
      Option.bind (conf_int j ''size_scheduler_mailbox'' 1) (\<lambda>scheduler_mailbox.
      Option.bind (conf_int j ''size_agent_mailbox'' 1) (\<lambda>agent_mailbox.
      Option.bind (conf_int j ''size_stack'' 1) (\<lambda>stack.
      if \<not> IsInt (json_get j ''low_latency'') then None else
      Option.bind (conf_int j ''default_long_conns'' 0) (\<lambda>long_conns.
      Option.bind (conf_int j ''default_weight'' 1) (\<lambda>weight.
      Some \<lparr>num_schedulers = nat schedulers, num_agents = nat agents, client_keepalive_sec = client_keepalive,
            max_num_clients_keepalive = nat max_clients, long_conn_keepalive_sec = long_keepalive,
            ctimeo_ms = ctimeo, wtimeo_ms = wtimeo, rtimeo_ms = rtimeo, listen_addrs = addrs,
            size_scheduler_mailbox = nat scheduler_mailbox, size_agent_mailbox = nat agent_mailbox,
            size_stack = nat stack, low_latency = (AsInt (json_get j ''low_latency'') \<noteq> 0),
            default_long_conns = nat long_conns, default_weight = nat weight\<rparr>)))))))))))))))"

section \<open>Services\<close>

record conf_services =
  cs_remotes :: "remote list"
  cs_services :: "(string \<times> service) list"
  cs_sets :: "(string \<times> service list) list"
  cs_set_names :: "(string \<times> string list) list"

definition to_size :: "int \<Rightarrow> nat" where
  "to_size i = nat (i mod 2 ^ 64)"

definition int_or :: "json \<Rightarrow> string \<Rightarrow> int \<Rightarrow> int" where
  "int_or j key dflt = (if IsInt (json_get j key) then AsInt (json_get j key) else dflt)"

text \<open>\<^verbatim>\<open>BuildRemote_\<close>: the remote and the set of all remotes.\<close>

definition BuildRemote ::
  "(string \<Rightarrow> u32) \<Rightarrow> conf_normal \<Rightarrow> nat \<Rightarrow> json \<Rightarrow> remote list \<Rightarrow> (remote \<times> remote list) option" where
  "BuildRemote inet_addr cn max_remotes conf remotes =
     (if \<not> IsDict conf \<or> \<not> IsStr (json_get conf ''addr'') then None
      else case Addr_Assign inet_addr (AsStr (json_get conf ''addr'')) \<lparr>sin_family = 0, s_addr = 0, sin_port = 0\<rparr> of (addr, ok) \<Rightarrow>
        if \<not> ok \<or> int_or conf ''weight'' 0 < 0 then None
        else let r = \<lparr>rm_addr = addr, rm_weight = to_size (int_or conf ''weight'' (int (default_weight cn))),
                      rm_long_conns = to_size (int_or conf ''long_conns'' (int (default_long_conns cn))),
                      rm_ctimeo_ms = int_or conf ''ctimeo_ms'' (ctimeo_ms cn),
                      rm_rtimeo_ms = int_or conf ''rtimeo_ms'' (rtimeo_ms cn),
                      rm_wtimeo_ms = int_or conf ''wtimeo_ms'' (wtimeo_ms cn)\<rparr>
             in if list_ex (EqRemote r) remotes then Some (r, remotes)
                else if length (remotes @ [r]) > max_remotes then None
                else Some (r, remotes @ [r]))"

fun build_remotes ::
  "(string \<Rightarrow> u32) \<Rightarrow> conf_normal \<Rightarrow> nat \<Rightarrow> json list \<Rightarrow> remote list \<Rightarrow> (remote list \<times> remote list) option" where
  "build_remotes inet_addr cn m [] remotes = Some ([], remotes)"
| "build_remotes inet_addr cn m (c # cs) remotes =
     Option.bind (BuildRemote inet_addr cn m c remotes) (\<lambda>(r, remotes).
       Option.bind (build_remotes inet_addr cn m cs remotes) (\<lambda>(rs, remotes). Some (r # rs, remotes)))"

definition BuildService ::
  "bool \<Rightarrow> (string \<Rightarrow> u32) \<Rightarrow> conf_normal \<Rightarrow> nat \<Rightarrow> nat \<Rightarrow> string \<Rightarrow> json \<Rightarrow> remote list \<Rightarrow> (service \<times> remote list) option" where
  "BuildService thrift inet_addr cn m no tag desc remotes =
     Option.bind (ParseServiceTag thrift tag) (\<lambda>(name, cat).
     if \<not> IsDict desc \<or> \<not> IsList (json_get desc ''remotes'') then None
     else let strategy = (if \<not> IsStr (json_get desc ''strategy'') then kDefaultStrategy
            else let s = GetServiceStrategy (AsStr (json_get desc ''strategy''))
                 in if s = SsInvalid then kDefaultStrategy else s)
       in Option.bind (build_remotes inet_addr cn m (AsList (json_get desc ''remotes'')) remotes) (\<lambda>(rs, remotes).
       Some (\<lparr>sv_no = no, sv_name = name, sv_category = cat, sv_strategy = strategy, sv_remotes = rs,
              sv_weight_all = sum_list (map rm_weight rs) mod 2 ^ 64,
              sv_retry = (if IsInt (json_get desc ''retry'') \<and> AsInt (json_get desc ''retry'') \<ge> 0
                          then nat (AsInt (json_get desc ''retry'')) else 0)\<rparr>, remotes)))"

text \<open>\<^verbatim>\<open>services_.insert\<close> keeps the first service of a name.\<close>

definition map_insert :: "'k \<Rightarrow> 'v \<Rightarrow> ('k \<times> 'v) list \<Rightarrow> ('k \<times> 'v) list" where
  "map_insert k v m = (if map_of m k = None then m @ [(k, v)] else m)"

fun BuildServices ::
  "bool \<Rightarrow> (string \<Rightarrow> u32) \<Rightarrow> conf_normal \<Rightarrow> nat \<Rightarrow> nat \<Rightarrow> (string \<times> json) list \<Rightarrow> conf_services \<Rightarrow> conf_services option" where
  "BuildServices thrift inet_addr cn m no [] cs = Some cs"
| "BuildServices thrift inet_addr cn m no ((tag, desc) # rest) cs =
     Option.bind (BuildService thrift inet_addr cn m no tag desc (cs_remotes cs)) (\<lambda>(svc, remotes).
       BuildServices thrift inet_addr cn m (no + 1) rest
         (cs\<lparr>cs_remotes := remotes, cs_services := map_insert (sv_name svc) svc (cs_services cs)\<rparr>))"

fun build_set :: "(string \<times> service) list \<Rightarrow> json list \<Rightarrow> (service list \<times> string list) option" where
  "build_set services [] = Some ([], [])"
| "build_set services (j # js) =
     (if \<not> IsStr j then None
      else case map_of services (AsStr j) of
        None \<Rightarrow> None
      | Some svc \<Rightarrow> map_option (\<lambda>(ss, ns). (svc # ss, AsStr j # ns)) (build_set services js))"

fun BuildServicesSets :: "(string \<times> json) list \<Rightarrow> conf_services \<Rightarrow> conf_services option" where
  "BuildServicesSets [] cs = Some cs"
| "BuildServicesSets ((name, wt) # rest) cs =
     (if \<not> IsList wt then None
      else Option.bind (build_set (cs_services cs) (AsList wt)) (\<lambda>(ss, ns).
        BuildServicesSets rest (cs\<lparr>cs_sets := map_insert name ss (cs_sets cs),
          cs_set_names := map_insert name ns (cs_set_names cs)\<rparr>)))"

definition ConfServices_Init ::
  "bool \<Rightarrow> (string \<Rightarrow> u32) \<Rightarrow> conf_normal \<Rightarrow> nat \<Rightarrow> json option \<Rightarrow> conf_services option" where
  "ConfServices_Init thrift inet_addr cn m file =
     (case file of None \<Rightarrow> None | Some j \<Rightarrow>
      if \<not> IsDict j \<or> \<not> IsDict (json_get j ''services'') then None
      else Option.bind (BuildServices thrift inet_addr cn m 0 (AsDict (json_get j ''services''))
             \<lparr>cs_remotes = [], cs_services = [], cs_sets = [], cs_set_names = []\<rparr>) (\<lambda>cs.
        if \<not> IsDict (json_get j ''services_sets'') then None
        else BuildServicesSets (AsDict (json_get j ''services_sets'')) cs))"

definition GetService :: "conf_services \<Rightarrow> string \<Rightarrow> service option" where
  "GetService cs name = map_of (cs_services cs) name"

definition GetServicesSet :: "conf_services \<Rightarrow> string \<Rightarrow> service list option" where
  "GetServicesSet cs name = map_of (cs_sets cs) name"

definition GetServiceNames :: "conf_services \<Rightarrow> string \<Rightarrow> string list option" where
  "GetServiceNames cs name = map_of (cs_set_names cs) name"

section \<open>Versions\<close>

record 'a delay_del =
  dd_delay_sec :: sec
  dd_to_delete :: bool
  dd_obj :: "'a option"
  dd_version :: nat
  dd_map :: "(nat \<times> 'a \<times> sec) list"
  dd_deleted :: "'a list"

definition DelayDelPtr_new :: "'a option \<Rightarrow> bool \<Rightarrow> sec \<Rightarrow> 'a delay_del" where
  "DelayDelPtr_new obj to_delete delay = \<lparr>dd_delay_sec = delay, dd_to_delete = to_delete, dd_obj = obj,
     dd_version = 0, dd_map = [], dd_deleted = []\<rparr>"

definition kDefaultDelayDelTimeSec :: sec where "kDefaultDelayDelTimeSec = 60"

definition dd_Change :: "sec \<Rightarrow> 'a \<Rightarrow> 'a delay_del \<Rightarrow> 'a delay_del" where
  "dd_Change now obj p =
     (let old = filter (\<lambda>(v, x, t). now - t > dd_delay_sec p) (dd_map p);
          p = p\<lparr>dd_map := filter (\<lambda>(v, x, t). \<not> now - t > dd_delay_sec p) (dd_map p),
                dd_deleted := dd_deleted p @ (if dd_to_delete p then map (\<lambda>(v, x, t). x) old else [])\<rparr>
      in case dd_obj p of
        Some x \<Rightarrow> p\<lparr>dd_map := map_insert (dd_version p) (x, now) (dd_map p), dd_obj := Some obj,
                    dd_version := dd_version p + 1\<rparr>
      | None \<Rightarrow> p\<lparr>dd_obj := Some obj\<rparr>)"

text \<open>\<^verbatim>\<open>Get\<close>; \<^term>\<open>None\<close> as the version stands for \<^verbatim>\<open>size_t(-1)\<close>.\<close>

definition dd_Get :: "nat option \<Rightarrow> 'a delay_del \<Rightarrow> 'a option" where
  "dd_Get version p =
     (case version of
        None \<Rightarrow> dd_obj p
      | Some v \<Rightarrow> if v = dd_version p then dd_obj p else map_option fst (map_of (dd_map p) v))"

text \<open>\<^verbatim>\<open>VersionedConfServices::Load\<close> and \<^verbatim>\<open>Confs::Init\<close>.\<close>

definition versioned_Load ::
  "bool \<Rightarrow> (string \<Rightarrow> u32) \<Rightarrow> nat \<Rightarrow> sec \<Rightarrow> conf_normal \<Rightarrow> json option \<Rightarrow> conf_services delay_del
     \<Rightarrow> conf_services delay_del \<times> bool" where
  "versioned_Load thrift inet_addr m now cn file p =
     (case ConfServices_Init thrift inet_addr cn m file of
        None \<Rightarrow> (p, False)
      | Some cs \<Rightarrow> (dd_Change now cs p, True))"

record confs =
  cf_normal :: conf_normal
  cf_services :: "conf_services delay_del"

definition Confs_Init ::
  "bool \<Rightarrow> (string \<Rightarrow> u32) \<Rightarrow> sockaddr_in \<Rightarrow> nat \<Rightarrow> sec \<Rightarrow> (string \<Rightarrow> json option) \<Rightarrow> confs option" where
  "Confs_Init thrift inet_addr junk m now files =
     Option.bind (ConfNormal_Init thrift inet_addr junk (files ''normal.conf'')) (\<lambda>cn.
       case versioned_Load thrift inet_addr m now cn (files ''services.conf'')
              (DelayDelPtr_new None True kDefaultDelayDelTimeSec) of
         (p, ok) \<Rightarrow> if ok then Some \<lparr>cf_normal = cn, cf_services = p\<rparr> else None)"

definition GetConfServices :: "nat option \<Rightarrow> confs \<Rightarrow> conf_services option" where
  "GetConfServices version c = dd_Get version (cf_services c)"

section \<open>What a loaded configuration promises\<close>

text \<open>A service as the rest of the program relies on it.\<close>

definition service_wf :: "conf_services \<Rightarrow> service \<Rightarrow> bool" where
  "service_wf cs s \<longleftrightarrow> sv_category s \<noteq> PcInvalid \<and> sv_strategy s \<noteq> SsInvalid
     \<and> sv_weight_all s = sum_list (map rm_weight (sv_remotes s)) mod 2 ^ 64
     \<and> list_all (\<lambda>r. list_ex (EqRemote r) (cs_remotes cs)) (sv_remotes s)"

definition services_wf :: "nat \<Rightarrow> conf_services \<Rightarrow> bool" where
  "services_wf m cs \<longleftrightarrow> distinct (map fst (cs_services cs))
     \<and> list_all (\<lambda>(n, s). sv_name s = n \<and> service_wf cs s) (cs_services cs)
     \<and> length (cs_remotes cs) \<le> m \<and> sorted_wrt (\<lambda>a b. \<not> EqRemote a b) (cs_remotes cs)"

definition sets_wf :: "conf_services \<Rightarrow> bool" where
  "sets_wf cs \<longleftrightarrow> map fst (cs_sets cs) = map fst (cs_set_names cs) \<and> distinct (map fst (cs_sets cs))
     \<and> list_all2 (\<lambda>(_, ss) (_, ns). map (map_of (cs_services cs)) ns = map Some ss) (cs_sets cs) (cs_set_names cs)"

lemma ParseServiceTag_Some:
  "ParseServiceTag thrift tag = Some (n, c) \<Longrightarrow> n \<noteq> [] \<and> c \<noteq> PcInvalid"
  by (auto simp: ParseServiceTag_def Let_def split: if_splits)

lemma BuildRemote_Some:
  assumes "BuildRemote ia cn m conf rs = Some (r, rs')" "sorted_wrt (\<lambda>a b. \<not> EqRemote a b) rs" "length rs \<le> m"
  shows "list_ex (EqRemote r) rs' \<and> set rs \<subseteq> set rs' \<and> length rs' \<le> m \<and> sorted_wrt (\<lambda>a b. \<not> EqRemote a b) rs'"
  using assms EqRemote_sym
  by (fastforce simp: BuildRemote_def Let_def sorted_wrt_append list_ex_iff split: if_splits prod.splits)

lemma build_remotes_Some:
  assumes "build_remotes ia cn m cs rs = Some (out, rs')" "sorted_wrt (\<lambda>a b. \<not> EqRemote a b) rs" "length rs \<le> m"
  shows "list_all (\<lambda>r. list_ex (EqRemote r) rs') out \<and> set rs \<subseteq> set rs' \<and> length rs' \<le> m
    \<and> sorted_wrt (\<lambda>a b. \<not> EqRemote a b) rs'"
  using assms
proof (induction ia cn m cs rs arbitrary: out rs' rule: build_remotes.induct)
  case (2 ia cn m c cs rs)
  from "2.prems"(1) obtain r rs1 rest where
    1: "BuildRemote ia cn m c rs = Some (r, rs1)" "build_remotes ia cn m cs rs1 = Some (rest, rs')" "out = r # rest"
    by (auto simp: bind_eq_Some_conv)
  note r = BuildRemote_Some [OF 1(1) "2.prems"(2,3)]
  have "list_all (\<lambda>r. list_ex (EqRemote r) rs') rest \<and> set rs1 \<subseteq> set rs' \<and> length rs' \<le> m
    \<and> sorted_wrt (\<lambda>a b. \<not> EqRemote a b) rs'"
    using "2.IH" [OF 1(1) refl 1(2)] r by blast
  with r 1(3) show ?case by (auto simp: list_ex_iff)
qed simp

lemma BuildService_Some:
  assumes "BuildService thrift ia cn m no tag desc rs = Some (s, rs')" "sorted_wrt (\<lambda>a b. \<not> EqRemote a b) rs" "length rs \<le> m"
  shows "service_wf (cs\<lparr>cs_remotes := rs', cs_services := x\<rparr>) s \<and> set rs \<subseteq> set rs' \<and> length rs' \<le> m
    \<and> sorted_wrt (\<lambda>a b. \<not> EqRemote a b) rs'"
proof -
  from assms(1) obtain name cat out where 1: "ParseServiceTag thrift tag = Some (name, cat)"
    "build_remotes ia cn m (AsList (json_get desc ''remotes'')) rs = Some (out, rs')"
    "sv_remotes s = out" "sv_category s = cat" "sv_weight_all s = sum_list (map rm_weight out) mod 2 ^ 64"
    "sv_strategy s \<noteq> SsInvalid"
    by (auto simp: BuildService_def bind_eq_Some_conv Let_def kDefaultStrategy_def split: if_splits)
  show ?thesis
    using build_remotes_Some [OF 1(2) assms(2,3)] ParseServiceTag_Some [OF 1(1)] 1
    by (auto simp: service_wf_def)
qed

lemma service_wf_mono:
  "service_wf cs s \<Longrightarrow> set (cs_remotes cs) \<subseteq> set rs \<Longrightarrow> service_wf (cs\<lparr>cs_remotes := rs, cs_services := x\<rparr>) s"
  unfolding service_wf_def list_all_iff list_ex_iff by (simp, meson subsetD)

lemma map_insert_keys: "distinct (map fst m) \<Longrightarrow> distinct (map fst (map_insert k v m))"
  by (auto simp: map_insert_def map_of_eq_None_iff)

lemma set_map_insert: "set (map_insert k v m) \<subseteq> insert (k, v) (set m)"
  by (auto simp: map_insert_def)

lemma BuildServices_Some:
  assumes "BuildServices thrift ia cn m no svcs cs = Some cs'" "services_wf m cs"
  shows "services_wf m cs' \<and> cs_sets cs' = cs_sets cs \<and> cs_set_names cs' = cs_set_names cs"
  using assms
proof (induction thrift ia cn m no svcs cs rule: BuildServices.induct)
  case (2 thrift ia cn m no tag desc rest cs)
  from "2.prems"(1) obtain s rs where
    1: "BuildService thrift ia cn m no tag desc (cs_remotes cs) = Some (s, rs)"
       "BuildServices thrift ia cn m (no + 1) rest (cs\<lparr>cs_remotes := rs, cs_services := map_insert (sv_name s) s (cs_services cs)\<rparr>) = Some cs'"
    by (auto simp: bind_eq_Some_conv)
  let ?cs = "cs\<lparr>cs_remotes := rs, cs_services := map_insert (sv_name s) s (cs_services cs)\<rparr>"
  note s = BuildService_Some [OF 1(1), where cs = cs and x = "map_insert (sv_name s) s (cs_services cs)"]
  have "list_all (\<lambda>(n, s). sv_name s = n \<and> service_wf ?cs s) (cs_services ?cs)"
    using "2.prems"(2) s set_map_insert [of "sv_name s" s "cs_services cs"] service_wf_mono [of cs _ rs]
    by (fastforce simp: services_wf_def list_all_iff)
  then have "services_wf m ?cs"
    using "2.prems"(2) s by (simp add: services_wf_def map_insert_keys)
  with "2.IH" [OF 1(1) refl 1(2)] show ?case by simp
qed simp

lemma build_set_Some:
  "build_set services js = Some (ss, ns) \<Longrightarrow> map (map_of services) ns = map Some ss"
  by (induction services js arbitrary: ss ns rule: build_set.induct) (auto split: if_splits option.splits)

lemma BuildServicesSets_Some:
  assumes "BuildServicesSets sets cs = Some cs'" "sets_wf cs"
  shows "sets_wf cs' \<and> cs_services cs' = cs_services cs \<and> cs_remotes cs' = cs_remotes cs"
  using assms
proof (induction sets cs rule: BuildServicesSets.induct)
  case (2 name wt rest cs)
  from "2.prems"(1) obtain ss ns where 0: "IsList wt" and
    1: "build_set (cs_services cs) (AsList wt) = Some (ss, ns)" and
    2: "BuildServicesSets rest (cs\<lparr>cs_sets := map_insert name ss (cs_sets cs),
          cs_set_names := map_insert name ns (cs_set_names cs)\<rparr>) = Some cs'"
    by (auto simp: bind_eq_Some_conv split: if_splits)
  let ?cs = "cs\<lparr>cs_sets := map_insert name ss (cs_sets cs), cs_set_names := map_insert name ns (cs_set_names cs)\<rparr>"
  have keys: "map_of (cs_sets cs) name = None \<longleftrightarrow> map_of (cs_set_names cs) name = None"
    using "2.prems"(2) unfolding map_of_eq_None_iff sets_wf_def by (metis list.set_map)
  have "sets_wf ?cs"
  proof (cases "map_of (cs_sets cs) name")
    case None
    then show ?thesis
      using "2.prems"(2) build_set_Some [OF 1] keys map_insert_keys [of "cs_sets cs" name ss]
      by (auto simp: sets_wf_def map_insert_def list_all2_appendI)
  next
    case (Some x)
    then show ?thesis using "2.prems"(2) keys by (auto simp: sets_wf_def map_insert_def)
  qed
  with "2.IH" [OF _ 1 refl 2] 0 show ?case by simp
qed simp

lemma ConfServices_Init_wf:
  assumes "ConfServices_Init thrift ia cn m file = Some cs"
  shows "services_wf m cs \<and> sets_wf cs"
proof -
  let ?e = "\<lparr>cs_remotes = [], cs_services = [], cs_sets = [], cs_set_names = []\<rparr> :: conf_services"
  obtain j cs0 where 1: "BuildServices thrift ia cn m 0 (AsDict (json_get j ''services'')) ?e = Some cs0"
    "BuildServicesSets (AsDict (json_get j ''services_sets'')) cs0 = Some cs"
    using assms by (auto simp: ConfServices_Init_def bind_eq_Some_conv split: option.splits if_splits)
  have 2: "services_wf m cs0 \<and> cs_sets cs0 = [] \<and> cs_set_names cs0 = []"
    using BuildServices_Some [OF 1(1)] by (simp add: services_wf_def)
  then have "sets_wf cs0" by (simp add: sets_wf_def)
  from BuildServicesSets_Some [OF 1(2) this] 2 show ?thesis
    by (simp add: services_wf_def service_wf_def)
qed

text \<open>C18. A configuration of services that loads is usable: service names are distinct, every
  service has its name, a protocol, a strategy, its total weight (as \<^verbatim>\<open>size_t\<close>) and remotes that
  are in the set of remotes handed to the connection managers, which has no two equal remotes and
  at most \<open>m\<close> of them; every set of services lists exactly the services its names look up.\<close>

theorem conf_services_wf:
  assumes "ConfServices_Init thrift ia cn m file = Some cs"
  shows "services_wf m cs \<and> sets_wf cs"
  by (rule ConfServices_Init_wf [OF assms])

definition demo_conf :: conf_normal where
  "demo_conf = \<lparr>num_schedulers = 2, num_agents = 1, client_keepalive_sec = 60, max_num_clients_keepalive = 100,
     long_conn_keepalive_sec = 60, ctimeo_ms = 10, wtimeo_ms = 10, rtimeo_ms = 10, listen_addrs = [],
     size_scheduler_mailbox = 4096, size_agent_mailbox = 4096, size_stack = 65536, low_latency = False,
     default_long_conns = 5, default_weight = 1\<rparr>"

definition demo_services :: json where
  "demo_services = JDict [(''services'', JDict [(''echo|rapid'', JDict [(''remotes'',
      JList [JDict [(''addr'', JStr ''127.0.0.1:80''), (''weight'', JInt 3)]]), (''retry'', JInt 1)])]),
     (''services_sets'', JDict [(''all'', JList [JStr ''echo''])])]"

theorem conf_services_wf_witness:
  "services_wf 1000 (the (ConfServices_Init False (\<lambda>_. 0x0100007F) demo_conf 1000 (Some demo_services)))
     \<and> sets_wf (the (ConfServices_Init False (\<lambda>_. 0x0100007F) demo_conf 1000 (Some demo_services)))"
proof (rule conf_services_wf [of False "\<lambda>_. 0x0100007F" demo_conf 1000 "Some demo_services"])
  have "ConfServices_Init False (\<lambda>_. 0x0100007F) demo_conf 1000 (Some demo_services) \<noteq> None"
    by (simp add: ConfServices_Init_def demo_services_def IsDict_def IsStr_def IsList_def IsInt_def json_get_def BuildService_def
      ParseServiceTag_def GetCategory_def BuildRemote_def Addr_Assign_def INADDR_NONE_def int_or_def Let_def map_insert_def)
  then show "ConfServices_Init False (\<lambda>_. 0x0100007F) demo_conf 1000 (Some demo_services)
      = Some (the (ConfServices_Init False (\<lambda>_. 0x0100007F) demo_conf 1000 (Some demo_services)))" by simp
qed

lemma Confs_Init_services:
  assumes "Confs_Init thrift ia junk m now files = Some cf"
  shows "\<exists>cs. GetConfServices None cf = Some cs \<and> ConfServices_Init thrift ia (cf_normal cf) m (files ''services.conf'') = Some cs
    \<and> 0 < num_agents (cf_normal cf) \<and> 0 < num_schedulers (cf_normal cf)"
  using assms
  by (auto simp: Confs_Init_def versioned_Load_def GetConfServices_def dd_Get_def dd_Change_def Let_def DelayDelPtr_new_def
      ConfNormal_Init_def conf_int_def bind_eq_Some_conv split: option.splits prod.splits if_splits)

section \<open>Versions of a configuration\<close>

text \<open>A run of changes, each with the time it is made at.\<close>

definition dd_run :: "(sec \<times> 'a) list \<Rightarrow> 'a delay_del \<Rightarrow> 'a delay_del" where
  "dd_run cs p = fold (\<lambda>(now, x). dd_Change now x) cs p"

text \<open>The version \<open>i\<close> is replaced by the change \<open>i + 1\<close>; it is kept while no later change is
  more than the delay after that.\<close>

definition dd_kept :: "sec \<Rightarrow> (sec \<times> 'a) list \<Rightarrow> nat \<Rightarrow> bool" where
  "dd_kept delay cs i \<longleftrightarrow> list_all (\<lambda>j. fst (cs ! j) - fst (cs ! (i + 1)) \<le> delay) [i + 2..<length cs]"

lemma dd_run_snoc: "dd_run (cs @ [(now, x)]) p = dd_Change now x (dd_run cs p)"
  by (simp add: dd_run_def)

lemma dd_kept_snoc:
  "i + 1 < length cs \<Longrightarrow> dd_kept delay (cs @ [c]) i \<longleftrightarrow> dd_kept delay cs i \<and> fst c - fst (cs ! (i + 1)) \<le> delay"
  by (auto simp: dd_kept_def list_all_iff nth_append)

lemma map_of_filter_upt:
  "map_of (map (\<lambda>i. (i, f i)) (filter P [0..<n])) v = (if v < n \<and> P v then Some (f v) else None)"
proof -
  have "map_of (map (\<lambda>i. (i, f i)) xs) v = (if v \<in> set xs then Some (f v) else None)" for xs :: "nat list"
    by (induction xs) auto
  then show ?thesis by simp
qed

lemma mset_filter_out: "mset (map f (filter P xs)) + mset (map f (filter (\<lambda>x. \<not> P x) xs)) = mset (map f xs)"
  by (induction xs) simp_all

lemma dd_run_state:
  assumes "cs \<noteq> []"
  shows "dd_run cs (DelayDelPtr_new None True delay) =
    \<lparr>dd_delay_sec = delay, dd_to_delete = True, dd_obj = Some (snd (last cs)), dd_version = length cs - 1,
     dd_map = map (\<lambda>i. (i, snd (cs ! i), fst (cs ! (i + 1)))) (filter (dd_kept delay cs) [0..<length cs - 1]),
     dd_deleted = dd_deleted (dd_run cs (DelayDelPtr_new None True delay))\<rparr>"
  using assms
proof (induction cs rule: rev_nonempty_induct)
  case (single c)
  then show ?case by (cases c) (simp add: dd_run_def dd_Change_def DelayDelPtr_new_def)
next
  case (snoc c cs)
  obtain now x where c: "c = (now, x)" by (cases c)
  define p where "p = dd_run cs (DelayDelPtr_new None True delay)"
  define n where "n = length cs - 1"
  have n: "length cs = Suc n" using snoc.hyps by (cases cs) (simp_all add: n_def)
  have p: "dd_delay_sec p = delay" "dd_to_delete p" "dd_obj p = Some (snd (cs ! n))" "dd_version p = n"
    "dd_map p = map (\<lambda>i. (i, snd (cs ! i), fst (cs ! (i + 1)))) (filter (dd_kept delay cs) [0..<n])"
    by (subst snoc.IH [folded p_def n_def], simp add: last_conv_nth snoc.hyps n_def)+
  have keep: "filter (\<lambda>(v, x, t). \<not> now - t > delay) (dd_map p)
    = map (\<lambda>i. (i, snd ((cs @ [c]) ! i), fst ((cs @ [c]) ! (i + 1)))) (filter (dd_kept delay (cs @ [c])) [0..<n])"
    using n by (auto simp: p(5) filter_map o_def dd_kept_snoc c nth_append intro!: map_cong filter_cong)
  have new: "map_of (map (\<lambda>i. (i, snd ((cs @ [c]) ! i), fst ((cs @ [c]) ! (i + 1))))
    (filter (dd_kept delay (cs @ [c])) [0..<n])) n = None"
    by (simp add: map_of_filter_upt [of "\<lambda>i. (snd ((cs @ [c]) ! i), fst ((cs @ [c]) ! Suc i))"])
  have last: "dd_kept delay (cs @ [c]) n" by (simp add: dd_kept_def n)
  have run: "dd_run (cs @ [c]) (DelayDelPtr_new None True delay) = dd_Change now x p"
    by (simp add: c dd_run_snoc p_def)
  show ?case
    unfolding run using p(1-4) new last n
    by (simp add: dd_Change_def Let_def keep map_insert_def nth_append c)
qed

lemma dd_Change_conserves:
  assumes "dd_to_delete p" "dd_obj p = Some y" "map_of (dd_map p) (dd_version p) = None"
  shows "mset (dd_deleted (dd_Change now x p)) + mset (map (\<lambda>(v, x, t). x) (dd_map (dd_Change now x p)))
    = add_mset y (mset (dd_deleted p) + mset (map (\<lambda>(v, x, t). x) (dd_map p)))"
proof -
  let ?P = "\<lambda>(v, x :: 'a, t). now - t > dd_delay_sec p"
  let ?Q = "\<lambda>(v, x :: 'a, t). \<not> now - t > dd_delay_sec p"
  have new: "map_of (filter ?Q (dd_map p)) (dd_version p) = None"
    using assms(3) by (auto simp: map_of_eq_None_iff image_iff)
  have Q: "?Q = (\<lambda>e. \<not> ?P e)" by auto
  have "dd_deleted (dd_Change now x p) = dd_deleted p @ map (\<lambda>(v, x, t). x) (filter ?P (dd_map p))"
    "dd_map (dd_Change now x p) = filter ?Q (dd_map p) @ [(dd_version p, y, now)]"
    using assms new by (simp_all add: dd_Change_def Let_def map_insert_def)
  then show ?thesis
    using mset_filter_out [of "\<lambda>(v, x, t). x" ?P "dd_map p", folded Q] by (simp del: mset_map mset_filter)
qed

lemma dd_run_conserves:
  assumes "cs \<noteq> []"
  shows "mset (map snd cs) = mset (dd_deleted (dd_run cs (DelayDelPtr_new None True delay)))
    + mset (map (\<lambda>(v, x, t). x) (dd_map (dd_run cs (DelayDelPtr_new None True delay)))) + {#snd (last cs)#}"
  using assms
proof (induction cs rule: rev_nonempty_induct)
  case (single c)
  then show ?case by (cases c) (simp add: dd_run_def dd_Change_def DelayDelPtr_new_def)
next
  case (snoc c cs)
  obtain now x where c: "c = (now, x)" by (cases c)
  define p where "p = dd_run cs (DelayDelPtr_new None True delay)"
  note st = dd_run_state [OF snoc.hyps, of delay, folded p_def]
  have "dd_to_delete p" "dd_obj p = Some (snd (last cs))" "map_of (dd_map p) (dd_version p) = None"
    by (subst st, simp add: map_of_filter_upt [of "\<lambda>i. (snd (cs ! i), fst (cs ! Suc i))"])+
  from dd_Change_conserves [OF this, of now x] snoc.IH
  show ?case by (simp add: c dd_run_snoc p_def)
qed

text \<open>C29. Through any run of changes of a version pointer: without a version \<^verbatim>\<open>Get\<close> gives the
  last object, with the version of a replaced object it gives that object as long as no change
  was made more than the delay after it was replaced, and nothing otherwise; and every object is
  the current one, is kept, or was deleted, exactly once.\<close>

theorem delay_del_versions:
  assumes "cs \<noteq> []" "p = dd_run cs (DelayDelPtr_new None True delay)"
  shows "dd_Get None p = Some (snd (last cs)) \<and> dd_Get (Some (length cs - 1)) p = Some (snd (last cs))
    \<and> (\<forall>i. i + 1 < length cs \<longrightarrow> dd_Get (Some i) p = (if dd_kept delay cs i then Some (snd (cs ! i)) else None))
    \<and> mset (map snd cs) = mset (dd_deleted p) + mset (map (\<lambda>(v, x, t). x) (dd_map p)) + {#snd (last cs)#}"
proof (intro conjI allI impI)
  note st = dd_run_state [OF assms(1), of delay, folded assms(2)]
  show "dd_Get None p = Some (snd (last cs))" "dd_Get (Some (length cs - 1)) p = Some (snd (last cs))"
    by (subst st, simp add: dd_Get_def)+
  show "dd_Get (Some i) p = (if dd_kept delay cs i then Some (snd (cs ! i)) else None)" if "i + 1 < length cs" for i
    using less_diff_conv [of i "length cs" 1] that
    by (subst st) (simp add: dd_Get_def map_of_filter_upt [of "\<lambda>i. (snd (cs ! i), fst (cs ! Suc i))"])
  show "mset (map snd cs) = mset (dd_deleted p) + mset (map (\<lambda>(v, x, t). x) (dd_map p)) + {#snd (last cs)#}"
    unfolding assms(2) by (rule dd_run_conserves [OF assms(1)])
qed

theorem delay_del_versions_witness:
  "let p = dd_run [(0, ''a''), (10, ''b''), (100, ''c'')] (DelayDelPtr_new None True 60)
   in dd_Get None p = Some ''c'' \<and> dd_Get (Some 0) p = None \<and> dd_Get (Some 1) p = Some ''b''
     \<and> dd_deleted p = [''a'']"
proof -
  let ?cs = "[(0, ''a''), (10, ''b''), (100, ''c'')] :: (sec \<times> string) list"
  let ?p = "dd_run ?cs (DelayDelPtr_new None True 60)"
  have 1: "dd_Get None ?p = Some (snd (last ?cs))"
    and 2: "\<forall>i. i + 1 < length ?cs \<longrightarrow> dd_Get (Some i) ?p = (if dd_kept 60 ?cs i then Some (snd (?cs ! i)) else None)"
    using delay_del_versions [of ?cs ?p 60] by blast+
  have "dd_deleted ?p = [''a'']" by code_simp
  moreover have "\<not> dd_kept 60 ?cs 0" "dd_kept 60 ?cs 1" by code_simp+
  ultimately show ?thesis using 1 2 [rule_format, of 0] 2 [rule_format, of 1] by (simp add: Let_def)
qed

end
