(* ===== verification/Session_Model.thy ===== *)
theory Session_Model
  imports Confs Conns_Mgr Events_Driver Pool_Objs
begin

text \<open>
  Event contexts (\<^verbatim>\<open>src/event_ctx.h\<close>), messages (\<^verbatim>\<open>src/msg.h\<close>, \<^verbatim>\<open>src/details/msg.cpp\<close>),
  the state of an agent slave (\<^verbatim>\<open>src/agents/agent_slave.h\<close>) and sessions
  (\<^verbatim>\<open>src/session.h\<close>, \<^verbatim>\<open>src/details/session.cpp\<close>). Contexts and sessions live in object
  pools: a pointer is the object's number, and the memory is a function of it. The vector of
  talks belongs to the procedure that waits for the session; it is part of the session here.
  \<^verbatim>\<open>XFC_BUG\<close> only logs in the release build and is left out.
\<close>

section \<open>Event contexts\<close>

text \<open>The category and the union it selects are one tagged value.\<close>

datatype 'r ectx_data = ListenCtx listen_addr | ReadReqCtx int sec "'r option" | SessionCtx nat nat | NotifyCtx

record 'r ectx =
  ec_fd :: fd
  ec_timeleft_ms :: msec
  ec_lasttime_ms :: msec
  ec_data :: "'r ectx_data"

definition BuildForListen :: "fd \<Rightarrow> listen_addr \<Rightarrow> 'r ectx \<Rightarrow> 'r ectx" where
  "BuildForListen f la c = c\<lparr>ec_fd := f, ec_data := ListenCtx la\<rparr>"

definition BuildForReadReq :: "msec \<Rightarrow> fd \<Rightarrow> int \<Rightarrow> sec \<Rightarrow> 'r \<Rightarrow> msec \<Rightarrow> 'r ectx \<Rightarrow> 'r ectx" where
  "BuildForReadReq now f id_procedure starttime r timeleft c = c\<lparr>ec_fd := f, ec_timeleft_ms := timeleft,
     ec_lasttime_ms := now, ec_data := ReadReqCtx id_procedure starttime (Some r)\<rparr>"

definition BuildForSession :: "msec \<Rightarrow> fd \<Rightarrow> nat \<Rightarrow> nat \<Rightarrow> 'r ectx \<Rightarrow> 'r ectx" where
  "BuildForSession now f sid no c =
     c\<lparr>ec_fd := f, ec_timeleft_ms := 0, ec_lasttime_ms := now, ec_data := SessionCtx sid no\<rparr>"

definition BuildForMailboxNotify :: "fd \<Rightarrow> 'r ectx \<Rightarrow> 'r ectx" where
  "BuildForMailboxNotify f c = c\<lparr>ec_fd := f, ec_data := NotifyCtx\<rparr>"

section \<open>Messages\<close>

record msg_read_req =
  rq_id_procedure :: int
  rq_fd_client :: fd
  rq_listen_addr :: listen_addr
  rq_starttime_sec :: sec

text \<open>\<^verbatim>\<open>BuildForReadReq\<close>; \<open>rand\<close> is the next \<^verbatim>\<open>rand_r\<close>, 0 as the start time means now.\<close>

definition BuildMsgReadReq :: "int \<Rightarrow> sec \<Rightarrow> fd \<Rightarrow> listen_addr \<Rightarrow> sec \<Rightarrow> msg_read_req" where
  "BuildMsgReadReq rand now_sec f la starttime =
     \<lparr>rq_id_procedure = rand, rq_fd_client = f, rq_listen_addr = la,
      rq_starttime_sec = (if starttime = 0 then now_sec else starttime)\<rparr>"

record 'r msg_new_req =
  nr_id_procedure :: int
  nr_fd_client :: fd
  nr_starttime_sec :: sec
  nr_protocol_read :: "'r option"

definition BuildForNewReq :: "int \<Rightarrow> fd \<Rightarrow> sec \<Rightarrow> 'r option \<Rightarrow> 'r msg_new_req" where
  "BuildForNewReq id_procedure f starttime r =
     \<lparr>nr_id_procedure = id_procedure, nr_fd_client = f, nr_starttime_sec = starttime, nr_protocol_read = r\<rparr>"

text \<open>A session travels with the procedure that waits for it.\<close>

record ('w, 'r) msg_session =
  ms_biz :: nat
  ms_talks :: "('w, 'r) talk list"
  ms_timeo_ms :: msec
  ms_error :: int

definition BuildForSessionMsg :: "nat \<Rightarrow> ('w, 'r) talk list \<Rightarrow> msec \<Rightarrow> int \<Rightarrow> ('w, 'r) msg_session" where
  "BuildForSessionMsg biz talks timeo err = \<lparr>ms_biz = biz, ms_talks = talks, ms_timeo_ms = timeo, ms_error = err\<rparr>"

definition kSizeSmallCache :: nat where "kSizeSmallCache = 15"
definition kMaxSizeMsg :: nat where "kMaxSizeMsg = 10000"

record 'r msg_destruct =
  md_id_procedure :: int
  md_fd_client :: fd
  md_starttime_sec :: sec
  md_protocol_read :: "'r option"
  md_small_cache :: "(fd \<times> remote_ptr) list"
  md_big_cache :: "(fd \<times> remote_ptr) list option"

text \<open>\<^verbatim>\<open>BuildForDestruct\<close>: a service cache of up to 15 connections travels inside the message.\<close>

definition BuildForDestruct ::
  "int \<Rightarrow> fd \<Rightarrow> sec \<Rightarrow> 'r option \<Rightarrow> (nat \<times> fd \<times> remote_ptr) list \<Rightarrow> 'r msg_destruct \<Rightarrow> 'r msg_destruct" where
  "BuildForDestruct id_procedure f starttime r cache m =
     (let m = m\<lparr>md_id_procedure := id_procedure, md_fd_client := f, md_starttime_sec := starttime, md_protocol_read := r\<rparr>
      in if length cache \<le> kSizeSmallCache
         then m\<lparr>md_small_cache := map snd cache, md_big_cache := None\<rparr>
         else m\<lparr>md_big_cache := Some (map snd cache)\<rparr>)"

datatype ('w, 'r) msg = MsgConfig | MsgReadReq msg_read_req | is_MsgNewReq: MsgNewReq "'r msg_new_req"
  | MsgSession "('w, 'r) msg_session" | MsgDestruct "'r msg_destruct"

section \<open>State of an agent slave\<close>

record ('w, 'r) session =
  se_biz :: nat
  se_talks :: "('w, 'r) talk list"
  num_talks_done :: nat
  has_failure :: bool

text \<open>The logs hold the descriptors that were closed, the reader objects given back, the
  messages sent back to the schedulers and the requests handed to them; \<open>sl_interest\<close> is the
  direction each descriptor is registered for.\<close>

record ('w, 'r) slave =
  sl_driver :: "nat events_driver"
  sl_interest :: "fd \<Rightarrow> drv_event"
  sl_conns :: conns_mgr
  sl_ectx_pool :: pool_objs
  sl_ectx :: "nat \<Rightarrow> 'r ectx"
  sl_session_pool :: pool_objs
  sl_session :: "nat \<Rightarrow> ('w, 'r) session"
  sl_mailbox :: "('w, 'r) msg list"
  num_clients_keepalive :: int
  sl_end :: bool
  sl_closed :: "fd list"
  sl_freed_reads :: "'r list"
  sl_back :: "('w, 'r) msg_session list"
  sl_new_reqs :: "'r msg_new_req list"

text \<open>What a handler call meets: the driver's system calls, the sockets, the protocol objects,
  the readings of the cached clock in order, which other threads may set meanwhile, the clock in
  seconds, and the answers of the mailboxes of the schedulers.\<close>

record ('w, 'r) ag_env =
  ae_drv :: drv_env
  ae_conn :: conn_env
  ae_ops :: "('w, 'r) proto_ops"
  ae_clock :: "nat \<Rightarrow> msec"
  ae_sec :: sec
  ae_worker :: bool
  ae_back :: "bool list"

definition slave_close :: "fd list \<Rightarrow> ('w, 'r) slave \<Rightarrow> ('w, 'r) slave" where
  "slave_close fds sl = sl\<lparr>sl_closed := sl_closed sl @ fds\<rparr>"

definition set_ectx :: "nat \<Rightarrow> 'r ectx \<Rightarrow> ('w, 'r) slave \<Rightarrow> ('w, 'r) slave" where
  "set_ectx c e sl = sl\<lparr>sl_ectx := (sl_ectx sl)(c := e)\<rparr>"

definition set_session :: "nat \<Rightarrow> ('w, 'r) session \<Rightarrow> ('w, 'r) slave \<Rightarrow> ('w, 'r) slave" where
  "set_session sid s sl = sl\<lparr>sl_session := (sl_session sl)(sid := s)\<rparr>"

definition set_talk :: "nat \<Rightarrow> nat \<Rightarrow> ('w, 'r) talk \<Rightarrow> ('w, 'r) slave \<Rightarrow> ('w, 'r) slave" where
  "set_talk sid no t sl =
     set_session sid ((sl_session sl sid)\<lparr>se_talks := (se_talks (sl_session sl sid))[no := t]\<rparr>) sl"

text \<open>\<^verbatim>\<open>pool_event_ctxs_->Get()\<close>: a null object is dereferenced at once.\<close>

definition get_ectx :: "('w, 'r) slave \<Rightarrow> (('w, 'r) slave \<times> nat) outcome" where
  "get_ectx sl = (case pool_Get True (sl_ectx_pool sl) of
       (p, None) \<Rightarrow> Inl NullDeref
     | (p, Some c) \<Rightarrow> Inr (sl\<lparr>sl_ectx_pool := p\<rparr>, c))"

definition free_ectx :: "nat \<Rightarrow> ('w, 'r) slave \<Rightarrow> ('w, 'r) slave" where
  "free_ectx c sl = sl\<lparr>sl_ectx_pool := pool_Free True c (sl_ectx_pool sl)\<rparr>"

text \<open>\<^verbatim>\<open>RegEvent\<close> of the slave's driver; the timeout is an \<^verbatim>\<open>int\<close> parameter.\<close>

definition slave_RegEvent ::
  "('w, 'r) ag_env \<Rightarrow> fd \<Rightarrow> drv_op \<Rightarrow> drv_event \<Rightarrow> nat \<Rightarrow> ('w, 'r) slave \<Rightarrow> (('w, 'r) slave \<times> bool) outcome" where
  "slave_RegEvent env f op dir c sl =
     obind (drv_RegEvent (ae_drv env) f op (Some c) (to_int32 (ec_timeleft_ms (sl_ectx sl c))) (sl_driver sl)) (\<lambda>(d, ok).
       Inr (sl\<lparr>sl_driver := d, sl_interest := (if ok then (sl_interest sl)(f := dir) else sl_interest sl)\<rparr>, ok))"

definition slave_RegEventDel :: "('w, 'r) ag_env \<Rightarrow> fd \<Rightarrow> ('w, 'r) slave \<Rightarrow> ('w, 'r) slave outcome" where
  "slave_RegEventDel env f sl =
     obind (drv_RegEventDel (ae_drv env) f (sl_driver sl)) (\<lambda>(d, _). Inr (sl\<lparr>sl_driver := d\<rparr>))"

section \<open>Sessions\<close>

text \<open>The connection of a talk, the first part of \<^verbatim>\<open>ResetTalk_\<close>; the last component is
  whether to go on.\<close>

definition talk_connect ::
  "('w, 'r) ag_env \<Rightarrow> ('w, 'r) talk \<Rightarrow> ('w, 'r) slave \<Rightarrow> (('w, 'r) slave \<times> ('w, 'r) talk \<times> bool) outcome" where
  "talk_connect env t sl =
     (if tk_fd t = 0 then
        (case tk_service t of
           None \<Rightarrow> Inl NullDeref
         | Some svc \<Rightarrow>
             obind (cm_GetFd (ae_conn env) svc (fail_remotes t) (sl_conns sl)) (\<lambda>(cm, q, (f, connected), cl).
               let sl = slave_close cl (sl\<lparr>sl_conns := cm\<rparr>); t = t\<lparr>tk_remote := Some q\<rparr>
               in if f > 0
                  then Inr (sl, t\<lparr>tk_fd := f, tk_status := (if \<not> connected then TsConn
                              else if tk_category t = TcReadOnly then TsRead else TsWrite)\<rparr>, True)
                  else Inr (sl, t\<lparr>tk_fd := -1, tk_error := kBroken\<rparr>, False)))
      else Inr (sl, t, tk_fd t > 0))"

text \<open>A retry writes its request again.\<close>

definition talk_rewrite :: "('w, 'r) proto_ops \<Rightarrow> bool \<Rightarrow> ('w, 'r) talk \<Rightarrow> (('w, 'r) talk \<times> bool) outcome" where
  "talk_rewrite ops is_retry t =
     (case protocol_write t of
        Some w \<Rightarrow>
          if is_retry then
            (case tk_buf t of
               None \<Rightarrow> Inl NullDeref
             | Some b \<Rightarrow>
                 (case po_Encode ops (po_wReset ops b w) of (w', ok) \<Rightarrow>
                    Inr (if ok then t\<lparr>protocol_write := Some w'\<rparr>
                         else t\<lparr>protocol_write := Some w', tk_error := kEncode\<rparr>, ok)))
          else Inr (t, True)
      | None \<Rightarrow> Inr (t, True))"

definition talk_timeleft ::
  "conf_normal \<Rightarrow> conns_mgr \<Rightarrow> msec \<Rightarrow> ('w, 'r) talk \<Rightarrow> msec outcome" where
  "talk_timeleft cn cm left t =
     (case tk_remote t of
        Some q \<Rightarrow> obind (if tk_status t = TsConn then Inr (ctimeo_ms cn)
            else obind (cm_deref cm q) (\<lambda>r. Inr (if tk_status t = TsRead then rm_rtimeo_ms r else rm_wtimeo_ms r)))
          (\<lambda>timeo. Inr (min left timeo))
      | None \<Rightarrow> Inr (min left (if tk_status t = TsRead then rtimeo_ms cn else wtimeo_ms cn)))"

text \<open>\<^verbatim>\<open>ResetTalk_\<close>: the slave, the talk and whether it sets \<^verbatim>\<open>has_failure_\<close>. On the ways out
  after \<^verbatim>\<open>Get\<close> that do not register the descriptor the context is not given back.\<close>

definition ResetTalk ::
  "('w, 'r) ag_env \<Rightarrow> conf_normal \<Rightarrow> nat \<Rightarrow> bool \<Rightarrow> ('w, 'r) talk \<Rightarrow> ('w, 'r) slave
     \<Rightarrow> (('w, 'r) slave \<times> ('w, 'r) talk \<times> bool) outcome" where
  "ResetTalk env cn sid is_retry t0 sl0 =
     obind (talk_connect env t0 sl0) (\<lambda>(sl, t, go).
     if \<not> go then Inr (sl, t, True) else
     obind (talk_rewrite (ae_ops env) is_retry t) (\<lambda>(t, ok).
     if \<not> ok then Inr (sl, t, True) else
     obind (get_ectx sl) (\<lambda>(sl, c).
     let sl = set_ectx c (BuildForSession (ae_clock env 0) (tk_fd t) sid (no_talk t) (sl_ectx sl c)) sl;
         dir = (if tk_status t = TsRead then EvIn else EvOut);
         left = endtime_ms t - ae_clock env 1
     in if left \<le> 0 then Inr (sl, t\<lparr>tk_error := kTimeout\<rparr>, True) else
     obind (talk_timeleft cn (sl_conns sl) left t) (\<lambda>timeleft.
     obind (slave_RegEvent env (tk_fd t) AddEvent dir c (set_ectx c ((sl_ectx sl c)\<lparr>ec_timeleft_ms := timeleft\<rparr>) sl)) (\<lambda>(sl, ok).
     if ok then Inr (sl, t, False)
     else Inr (slave_close [tk_fd t] sl, t\<lparr>tk_fd := -1, tk_error := kOther\<rparr>, True))))))"

text \<open>\<^verbatim>\<open>Reset\<close>: its loop over the talks, each with its own environment.\<close>

fun Reset_loop ::
  "(nat \<Rightarrow> ('w, 'r) ag_env) \<Rightarrow> conf_normal \<Rightarrow> nat \<Rightarrow> nat list \<Rightarrow> ('w, 'r) slave \<Rightarrow> ('w, 'r) slave outcome" where
  "Reset_loop envs cn sid [] sl = Inr sl"
| "Reset_loop envs cn sid (i # is) sl =
     (let s = sl_session sl sid; t = se_talks s ! i in
      if tk_status t = TsEnd
      then Reset_loop envs cn sid is (set_session sid (s\<lparr>num_talks_done := num_talks_done s + 1\<rparr>) sl)
      else obind (ResetTalk (envs i) cn sid False t sl) (\<lambda>(sl, t, fail).
        let s = sl_session sl sid
        in Reset_loop envs cn sid is (set_session sid (s\<lparr>se_talks := (se_talks s)[i := t],
             has_failure := has_failure s \<or> fail,
             num_talks_done := (if tk_error t \<noteq> kOk then num_talks_done s + 1 else num_talks_done s)\<rparr>) sl)))"

definition Session_Reset ::
  "(nat \<Rightarrow> ('w, 'r) ag_env) \<Rightarrow> conf_normal \<Rightarrow> nat \<Rightarrow> nat \<Rightarrow> ('w, 'r) talk list \<Rightarrow> ('w, 'r) slave
     \<Rightarrow> (('w, 'r) slave \<times> bool) outcome" where
  "Session_Reset envs cn sid biz talks sl =
     obind (Reset_loop envs cn sid [0..<length talks]
              (set_session sid \<lparr>se_biz = biz, se_talks = talks, num_talks_done = 0, has_failure = False\<rparr> sl))
       (\<lambda>sl. Inr (sl, num_talks_done (sl_session sl sid) \<noteq> length (se_talks (sl_session sl sid))))"

text \<open>\<^verbatim>\<open>FinishTalk\<close>, on the talk of the given number.\<close>

definition report_talk :: "bool \<Rightarrow> ('w, 'r) talk \<Rightarrow> conns_mgr \<Rightarrow> (conns_mgr \<times> ('w, 'r) talk) outcome" where
  "report_talk succ t cm =
     (case tk_remote t of
        None \<Rightarrow> Inr (cm, t)
      | Some q \<Rightarrow> obind (cm_deref cm q) (\<lambda>r.
          Inr (cm_ReportStatus r succ cm, if succ then t else t\<lparr>fail_remotes := fail_remotes t @ [r]\<rparr>)))"

definition FinishTalk ::
  "('w, 'r) ag_env \<Rightarrow> conf_normal \<Rightarrow> nat \<Rightarrow> bool \<Rightarrow> nat \<Rightarrow> ('w, 'r) slave \<Rightarrow> (('w, 'r) slave \<times> bool) outcome" where
  "FinishTalk env cn sid succ no sl =
     (let s = sl_session sl sid; finish = num_talks_done s + 1 in
      if no \<ge> length (se_talks s) then Inl OutOfRange
      else obind (report_talk succ (se_talks s ! no) (sl_conns sl)) (\<lambda>(cm, t).
        let sl = sl\<lparr>sl_conns := cm\<rparr> in
        obind (if succ then Inr (sl, t, finish, has_failure s)
               else if tk_retry t \<noteq> 0
               then let sl = (if tk_fd t > 0 then slave_close [tk_fd t] sl else sl)
                    in obind (ResetTalk env cn sid True (t\<lparr>tk_retry := tk_retry t - 1, tk_fd := 0, tk_error := kOk\<rparr>) sl)
                         (\<lambda>(sl, t, fail). Inr (sl, t, if tk_error t = kOk then finish - 1 else finish,
                            has_failure s \<or> fail \<or> tk_error t \<noteq> kOk))
               else Inr (sl, t, finish, True))
          (\<lambda>(sl, t, finish, fail).
             Inr (set_session sid (s\<lparr>se_talks := (se_talks s)[no := t], num_talks_done := finish, has_failure := fail\<rparr>) sl,
                  finish = length (se_talks s)))))"

section \<open>What the parts keep\<close>

lemma slave_upd_frame [simp]:
  "sl_session (slave_close fds sl) = sl_session sl" "sl_driver (slave_close fds sl) = sl_driver sl"
  "sl_ectx (slave_close fds sl) = sl_ectx sl" "sl_ectx_pool (slave_close fds sl) = sl_ectx_pool sl"
  "sl_conns (slave_close fds sl) = sl_conns sl" "sl_closed (slave_close fds sl) = sl_closed sl @ fds"
  "sl_interest (slave_close fds sl) = sl_interest sl"
  "sl_session (set_ectx c e sl) = sl_session sl" "sl_driver (set_ectx c e sl) = sl_driver sl"
  "sl_ectx (set_ectx c e sl) = (sl_ectx sl)(c := e)" "sl_ectx_pool (set_ectx c e sl) = sl_ectx_pool sl"
  "sl_conns (set_ectx c e sl) = sl_conns sl" "sl_closed (set_ectx c e sl) = sl_closed sl"
  "sl_interest (set_ectx c e sl) = sl_interest sl"
  "sl_session (set_session sid s sl) = (sl_session sl)(sid := s)" "sl_driver (set_session sid s sl) = sl_driver sl"
  "sl_ectx (set_session sid s sl) = sl_ectx sl" "sl_ectx_pool (set_session sid s sl) = sl_ectx_pool sl"
  "sl_conns (set_session sid s sl) = sl_conns sl" "sl_closed (set_session sid s sl) = sl_closed sl"
  "sl_interest (set_session sid s sl) = sl_interest sl"
  by (simp_all add: slave_close_def set_ectx_def set_session_def)

text \<open>The identity of a talk is not touched by a new connection or a new attempt.\<close>

definition same_talk :: "('w, 'r) talk \<Rightarrow> ('w, 'r) talk \<Rightarrow> bool" where
  "same_talk t t' \<longleftrightarrow> tk_retry t' = tk_retry t \<and> no_talk t' = no_talk t \<and> protocol_read t' = protocol_read t
     \<and> endtime_ms t' = endtime_ms t \<and> tk_service t' = tk_service t \<and> tk_category t' = tk_category t \<and> tk_buf t' = tk_buf t"

definition same_tables :: "('w, 'r) slave \<Rightarrow> ('w, 'r) slave \<Rightarrow> bool" where
  "same_tables sl sl' \<longleftrightarrow> sl_session sl' = sl_session sl \<and> sl_driver sl' = sl_driver sl \<and> sl_ectx sl' = sl_ectx sl
     \<and> sl_interest sl' = sl_interest sl"

lemma same_trans: "same_talk t u \<Longrightarrow> same_talk u v \<Longrightarrow> same_talk t v" "same_tables s s1 \<Longrightarrow> same_tables s1 s2 \<Longrightarrow> same_tables s s2"
  by (simp_all add: same_talk_def same_tables_def)

lemma talk_connect_frame:
  assumes "talk_connect env t sl = Inr (sl', t', go)"
  shows "same_talk t t' \<and> same_tables sl sl' \<and> sl_ectx_pool sl' = sl_ectx_pool sl
    \<and> (if go then tk_fd t' > 0 \<and> tk_error t' = tk_error t
       else tk_fd t' < 0 \<and> (tk_error t' = kBroken \<or> tk_fd t < 0 \<and> t' = t))"
proof (cases "tk_fd t = 0")
  case False
  then show ?thesis using assms by (auto simp: talk_connect_def same_talk_def same_tables_def)
next
  case True
  then obtain svc where svc: "tk_service t = Some svc" using assms by (cases "tk_service t") (auto simp: talk_connect_def)
  obtain cm q f conn cl where g: "cm_GetFd (ae_conn env) svc (fail_remotes t) (sl_conns sl) = Inr (cm, q, (f, conn), cl)"
    using assms True svc by (auto simp: talk_connect_def obind_Inr_iff)
  show ?thesis
    using assms True svc g by (cases "f > 0") (auto simp: talk_connect_def Let_def same_talk_def same_tables_def)
qed

lemma talk_rewrite_frame:
  assumes "talk_rewrite ops retry t = Inr (t', ok)"
  shows "same_talk t t' \<and> tk_fd t' = tk_fd t \<and> tk_remote t' = tk_remote t \<and> tk_status t' = tk_status t
    \<and> tk_error t' = (if ok then tk_error t else kEncode)"
  using assms by (auto simp: talk_rewrite_def same_talk_def split: if_splits option.splits prod.splits)

lemma get_ectx_frame:
  assumes "get_ectx sl = Inr (sl', c)"
  shows "same_tables sl sl' \<and> sl_conns sl' = sl_conns sl \<and> sl_closed sl' = sl_closed sl"
  using assms by (auto simp: get_ectx_def same_tables_def split: prod.splits option.splits)

lemma slave_RegEvent_frame:
  assumes "slave_RegEvent env f op dir c sl = Inr (sl', ok)"
  shows "sl_session sl' = sl_session sl \<and> sl_ectx sl' = sl_ectx sl \<and> sl_closed sl' = sl_closed sl
    \<and> sl_ectx_pool sl' = sl_ectx_pool sl"
  using assms by (auto simp: slave_RegEvent_def obind_Inr_iff)

text \<open>The ways a talk comes out of \<^verbatim>\<open>ResetTalk_\<close>.\<close>

lemma ResetTalk_cases:
  assumes "ResetTalk env cn sid retry t sl = Inr (sl', t', fail)"
  obtains
    (refused) sl1 t1 where "fail" "talk_connect env t sl = Inr (sl1, t1, False)" "sl' = sl1" "t' = t1"
  | (encode) sl1 t1 where "fail" "talk_connect env t sl = Inr (sl1, t1, True)"
      "talk_rewrite (ae_ops env) retry t1 = Inr (t', False)" "sl' = sl1"
  | (timeout) sl1 t1 t2 sl2 c where "fail" "talk_connect env t sl = Inr (sl1, t1, True)"
      "talk_rewrite (ae_ops env) retry t1 = Inr (t2, True)" "get_ectx sl1 = Inr (sl2, c)"
      "sl' = set_ectx c (BuildForSession (ae_clock env 0) (tk_fd t2) sid (no_talk t2) (sl_ectx sl2 c)) sl2"
      "t' = t2\<lparr>tk_error := kTimeout\<rparr>"
  | (registered) sl1 t1 t2 sl2 c timeleft sl3 ok where "talk_connect env t sl = Inr (sl1, t1, True)"
      "talk_rewrite (ae_ops env) retry t1 = Inr (t2, True)" "get_ectx sl1 = Inr (sl2, c)"
      "endtime_ms t2 - ae_clock env 1 > 0"
      "talk_timeleft cn (sl_conns sl2) (endtime_ms t2 - ae_clock env 1) t2 = Inr timeleft"
      "slave_RegEvent env (tk_fd t2) AddEvent (if tk_status t2 = TsRead then EvIn else EvOut) c
         (set_ectx c ((BuildForSession (ae_clock env 0) (tk_fd t2) sid (no_talk t2) (sl_ectx sl2 c))\<lparr>ec_timeleft_ms := timeleft\<rparr>) sl2)
       = Inr (sl3, ok)"
      "fail = (\<not> ok)" "sl' = (if ok then sl3 else slave_close [tk_fd t2] sl3)"
      "t' = (if ok then t2 else t2\<lparr>tk_fd := -1, tk_error := kOther\<rparr>)"
proof -
  obtain sl1 t1 go where 1: "talk_connect env t sl = Inr (sl1, t1, go)"
    using assms by (auto simp: ResetTalk_def obind_Inr_iff)
  show thesis
  proof (cases go)
    case False
    then show thesis using assms 1 by (intro refused) (auto simp: ResetTalk_def)
  next
    case True
    then obtain t2 ok where 2: "talk_rewrite (ae_ops env) retry t1 = Inr (t2, ok)"
      using assms 1 by (auto simp: ResetTalk_def obind_Inr_iff)
    show thesis
    proof (cases ok)
      case False
      then show thesis using assms 1 2 \<open>go\<close> by (intro encode) (auto simp: ResetTalk_def)
    next
      case True
      then obtain sl2 c where 3: "get_ectx sl1 = Inr (sl2, c)"
        using assms 1 2 \<open>go\<close> by (auto simp: ResetTalk_def obind_Inr_iff)
      show thesis
      proof (cases "endtime_ms t2 - ae_clock env 1 \<le> 0")
        case True
        then show thesis using assms 1 2 3 \<open>go\<close> \<open>ok\<close>
          by (intro timeout [of sl1 t1 t2 sl2 c]) (auto simp: ResetTalk_def)
      next
        case False
        let ?e = "BuildForSession (ae_clock env 0) (tk_fd t2) sid (no_talk t2) (sl_ectx sl2 c)"
        obtain timeleft where 4: "talk_timeleft cn (sl_conns sl2) (endtime_ms t2 - ae_clock env 1) t2 = Inr timeleft"
          using assms 1 2 3 False \<open>go\<close> \<open>ok\<close> by (auto simp: ResetTalk_def Let_def obind_Inr_iff)
        have upd: "set_ectx c (?e\<lparr>ec_timeleft_ms := timeleft\<rparr>) (set_ectx c ?e sl2) = set_ectx c (?e\<lparr>ec_timeleft_ms := timeleft\<rparr>) sl2"
          by (simp add: set_ectx_def)
        obtain sl3 reg where 5: "slave_RegEvent env (tk_fd t2) AddEvent (if tk_status t2 = TsRead then EvIn else EvOut) c
            (set_ectx c (?e\<lparr>ec_timeleft_ms := timeleft\<rparr>) sl2) = Inr (sl3, reg)"
          using assms 1 2 3 4 False \<open>go\<close> \<open>ok\<close> upd
          by (auto simp: ResetTalk_def Let_def obind_Inr_iff)
        show thesis
          using assms 1 2 3 4 5 False \<open>go\<close> \<open>ok\<close> upd
          by (intro registered [of sl1 t1 t2 sl2 c timeleft sl3 reg])
            (auto simp: ResetTalk_def Let_def split: if_splits)
      qed
    qed
  qed
qed

lemma ResetTalk_frame:
  assumes "ResetTalk env cn sid retry t sl = Inr (sl', t', fail)"
  shows "same_talk t t' \<and> sl_session sl' = sl_session sl"
  using assms
proof (cases rule: ResetTalk_cases)
  case refused
  then show ?thesis using talk_connect_frame [OF refused(2)] by (simp add: same_tables_def)
next
  case (encode sl1 t1)
  then show ?thesis
    using talk_connect_frame [OF encode(2)] talk_rewrite_frame [OF encode(3)] same_trans(1) [of t t1 t']
    by (simp add: same_tables_def)
next
  case (timeout sl1 t1 t2 sl2 c)
  then show ?thesis
    using talk_connect_frame [OF timeout(2)] talk_rewrite_frame [OF timeout(3)] get_ectx_frame [OF timeout(4)]
    by (simp add: same_tables_def same_talk_def)
next
  case (registered sl1 t1 t2 sl2 c timeleft sl3 ok)
  then show ?thesis
    using talk_connect_frame [OF registered(1)] talk_rewrite_frame [OF registered(2)] get_ectx_frame [OF registered(3)]
      slave_RegEvent_frame [OF registered(6)]
    by (simp add: same_tables_def same_talk_def)
qed

lemma ResetTalk_fail:
  assumes "ResetTalk env cn sid retry t sl = Inr (sl', t', fail)" "tk_error t = kOk" "tk_fd t \<ge> 0"
  shows "fail \<longleftrightarrow> tk_error t' \<noteq> kOk"
  using assms(1)
proof (cases rule: ResetTalk_cases)
  case (refused sl1 t1)
  then show ?thesis using talk_connect_frame [OF refused(2)] assms(2,3) by auto
next
  case (encode sl1 t1)
  then show ?thesis using talk_rewrite_frame [OF encode(3)] by simp
next
  case timeout
  then show ?thesis by simp
next
  case (registered sl1 t1 t2 sl2 c timeleft sl3 ok)
  then show ?thesis
    using talk_connect_frame [OF registered(1)] talk_rewrite_frame [OF registered(2)] assms(2) by simp
qed

section \<open>Finishing talks\<close>

lemma report_talk_frame:
  assumes "report_talk succ t cm = Inr (cm', t')"
  shows "same_talk t t' \<and> tk_fd t' = tk_fd t \<and> tk_error t' = tk_error t \<and> tk_remote t' = tk_remote t"
  using assms by (auto simp: report_talk_def same_talk_def obind_Inr_iff split: option.splits if_splits)

lemma FinishTalk_cases:
  assumes "FinishTalk env cn sid succ no sl = Inr (sl', fin)"
  obtains
    (over) cm t where "no < length (se_talks (sl_session sl sid))" "succ \<or> tk_retry (se_talks (sl_session sl sid) ! no) = 0"
      "report_talk succ (se_talks (sl_session sl sid) ! no) (sl_conns sl) = Inr (cm, t)"
      "sl' = set_session sid ((sl_session sl sid)\<lparr>se_talks := (se_talks (sl_session sl sid))[no := t],
         num_talks_done := num_talks_done (sl_session sl sid) + 1,
         has_failure := (has_failure (sl_session sl sid) \<or> \<not> succ)\<rparr>) (sl\<lparr>sl_conns := cm\<rparr>)"
  | (again) cm t sl1 sl2 t2 fail where "no < length (se_talks (sl_session sl sid))" "\<not> succ"
      "tk_retry (se_talks (sl_session sl sid) ! no) \<noteq> 0"
      "report_talk succ (se_talks (sl_session sl sid) ! no) (sl_conns sl) = Inr (cm, t)"
      "sl1 = (if tk_fd t > 0 then slave_close [tk_fd t] (sl\<lparr>sl_conns := cm\<rparr>) else sl\<lparr>sl_conns := cm\<rparr>)"
      "ResetTalk env cn sid True (t\<lparr>tk_retry := tk_retry t - 1, tk_fd := 0, tk_error := kOk\<rparr>) sl1 = Inr (sl2, t2, fail)"
      "sl' = set_session sid ((sl_session sl sid)\<lparr>se_talks := (se_talks (sl_session sl sid))[no := t2],
         num_talks_done := (if tk_error t2 = kOk then num_talks_done (sl_session sl sid) else num_talks_done (sl_session sl sid) + 1),
         has_failure := (has_failure (sl_session sl sid) \<or> tk_error t2 \<noteq> kOk)\<rparr>) sl2"
proof -
  let ?s = "sl_session sl sid"
  have no: "no < length (se_talks ?s)" using assms by (auto simp: FinishTalk_def Let_def split: if_splits)
  then obtain cm t where r: "report_talk succ (se_talks ?s ! no) (sl_conns sl) = Inr (cm, t)"
    using assms by (auto simp: FinishTalk_def Let_def obind_Inr_iff)
  have same: "tk_retry t = tk_retry (se_talks ?s ! no)" using report_talk_frame [OF r] by (simp add: same_talk_def)
  show thesis
  proof (cases "succ \<or> tk_retry (se_talks ?s ! no) = 0")
    case True
    then show thesis using assms no r same
      by (intro over [OF no True r]) (cases succ, simp_all add: FinishTalk_def Let_def)
  next
    case False
    define sl1 where "sl1 = (if tk_fd t > 0 then slave_close [tk_fd t] (sl\<lparr>sl_conns := cm\<rparr>) else sl\<lparr>sl_conns := cm\<rparr>)"
    let ?t = "t\<lparr>tk_retry := tk_retry t - 1, tk_fd := 0, tk_error := kOk\<rparr>"
    have ft: "FinishTalk env cn sid succ no sl = obind (ResetTalk env cn sid True ?t sl1) (\<lambda>(sl2, t2, fail).
        Inr (set_session sid (?s\<lparr>se_talks := (se_talks ?s)[no := t2],
               num_talks_done := (if tk_error t2 = kOk then num_talks_done ?s else num_talks_done ?s + 1),
               has_failure := (has_failure ?s \<or> fail \<or> tk_error t2 \<noteq> kOk)\<rparr>) sl2,
             (if tk_error t2 = kOk then num_talks_done ?s else num_talks_done ?s + 1) = length (se_talks ?s)))"
      using no r False same
      by (cases "ResetTalk env cn sid True ?t sl1") (simp_all add: FinishTalk_def Let_def sl1_def split: prod.split)
    obtain sl2 t2 fail where 2: "ResetTalk env cn sid True ?t sl1 = Inr (sl2, t2, fail)"
      using assms [unfolded ft] by (auto simp: obind_Inr_iff)
    have "fail \<longleftrightarrow> tk_error t2 \<noteq> kOk" using ResetTalk_fail [OF 2] by simp
    then show thesis
      using assms [unfolded ft] False 2 by (intro again [OF no _ _ r sl1_def 2]) auto
  qed
qed

text \<open>What a session still has to do: its talks that are not done, and the retries they have.\<close>

definition session_todo :: "('w, 'r) session \<Rightarrow> nat" where
  "session_todo s = (length (se_talks s) - num_talks_done s) + sum_list (map tk_retry (se_talks s))"

lemma sum_retry_update:
  "no < length ts \<Longrightarrow> sum_list (map tk_retry (ts[no := t])) + tk_retry (ts ! no) = sum_list (map tk_retry ts) + tk_retry t"
  using elem_le_sum_list [of no "map tk_retry ts"] by (simp add: map_update sum_list_update)

lemma FinishTalk_session:
  assumes "FinishTalk env cn sid succ no sl = Inr (sl', fin)"
  shows "fin = (num_talks_done (sl_session sl' sid) = length (se_talks (sl_session sl' sid)))"
    and "length (se_talks (sl_session sl' sid)) = length (se_talks (sl_session sl sid))"
    and "sid' \<noteq> sid \<Longrightarrow> sl_session sl' sid' = sl_session sl sid'"
proof -
  from assms show "length (se_talks (sl_session sl' sid)) = length (se_talks (sl_session sl sid))"
    by (cases rule: FinishTalk_cases) simp_all
  from assms show "sl_session sl' sid' = sl_session sl sid'" if "sid' \<noteq> sid"
  proof (cases rule: FinishTalk_cases)
    case (again cm t sl1 sl2 t2 fail)
    then show ?thesis using ResetTalk_frame [OF again(6)] that by simp
  qed (use that in simp)
  show "fin = (num_talks_done (sl_session sl' sid) = length (se_talks (sl_session sl' sid)))"
    using assms by (auto simp: FinishTalk_def Let_def obind_Inr_iff split: if_splits)
qed

text \<open>C4. A session comes to its end: each call of \<^verbatim>\<open>FinishTalk\<close> that returns strictly
  decreases the number of talks that are not done plus the number of retries left, whatever
  the talk's outcome and whatever the retry meets; it says that the session has ended exactly
  when all its talks are done, and does not touch other sessions.\<close>

theorem FinishTalk_progress:
  assumes "FinishTalk env cn sid succ no sl = Inr (sl', fin)"
    "num_talks_done (sl_session sl sid) < length (se_talks (sl_session sl sid))"
  shows "session_todo (sl_session sl' sid) < session_todo (sl_session sl sid)
    \<and> fin = (num_talks_done (sl_session sl' sid) = length (se_talks (sl_session sl' sid)))
    \<and> (\<forall>sid'. sid' \<noteq> sid \<longrightarrow> sl_session sl' sid' = sl_session sl sid')"
proof (intro conjI allI impI)
  show "session_todo (sl_session sl' sid) < session_todo (sl_session sl sid)"
    using assms(1)
  proof (cases rule: FinishTalk_cases)
    case (over cm t)
    have "tk_retry t = tk_retry (se_talks (sl_session sl sid) ! no)"
      using report_talk_frame [OF over(3)] by (simp add: same_talk_def)
    then show ?thesis using over(1,4) assms(2) sum_retry_update [OF over(1), of t] by (simp add: session_todo_def)
  next
    case (again cm t sl1 sl2 t2 fail)
    have "tk_retry t2 + 1 = tk_retry (se_talks (sl_session sl sid) ! no)"
      using ResetTalk_frame [OF again(6)] report_talk_frame [OF again(4)] again(3) by (simp add: same_talk_def)
    then have "sum_list (map tk_retry ((se_talks (sl_session sl sid))[no := t2])) < sum_list (map tk_retry (se_talks (sl_session sl sid)))"
      using sum_retry_update [OF again(1), of t2] by linarith
    then show ?thesis using again(7) assms(2) by (auto simp: session_todo_def)
  qed
qed (use FinishTalk_session [OF assms(1)] in auto)

section \<open>Registration\<close>

abbreviation sl_timers :: "('w, 'r) slave \<Rightarrow> nat \<rightharpoonup> msec" where "sl_timers sl \<equiv> drv_timers (sl_driver sl)"
abbreviation sl_contexts :: "('w, 'r) slave \<Rightarrow> nat \<rightharpoonup> nat" where "sl_contexts sl \<equiv> drv_contexts (sl_driver sl)"

definition slave_ok :: "('w, 'r) slave \<Rightarrow> bool" where
  "slave_ok sl \<longleftrightarrow> drv_inv (sl_driver sl) \<and> drv_inited (sl_driver sl)"

lemma slave_ok_frame [simp]:
  "slave_ok (slave_close fds sl) = slave_ok sl" "slave_ok (set_ectx c e sl) = slave_ok sl"
  "slave_ok (set_session sid s sl) = slave_ok sl"
  by (simp_all add: slave_ok_def)

lemma slave_RegEvent_ok:
  assumes "slave_RegEvent env f op dir c sl = Inr (sl', ok)" "slave_ok sl" "op \<noteq> DelEvent"
    "op = AddEvent \<Longrightarrow> sl_timers sl (nat f) = None"
  shows "slave_ok sl' \<and> 0 \<le> f \<and> ok = ctl_ok (ae_drv env) op f
    \<and> sl_timers sl' = (if ok then reg_timers op (nat f) (now_ms (ae_drv env)) (to_int32 (ec_timeleft_ms (sl_ectx sl c))) (sl_timers sl)
                       else (sl_timers sl)(nat f := None))
    \<and> sl_contexts sl' = (if ok \<or> \<not> ctl_ok (ae_drv env) DelEvent f then reg_contexts op (nat f) (Some c) (sl_contexts sl)
                         else (sl_contexts sl)(nat f := None))
    \<and> sl_interest sl' = (if ok then (sl_interest sl)(f := dir) else sl_interest sl)"
proof -
  have inv: "drv_inv (sl_driver sl)" "drv_inited (sl_driver sl)" using assms(2) by (simp_all add: slave_ok_def)
  have f: "0 \<le> f"
    using assms(1) inv(2) by (auto simp: slave_RegEvent_def drv_RegEvent_def obind_Inr_iff Let_def fd_ok_def split: if_splits)
  let ?t = "to_int32 (ec_timeleft_ms (sl_ectx sl c))"
  obtain d' where "drv_RegEvent (ae_drv env) f op (Some c) ?t (sl_driver sl) = Inr (d', ctl_ok (ae_drv env) op f)"
    "drv_inv d'" "drv_inited d'"
    "drv_timers d' = (if ctl_ok (ae_drv env) op f then reg_timers op (nat f) (now_ms (ae_drv env)) ?t (sl_timers sl)
                       else (sl_timers sl)(nat f := None))"
    "drv_contexts d' = (if ctl_ok (ae_drv env) op f \<or> \<not> ctl_ok (ae_drv env) DelEvent f
                         then reg_contexts op (nat f) (Some c) (sl_contexts sl)
                         else (sl_contexts sl)(nat f := None))"
    using drv_RegEvent_ok [OF inv f assms(3,4), where env = "ae_drv env" and c = "Some c" and t = ?t] by blast
  then show ?thesis using assms(1) f by (auto simp: slave_RegEvent_def slave_ok_def)
qed

lemma slave_RegEventDel_ok:
  assumes "slave_RegEventDel env f sl = Inr sl'" "slave_ok sl"
  shows "slave_ok sl' \<and> sl_timers sl' = (sl_timers sl)(nat f := None)
    \<and> sl_contexts sl' = (if ctl_ok (ae_drv env) DelEvent f then (sl_contexts sl)(nat f := None) else sl_contexts sl)"
proof -
  have "fd_ok f (sl_driver sl)"
    using assms by (auto simp: slave_RegEventDel_def drv_RegEventDel_def obind_Inr_iff slave_ok_def split: if_splits)
  then obtain d' where "drv_RegEventDel (ae_drv env) f (sl_driver sl) = Inr (d', ctl_ok (ae_drv env) DelEvent f)"
    "drv_inv d'" "drv_inited d'" "drv_timers d' = (sl_timers sl)(nat f := None)"
    "drv_contexts d' = (if ctl_ok (ae_drv env) DelEvent f then (sl_contexts sl)(nat f := None) else sl_contexts sl)"
    using drv_RegEventDel_ok [of "sl_driver sl" f "ae_drv env"] assms(2) by (auto simp: slave_ok_def)
  then show ?thesis using assms(1) by (auto simp: slave_RegEventDel_def slave_ok_def)
qed

lemma slave_RegEventDel_frame: "slave_RegEventDel env f sl = Inr sl' \<Longrightarrow> \<exists>d. sl' = sl\<lparr>sl_driver := d\<rparr>"
  by (auto simp: slave_RegEventDel_def obind_Inr_iff)

text \<open>The talk of a session waits for an event: its descriptor is registered with a context
  that leads back to it, for the direction its state needs.\<close>

definition talk_waits :: "('w, 'r) slave \<Rightarrow> nat \<Rightarrow> ('w, 'r) talk \<Rightarrow> bool" where
  "talk_waits sl sid t \<longleftrightarrow> tk_fd t > 0 \<and> sl_interest sl (tk_fd t) = (if tk_status t = TsRead then EvIn else EvOut)
     \<and> (case sl_contexts sl (nat (tk_fd t)) of None \<Rightarrow> False
        | Some c \<Rightarrow> ec_data (sl_ectx sl c) = SessionCtx sid (no_talk t) \<and> ec_fd (sl_ectx sl c) = tk_fd t)"

text \<open>The descriptor a talk connects with is not registered yet.\<close>

definition fresh_conn :: "('w, 'r) ag_env \<Rightarrow> ('w, 'r) talk \<Rightarrow> ('w, 'r) slave \<Rightarrow> bool" where
  "fresh_conn env t sl = (case talk_connect env t sl of Inr (_, t', True) \<Rightarrow> sl_timers sl (nat (tk_fd t')) = None | _ \<Rightarrow> True)"

lemma ResetTalk_waits:
  assumes "ResetTalk env cn sid retry t sl = Inr (sl', t', fail)" "slave_ok sl" "fresh_conn env t sl"
  shows "slave_ok sl' \<and> (if fail then sl_timers sl' = sl_timers sl
    else talk_waits sl' sid t' \<and> (\<forall>n. n \<noteq> nat (tk_fd t') \<longrightarrow> sl_timers sl' n = sl_timers sl n \<and> sl_contexts sl' n = sl_contexts sl n))"
  using assms(1)
proof (cases rule: ResetTalk_cases)
  case (refused sl1 t1)
  then show ?thesis using talk_connect_frame [OF refused(2)] assms(2) by (simp add: same_tables_def slave_ok_def)
next
  case (encode sl1 t1)
  then show ?thesis using talk_connect_frame [OF encode(2)] assms(2) by (simp add: same_tables_def slave_ok_def)
next
  case (timeout sl1 t1 t2 sl2 c)
  then show ?thesis using talk_connect_frame [OF timeout(2)] get_ectx_frame [OF timeout(4)] assms(2)
    by (simp add: same_tables_def slave_ok_def)
next
  case (registered sl1 t1 t2 sl2 c timeleft sl3 ok)
  let ?e = "(BuildForSession (ae_clock env 0) (tk_fd t2) sid (no_talk t2) (sl_ectx sl2 c))\<lparr>ec_timeleft_ms := timeleft\<rparr>"
  note F = talk_connect_frame [OF registered(1)] talk_rewrite_frame [OF registered(2)] get_ectx_frame [OF registered(3)]
  have d: "sl_driver sl2 = sl_driver sl" "slave_ok sl2" using F assms(2) by (simp_all add: same_tables_def slave_ok_def)
  have fd: "tk_fd t2 > 0" "sl_timers (set_ectx c ?e sl2) (nat (tk_fd t2)) = None"
    using F assms(3) registered(1) d(1) by (simp_all add: fresh_conn_def)
  note R = slave_RegEvent_ok [OF registered(6)] slave_RegEvent_frame [OF registered(6)]
  show ?thesis
  proof (cases ok)
    case True
    then show ?thesis
      using R d fd registered(7-9) by (auto simp: talk_waits_def reg_contexts_def reg_timers_def BuildForSession_def)
  next
    case False
    then show ?thesis using R d fd registered(7,8) by (auto simp: fun_upd_idem)
  qed
qed

lemma talk_waits_set_session [simp]: "talk_waits (set_session sid' s sl) sid t = talk_waits sl sid t"
  by (simp add: talk_waits_def split: option.split)

lemma fresh_conn_close [simp]: "fresh_conn env t (slave_close fds sl) = fresh_conn env t sl"
proof (cases "tk_fd t = 0 \<and> tk_service t \<noteq> None")
  case True
  then show ?thesis
    by (auto simp: fresh_conn_def talk_connect_def Let_def obind_def split: option.splits sum.splits prod.splits bool.splits)
qed (auto simp: fresh_conn_def talk_connect_def split: option.splits bool.splits)

text \<open>The descriptor of a retry is not registered: the kernel gives out descriptors that are
  not open, and those of the connection pools were unregistered before they were put there.\<close>

definition retry_fresh :: "('w, 'r) ag_env \<Rightarrow> bool \<Rightarrow> ('w, 'r) talk \<Rightarrow> ('w, 'r) slave \<Rightarrow> bool" where
  "retry_fresh env succ t sl =
     (case report_talk succ t (sl_conns sl) of Inl _ \<Rightarrow> True
      | Inr (cm, u) \<Rightarrow> fresh_conn env (u\<lparr>tk_retry := tk_retry u - 1, tk_fd := 0, tk_error := kOk\<rparr>) (sl\<lparr>sl_conns := cm\<rparr>))"

text \<open>C40. What \<^verbatim>\<open>FinishTalk\<close> does with a talk, branch by branch. A talk that went well is
  counted as done; so is a failed one without retries, which marks the session as failed.
  A failed talk with retries loses one, its old descriptor is closed if still open, and it is
  either waiting on a new registered descriptor and not counted, or it has an error, is
  counted and marks the session as failed; no other deadline is touched.\<close>

theorem FinishTalk_outcome:
  assumes "FinishTalk env cn sid succ no sl = Inr (sl', fin)" "slave_ok sl"
    "s = sl_session sl sid" "s' = sl_session sl' sid" "t = se_talks s ! no" "t' = se_talks s' ! no"
    "retry_fresh env succ t sl"
  shows "slave_ok sl' \<and> (\<forall>i. i \<noteq> no \<longrightarrow> se_talks s' ! i = se_talks s ! i)
    \<and> (if succ \<or> tk_retry t = 0
       then num_talks_done s' = num_talks_done s + 1 \<and> has_failure s' = (has_failure s \<or> \<not> succ)
         \<and> tk_fd t' = tk_fd t \<and> tk_error t' = tk_error t \<and> sl_driver sl' = sl_driver sl
       else tk_retry t' = tk_retry t - 1
         \<and> (if tk_error t' = kOk
            then num_talks_done s' = num_talks_done s \<and> has_failure s' = has_failure s \<and> talk_waits sl' sid t'
              \<and> (\<forall>n. n \<noteq> nat (tk_fd t') \<longrightarrow> sl_timers sl' n = sl_timers sl n)
            else num_talks_done s' = num_talks_done s + 1 \<and> has_failure s' \<and> sl_timers sl' = sl_timers sl))"
  using assms(1)
proof (cases rule: FinishTalk_cases)
  case (over cm u)
  then show ?thesis using report_talk_frame [OF over(3)] assms(2-6) by (auto simp: slave_ok_def same_talk_def)
next
  case (again cm u sl1 sl2 t2 fail)
  let ?u = "u\<lparr>tk_retry := tk_retry u - 1, tk_fd := 0, tk_error := kOk\<rparr>"
  have u: "same_talk t u" using report_talk_frame [OF again(4)] assms(3,5) by simp
  have sl1: "same_tables sl sl1" using again(5) by (simp add: same_tables_def)
  have "fresh_conn env ?u sl1" using assms(3,5,7) again(4,5) by (simp add: retry_fresh_def)
  moreover have "slave_ok sl1" using sl1 assms(2) by (simp add: same_tables_def slave_ok_def)
  ultimately have W: "slave_ok sl2" "if fail then sl_timers sl2 = sl_timers sl1
    else talk_waits sl2 sid t2 \<and> (\<forall>n. n \<noteq> nat (tk_fd t2) \<longrightarrow> sl_timers sl2 n = sl_timers sl1 n \<and> sl_contexts sl2 n = sl_contexts sl1 n)"
    using ResetTalk_waits [OF again(6)] by blast+
  have f: "fail \<longleftrightarrow> tk_error t2 \<noteq> kOk" using ResetTalk_fail [OF again(6)] by simp
  show ?thesis
    using W f again(1-3,7) assms(3-6) sl1 ResetTalk_frame [OF again(6)] u
    by (auto simp: same_tables_def same_talk_def)
qed

section \<open>Starting a session\<close>

definition talk_over :: "('w, 'r) talk list \<Rightarrow> ('w, 'r) talk list \<Rightarrow> nat \<Rightarrow> bool" where
  "talk_over talks talks' i \<longleftrightarrow> tk_status (talks ! i) = TsEnd \<or> tk_error (talks' ! i) \<noteq> kOk"

lemma Reset_loop_counts:
  assumes "Reset_loop envs cn sid is sl = Inr sl'" "distinct is" "\<forall>i \<in> set is. i < length (se_talks (sl_session sl sid))"
  shows "length (se_talks (sl_session sl' sid)) = length (se_talks (sl_session sl sid))
    \<and> (\<forall>i. i \<notin> set is \<longrightarrow> se_talks (sl_session sl' sid) ! i = se_talks (sl_session sl sid) ! i)
    \<and> (\<forall>i \<in> set is. if tk_status (se_talks (sl_session sl sid) ! i) = TsEnd
         then se_talks (sl_session sl' sid) ! i = se_talks (sl_session sl sid) ! i
         else same_talk (se_talks (sl_session sl sid) ! i) (se_talks (sl_session sl' sid) ! i))
    \<and> num_talks_done (sl_session sl' sid) = num_talks_done (sl_session sl sid)
        + length (filter (talk_over (se_talks (sl_session sl sid)) (se_talks (sl_session sl' sid))) is)"
  using assms
proof (induction "is" arbitrary: sl)
  case (Cons i "is")
  let ?s = "sl_session sl sid"
  let ?t = "se_talks ?s ! i"
  obtain sl1 t1 where step: "Reset_loop envs cn sid is sl1 = Inr sl'" "se_talks (sl_session sl1 sid) = (se_talks ?s)[i := t1]"
    "num_talks_done (sl_session sl1 sid) = num_talks_done ?s + (if tk_status ?t = TsEnd \<or> tk_error t1 \<noteq> kOk then 1 else 0)"
    "if tk_status ?t = TsEnd then t1 = ?t else same_talk ?t t1"
  proof (cases "tk_status ?t = TsEnd")
    case True
    then show thesis using Cons.prems
      by (intro that [of "set_session sid (?s\<lparr>num_talks_done := num_talks_done ?s + 1\<rparr>) sl" ?t]) (simp_all add: Let_def)
  next
    case False
    then obtain sl2 t2 fail where r: "ResetTalk (envs i) cn sid False ?t sl = Inr (sl2, t2, fail)"
      using Cons.prems(1) by (auto simp: Let_def obind_Inr_iff)
    let ?s2 = "?s\<lparr>se_talks := (se_talks ?s)[i := t2], has_failure := has_failure ?s \<or> fail,
      num_talks_done := (if tk_error t2 \<noteq> kOk then num_talks_done ?s + 1 else num_talks_done ?s)\<rparr>"
    show thesis using Cons.prems(1) False ResetTalk_frame [OF r] r
      by (intro that [of "set_session sid ?s2 sl2" t2]) (cases "tk_error t2 = kOk"; simp add: Let_def)+
  qed
  have len: "\<forall>j \<in> set is. j < length (se_talks (sl_session sl1 sid))" using Cons.prems(3) step(2) by simp
  note IH = Cons.IH [OF step(1) _ len]
  have i: "i \<notin> set is" "i < length (se_talks ?s)" "distinct is" using Cons.prems by auto
  have at: "se_talks (sl_session sl' sid) ! i = t1" using IH i step(2) by simp
  have eq: "filter (talk_over (se_talks (sl_session sl1 sid)) (se_talks (sl_session sl' sid))) is
    = filter (talk_over (se_talks ?s) (se_talks (sl_session sl' sid))) is"
    using i step(2) by (intro filter_cong refl) (auto simp: talk_over_def nth_list_update)
  have ov: "talk_over (se_talks ?s) (se_talks (sl_session sl' sid)) i \<longleftrightarrow> tk_status ?t = TsEnd \<or> tk_error t1 \<noteq> kOk"
    by (simp add: talk_over_def at)
  have oth: "se_talks (sl_session sl1 sid) ! j = se_talks ?s ! j" if "j \<noteq> i" for j using that step(2) by simp
  have same: "if tk_status (se_talks ?s ! j) = TsEnd then se_talks (sl_session sl' sid) ! j = se_talks ?s ! j
      else same_talk (se_talks ?s ! j) (se_talks (sl_session sl' sid) ! j)" if "j \<in> set (i # is)" for j
    using that IH i(1,3) step(4) at oth [of j] by (cases "j = i") auto
  have keep: "se_talks (sl_session sl' sid) ! j = se_talks ?s ! j" if "j \<notin> set (i # is)" for j
    using that IH i(3) oth [of j] by auto
  have num: "num_talks_done (sl_session sl' sid) = num_talks_done ?s
      + length (filter (talk_over (se_talks ?s) (se_talks (sl_session sl' sid))) (i # is))"
    using IH i(3) step(3) ov eq by auto
  have "length (se_talks (sl_session sl' sid)) = length (se_talks ?s)" using IH i(3) step(2) by simp
  with same keep num show ?case by blast
qed simp

lemma length_filter_all: "length (filter P xs) = length xs \<longleftrightarrow> (\<forall>x \<in> set xs. P x)"
  using length_filter_less [of _ xs P] by (metis filter_id_conv less_irrefl)

text \<open>The descriptor a talk connects with is not registered: the kernel gives out descriptors that are not open, and pooled
  connections, clients and connections kept by procedures were unregistered before.\<close>

definition unregistered :: "('w, 'r) ag_env \<Rightarrow> ('w, 'r) talk \<Rightarrow> ('w, 'r) slave \<Rightarrow> bool" where
  "unregistered env t sl = (case talk_connect env t sl of
     Inr (_, t', True) \<Rightarrow> sl_timers sl (nat (tk_fd t')) = None \<and> sl_contexts sl (nat (tk_fd t')) = None | _ \<Rightarrow> True)"

text \<open>The contexts registered with the driver are among those in use.\<close>

definition ectxs_ok :: "nat set \<Rightarrow> ('w, 'r) slave \<Rightarrow> bool" where
  "ectxs_ok out sl \<longleftrightarrow> pool_wf out (sl_ectx_pool sl) \<and> ran (sl_contexts sl) \<subseteq> out"

lemma get_ectx_ok:
  assumes "get_ectx sl = Inr (sl', c)" "ectxs_ok out sl"
  shows "c \<notin> out" "ectxs_ok (insert c out) sl'"
  using assms get_ok [of out "sl_ectx_pool sl" "fst (pool_Get True (sl_ectx_pool sl))" "Some c"]
  by (auto simp: get_ectx_def ectxs_ok_def split: prod.splits option.splits)

lemma ectxs_ok_frame [simp]:
  "ectxs_ok out (slave_close fds sl) = ectxs_ok out sl" "ectxs_ok out (set_ectx c e sl) = ectxs_ok out sl"
  "ectxs_ok out (set_session sid s sl) = ectxs_ok out sl"
  by (simp_all add: ectxs_ok_def)

text \<open>A context that is not in use can be written without disturbing a talk that waits.\<close>

lemma talk_waits_fresh_ectx:
  assumes "talk_waits sl sid u" "c \<notin> ran (sl_contexts sl)"
  shows "talk_waits (set_ectx c e sl) sid u"
  using assms by (auto simp: talk_waits_def ran_def split: option.splits)

lemma talk_waits_tables: "same_tables sl sl' \<Longrightarrow> talk_waits sl' sid u = talk_waits sl sid u"
  by (simp add: talk_waits_def same_tables_def split: option.split)

lemma talk_waits_close [simp]: "talk_waits (slave_close fds sl) sid u = talk_waits sl sid u"
  by (simp add: talk_waits_def split: option.split)

lemma RegEvent_keeps_waits:
  assumes "slave_RegEvent env f AddEvent dir c sl = Inr (sl', ok)" "slave_ok sl" "sl_timers sl (nat f) = None" "sl_contexts sl (nat f) = None" "0 < f"
    "talk_waits sl sid u"
  shows "talk_waits sl' sid u"
proof -
  have "nat (tk_fd u) \<noteq> nat f" "tk_fd u \<noteq> f" using assms(4-6) by (auto simp: talk_waits_def split: option.splits)
  then show ?thesis using assms(6) slave_RegEvent_ok [OF assms(1,2)] slave_RegEvent_frame [OF assms(1)] assms(3)
    by (auto simp: talk_waits_def reg_contexts_def split: option.splits)
qed

lemma ResetTalk_starts:
  assumes r: "ResetTalk env cn sid retry t sl = Inr (sl', t', fail)" and ok: "slave_ok sl" and un: "unregistered env t sl" and out: "ectxs_ok out sl"
  shows "\<exists>out'. ectxs_ok out' sl'" "slave_ok sl'" "\<not> fail \<Longrightarrow> talk_waits sl' sid t'" "talk_waits sl sid' u \<Longrightarrow> talk_waits sl' sid' u"
proof -
  have fresh: "fresh_conn env t sl" using un by (auto simp: unregistered_def fresh_conn_def split: sum.splits prod.splits bool.splits)
  show "slave_ok sl'" "\<not> fail \<Longrightarrow> talk_waits sl' sid t'" using ResetTalk_waits [OF r ok fresh] by auto
  have tab: "ectxs_ok out sl1 \<and> same_tables sl sl1" if "talk_connect env t sl = Inr (sl1, t1, go)" for sl1 t1 go
    using talk_connect_frame [OF that] out by (simp add: ectxs_ok_def same_tables_def)
  from r have "(\<exists>out'. ectxs_ok out' sl') \<and> (talk_waits sl sid' u \<longrightarrow> talk_waits sl' sid' u)"
  proof (cases rule: ResetTalk_cases)
    case (refused sl1 t1)
    then show ?thesis using tab [OF refused(2)] talk_waits_tables by blast
  next
    case (encode sl1 t1)
    then show ?thesis using tab [OF encode(2)] talk_waits_tables by blast
  next
    case (timeout sl1 t1 t2 sl2 c)
    note T = tab [OF timeout(2)] and G = get_ectx_frame [OF timeout(4)]
    note g = get_ectx_ok [OF timeout(4) T [THEN conjunct1]]
    have w: "talk_waits sl2 sid' u" if "talk_waits sl sid' u" using that T G talk_waits_tables same_trans(2) by blast
    have c: "c \<notin> ran (sl_contexts sl2)" using g(1) T G by (auto simp: ectxs_ok_def same_tables_def)
    show ?thesis using g(2) talk_waits_fresh_ectx [OF w c] timeout(5) by auto
  next
    case (registered sl1 t1 t2 sl2 c timeleft sl3 reg)
    note T = tab [OF registered(1)] and G = get_ectx_frame [OF registered(3)]
    note g = get_ectx_ok [OF registered(3) T [THEN conjunct1]]
    let ?e = "(BuildForSession (ae_clock env 0) (tk_fd t2) sid (no_talk t2) (sl_ectx sl2 c))\<lparr>ec_timeleft_ms := timeleft\<rparr>"
    let ?s = "set_ectx c ?e sl2"
    have fd: "tk_fd t2 = tk_fd t1" "0 < tk_fd t1" using talk_connect_frame [OF registered(1)] talk_rewrite_frame [OF registered(2)] by auto
    have d: "slave_ok ?s" "sl_timers ?s (nat (tk_fd t2)) = None" "sl_contexts ?s (nat (tk_fd t2)) = None"
      using T G ok un registered(1) fd by (auto simp: same_tables_def slave_ok_def unregistered_def)
    have c: "c \<notin> ran (sl_contexts sl2)" using g(1) T G by (auto simp: ectxs_ok_def same_tables_def)
    have w: "talk_waits ?s sid' u" if "talk_waits sl sid' u"
      by (rule talk_waits_fresh_ectx [OF _ c]) (use that T G talk_waits_tables same_trans(2) in blast)
    note R = slave_RegEvent_ok [OF registered(6) d(1)] slave_RegEvent_frame [OF registered(6)]
    have "ran (sl_contexts sl3) \<subseteq> insert c (ran (sl_contexts sl2))"
      using R d by (auto simp: ran_def reg_contexts_def split: if_splits)
    then have "ectxs_ok (insert c out) sl3" using g(2) R by (auto simp: ectxs_ok_def)
    moreover have "talk_waits sl3 sid' u" if "talk_waits sl sid' u"
      using RegEvent_keeps_waits [OF registered(6) d _ w [OF that]] fd by simp
    ultimately show ?thesis using registered(8) by auto
  qed
  then show "\<exists>out'. ectxs_ok out' sl'" "talk_waits sl sid' u \<Longrightarrow> talk_waits sl' sid' u" by auto
qed

lemma Reset_loop_append: "Reset_loop envs cn sid (xs @ ys) sl = obind (Reset_loop envs cn sid xs sl) (Reset_loop envs cn sid ys)"
  by (induction xs arbitrary: sl) (auto simp: Let_def obind_def split: sum.splits prod.splits)

text \<open>Whenever the loop comes to a talk that has not ended, the descriptor the talk connects with is not registered.\<close>

definition conns_fresh :: "(nat \<Rightarrow> ('w, 'r) ag_env) \<Rightarrow> conf_normal \<Rightarrow> nat \<Rightarrow> ('w, 'r) talk list \<Rightarrow> ('w, 'r) slave \<Rightarrow> bool" where
  "conns_fresh envs cn sid talks sl \<longleftrightarrow> (\<forall>n < length talks. tk_status (talks ! n) \<noteq> TsEnd \<longrightarrow>
     (case Reset_loop envs cn sid [0..<n] sl of Inl _ \<Rightarrow> True | Inr s \<Rightarrow> unregistered (envs n) (talks ! n) s))"

definition talk_new :: "('w, 'r) talk \<Rightarrow> bool" where
  "talk_new t \<longleftrightarrow> tk_error t = kOk \<and> 0 \<le> tk_fd t"

lemma Reset_prefix:
  fixes sl :: "('w, 'r) slave"
  assumes "se_talks (sl_session sl sid) = talks" "\<not> has_failure (sl_session sl sid)" "slave_ok sl" "ectxs_ok out sl" "conns_fresh envs cn sid talks sl"
    "\<forall>t \<in> set talks. tk_status t \<noteq> TsEnd \<longrightarrow> talk_new t" "n \<le> length talks" "Reset_loop envs cn sid [0..<n] sl = Inr s"
  shows "slave_ok s \<and> (\<exists>out'. ectxs_ok out' s)
    \<and> (\<forall>i < n. tk_status (talks ! i) \<noteq> TsEnd \<and> tk_error (se_talks (sl_session s sid) ! i) = kOk \<longrightarrow> talk_waits s sid (se_talks (sl_session s sid) ! i))
    \<and> has_failure (sl_session s sid) = (\<exists>i < n. tk_status (talks ! i) \<noteq> TsEnd \<and> tk_error (se_talks (sl_session s sid) ! i) \<noteq> kOk)"
  using assms(7,8)
proof (induction n arbitrary: s)
  case 0
  then show ?case using assms(2-4) by auto
next
  case (Suc n)
  then obtain s1 where s1: "Reset_loop envs cn sid [0..<n] sl = Inr s1" "Reset_loop envs cn sid [n] s1 = Inr s"
    by (auto simp: Reset_loop_append obind_Inr_iff)
  have IH: "slave_ok s1" "\<exists>out'. ectxs_ok out' s1"
    "\<And>i. i < n \<Longrightarrow> tk_status (talks ! i) \<noteq> TsEnd \<Longrightarrow> tk_error (se_talks (sl_session s1 sid) ! i) = kOk \<Longrightarrow> talk_waits s1 sid (se_talks (sl_session s1 sid) ! i)"
    "has_failure (sl_session s1 sid) = (\<exists>i < n. tk_status (talks ! i) \<noteq> TsEnd \<and> tk_error (se_talks (sl_session s1 sid) ! i) \<noteq> kOk)"
    using Suc.IH [OF _ s1(1)] Suc.prems(1) by auto
  let ?s = "sl_session s1 sid" and ?t = "talks ! n"
  have ts: "se_talks ?s ! n = ?t" "length (se_talks ?s) = length talks"
    using Reset_loop_counts [OF s1(1)] assms(1) Suc.prems(1) by auto
  show ?case
  proof (cases "tk_status ?t = TsEnd")
    case True
    then have "s = set_session sid (?s\<lparr>num_talks_done := num_talks_done ?s + 1\<rparr>) s1" using s1(2) ts by (simp add: Let_def)
    then show ?thesis using IH True by (auto simp: less_Suc_eq)
  next
    case False
    then obtain s2 t2 fail where r: "ResetTalk (envs n) cn sid False ?t s1 = Inr (s2, t2, fail)"
      "s = set_session sid (?s\<lparr>se_talks := (se_talks ?s)[n := t2], has_failure := has_failure ?s \<or> fail,
         num_talks_done := (if tk_error t2 \<noteq> kOk then num_talks_done ?s + 1 else num_talks_done ?s)\<rparr>) s2"
      using s1(2) ts ResetTalk_frame [where sl = s1] by (fastforce simp: Let_def obind_Inr_iff)
    obtain out' where out': "ectxs_ok out' s1" using IH(2) by blast
    have "unregistered (envs n) ?t s1" using assms(5) [unfolded conns_fresh_def, rule_format, of n] Suc.prems(1) False s1(1) by simp
    note R = ResetTalk_starts [OF r(1) IH(1) this out']
    have "talk_new ?t" using assms(6) False Suc.prems(1) by auto
    then have f: "fail \<longleftrightarrow> tk_error t2 \<noteq> kOk" using ResetTalk_fail [OF r(1)] by (simp add: talk_new_def)
    have w: "talk_waits s sid (se_talks (sl_session s sid) ! i)"
      if "i < Suc n" "tk_status (talks ! i) \<noteq> TsEnd" "tk_error (se_talks (sl_session s sid) ! i) = kOk" for i
    proof (cases "i = n")
      case True
      then show ?thesis using that r(2) ts(2) Suc.prems(1) R(3) f by simp
    next
      case False
      then show ?thesis using that r(2) IH(3) [of i] R(4) by simp
    qed
    have "has_failure (sl_session s sid) = (\<exists>i < Suc n. tk_status (talks ! i) \<noteq> TsEnd \<and> tk_error (se_talks (sl_session s sid) ! i) \<noteq> kOk)"
      using r(2) IH(4) f ts(2) Suc.prems(1) False by (auto simp: less_Suc_eq)
    then show ?thesis using w R(1,2) r(2) by auto
  qed
qed


section \<open>An example\<close>

text \<open>A slave with one session of one talk, which writes back to a client on descriptor 9.\<close>

definition demo_ops :: "int \<Rightarrow> (byte list, byte list) proto_ops" where
  "demo_ops ret = \<lparr>po_GetWrite = (\<lambda>_. Some []), po_GetRead = (\<lambda>_. Some []), po_wReset = (\<lambda>b _. b),
     po_Encode = (\<lambda>w. (w, True)), po_Write = (\<lambda>_ w. (w, ret)), po_rReset = (\<lambda>_ _. []),
     po_Read = (\<lambda>_ r. (r @ [1], ret)), po_Decode = (\<lambda>r. (r, True)), po_rCategory = (\<lambda>_. PcRapid)\<rparr>"

definition demo_ag :: "int \<Rightarrow> msec \<Rightarrow> (byte list, byte list) ag_env" where
  "demo_ag ret now = \<lparr>ae_drv = drv_demo_env now, ae_conn = demo_env 0 (\<lambda>_. True) [(7, 0, 0)] 3, ae_ops = demo_ops ret,
     ae_clock = (\<lambda>_. now), ae_sec = now div 1000, ae_worker = True, ae_back = [True]\<rparr>"

definition demo_talk :: "(byte list, byte list) talk" where
  "demo_talk = \<lparr>no_talk = 0, tk_category = TcWriteOnly, tk_service = None, tk_buf = Some [1], protocol_write = Some [1],
     protocol_read = None, starttime_ms = 0, endtime_ms = 100, tk_status = TsWrite, tk_error = kOk, fail_remotes = [],
     tk_retry = 0, tk_fd = 9, tk_remote = None\<rparr>"

definition demo_slave :: "(byte list, byte list) slave" where
  "demo_slave = \<lparr>sl_driver = (EventsDriver_new False)\<lparr>drv_inited := True\<rparr>, sl_interest = (\<lambda>_. EvIn),
     sl_conns = the (ConnsMgr_new 10 (demo_remote, demo_pool)),
     sl_ectx_pool = PoolObjs_new 64 0 65536 True True (2 ^ 18), sl_ectx = (\<lambda>_. \<lparr>ec_fd = 0, ec_timeleft_ms = 0, ec_lasttime_ms = 0, ec_data = NotifyCtx\<rparr>),
     sl_session_pool = PoolObjs_new 64 0 65536 True True (2 ^ 18),
     sl_session = (\<lambda>_. \<lparr>se_biz = 7, se_talks = [demo_talk], num_talks_done = 0, has_failure = False\<rparr>),
     sl_mailbox = [], num_clients_keepalive = 1, sl_end = False, sl_closed = [], sl_freed_reads = [], sl_back = [], sl_new_reqs = []\<rparr>"

lemma drv_inv_inited [simp]: "drv_inv (d\<lparr>drv_inited := b\<rparr>) = drv_inv d" "drv_timers (d\<lparr>drv_inited := b\<rparr>) = drv_timers d"
  by (simp_all add: drv_inv_def drv_sg_def [abs_def] drv_entries_def [abs_def] drv_timers_def [abs_def] cong: if_cong)

lemma demo_slave_ok: "slave_ok demo_slave" "sl_timers demo_slave = Map.empty"
  using drv_new_inv [of False] by (simp_all add: slave_ok_def demo_slave_def)

lemmas demo_session = demo_slave_def demo_talk_def demo_ag_def demo_ops_def

lemma demo_finish:
  "FinishTalk env cn 1 succ 0 demo_slave = Inr (set_session 1 \<lparr>se_biz = 7, se_talks = [demo_talk], num_talks_done = 1,
     has_failure = (\<not> succ)\<rparr> demo_slave, True)"
  by (cases succ) (simp_all add: FinishTalk_def report_talk_def demo_session Let_def)

theorem FinishTalk_progress_witness:
  "\<exists>sl'. FinishTalk (demo_ag 0 5) demo_conf 1 True 0 demo_slave = Inr (sl', True)
     \<and> session_todo (sl_session sl' 1) < session_todo (sl_session demo_slave 1)"
proof -
  have "num_talks_done (sl_session demo_slave 1) < length (se_talks (sl_session demo_slave 1))" by (simp add: demo_slave_def)
  from FinishTalk_progress [OF demo_finish [of "demo_ag 0 5" demo_conf True] this] demo_finish [of "demo_ag 0 5" demo_conf True]
  show ?thesis by blast
qed

theorem FinishTalk_outcome_witness:
  "\<exists>sl'. FinishTalk (demo_ag 0 5) demo_conf 1 False 0 demo_slave = Inr (sl', True) \<and> slave_ok sl'
     \<and> num_talks_done (sl_session sl' 1) = 1 \<and> has_failure (sl_session sl' 1)"
proof -
  let ?s = "sl_session demo_slave 1"
  let ?sl' = "set_session 1 \<lparr>se_biz = 7, se_talks = [demo_talk], num_talks_done = 1, has_failure = True\<rparr> demo_slave"
  have r: "tk_retry (se_talks ?s ! 0) = 0" "num_talks_done ?s = 0" by (simp_all add: demo_session)
  have "retry_fresh (demo_ag 0 5) False (se_talks ?s ! 0) demo_slave"
    by (simp add: retry_fresh_def report_talk_def fresh_conn_def talk_connect_def demo_session)
  from FinishTalk_outcome [OF demo_finish [of "demo_ag 0 5" demo_conf False] demo_slave_ok(1) refl refl refl refl this] r
  show ?thesis by (intro exI [of _ ?sl']) (simp add: demo_finish [simplified])
qed

text \<open>A session of two talks, one of which has ended already: the other one writes to descriptor 9.\<close>

lemma demo_ectxs: "ectxs_ok {} demo_slave" "sl_contexts demo_slave = Map.empty"
proof -
  have "pool_wf {} (PoolObjs_new 64 0 65536 True True (2 ^ 18))" by (rule pool_new_wf) simp_all
  moreover show "sl_contexts demo_slave = Map.empty" by (auto simp: demo_slave_def EventsDriver_new_def drv_contexts_def fun_eq_iff)
  ultimately show "ectxs_ok {} demo_slave" by (simp add: ectxs_ok_def demo_slave_def)
qed

lemma demo_session_pool: "\<exists>p v. pool_Get True (PoolObjs_new 64 0 65536 True True (2 ^ 18)) = (p, Some v)"
  by (simp add: pool_Init_loop_empty PoolObjs_new_def pool_Get_def pool_raii_def pool_Init_def pool_AllocABlock_def Let_def)

text \<open>A talk with an open descriptor of no remote, in time, is started when the system call succeeds.\<close>

lemma ResetTalk_goes:
  assumes "0 < tk_fd t" "tk_remote t = None" "unregistered env t sl" "slave_ok sl" "get_ectx sl = Inr (sl1, c)" "ae_clock env 1 < endtime_ms t"
    "ctl_ok (ae_drv env) AddEvent (tk_fd t)"
  shows "\<exists>sl'. ResetTalk env cn sid False t sl = Inr (sl', t, False)"
proof -
  have con: "talk_connect env t sl = Inr (sl, t, True)" using assms(1) by (simp add: talk_connect_def)
  obtain left where left: "talk_timeleft cn (sl_conns sl1) (endtime_ms t - ae_clock env 1) t = Inr left" using assms(2) by (simp add: talk_timeleft_def)
  let ?b = "BuildForSession (ae_clock env 0) (tk_fd t) sid (no_talk t) (sl_ectx sl1 c)"
  let ?s = "set_ectx c (?b\<lparr>ec_timeleft_ms := left\<rparr>) (set_ectx c ?b sl1)"
  have "sl_driver ?s = sl_driver sl" using get_ectx_frame [OF assms(5)] by (simp add: same_tables_def)
  then have d: "drv_inv (sl_driver ?s)" "drv_inited (sl_driver ?s)" "drv_timers (sl_driver ?s) (nat (tk_fd t)) = None" "0 \<le> tk_fd t"
    using assms(1,3,4) con by (simp_all add: slave_ok_def unregistered_def)
  obtain sl2 where "slave_RegEvent env (tk_fd t) AddEvent (if tk_status t = TsRead then EvIn else EvOut) c ?s = Inr (sl2, True)"
    using drv_RegEvent_ok [OF d(1,2,4), of AddEvent "ae_drv env" "Some c" "to_int32 (ec_timeleft_ms (sl_ectx ?s c))"] d(3) assms(7)
    by (fastforce simp: slave_RegEvent_def)
  then show ?thesis using con left assms(5,6) by (auto simp: ResetTalk_def talk_rewrite_def Let_def split: option.split)
qed


end
