(* ===== verification/Agent_Slave.thy ===== *)
theory Agent_Slave
  imports Session_Model
begin

text \<open>
  The agent slave, \<^verbatim>\<open>src/agents/agent_slave.h\<close> and \<^verbatim>\<open>src/agents/details/agent_slave.cpp\<close>: the
  thread that waits for events on the sockets of clients and remotes, moves the talks of sessions
  through connecting, writing and reading, times them out, and takes messages from the
  schedulers and the agent master. The mailbox is the queue it implements; the handlers of
  one round get their environments from functions of their position.
\<close>

section \<open>Helpers\<close>

definition kMaxNumMailsProcessedOnce :: nat where "kMaxNumMailsProcessedOnce = 100000"

text \<open>\<^verbatim>\<open>CheckEventCtxTimeout_\<close>: false is a timeout; 0 as the new time means what is left of the
  old one.\<close>

definition CheckEventCtxTimeout :: "msec \<Rightarrow> msec \<Rightarrow> 'r ectx \<Rightarrow> 'r ectx \<times> bool" where
  "CheckEventCtxTimeout now timeleft c =
     (let consumed = now - ec_lasttime_ms c in
      if consumed \<ge> ec_timeleft_ms c then (c, False)
      else (c\<lparr>ec_timeleft_ms := (if timeleft \<noteq> 0 then timeleft else ec_timeleft_ms c - consumed),
              ec_lasttime_ms := now\<rparr>, True))"

definition CloseFdClient :: "fd \<Rightarrow> ('w, 'r) slave \<Rightarrow> ('w, 'r) slave" where
  "CloseFdClient f sl = slave_close [f] (sl\<lparr>num_clients_keepalive := num_clients_keepalive sl - 1\<rparr>)"

definition FreeRead :: "'r option \<Rightarrow> ('w, 'r) slave \<Rightarrow> ('w, 'r) slave outcome" where
  "FreeRead r sl = (case r of None \<Rightarrow> Inl NullDeref | Some x \<Rightarrow> Inr (sl\<lparr>sl_freed_reads := sl_freed_reads sl @ [x]\<rparr>))"

text \<open>\<^verbatim>\<open>SendBackMsg_\<close> tries until the scheduler's mailbox takes the message.\<close>

fun send_until :: "bool list \<Rightarrow> bool" where
  "send_until [] = False"
| "send_until (ret # rets) = (ret \<or> send_until rets)"

definition SendBackMsg :: "('w, 'r) ag_env \<Rightarrow> ('w, 'r) msg_session \<Rightarrow> ('w, 'r) slave \<Rightarrow> ('w, 'r) slave outcome" where
  "SendBackMsg env m sl =
     (if send_until (ae_back env) then Inr (sl\<lparr>sl_back := sl_back sl @ [m]\<rparr>) else Inl NoReturn)"

definition free_session :: "nat \<Rightarrow> ('w, 'r) slave \<Rightarrow> ('w, 'r) slave" where
  "free_session sid sl = sl\<lparr>sl_session_pool := pool_Free True sid (sl_session_pool sl)\<rparr>"

section \<open>Events of sessions\<close>

text \<open>The label \<^verbatim>\<open>ERROR_HANDLE\<close> of the three handlers below.\<close>

definition session_event_end ::
  "('w, 'r) ag_env \<Rightarrow> ('w, 'r) talk \<Rightarrow> ('w, 'r) slave \<Rightarrow> (('w, 'r) slave \<times> ('w, 'r) talk \<times> bool) outcome" where
  "session_event_end env t sl =
     obind (slave_RegEventDel env (tk_fd t) sl) (\<lambda>sl.
       if tk_error t \<noteq> kOk then Inr (slave_close [tk_fd t] sl, t\<lparr>tk_fd := -1\<rparr>, False)
       else Inr (sl, t, False))"

text \<open>Waiting for the next event: the time left, then \<^verbatim>\<open>RegEvent\<close> with \<^verbatim>\<open>kModEvent\<close>.\<close>

definition session_event_wait ::
  "('w, 'r) ag_env \<Rightarrow> msec \<Rightarrow> msec \<Rightarrow> drv_event \<Rightarrow> nat \<Rightarrow> talk_status \<Rightarrow> ('w, 'r) talk \<Rightarrow> ('w, 'r) slave
     \<Rightarrow> (('w, 'r) slave \<times> ('w, 'r) talk \<times> bool) outcome" where
  "session_event_wait env now timeleft dir c st t sl =
     (case CheckEventCtxTimeout now timeleft (sl_ectx sl c) of (e, in_time) \<Rightarrow>
      let sl = set_ectx c e sl in
      if \<not> in_time then session_event_end env (t\<lparr>tk_error := kTimeout\<rparr>) sl
      else let t = t\<lparr>tk_status := st\<rparr> in
        obind (slave_RegEvent env (tk_fd t) ModEvent dir c sl) (\<lambda>(sl, ok).
          if ok then Inr (sl, t, True) else session_event_end env (t\<lparr>tk_error := kOther\<rparr>) sl))"

definition talk_rem :: "('w, 'r) talk \<Rightarrow> ('w, 'r) slave \<Rightarrow> remote outcome" where
  "talk_rem t sl = (case tk_remote t of None \<Rightarrow> Inl NullDeref | Some q \<Rightarrow> cm_deref (sl_conns sl) q)"

definition HandleSessionEventConn ::
  "('w, 'r) ag_env \<Rightarrow> nat \<Rightarrow> ('w, 'r) talk \<Rightarrow> ('w, 'r) slave \<Rightarrow> (('w, 'r) slave \<times> ('w, 'r) talk \<times> bool) outcome" where
  "HandleSessionEventConn env c t sl =
     (let ro = (tk_category t = TcReadOnly); t = t\<lparr>tk_status := (if ro then TsRead else TsWrite)\<rparr> in
      obind (talk_rem t sl) (\<lambda>r.
        session_event_wait env (ae_clock env 1)
          (min (endtime_ms t - ae_clock env 0) (if \<not> ro then rm_wtimeo_ms r else rm_rtimeo_ms r))
          (if \<not> ro then EvOut else EvIn) c (tk_status t) t sl))"

definition HandleSessionEventRead ::
  "('w, 'r) ag_env \<Rightarrow> nat \<Rightarrow> ('w, 'r) talk \<Rightarrow> ('w, 'r) slave \<Rightarrow> (('w, 'r) slave \<times> ('w, 'r) talk \<times> bool) outcome" where
  "HandleSessionEventRead env c t sl =
     (case protocol_read t of None \<Rightarrow> Inl NullDeref | Some r \<Rightarrow>
      case po_Read (ae_ops env) (tk_fd t) r of (r, ret) \<Rightarrow>
      let t = t\<lparr>protocol_read := Some r\<rparr> in
      if ret = 0 then
        (case po_Decode (ae_ops env) r of (r, ok) \<Rightarrow>
           session_event_end env (t\<lparr>protocol_read := Some r, tk_error := (if ok then kOk else kDecode)\<rparr>) sl)
      else if ret > 0 then session_event_wait env (ae_clock env 0) 0 EvIn c (tk_status t) t sl
      else session_event_end env (t\<lparr>tk_error := kBroken\<rparr>) sl)"

definition HandleSessionEventWrite ::
  "('w, 'r) ag_env \<Rightarrow> nat \<Rightarrow> ('w, 'r) talk \<Rightarrow> ('w, 'r) slave \<Rightarrow> (('w, 'r) slave \<times> ('w, 'r) talk \<times> bool) outcome" where
  "HandleSessionEventWrite env c t sl =
     (case protocol_write t of None \<Rightarrow> Inl NullDeref | Some w \<Rightarrow>
      case po_Write (ae_ops env) (tk_fd t) w of (w, ret) \<Rightarrow>
      let t = t\<lparr>protocol_write := Some w\<rparr> in
      if ret = 0 then
        if tk_category t = TcWriteAndRead then
          obind (talk_rem t sl) (\<lambda>r.
            session_event_wait env (ae_clock env 1) (min (endtime_ms t - ae_clock env 0) (rm_rtimeo_ms r)) EvIn c TsRead t sl)
        else session_event_end env (t\<lparr>tk_error := kOk\<rparr>) sl
      else if ret > 0 then session_event_wait env (ae_clock env 0) 0 EvOut c (tk_status t) t sl
      else session_event_end env (t\<lparr>tk_error := kBroken\<rparr>) sl)"

text \<open>\<^verbatim>\<open>CheckSession_\<close>; true when the session has ended. A talk in another state, for which
  the code only logs, is finished with the error it has.\<close>

definition session_event ::
  "('w, 'r) ag_env \<Rightarrow> drv_event \<Rightarrow> nat \<Rightarrow> ('w, 'r) talk \<Rightarrow> ('w, 'r) slave \<Rightarrow> (('w, 'r) slave \<times> ('w, 'r) talk \<times> bool) outcome" where
  "session_event env ev c t sl =
     (if ev = EvIn \<or> ev = EvOut then
        (case tk_status t of
           TsConn \<Rightarrow> HandleSessionEventConn env c t sl
         | TsRead \<Rightarrow> HandleSessionEventRead env c t sl
         | TsWrite \<Rightarrow> HandleSessionEventWrite env c t sl
         | _ \<Rightarrow> Inr (sl, t, False))
      else obind (slave_RegEventDel env (tk_fd t) sl) (\<lambda>sl.
        Inr (slave_close [tk_fd t] sl, t\<lparr>tk_fd := -1, tk_error := (if ev = EvErr then kBroken else kTimeout)\<rparr>, False)))"

definition CheckSession ::
  "('w, 'r) ag_env \<Rightarrow> conf_normal \<Rightarrow> drv_event \<Rightarrow> nat \<Rightarrow> nat \<Rightarrow> nat \<Rightarrow> ('w, 'r) slave \<Rightarrow> (('w, 'r) slave \<times> bool) outcome" where
  "CheckSession env cn ev c sid no sl =
     (if no \<ge> length (se_talks (sl_session sl sid)) then Inl OutOfRange
      else obind (session_event env ev c (se_talks (sl_session sl sid) ! no) sl) (\<lambda>(sl, t, more_events).
        let sl = set_talk sid no t sl in
        if more_events then Inr (sl, False)
        else FinishTalk env cn sid (tk_error t = kOk) no (free_ectx c sl)))"

section \<open>Requests of clients\<close>

text \<open>\<^verbatim>\<open>HandleReadReq_\<close>: 0 when the request is complete, 1 to wait, negative for an error.\<close>

definition HandleReadReq ::
  "('w, 'r) ag_env \<Rightarrow> nat \<Rightarrow> int \<Rightarrow> sec \<Rightarrow> 'r option \<Rightarrow> ('w, 'r) slave \<Rightarrow> (('w, 'r) slave \<times> int) outcome" where
  "HandleReadReq env c idp starttime r sl =
     (case r of None \<Rightarrow> Inl NullDeref | Some r \<Rightarrow>
      case po_Read (ae_ops env) (ec_fd (sl_ectx sl c)) r of (r, ret) \<Rightarrow>
      let put = (\<lambda>r sl. set_ectx c ((sl_ectx sl c)\<lparr>ec_data := ReadReqCtx idp starttime (Some r)\<rparr>) sl);
          give_up = (\<lambda>ret sl. obind (slave_RegEventDel env (ec_fd (sl_ectx sl c)) sl) (\<lambda>sl. Inr (sl, ret)));
          sl = put r sl
      in if ret = 0 then
           (case po_Decode (ae_ops env) r of (r, ok) \<Rightarrow> give_up (if ok then 0 else -1) (put r sl))
         else if ret > 0 then
           (case CheckEventCtxTimeout (ae_clock env 0) 0 (sl_ectx sl c) of (e, in_time) \<Rightarrow>
              let sl = set_ectx c e sl in
              if \<not> in_time then give_up (-1) sl
              else obind (slave_RegEvent env (ec_fd e) ModEvent EvIn c sl) (\<lambda>(sl, ok).
                if ok then Inr (sl, 1) else give_up (-1) sl))
         else give_up ret sl)"

text \<open>The ends of the branch for requests: the context alone, or all of it.\<close>

definition drop_read_req :: "nat \<Rightarrow> ('w, 'r) slave \<Rightarrow> ('w, 'r) slave outcome" where
  "drop_read_req c sl =
     (case ec_data (sl_ectx sl c) of
        ReadReqCtx idp starttime r \<Rightarrow>
          obind (FreeRead r (CloseFdClient (ec_fd (sl_ectx sl c)) (set_ectx c ((sl_ectx sl c)\<lparr>ec_fd := -1\<rparr>) sl)))
            (\<lambda>sl. Inr (free_ectx c sl))
      | _ \<Rightarrow> Inl Dangling)"

definition read_req_event ::
  "('w, 'r) ag_env \<Rightarrow> drv_event \<Rightarrow> nat \<Rightarrow> int \<Rightarrow> sec \<Rightarrow> 'r option \<Rightarrow> ('w, 'r) slave \<Rightarrow> ('w, 'r) slave outcome" where
  "read_req_event env ev c idp starttime r sl =
     (if ev \<noteq> EvErr then
        obind (HandleReadReq env c idp starttime r sl) (\<lambda>(sl, ret).
          if ret = 0 then
            (case ec_data (sl_ectx sl c) of
               ReadReqCtx idp starttime r \<Rightarrow>
                 if ae_worker env
                 then let m = BuildForNewReq idp (ec_fd (sl_ectx sl c)) starttime r;
                          sl = set_ectx c ((sl_ectx sl c)\<lparr>ec_data := ReadReqCtx idp starttime None\<rparr>)
                                 (sl\<lparr>sl_new_reqs := sl_new_reqs sl @ [m]\<rparr>)
                      in Inr (free_ectx c sl)
                 else drop_read_req c sl
             | _ \<Rightarrow> Inl Dangling)
          else if ret > 0 then Inr sl
          else drop_read_req c sl)
      else obind (slave_RegEventDel env (ec_fd (sl_ectx sl c)) sl) (drop_read_req c))"

section \<open>Events\<close>

text \<open>One ready event. After \<^verbatim>\<open>CheckSession_\<close> the context is read although it was given back;
  the pool keeps its memory.\<close>

definition handle_event ::
  "('w, 'r) ag_env \<Rightarrow> conf_normal \<Rightarrow> drv_event \<Rightarrow> nat \<Rightarrow> ('w, 'r) slave \<Rightarrow> ('w, 'r) slave outcome" where
  "handle_event env cn ev c sl =
     (case ec_data (sl_ectx sl c) of
        SessionCtx sid no \<Rightarrow>
          obind (CheckSession env cn ev c sid no sl) (\<lambda>(sl, finished).
            if finished then
              (case ec_data (sl_ectx sl c) of
                 SessionCtx sid no \<Rightarrow>
                   (let s = sl_session sl sid in
                    obind (SendBackMsg env (BuildForSessionMsg (se_biz s) (se_talks s) 0 (if \<not> has_failure s then kOk else kPartial)) sl)
                      (\<lambda>sl. Inr (free_session sid sl)))
               | _ \<Rightarrow> Inl Dangling)
            else Inr sl)
      | ReadReqCtx idp starttime r \<Rightarrow> read_req_event env ev c idp starttime r sl
      | NotifyCtx \<Rightarrow> Inr sl
      | ListenCtx _ \<Rightarrow> Inr sl)"

definition CheckEvents ::
  "drv_env \<Rightarrow> (msec \<Rightarrow> int \<times> (u32 \<times> fd) list) \<Rightarrow> (nat \<Rightarrow> ('w, 'r) ag_env) \<Rightarrow> conf_normal \<Rightarrow> ('w, 'r) slave
     \<Rightarrow> (('w, 'r) slave \<times> bool) outcome" where
  "CheckEvents denv epoll_wait envs cn sl =
     (case drv_Wait denv epoll_wait (if low_latency cn then 0 else 1) (sl_driver sl) of (d, num) \<Rightarrow>
      let sl = sl\<lparr>sl_driver := d\<rparr> in
      if num > 0 then
        obind (ofold (\<lambda>i sl.
            obind (drv_CheckReadyEvent i (sl_driver sl)) (\<lambda>(ev, ctx).
              case ctx of None \<Rightarrow> Inl NullDeref | Some c \<Rightarrow> handle_event (envs i) cn ev c sl))
          [0..<nat num] sl) (\<lambda>sl. Inr (sl, True))
      else Inr (sl, False))"

section \<open>Timeouts\<close>

definition clean_timeout :: "('w, 'r) ag_env \<Rightarrow> conf_normal \<Rightarrow> nat \<Rightarrow> ('w, 'r) slave \<Rightarrow> ('w, 'r) slave outcome" where
  "clean_timeout env cn c sl =
     obind (case ec_data (sl_ectx sl c) of
        SessionCtx sid no \<Rightarrow>
          (if no \<ge> length (se_talks (sl_session sl sid)) then Inl OutOfRange
           else let t = se_talks (sl_session sl sid) ! no;
                    sl = set_talk sid no (t\<lparr>tk_fd := -1\<rparr>) (slave_close [tk_fd t] sl)
           in obind (FinishTalk env cn sid False no sl) (\<lambda>(sl, finished).
             if finished then
               let s = sl_session sl sid in
               obind (SendBackMsg env (BuildForSessionMsg (se_biz s) (se_talks s) 0 kPartial) sl) (\<lambda>sl. Inr (free_session sid sl))
             else Inr sl))
      | ReadReqCtx idp starttime r \<Rightarrow>
          (let sl = CloseFdClient (ec_fd (sl_ectx sl c)) (set_ectx c ((sl_ectx sl c)\<lparr>ec_fd := -1\<rparr>) sl)
           in if r = None then Inr sl else FreeRead r sl)
      | _ \<Rightarrow> Inr sl)
     (\<lambda>sl. Inr (free_ectx c sl))"

definition CleanTimeouts ::
  "drv_env \<Rightarrow> (nat \<Rightarrow> ('w, 'r) ag_env) \<Rightarrow> conf_normal \<Rightarrow> ('w, 'r) slave \<Rightarrow> (('w, 'r) slave \<times> bool) outcome" where
  "CleanTimeouts denv envs cn sl =
     (case drv_RemoveTimeouts denv (sl_driver sl) of
        None \<Rightarrow> Inl NoReturn
      | Some res \<Rightarrow> obind res (\<lambda>d.
          if \<not> drv_inited d then Inl NullDeref
          else let cs = tmp_timeo_contexts d in
            obind (ofold (\<lambda>i. clean_timeout (envs i) cn (cs ! i)) [0..<length cs] (sl\<lparr>sl_driver := d\<rparr>)) (\<lambda>sl.
              Inr (sl, cs \<noteq> []))))"

section \<open>Mailbox\<close>

definition FreeFds ::
  "('w, 'r) ag_env \<Rightarrow> (fd \<times> remote_ptr) list \<Rightarrow> ('w, 'r) slave \<Rightarrow> ('w, 'r) slave outcome" where
  "FreeFds env = ofold (\<lambda>(f, q) sl.
     obind (cm_deref (sl_conns sl) q) (\<lambda>r.
       obind (cm_FreeFd (ae_conn env) r f (sl_conns sl)) (\<lambda>(cm, cl). Inr (slave_close cl (sl\<lparr>sl_conns := cm\<rparr>)))))"

text \<open>Waiting for the request of a client: a context for it, registered.\<close>

definition await_request ::
  "('w, 'r) ag_env \<Rightarrow> fd \<Rightarrow> int \<Rightarrow> sec \<Rightarrow> 'r \<Rightarrow> 'r \<Rightarrow> msec \<Rightarrow> ('w, 'r) slave \<Rightarrow> ('w, 'r) slave outcome" where
  "await_request env f idp starttime r r_reset timeleft sl =
     obind (get_ectx sl) (\<lambda>(sl, c).
       let e = BuildForReadReq (ae_clock env 0) f idp starttime r timeleft (sl_ectx sl c);
           e = e\<lparr>ec_data := ReadReqCtx idp starttime (Some r_reset)\<rparr>
       in obind (slave_RegEvent env f AddEvent EvIn c (set_ectx c e sl)) (\<lambda>(sl, ok).
         if ok then Inr sl
         else obind (FreeRead (Some r_reset) (CloseFdClient f sl)) (\<lambda>sl. Inr (free_ectx c sl))))"

definition HandleMsgDestruct ::
  "('w, 'r) ag_env \<Rightarrow> conf_normal \<Rightarrow> 'r msg_destruct \<Rightarrow> ('w, 'r) slave \<Rightarrow> ('w, 'r) slave outcome" where
  "HandleMsgDestruct env cn m sl =
     obind (FreeFds env (case md_big_cache m of None \<Rightarrow> md_small_cache m | Some b \<Rightarrow> b) sl) (\<lambda>sl.
       if md_fd_client m \<le> 0
       then FreeRead (md_protocol_read m) (sl\<lparr>num_clients_keepalive := num_clients_keepalive sl - 1\<rparr>)
       else let timeleft = min ((md_starttime_sec m + client_keepalive_sec cn - ae_sec env + 1) * 1000) (rtimeo_ms cn)
         in if timeleft \<le> 0 then FreeRead (md_protocol_read m) (CloseFdClient (md_fd_client m) sl)
            else case md_protocol_read m of
              None \<Rightarrow> Inl NullDeref
            | Some r \<Rightarrow> await_request env (md_fd_client m) (md_id_procedure m) (md_starttime_sec m) r
                (po_rReset (ae_ops env) None r) timeleft sl)"

definition handle_msg ::
  "(nat \<Rightarrow> ('w, 'r) ag_env) \<Rightarrow> conf_normal \<Rightarrow> remote list \<Rightarrow> ('w, 'r) msg \<Rightarrow> ('w, 'r) slave \<Rightarrow> ('w, 'r) slave outcome" where
  "handle_msg envs cn remotes m sl =
     (case m of
        MsgConfig \<Rightarrow> obind (ConfigRemotes remotes (sl_conns sl)) (\<lambda>cm. Inr (sl\<lparr>sl_conns := cm\<rparr>))
      | MsgSession ms \<Rightarrow>
          (case pool_Get True (sl_session_pool sl) of
             (p, None) \<Rightarrow> Inl NullDeref
           | (p, Some sid) \<Rightarrow>
               obind (Session_Reset envs cn sid (ms_biz ms) (ms_talks ms) (sl\<lparr>sl_session_pool := p\<rparr>)) (\<lambda>(sl, ok).
                 if ok then Inr sl
                 else SendBackMsg (envs 0) (ms\<lparr>ms_talks := se_talks (sl_session sl sid), ms_error := kBroken\<rparr>) sl))
      | MsgReadReq rq \<Rightarrow>
          (let sl = sl\<lparr>num_clients_keepalive := num_clients_keepalive sl + 1\<rparr> in
           case po_GetRead (ae_ops (envs 0)) (la_category (rq_listen_addr rq)) of
             None \<Rightarrow> Inl NullDeref
           | Some r \<Rightarrow>
               let r = po_rReset (ae_ops (envs 0)) (Some (rq_listen_addr rq)) r
               in await_request (envs 0) (rq_fd_client rq) (rq_id_procedure rq) (rq_starttime_sec rq) r r (rtimeo_ms cn) sl)
      | MsgDestruct md \<Rightarrow> HandleMsgDestruct (envs 0) cn md sl
      | MsgNewReq _ \<Rightarrow> Inr sl)"

text \<open>\<^verbatim>\<open>CheckMailbox_\<close>, at most the given number of messages; the environment of a message is
  found by how many were handled before.\<close>

fun CheckMailbox_loop ::
  "nat \<Rightarrow> (nat \<Rightarrow> nat \<Rightarrow> ('w, 'r) ag_env) \<Rightarrow> conf_normal \<Rightarrow> remote list \<Rightarrow> nat \<Rightarrow> ('w, 'r) slave \<Rightarrow> (('w, 'r) slave \<times> nat) outcome" where
  "CheckMailbox_loop 0 envs cn remotes num sl = Inr (sl, num)"
| "CheckMailbox_loop (Suc k) envs cn remotes num sl =
     (case sl_mailbox sl of
        [] \<Rightarrow> Inr (sl, num)
      | m # rest \<Rightarrow> obind (handle_msg (envs num) cn remotes m sl) (\<lambda>sl.
          CheckMailbox_loop k envs cn remotes (num + 1) (sl\<lparr>sl_mailbox := tl (sl_mailbox sl)\<rparr>)))"

definition CheckMailbox ::
  "(nat \<Rightarrow> nat \<Rightarrow> ('w, 'r) ag_env) \<Rightarrow> conf_normal \<Rightarrow> remote list \<Rightarrow> ('w, 'r) slave \<Rightarrow> (('w, 'r) slave \<times> bool) outcome" where
  "CheckMailbox envs cn remotes sl =
     obind (CheckMailbox_loop kMaxNumMailsProcessedOnce envs cn remotes 0 sl) (\<lambda>(sl, num). Inr (sl, num \<noteq> 0))"

section \<open>The thread\<close>

text \<open>One round of \<^verbatim>\<open>Process_\<close> in its surroundings, and the loop over the rounds.\<close>

record ('w, 'r) round_env =
  re_wait :: drv_env
  re_epoll :: "msec \<Rightarrow> int \<times> (u32 \<times> fd) list"
  re_events :: "nat \<Rightarrow> ('w, 'r) ag_env"
  re_clean :: drv_env
  re_timeouts :: "nat \<Rightarrow> ('w, 'r) ag_env"
  re_mails :: "nat \<Rightarrow> nat \<Rightarrow> ('w, 'r) ag_env"
  re_remotes :: "remote list"

definition Process_round :: "conf_normal \<Rightarrow> ('w, 'r) round_env \<Rightarrow> ('w, 'r) slave \<Rightarrow> (('w, 'r) slave \<times> bool) outcome" where
  "Process_round cn re sl =
     obind (CheckEvents (re_wait re) (re_epoll re) (re_events re) cn sl) (\<lambda>(sl, events).
     obind (CleanTimeouts (re_clean re) (re_timeouts re) cn sl) (\<lambda>(sl, timeouts).
     obind (CheckMailbox (re_mails re) cn (re_remotes re) sl) (\<lambda>(sl, mails).
     Inr (sl, events \<or> timeouts \<or> mails))))"

fun Process :: "conf_normal \<Rightarrow> ('w, 'r) round_env list \<Rightarrow> ('w, 'r) slave \<Rightarrow> ('w, 'r) slave outcome" where
  "Process cn [] sl = Inl NoReturn"
| "Process cn (re # res) sl =
     obind (Process_round cn re sl) (\<lambda>(sl, again). if again then Process cn res sl else Inr sl)"

text \<open>\<^verbatim>\<open>SendMsg\<close> puts a message into the mailbox when there is room for it.\<close>

definition slave_SendMsg :: "bool \<Rightarrow> ('w, 'r) msg \<Rightarrow> ('w, 'r) slave \<Rightarrow> ('w, 'r) slave \<times> bool" where
  "slave_SendMsg room m sl = (if room then (sl\<lparr>sl_mailbox := sl_mailbox sl @ [m]\<rparr>, True) else (sl, False))"

text \<open>The end of \<^verbatim>\<open>Stop\<close>, after the thread was joined.\<close>

definition slave_Stop :: "drv_env \<Rightarrow> ('w, 'r) slave \<Rightarrow> ('w, 'r) slave outcome" where
  "slave_Stop denv sl =
     obind (drv_ClearAll denv (sl_driver (sl\<lparr>sl_end := True\<rparr>))) (\<lambda>d.
       if \<not> drv_inited d then Inl NullDeref
       else ofold (\<lambda>c sl.
         obind (case ec_data (sl_ectx sl c) of
             ReadReqCtx idp starttime (Some r) \<Rightarrow> FreeRead (Some r) sl
           | _ \<Rightarrow> Inr sl) (\<lambda>sl. Inr (free_ectx c sl)))
       (tmp_all_contexts d) (sl\<lparr>sl_driver := d, sl_end := True\<rparr>))"

section \<open>The contract of the session handlers\<close>

text \<open>What a handler of session events never changes.\<close>

definition talk_ident :: "('w, 'r) talk \<Rightarrow> ('w, 'r) talk \<Rightarrow> bool" where
  "talk_ident t t' \<longleftrightarrow> no_talk t' = no_talk t \<and> tk_retry t' = tk_retry t \<and> tk_remote t' = tk_remote t
     \<and> tk_service t' = tk_service t \<and> endtime_ms t' = endtime_ms t \<and> fail_remotes t' = fail_remotes t"

definition slave_keeps :: "nat \<Rightarrow> ('w, 'r) slave \<Rightarrow> ('w, 'r) slave \<Rightarrow> bool" where
  "slave_keeps c sl sl' \<longleftrightarrow> sl_session sl' = sl_session sl \<and> sl_ectx_pool sl' = sl_ectx_pool sl \<and> sl_conns sl' = sl_conns sl
     \<and> sl_back sl' = sl_back sl \<and> num_clients_keepalive sl' = num_clients_keepalive sl
     \<and> ec_data (sl_ectx sl' c) = ec_data (sl_ectx sl c) \<and> (\<forall>c'. c' \<noteq> c \<longrightarrow> sl_ectx sl' c' = sl_ectx sl c')"

text \<open>The talk goes on waiting on its registered descriptor, for the direction of its state; or
  its deadline is gone, and its descriptor is closed exactly when it has an error.\<close>

definition event_result ::
  "('w, 'r) talk \<Rightarrow> ('w, 'r) slave \<Rightarrow> ('w, 'r) slave \<Rightarrow> ('w, 'r) talk \<Rightarrow> bool \<Rightarrow> bool" where
  "event_result t sl sl' t' waiting \<longleftrightarrow> slave_ok sl' \<and>
     (if waiting
      then tk_fd t' = tk_fd t \<and> tk_error t' = tk_error t \<and> sl_closed sl' = sl_closed sl
        \<and> sl_contexts sl' = sl_contexts sl
        \<and> (\<forall>n. n \<noteq> nat (tk_fd t) \<longrightarrow> sl_timers sl' n = sl_timers sl n)
        \<and> sl_interest sl' (tk_fd t) = (if tk_status t' = TsRead then EvIn else EvOut)
      else sl_timers sl' = (sl_timers sl)(nat (tk_fd t) := None)
        \<and> (if tk_error t' = kOk then tk_fd t' = tk_fd t \<and> sl_closed sl' = sl_closed sl
           else tk_fd t' = -1 \<and> sl_closed sl' = sl_closed sl @ [tk_fd t]))"

locale session_handler =
  fixes entry :: talk_status
    and handle :: "('w, 'r) ag_env \<Rightarrow> nat \<Rightarrow> ('w, 'r) talk \<Rightarrow> ('w, 'r) slave \<Rightarrow> (('w, 'r) slave \<times> ('w, 'r) talk \<times> bool) outcome"
  assumes result: "handle env c t sl = Inr (sl', t', waiting) \<Longrightarrow> slave_ok sl \<Longrightarrow> tk_status t = entry
      \<Longrightarrow> event_result t sl sl' t' waiting"
    and keeps: "handle env c t sl = Inr (sl', t', waiting) \<Longrightarrow> tk_status t = entry \<Longrightarrow> slave_keeps c sl sl' \<and> talk_ident t t'"
begin

lemma deadline_only:
  assumes "handle env c t sl = Inr (sl', t', waiting)" "slave_ok sl" "tk_status t = entry" "n \<noteq> nat (tk_fd t)"
  shows "sl_timers sl' n = sl_timers sl n"
  using result [OF assms(1-3)] assms(4) by (auto simp: event_result_def split: if_splits)

lemma closed_once:
  assumes "handle env c t sl = Inr (sl', t', waiting)" "slave_ok sl" "tk_status t = entry" "tk_fd t > 0"
  shows "if tk_fd t' = tk_fd t then sl_closed sl' = sl_closed sl else tk_fd t' = -1 \<and> sl_closed sl' = sl_closed sl @ [tk_fd t]"
  using result [OF assms(1-3)] assms(4) by (auto simp: event_result_def split: if_splits)

end

lemma session_event_end_ok:
  assumes "session_event_end env t sl = Inr (sl', t', waiting)"
  shows "\<not> waiting" and "slave_ok sl \<Longrightarrow> event_result t sl sl' t' waiting"
    and "slave_keeps c sl sl' \<and> talk_ident t t' \<and> tk_error t' = tk_error t"
proof -
  obtain sl1 where d1: "slave_RegEventDel env (tk_fd t) sl = Inr sl1"
    using assms unfolding session_event_end_def obind_Inr_iff by blast
  have d: "slave_RegEventDel env (tk_fd t) sl = Inr sl1"
    "sl' = (if tk_error t \<noteq> kOk then slave_close [tk_fd t] sl1 else sl1)"
    "t' = (if tk_error t \<noteq> kOk then t\<lparr>tk_fd := -1\<rparr> else t)" "\<not> waiting"
    using assms d1 by (cases "tk_error t = kOk"; simp add: session_event_end_def)+
  show "\<not> waiting" by (rule d(4))
  obtain d' where sl1: "sl1 = sl\<lparr>sl_driver := d'\<rparr>" using slave_RegEventDel_frame [OF d(1)] by blast
  then show "slave_keeps c sl sl' \<and> talk_ident t t' \<and> tk_error t' = tk_error t"
    using d(2,3) by (auto simp: slave_keeps_def talk_ident_def slave_close_def)
  show "event_result t sl sl' t' waiting" if "slave_ok sl"
    using slave_RegEventDel_ok [OF d(1) that] d(2-4) sl1 by (auto simp: event_result_def)
qed

lemma event_result_chain:
  assumes "event_result u sl1 sl' t' w" "\<not> w" "tk_fd u = tk_fd t" "sl_closed sl1 = sl_closed sl"
    "(sl_timers sl1)(nat (tk_fd t) := None) = (sl_timers sl)(nat (tk_fd t) := None)"
  shows "event_result t sl sl' t' w"
  using assms by (auto simp: event_result_def)

lemma slave_keeps_trans: "slave_keeps c a b \<Longrightarrow> slave_keeps c b d \<Longrightarrow> slave_keeps c a d"
  by (simp add: slave_keeps_def)

lemma talk_ident_trans: "talk_ident a b \<Longrightarrow> talk_ident b d \<Longrightarrow> talk_ident a d"
  by (simp add: talk_ident_def)

lemma CheckEventCtxTimeout_data: "ec_data (fst (CheckEventCtxTimeout now l e)) = ec_data e"
  by (simp add: CheckEventCtxTimeout_def Let_def)

lemma slave_RegEvent_keeps: "slave_RegEvent env f op dir c' sl = Inr (sl', ok) \<Longrightarrow> slave_keeps c sl sl'"
  by (auto simp: slave_RegEvent_def slave_keeps_def obind_Inr_iff)

text \<open>Waiting again: with the right direction for the state, as the contract has it.\<close>

lemma session_event_wait_ok:
  assumes "session_event_wait env now l dir c st t sl = Inr (sl', t', waiting)"
  shows "slave_keeps c sl sl' \<and> talk_ident t t'"
    and "slave_ok sl \<Longrightarrow> dir = (if st = TsRead then EvIn else EvOut) \<Longrightarrow> event_result t sl sl' t' waiting"
proof -
  obtain e in_time where e: "CheckEventCtxTimeout now l (sl_ectx sl c) = (e, in_time)" by fastforce
  have k1: "slave_keeps c sl (set_ectx c e sl)"
    using CheckEventCtxTimeout_data [of now l "sl_ectx sl c"] e by (simp add: slave_keeps_def set_ectx_def)
  have *: "(slave_keeps c sl sl' \<and> talk_ident t t')
    \<and> (slave_ok sl \<and> dir = (if st = TsRead then EvIn else EvOut) \<longrightarrow> event_result t sl sl' t' waiting)"
  proof (cases in_time)
    case False
    let ?t = "t\<lparr>tk_error := kTimeout\<rparr>"
    have E: "session_event_end env ?t (set_ectx c e sl) = Inr (sl', t', waiting)"
      using assms e False by (simp add: session_event_wait_def)
    have "talk_ident t ?t" by (simp add: talk_ident_def)
    then show ?thesis
      using session_event_end_ok(3) [OF E, of c] slave_keeps_trans [OF k1] talk_ident_trans [of t ?t t']
        event_result_chain [of ?t "set_ectx c e sl" sl' t' waiting t sl] session_event_end_ok(1,2) [OF E]
      by auto
  next
    case True
    let ?t = "t\<lparr>tk_status := st\<rparr>"
    obtain sl1 ok where r: "slave_RegEvent env (tk_fd t) ModEvent dir c (set_ectx c e sl) = Inr (sl1, ok)"
      using assms e True by (auto simp: session_event_wait_def Let_def obind_Inr_iff)
    note k2 = slave_keeps_trans [OF k1 slave_RegEvent_keeps [OF r, of c]]
    have R: "slave_ok sl \<Longrightarrow> slave_ok sl1 \<and> ok = ctl_ok (ae_drv env) ModEvent (tk_fd t)
      \<and> (ok \<longrightarrow> sl_contexts sl1 = sl_contexts sl \<and> (\<forall>n. n \<noteq> nat (tk_fd t) \<longrightarrow> sl_timers sl1 n = sl_timers sl n)
           \<and> sl_interest sl1 (tk_fd t) = dir)
      \<and> (\<not> ok \<longrightarrow> sl_timers sl1 = (sl_timers sl)(nat (tk_fd t) := None))"
      using slave_RegEvent_ok [OF r] by (auto simp: reg_timers_def reg_contexts_def)
    have cl: "sl_closed sl1 = sl_closed sl" using slave_RegEvent_frame [OF r] by simp
    show ?thesis
    proof (cases ok)
      case True
      then have "sl' = sl1" "t' = ?t" "waiting" using assms e r \<open>in_time\<close> by (simp_all add: session_event_wait_def Let_def)
      then show ?thesis using R True k2 cl by (auto simp: event_result_def talk_ident_def)
    next
      case False
      let ?u = "?t\<lparr>tk_error := kOther\<rparr>"
      have E: "session_event_end env ?u sl1 = Inr (sl', t', waiting)"
        using assms e r \<open>in_time\<close> False by (simp add: session_event_wait_def Let_def)
      have "talk_ident t ?u" by (simp add: talk_ident_def)
      then show ?thesis
        using session_event_end_ok(3) [OF E, of c] slave_keeps_trans [OF k2] talk_ident_trans [of t ?u t']
          event_result_chain [of ?u sl1 sl' t' waiting t sl] session_event_end_ok(1,2) [OF E] R False cl
        by auto
    qed
  qed
  from * show "slave_keeps c sl sl' \<and> talk_ident t t'" by blast
  from * show "slave_ok sl \<Longrightarrow> dir = (if st = TsRead then EvIn else EvOut) \<Longrightarrow> event_result t sl sl' t' waiting" by blast
qed

text \<open>A handler may first change the talk in ways the contract does not speak of.\<close>

lemma event_result_talk: "event_result u sl sl' t' w \<Longrightarrow> tk_fd u = tk_fd t \<Longrightarrow> tk_error u = tk_error t \<Longrightarrow> event_result t sl sl' t' w"
  by (cases w) (auto simp: event_result_def)

lemma event_result_over: "event_result u sl sl' t' w \<Longrightarrow> \<not> w \<Longrightarrow> tk_fd u = tk_fd t \<Longrightarrow> event_result t sl sl' t' w"
  by (simp add: event_result_def)

lemma session_end_from:
  assumes "session_event_end env u sl = Inr (sl', t', w)" "tk_fd u = tk_fd t" "talk_ident t u"
  shows "(slave_ok sl \<longrightarrow> event_result t sl sl' t' w) \<and> slave_keeps c sl sl' \<and> talk_ident t t'"
  using session_event_end_ok [OF assms(1)] assms(2,3) event_result_over talk_ident_trans by blast

lemma session_wait_from:
  assumes "session_event_wait env now l dir c st u sl = Inr (sl', t', w)" "tk_fd u = tk_fd t" "tk_error u = tk_error t"
    "talk_ident t u" "dir = (if st = TsRead then EvIn else EvOut)"
  shows "(slave_ok sl \<longrightarrow> event_result t sl sl' t' w) \<and> slave_keeps c sl sl' \<and> talk_ident t t'"
  using session_event_wait_ok [OF assms(1)] assms(2-5) event_result_talk talk_ident_trans by blast

lemma HandleConn_ok:
  assumes "HandleSessionEventConn env c t sl = Inr (sl', t', w)"
  shows "(slave_ok sl \<longrightarrow> event_result t sl sl' t' w) \<and> slave_keeps c sl sl' \<and> talk_ident t t'"
proof -
  let ?ro = "tk_category t = TcReadOnly"
  let ?u = "t\<lparr>tk_status := (if ?ro then TsRead else TsWrite)\<rparr>"
  obtain l where "session_event_wait env (ae_clock env 1) l (if \<not> ?ro then EvOut else EvIn) c (tk_status ?u) ?u sl = Inr (sl', t', w)"
    using assms by (auto simp: HandleSessionEventConn_def Let_def obind_Inr_iff)
  from session_wait_from [OF this, of t] show ?thesis by (simp add: talk_ident_def)
qed

lemma HandleRead_ok:
  assumes "HandleSessionEventRead env c t sl = Inr (sl', t', w)" "tk_status t = TsRead"
  shows "(slave_ok sl \<longrightarrow> event_result t sl sl' t' w) \<and> slave_keeps c sl sl' \<and> talk_ident t t'"
proof -
  obtain r r' ret where r: "protocol_read t = Some r" "po_Read (ae_ops env) (tk_fd t) r = (r', ret)"
    using assms(1) by (auto simp: HandleSessionEventRead_def split: option.splits prod.splits)
  obtain r2 ok where d: "po_Decode (ae_ops env) r' = (r2, ok)" by fastforce
  consider "ret = 0" | "ret > 0" | "ret < 0" by linarith
  then show ?thesis
  proof cases
    case 1
    with assms r d have "session_event_end env (t\<lparr>protocol_read := Some r2, tk_error := (if ok then kOk else kDecode)\<rparr>) sl = Inr (sl', t', w)"
      by (simp add: HandleSessionEventRead_def)
    from session_end_from [OF this, of t c] show ?thesis by (simp add: talk_ident_def)
  next
    case 2
    with assms r have "session_event_wait env (ae_clock env 0) 0 EvIn c (tk_status t) (t\<lparr>protocol_read := Some r'\<rparr>) sl = Inr (sl', t', w)"
      by (simp add: HandleSessionEventRead_def Let_def)
    from session_wait_from [OF this, of t] assms(2) show ?thesis by (simp add: talk_ident_def)
  next
    case 3
    with assms r have "session_event_end env (t\<lparr>protocol_read := Some r', tk_error := kBroken\<rparr>) sl = Inr (sl', t', w)"
      by (simp add: HandleSessionEventRead_def Let_def)
    from session_end_from [OF this, of t c] show ?thesis by (simp add: talk_ident_def)
  qed
qed

lemma HandleWrite_ok:
  assumes "HandleSessionEventWrite env c t sl = Inr (sl', t', w)" "tk_status t = TsWrite"
  shows "(slave_ok sl \<longrightarrow> event_result t sl sl' t' w) \<and> slave_keeps c sl sl' \<and> talk_ident t t'"
proof -
  obtain p p' ret where p: "protocol_write t = Some p" "po_Write (ae_ops env) (tk_fd t) p = (p', ret)"
    using assms(1) by (auto simp: HandleSessionEventWrite_def split: option.splits prod.splits)
  let ?u = "t\<lparr>protocol_write := Some p'\<rparr>"
  consider "ret = 0" "tk_category t = TcWriteAndRead" | "ret = 0" "tk_category t \<noteq> TcWriteAndRead" | "ret > 0" | "ret < 0" by linarith
  then show ?thesis
  proof cases
    case 1
    with assms p obtain l where "session_event_wait env (ae_clock env 1) l EvIn c TsRead ?u sl = Inr (sl', t', w)"
      by (auto simp: HandleSessionEventWrite_def Let_def obind_Inr_iff)
    from session_wait_from [OF this, of t] show ?thesis by (simp add: talk_ident_def)
  next
    case 2
    with assms p have "session_event_end env (?u\<lparr>tk_error := kOk\<rparr>) sl = Inr (sl', t', w)"
      by (simp add: HandleSessionEventWrite_def Let_def)
    from session_end_from [OF this, of t c] show ?thesis by (simp add: talk_ident_def)
  next
    case 3
    with assms p have "session_event_wait env (ae_clock env 0) 0 EvOut c (tk_status t) ?u sl = Inr (sl', t', w)"
      by (simp add: HandleSessionEventWrite_def Let_def)
    from session_wait_from [OF this, of t] assms(2) show ?thesis by (simp add: talk_ident_def)
  next
    case 4
    with assms p have "session_event_end env (?u\<lparr>tk_error := kBroken\<rparr>) sl = Inr (sl', t', w)"
      by (simp add: HandleSessionEventWrite_def Let_def)
    from session_end_from [OF this, of t c] show ?thesis by (simp add: talk_ident_def)
  qed
qed

interpretation conn: session_handler TsConn HandleSessionEventConn
  by unfold_locales (use HandleConn_ok in blast)+

interpretation reads: session_handler TsRead HandleSessionEventRead
  by unfold_locales (use HandleRead_ok in blast)+

interpretation writes: session_handler TsWrite HandleSessionEventWrite
  by unfold_locales (use HandleWrite_ok in blast)+

section \<open>Events of sessions\<close>

lemma session_event_error:
  assumes "session_event env EvErr c t sl = Inr (sl', t', w)"
  shows "\<not> w \<and> t' = t\<lparr>tk_fd := -1, tk_error := kBroken\<rparr> \<and> slave_keeps c sl sl' \<and> (slave_ok sl \<longrightarrow> event_result t sl sl' t' w)"
proof -
  obtain sl1 where d: "slave_RegEventDel env (tk_fd t) sl = Inr sl1"
    using assms by (auto simp: session_event_def obind_Inr_iff)
  then have r: "sl' = slave_close [tk_fd t] sl1" "t' = t\<lparr>tk_fd := -1, tk_error := kBroken\<rparr>" "\<not> w"
    using assms by (simp_all add: session_event_def)
  obtain d' where sl1: "sl1 = sl\<lparr>sl_driver := d'\<rparr>" using slave_RegEventDel_frame [OF d] by blast
  show ?thesis
    using r sl1 slave_RegEventDel_ok [OF d] by (auto simp: slave_keeps_def slave_close_def event_result_def slave_ok_def)
qed

lemma session_event_ok:
  assumes "session_event env ev c t sl = Inr (sl', t', w)" "tk_status t \<in> {TsConn, TsRead, TsWrite}"
  shows "(slave_ok sl \<longrightarrow> event_result t sl sl' t' w) \<and> slave_keeps c sl sl' \<and> talk_ident t t'"
proof (cases "ev = EvErr")
  case True
  then show ?thesis using session_event_error [of env c t sl sl' t' w] assms(1) by (auto simp: talk_ident_def)
next
  case False
  then have ev: "ev = EvIn \<or> ev = EvOut" by (cases ev) auto
  from assms(2) consider "tk_status t = TsConn" | "tk_status t = TsRead" | "tk_status t = TsWrite" by blast
  then show ?thesis
  proof cases
    case 1
    with assms(1) ev have "HandleSessionEventConn env c t sl = Inr (sl', t', w)" by (auto simp: session_event_def)
    with 1 show ?thesis using conn.result conn.keeps by blast
  next
    case 2
    with assms(1) ev have "HandleSessionEventRead env c t sl = Inr (sl', t', w)" by (auto simp: session_event_def)
    with 2 show ?thesis using reads.result reads.keeps by blast
  next
    case 3
    with assms(1) ev have "HandleSessionEventWrite env c t sl = Inr (sl', t', w)" by (auto simp: session_event_def)
    with 3 show ?thesis using writes.result writes.keeps by blast
  qed
qed

text \<open>C2. An event on the descriptor of a talk that is connecting, writing or reading: either the
  talk goes on waiting, with its descriptor open, its registration kept and the direction that
  its new state needs; or its deadline is removed, and the descriptor is closed, once, exactly
  when the talk has an error, so that a connection that went well can be used again. No other
  deadline is touched, and the session, the connections and the retries left stay as they are.\<close>

theorem session_event_outcome:
  assumes "session_event env ev c t sl = Inr (sl', t', w)" "tk_status t \<in> {TsConn, TsRead, TsWrite}" "slave_ok sl"
  shows "slave_ok sl' \<and> tk_retry t' = tk_retry t \<and> sl_session sl' = sl_session sl \<and> sl_conns sl' = sl_conns sl
    \<and> (\<forall>n. n \<noteq> nat (tk_fd t) \<longrightarrow> sl_timers sl' n = sl_timers sl n)
    \<and> (if w
       then tk_fd t' = tk_fd t \<and> tk_error t' = tk_error t \<and> sl_closed sl' = sl_closed sl
         \<and> sl_contexts sl' = sl_contexts sl \<and> sl_interest sl' (tk_fd t) = (if tk_status t' = TsRead then EvIn else EvOut)
       else sl_timers sl' (nat (tk_fd t)) = None
         \<and> (if tk_error t' = kOk then tk_fd t' = tk_fd t \<and> sl_closed sl' = sl_closed sl
            else tk_fd t' = -1 \<and> sl_closed sl' = sl_closed sl @ [tk_fd t]))"
  using session_event_ok [OF assms(1,2)] assms(3)
  by (cases w) (auto simp: event_result_def slave_keeps_def talk_ident_def)

section \<open>Requests of clients\<close>

definition same_logs :: "('w, 'r) slave \<Rightarrow> ('w, 'r) slave \<Rightarrow> bool" where
  "same_logs sl sl' \<longleftrightarrow> sl_closed sl' = sl_closed sl \<and> sl_freed_reads sl' = sl_freed_reads sl \<and> sl_new_reqs sl' = sl_new_reqs sl
     \<and> num_clients_keepalive sl' = num_clients_keepalive sl \<and> sl_ectx_pool sl' = sl_ectx_pool sl"

lemma same_logs_upd [simp]: "same_logs sl (set_ectx c e sl')  = same_logs sl sl'" "same_logs sl (sl'\<lparr>sl_driver := d\<rparr>) = same_logs sl sl'"
  by (simp_all add: same_logs_def set_ectx_def)

lemma RegEvent_logs: "slave_RegEvent env f op dir c sl = Inr (sl', ok) \<Longrightarrow> same_logs sl sl' \<and> sl_ectx sl' = sl_ectx sl"
  by (auto simp: slave_RegEvent_def same_logs_def obind_Inr_iff)

lemma same_logs_trans: "same_logs a b \<Longrightarrow> same_logs b d \<Longrightarrow> same_logs a d"
  by (simp add: same_logs_def)

text \<open>The end of \<^verbatim>\<open>HandleReadReq_\<close>, from a state that differs from the first one only at the
  context and at the deadline of the descriptor.\<close>

lemma read_req_give_up:
  assumes "obind (slave_RegEventDel env f sl1) (\<lambda>sl. Inr (sl, ret0)) = Inr (sl', ret)" "same_logs sl sl1"
    "slave_ok sl \<longrightarrow> slave_ok sl1 \<and> (sl_timers sl1)(nat f := None) = (sl_timers sl)(nat f := None)"
  shows "ret = ret0 \<and> same_logs sl sl' \<and> sl_ectx sl' = sl_ectx sl1 \<and> sl_interest sl' = sl_interest sl1
    \<and> (slave_ok sl \<longrightarrow> slave_ok sl' \<and> sl_timers sl' = (sl_timers sl)(nat f := None))"
proof -
  have d: "slave_RegEventDel env f sl1 = Inr sl'" "ret = ret0" using assms(1) by (auto simp: obind_Inr_iff)
  obtain d' where "sl' = sl1\<lparr>sl_driver := d'\<rparr>" using slave_RegEventDel_frame [OF d(1)] by blast
  then show ?thesis using d slave_RegEventDel_ok [OF d(1)] assms(2,3) by auto
qed

lemma HandleReadReq_ok:
  fixes sl :: "('w, 'r) slave"
  assumes "HandleReadReq env c idp st (Some r) sl = Inr (sl', ret)" "f = ec_fd (sl_ectx sl c)"
  shows "\<exists>r'. ec_data (sl_ectx sl' c) = ReadReqCtx idp st (Some r') \<and> ec_fd (sl_ectx sl' c) = f \<and> same_logs sl sl'
    \<and> (slave_ok sl \<longrightarrow> slave_ok sl' \<and> (if ret > 0 then sl_contexts sl' = sl_contexts sl \<and> sl_interest sl' f = EvIn
         else sl_timers sl' = (sl_timers sl)(nat f := None)))"
proof -
  define put where "put = (\<lambda>r (sl :: ('w, 'r) slave). set_ectx c ((sl_ectx sl c)\<lparr>ec_data := ReadReqCtx idp st (Some r)\<rparr>) sl)"
  obtain r1 n where r1: "po_Read (ae_ops env) f r = (r1, n)" by fastforce
  obtain r2 ok where r2: "po_Decode (ae_ops env) r1 = (r2, ok)" by fastforce
  obtain e in_time where e: "CheckEventCtxTimeout (ae_clock env 0) 0 (sl_ectx (put r1 sl) c) = (e, in_time)" by fastforce
  have P: "same_logs sl (put x sl0) = same_logs sl sl0" "slave_ok (put x sl0) = slave_ok sl0" "sl_driver (put x sl0) = sl_driver sl0"
    "ec_fd (sl_ectx (put x sl0) c) = ec_fd (sl_ectx sl0 c)" "ec_data (sl_ectx (put x sl0) c) = ReadReqCtx idp st (Some x)" for x sl0
    by (simp_all add: put_def)
  have e_eq: "e = (if in_time then (sl_ectx (put r1 sl) c)\<lparr>ec_timeleft_ms := ec_timeleft_ms e, ec_lasttime_ms := ec_lasttime_ms e\<rparr>
     else sl_ectx (put r1 sl) c)" using e by (auto simp: CheckEventCtxTimeout_def Let_def split: if_splits)
  have ed: "ec_data e = ReadReqCtx idp st (Some r1)" "ec_fd e = f"
    by (subst e_eq, simp add: P(4,5) assms(2))+
  have sl0: "same_logs sl sl" by (simp add: same_logs_def)
  consider "n = 0" | "n < 0" | "n > 0" "\<not> in_time" | "n > 0" "in_time" by linarith
  then show ?thesis
  proof cases
    case 1
    then have "obind (slave_RegEventDel env f (put r2 (put r1 sl))) (\<lambda>sl. Inr (sl, if ok then 0 else -1)) = Inr (sl', ret)"
      using assms r1 r2 P by (simp add: HandleReadReq_def Let_def put_def)
    from read_req_give_up [OF this, of sl] show ?thesis
      using P sl0 assms(2) by (intro exI [of _ r2]) auto
  next
    case 2
    then have "obind (slave_RegEventDel env f (put r1 sl)) (\<lambda>sl. Inr (sl, n)) = Inr (sl', ret)"
      using assms r1 P by (simp add: HandleReadReq_def Let_def put_def)
    from read_req_give_up [OF this, of sl] show ?thesis
      using P sl0 assms(2) 2 by (intro exI [of _ r1]) auto
  next
    case 3
    then have "obind (slave_RegEventDel env f (set_ectx c e (put r1 sl))) (\<lambda>sl. Inr (sl, -1)) = Inr (sl', ret)"
      using assms r1 e ed by (simp add: HandleReadReq_def Let_def put_def)
    from read_req_give_up [OF this, of sl] show ?thesis
      using P sl0 ed by (intro exI [of _ r1]) auto
  next
    case 4
    let ?s = "set_ectx c e (put r1 sl)"
    obtain sl1 reg where g: "slave_RegEvent env f ModEvent EvIn c ?s = Inr (sl1, reg)"
      "(if reg then Inr (sl1, 1) else obind (slave_RegEventDel env (ec_fd (sl_ectx sl1 c)) sl1) (\<lambda>sl. Inr (sl, -1))) = Inr (sl', ret)"
      using 4 assms r1 e ed by (auto simp: HandleReadReq_def Let_def put_def obind_Inr_iff)
    have L: "same_logs sl sl1" "sl_ectx sl1 c = e"
      using RegEvent_logs [OF g(1)] same_logs_trans [of sl ?s sl1] P(1) sl0 by simp_all
    have R: "slave_ok sl \<Longrightarrow> slave_ok sl1 \<and> (if reg then sl_contexts sl1 = sl_contexts sl \<and> sl_interest sl1 f = EvIn
       else sl_timers sl1 = (sl_timers sl)(nat f := None))"
      using slave_RegEvent_ok [OF g(1)] P(2,3) by (auto simp: reg_contexts_def)
    show ?thesis
    proof (cases reg)
      case True
      then show ?thesis using g(2) L R ed by (intro exI [of _ r1]) auto
    next
      case False
      then have "obind (slave_RegEventDel env f sl1) (\<lambda>sl. Inr (sl, -1)) = Inr (sl', ret)" using g(2) L ed by simp
      from read_req_give_up [OF this L(1)] show ?thesis using False R L ed by (intro exI [of _ r1]) auto
    qed
  qed
qed

text \<open>Who owns the connection and the reader object of a request after an event: the slave, which
  goes on waiting; a scheduler, to which they were handed; or nobody, closed and given back.\<close>

definition request_waits :: "nat \<Rightarrow> int \<Rightarrow> sec \<Rightarrow> fd \<Rightarrow> 'r \<Rightarrow> ('w, 'r) slave \<Rightarrow> ('w, 'r) slave \<Rightarrow> bool" where
  "request_waits c idp st f r sl sl' \<longleftrightarrow> same_logs sl sl' \<and> ec_data (sl_ectx sl' c) = ReadReqCtx idp st (Some r)
     \<and> ec_fd (sl_ectx sl' c) = f \<and> sl_contexts sl' = sl_contexts sl \<and> sl_interest sl' f = EvIn"

definition request_handed :: "nat \<Rightarrow> int \<Rightarrow> sec \<Rightarrow> fd \<Rightarrow> 'r \<Rightarrow> ('w, 'r) slave \<Rightarrow> ('w, 'r) slave \<Rightarrow> bool" where
  "request_handed c idp st f r sl sl' \<longleftrightarrow> sl_new_reqs sl' = sl_new_reqs sl @ [BuildForNewReq idp f st (Some r)]
     \<and> sl_closed sl' = sl_closed sl \<and> sl_freed_reads sl' = sl_freed_reads sl
     \<and> num_clients_keepalive sl' = num_clients_keepalive sl
     \<and> sl_ectx_pool sl' = pool_Free True c (sl_ectx_pool sl) \<and> sl_timers sl' = (sl_timers sl)(nat f := None)"

definition request_dropped :: "nat \<Rightarrow> fd \<Rightarrow> 'r \<Rightarrow> ('w, 'r) slave \<Rightarrow> ('w, 'r) slave \<Rightarrow> bool" where
  "request_dropped c f r sl sl' \<longleftrightarrow> sl_new_reqs sl' = sl_new_reqs sl
     \<and> sl_closed sl' = sl_closed sl @ [f] \<and> sl_freed_reads sl' = sl_freed_reads sl @ [r]
     \<and> num_clients_keepalive sl' = num_clients_keepalive sl - 1
     \<and> sl_ectx_pool sl' = pool_Free True c (sl_ectx_pool sl) \<and> sl_timers sl' = (sl_timers sl)(nat f := None)"

lemma drop_read_req_ok:
  assumes "drop_read_req c sl1 = Inr sl'" "ec_data (sl_ectx sl1 c) = ReadReqCtx idp st (Some r)" "ec_fd (sl_ectx sl1 c) = f"
    "same_logs sl sl1" "sl_timers sl1 = (sl_timers sl)(nat f := None)" "slave_ok sl1"
  shows "slave_ok sl' \<and> request_dropped c f r sl sl'"
  using assms
  by (simp add: drop_read_req_def FreeRead_def request_dropped_def same_logs_def CloseFdClient_def free_ectx_def slave_close_def
    set_ectx_def slave_ok_def split: option.splits) (auto simp: obind_def)

text \<open>C3. An event on the connection of a client keeps the connection and the reader object
  of its request with exactly one owner: the request goes on waiting, registered for reading;
  or it is complete and handed to a scheduler, with nothing closed; or the connection is closed
  and the reader given back, once each, and the client is no longer counted. In the last two
  cases its deadline is removed and the context goes back to its pool.\<close>

theorem read_req_event_owner:
  assumes "read_req_event env ev c idp st (Some r) sl = Inr sl'" "slave_ok sl"
    "ec_data (sl_ectx sl c) = ReadReqCtx idp st (Some r)" "ec_fd (sl_ectx sl c) = f"
  shows "slave_ok sl' \<and> (\<exists>r'. request_waits c idp st f r' sl sl' \<or> request_handed c idp st f r' sl sl'
    \<or> request_dropped c f r' sl sl')"
proof (cases "ev = EvErr")
  case True
  then obtain sl1 where d: "slave_RegEventDel env f sl = Inr sl1" "drop_read_req c sl1 = Inr sl'"
    using assms(1,4) by (auto simp: read_req_event_def obind_Inr_iff)
  obtain d' where "sl1 = sl\<lparr>sl_driver := d'\<rparr>" using slave_RegEventDel_frame [OF d(1)] by blast
  then have "same_logs sl sl1" "sl_ectx sl1 = sl_ectx sl" by (simp_all add: same_logs_def)
  with drop_read_req_ok [OF d(2)] slave_RegEventDel_ok [OF d(1) assms(2)] assms(3,4) show ?thesis by auto
next
  case False
  then obtain sl1 ret where h: "HandleReadReq env c idp st (Some r) sl = Inr (sl1, ret)"
    using assms(1) by (auto simp: read_req_event_def obind_Inr_iff)
  obtain r' where r': "ec_data (sl_ectx sl1 c) = ReadReqCtx idp st (Some r')" "ec_fd (sl_ectx sl1 c) = f" "same_logs sl sl1"
    "slave_ok sl1" "if ret > 0 then sl_contexts sl1 = sl_contexts sl \<and> sl_interest sl1 f = EvIn
         else sl_timers sl1 = (sl_timers sl)(nat f := None)"
    using HandleReadReq_ok [OF h assms(4) [symmetric]] assms(2) by blast
  consider "ret > 0" | "ret = 0" "ae_worker env" | "drop_read_req c sl1 = Inr sl'" "\<not> ret > 0"
    using assms(1) False h r'(1) by (auto simp: read_req_event_def split: if_splits)
  then show ?thesis
  proof cases
    case 1
    then have "sl' = sl1" using assms(1) False h by (simp add: read_req_event_def)
    then show ?thesis using r' 1 by (auto simp: request_waits_def)
  next
    case 2
    let ?m = "BuildForNewReq idp f st (Some r')"
    have "sl' = free_ectx c (set_ectx c ((sl_ectx sl1 c)\<lparr>ec_data := ReadReqCtx idp st None\<rparr>)
                               (sl1\<lparr>sl_new_reqs := sl_new_reqs sl1 @ [?m]\<rparr>))"
      using assms(1) False h r'(1,2) 2 by (simp add: read_req_event_def Let_def)
    then show ?thesis using r' 2
      by (auto simp: request_handed_def same_logs_def free_ectx_def set_ectx_def slave_ok_def)
  next
    case 3
    then show ?thesis using drop_read_req_ok [OF 3(1) r'(1-3)] r'(4,5) by auto
  qed
qed

section \<open>Ends of sessions\<close>

lemma talk_connect_back:
  assumes "talk_connect env t sl = Inr (sl', t', go)"
  shows "sl_back sl' = sl_back sl"
proof (cases "tk_fd t = 0 \<and> tk_service t \<noteq> None")
  case True
  then obtain svc where svc: "tk_service t = Some svc" "tk_fd t = 0" by auto
  then obtain x where g: "cm_GetFd (ae_conn env) svc (fail_remotes t) (sl_conns sl) = Inr x"
    using assms by (auto simp: talk_connect_def obind_Inr_iff)
  obtain cm q f conn cl where "x = (cm, q, (f, conn), cl)" by (metis surj_pair)
  then show ?thesis using assms svc g by (cases "f > 0") (auto simp: talk_connect_def Let_def slave_close_def)
qed (use assms in \<open>auto simp: talk_connect_def split: option.splits if_splits\<close>)

lemma get_ectx_back: "get_ectx sl = Inr (sl', c) \<Longrightarrow> sl_back sl' = sl_back sl"
  by (auto simp: get_ectx_def split: prod.splits option.splits)

lemma ResetTalk_ectx:
  assumes "ResetTalk env cn sid retry t sl = Inr (sl', t', fail)"
  shows "(ec_data (sl_ectx sl' c) = ec_data (sl_ectx sl c) \<or> (\<exists>no. ec_data (sl_ectx sl' c) = SessionCtx sid no))
    \<and> sl_back sl' = sl_back sl"
  using assms
proof (cases rule: ResetTalk_cases)
  case (refused sl1 t1)
  then show ?thesis using talk_connect_frame [OF refused(2)] talk_connect_back [OF refused(2)] by (simp add: same_tables_def)
next
  case (encode sl1 t1)
  then show ?thesis using talk_connect_frame [OF encode(2)] talk_connect_back [OF encode(2)] by (simp add: same_tables_def)
next
  case (timeout sl1 t1 t2 sl2 c')
  then show ?thesis
    using talk_connect_frame [OF timeout(2)] get_ectx_frame [OF timeout(4)] talk_connect_back [OF timeout(2)] get_ectx_back [OF timeout(4)]
    by (auto simp: same_tables_def BuildForSession_def set_ectx_def)
next
  case (registered sl1 t1 t2 sl2 c' timeleft sl3 ok)
  then show ?thesis
    using talk_connect_frame [OF registered(1)] get_ectx_frame [OF registered(3)] slave_RegEvent_frame [OF registered(6)]
      talk_connect_back [OF registered(1)] get_ectx_back [OF registered(3)] slave_RegEvent_keeps [OF registered(6), of 0]
    by (auto simp: same_tables_def BuildForSession_def set_ectx_def slave_keeps_def slave_close_def)
qed

lemma FinishTalk_ectx:
  assumes "FinishTalk env cn sid succ no sl = Inr (sl', fin)"
  shows "(ec_data (sl_ectx sl' c) = ec_data (sl_ectx sl c) \<or> (\<exists>no. ec_data (sl_ectx sl' c) = SessionCtx sid no))
    \<and> sl_back sl' = sl_back sl"
  using assms
proof (cases rule: FinishTalk_cases)
  case (again cm t sl1 sl2 t2 fail)
  then show ?thesis using ResetTalk_ectx [OF again(6), of c] by (auto simp: slave_close_def set_session_def)
qed (simp add: set_session_def)

text \<open>C7. A session is reported exactly once: an event on one of its talks sends the session back
  to its procedure exactly when with it all talks are done, with the talks as they are then, and
  with an error exactly when the session has failed; otherwise nothing is sent.\<close>

theorem session_reported_once:
  assumes "handle_event env cn ev c sl = Inr sl'" "ec_data (sl_ectx sl c) = SessionCtx sid no"
    "num_talks_done (sl_session sl sid) < length (se_talks (sl_session sl sid))"
    "tk_status (se_talks (sl_session sl sid) ! no) \<in> {TsConn, TsRead, TsWrite}" "s' = sl_session sl' sid"
  shows "sl_back sl' = sl_back sl @
    (if num_talks_done s' = length (se_talks s')
     then [\<lparr>ms_biz = se_biz s', ms_talks = se_talks s', ms_timeo_ms = 0, ms_error = (if has_failure s' then kPartial else kOk)\<rparr>]
     else [])"
proof -
  let ?t = "se_talks (sl_session sl sid) ! no"
  obtain sl1 fin where cs: "CheckSession env cn ev c sid no sl = Inr (sl1, fin)"
    using assms(1,2) by (auto simp: handle_event_def obind_Inr_iff)
  then obtain sl0 t w where e: "session_event env ev c ?t sl = Inr (sl0, t, w)" and no: "no < length (se_talks (sl_session sl sid))"
    by (auto simp: CheckSession_def obind_Inr_iff split: if_splits)
  have k: "slave_keeps c sl sl0" using session_event_ok [OF e assms(4)] by blast
  show ?thesis
  proof (cases w)
    case True
    then have "sl1 = set_talk sid no t sl0" "\<not> fin" using cs e no by (simp_all add: CheckSession_def Let_def)
    then show ?thesis using assms(1-3,5) cs k
      by (auto simp: handle_event_def set_talk_def set_session_def slave_keeps_def)
  next
    case False
    then have ft: "FinishTalk env cn sid (tk_error t = kOk) no (free_ectx c (set_talk sid no t sl0)) = Inr (sl1, fin)"
      using cs e no by (simp add: CheckSession_def Let_def)
    have b: "sl_back sl1 = sl_back sl" "\<exists>no. ec_data (sl_ectx sl1 c) = SessionCtx sid no"
      using FinishTalk_ectx [OF ft, of c] k assms(2) by (auto simp: free_ectx_def set_talk_def set_session_def slave_keeps_def)
    have fin: "fin = (num_talks_done (sl_session sl1 sid) = length (se_talks (sl_session sl1 sid)))"
      by (rule FinishTalk_session(1) [OF ft])
    show ?thesis
      using assms(1,2,5) cs b fin
      by (auto simp: handle_event_def SendBackMsg_def BuildForSessionMsg_def free_session_def Let_def obind_Inr_iff split: if_splits)
  qed
qed

section \<open>Failures that are not reported\<close>

text \<open>C37. A talk that times out without retries is finished with the error it had: a talk that was
  all right until then stays \<^verbatim>\<open>kOk\<close>, although its descriptor is closed and the session fails.\<close>

theorem timeout_keeps_error:
  assumes "clean_timeout env cn c sl = Inr sl'" "ec_data (sl_ectx sl c) = SessionCtx sid no"
    "t = se_talks (sl_session sl sid) ! no" "t' = se_talks (sl_session sl' sid) ! no" "tk_retry t = 0"
  shows "tk_error t' = tk_error t \<and> tk_fd t' = -1 \<and> sl_closed sl' = sl_closed sl @ [tk_fd t] \<and> has_failure (sl_session sl' sid)"
proof -
  have no: "no < length (se_talks (sl_session sl sid))"
    using assms(1,2) by (auto simp: clean_timeout_def obind_Inr_iff split: if_splits)
  let ?sl = "set_talk sid no (t\<lparr>tk_fd := -1\<rparr>) (slave_close [tk_fd t] sl)"
  obtain sl1 fin where ft: "FinishTalk env cn sid False no ?sl = Inr (sl1, fin)"
    using assms(1-3) no by (auto simp: clean_timeout_def Let_def obind_Inr_iff)
  have res: "sl_session sl' = sl_session sl1 \<and> sl_closed sl' = sl_closed sl1"
    using assms(1-3) no ft
    by (auto simp: clean_timeout_def Let_def obind_Inr_iff SendBackMsg_def free_session_def free_ectx_def split: if_splits)
  have at: "se_talks (sl_session ?sl sid) ! no = t\<lparr>tk_fd := -1\<rparr>" using no by (simp add: set_talk_def set_session_def)
  from ft show ?thesis
  proof (cases rule: FinishTalk_cases)
    case (over cm u)
    have "tk_fd u = -1 \<and> tk_error u = tk_error t" using report_talk_frame [OF over(3)] unfolding at by simp
    then show ?thesis using over(1,4) res assms(4) by (simp add: set_talk_def set_session_def slave_close_def)
  next
    case again
    then show ?thesis using at assms(5) by simp
  qed
qed

text \<open>A retry starts the request again but not the answer: the reader object keeps what it has
  read from the remote that failed, and goes on with the bytes of the next one.\<close>

theorem retry_keeps_reader:
  assumes "FinishTalk env cn sid False no sl = Inr (sl', fin)"
    "t = se_talks (sl_session sl sid) ! no" "t' = se_talks (sl_session sl' sid) ! no"
  shows "protocol_read t' = protocol_read t"
  using assms(1)
proof (cases rule: FinishTalk_cases)
  case (over cm u)
  then show ?thesis using report_talk_frame [OF over(3)] assms(2,3) by (simp add: same_talk_def)
next
  case (again cm u sl1 sl2 t2 fail)
  then show ?thesis using report_talk_frame [OF again(4)] ResetTalk_frame [OF again(6)] assms(2,3) by (simp add: same_talk_def)
qed

section \<open>Examples\<close>

text \<open>The slave of the example, with the context 5 for its talk or for a request.\<close>

definition demo_wait :: "byte list ectx_data \<Rightarrow> (byte list, byte list) slave" where
  "demo_wait dat = demo_slave\<lparr>sl_driver := drv_grow 9 (sl_driver demo_slave),
     sl_ectx := (\<lambda>_. \<lparr>ec_fd = 9, ec_timeleft_ms = 10, ec_lasttime_ms = 0, ec_data = dat\<rparr>)\<rparr>"

lemma demo_wait_ok: "slave_ok (demo_wait dat)"
  using drv_grow_ok [of 9 "sl_driver demo_slave"] demo_slave_ok(1) by (simp add: slave_ok_def demo_wait_def)

lemma demo_wait_del: "\<exists>d. slave_RegEventDel (demo_ag ret now) 9 (demo_wait dat) = Inr ((demo_wait dat)\<lparr>sl_driver := d\<rparr>)"
  by (auto simp: slave_RegEventDel_def drv_RegEventDel_def demo_wait_def demo_slave_def drv_grow_def EventsDriver_new_def
    fd_ok_def drv_sign_def Let_def)

theorem session_event_outcome_witness:
  "\<exists>sl'. session_event (demo_ag 0 5) EvOut 5 demo_talk (demo_wait (SessionCtx 1 0)) = Inr (sl', demo_talk, False)
     \<and> slave_ok sl' \<and> sl_closed sl' = [] \<and> sl_timers sl' 9 = None"
proof -
  let ?sl = "demo_wait (SessionCtx 1 0)"
  obtain d where d: "slave_RegEventDel (demo_ag 0 5) 9 ?sl = Inr (?sl\<lparr>sl_driver := d\<rparr>)" using demo_wait_del by blast
  have e: "session_event (demo_ag 0 5) EvOut 5 demo_talk ?sl = Inr (?sl\<lparr>sl_driver := d\<rparr>, demo_talk, False)"
    using d by (simp add: session_event_def HandleSessionEventWrite_def session_event_end_def demo_talk_def demo_ag_def demo_ops_def)
  from session_event_outcome [OF e _ demo_wait_ok] show ?thesis
    using e by (intro exI [of _ "?sl\<lparr>sl_driver := d\<rparr>"]) (simp add: demo_talk_def demo_wait_def demo_slave_def)
qed

theorem read_req_event_owner_witness:
  "\<exists>sl' r'. read_req_event (demo_ag 0 5) EvIn 5 3 0 (Some []) (demo_wait (ReadReqCtx 3 0 (Some []))) = Inr sl'
     \<and> slave_ok sl' \<and> sl_new_reqs sl' = [BuildForNewReq 3 9 0 (Some r')]"
proof -
  let ?sl = "demo_wait (ReadReqCtx 3 0 (Some []))"
  obtain sl' where e: "read_req_event (demo_ag 0 5) EvIn 5 3 0 (Some []) ?sl = Inr sl'" "sl_closed sl' = []" "sl_new_reqs sl' \<noteq> []"
    by (auto simp: read_req_event_def HandleReadReq_def demo_ag_def demo_ops_def slave_RegEventDel_def drv_RegEventDel_def
      demo_wait_def demo_slave_def drv_grow_def EventsDriver_new_def fd_ok_def drv_sign_def Let_def set_ectx_def free_ectx_def
      drv_demo_env_def)
  have "ec_data (sl_ectx ?sl 5) = ReadReqCtx 3 0 (Some [])" "ec_fd (sl_ectx ?sl 5) = 9" by (simp_all add: demo_wait_def)
  from read_req_event_owner [OF e(1) demo_wait_ok this] obtain r' where
    "slave_ok sl'" "request_waits 5 3 0 9 r' ?sl sl' \<or> request_handed 5 3 0 9 r' ?sl sl' \<or> request_dropped 5 9 r' ?sl sl'" by blast
  then show ?thesis using e
    by (intro exI [of _ sl'] exI [of _ r'])
      (auto simp: request_waits_def request_handed_def request_dropped_def same_logs_def demo_wait_def demo_slave_def)
qed

theorem session_reported_once_witness:
  "\<exists>sl'. handle_event (demo_ag 0 5) demo_conf EvOut 5 (demo_wait (SessionCtx 1 0)) = Inr sl'
     \<and> sl_back sl' = [\<lparr>ms_biz = 7, ms_talks = [demo_talk], ms_timeo_ms = 0, ms_error = kOk\<rparr>]"
proof -
  let ?sl = "demo_wait (SessionCtx 1 0)"
  obtain d where d: "slave_RegEventDel (demo_ag 0 5) 9 ?sl = Inr (?sl\<lparr>sl_driver := d\<rparr>)" using demo_wait_del by blast
  have s: "sl_session ?sl 1 = \<lparr>se_biz = 7, se_talks = [demo_talk], num_talks_done = 0, has_failure = False\<rparr>"
    by (simp add: demo_wait_def demo_slave_def)
  have e: "session_event (demo_ag 0 5) EvOut 5 demo_talk ?sl = Inr (?sl\<lparr>sl_driver := d\<rparr>, demo_talk, False)"
    using d by (simp add: session_event_def HandleSessionEventWrite_def session_event_end_def demo_talk_def demo_ag_def demo_ops_def)
  obtain sl' where h: "handle_event (demo_ag 0 5) demo_conf EvOut 5 ?sl = Inr sl'"
    and s': "sl_session sl' 1 = \<lparr>se_biz = 7, se_talks = [demo_talk], num_talks_done = 1, has_failure = False\<rparr>"
    using e s
    by (auto simp: handle_event_def CheckSession_def FinishTalk_def report_talk_def SendBackMsg_def free_session_def free_ectx_def
      set_talk_def set_session_def Let_def demo_wait_def demo_slave_def demo_talk_def demo_ag_def)
  have "sl_back ?sl = []" "ec_data (sl_ectx ?sl 5) = SessionCtx 1 0" by (simp_all add: demo_wait_def demo_slave_def)
  with session_reported_once [OF h this(2) _ _ refl] s s' h show ?thesis by (auto simp: demo_talk_def)
qed

theorem timeout_keeps_error_witness:
  "\<exists>sl'. clean_timeout (demo_ag 0 500) demo_conf 5 (demo_wait (SessionCtx 1 0)) = Inr sl'
     \<and> tk_error (se_talks (sl_session sl' 1) ! 0) = kOk \<and> tk_fd (se_talks (sl_session sl' 1) ! 0) = -1"
proof -
  let ?sl = "demo_wait (SessionCtx 1 0)"
  obtain sl' where h: "clean_timeout (demo_ag 0 500) demo_conf 5 ?sl = Inr sl'"
    by (auto simp: clean_timeout_def FinishTalk_def report_talk_def SendBackMsg_def free_session_def free_ectx_def
      set_talk_def set_session_def Let_def demo_wait_def demo_slave_def demo_talk_def demo_ag_def slave_close_def)
  have "ec_data (sl_ectx ?sl 5) = SessionCtx 1 0" "tk_retry (se_talks (sl_session ?sl 1) ! 0) = 0"
    "tk_error (se_talks (sl_session ?sl 1) ! 0) = kOk"
    by (simp_all add: demo_wait_def demo_slave_def demo_talk_def)
  with timeout_keeps_error [OF h this(1) refl refl this(2)] h show ?thesis by auto
qed

text \<open>A talk with one retry, whose service is out of reach: it has read a byte before.\<close>

definition demo_again :: "(byte list, byte list) slave" where
  "demo_again = demo_slave\<lparr>sl_session := (\<lambda>_. \<lparr>se_biz = 7, se_talks = [demo_talk\<lparr>tk_service :=
     Some (demo_service\<lparr>sv_strategy := SsNormal\<rparr>), tk_retry := 1, protocol_read := Some [5]\<rparr>], num_talks_done = 0, has_failure = False\<rparr>)\<rparr>"

lemma demo_again_connect:
  assumes "ConnsMgr_new 10 (demo_remote, demo_pool) = Some cm"
  shows "\<exists>cm'. cm_GetFd (demo_env 0 (\<lambda>_. True) [(0, 0, 0)] 3) (demo_service\<lparr>sv_strategy := SsNormal\<rparr>) [] cm
    = Inr (cm', RpConf demo_remote, (-1, True), [])"
proof -
  note n = ConnsMgr_new_ok [OF assms]
  have none: "cm_Get cm demo_remote = None" using n(2) cm_Get_map [OF n(1)] by simp
  have "GetRemoteNormal (demo_env 0 (\<lambda>_. True) [(0, 0, 0)] 3) (demo_service\<lparr>sv_strategy := SsNormal\<rparr>) [] cm = Inr (RpConf demo_remote)"
    using n(4) by (simp add: GetRemoteNormal_def demo_service_def IsHealthy_def FailedBefore_def)
  then show ?thesis
    using none by (auto simp: cm_GetFd_def GetRemote_def cm_deref_def cm_GetFd1_def pc_Get_def PoolConns_new_def demo_env_def Let_def)
qed

theorem retry_keeps_reader_witness:
  "\<exists>sl' fin. FinishTalk ((demo_ag 0 5)\<lparr>ae_conn := demo_env 0 (\<lambda>_. True) [(0, 0, 0)] 3\<rparr>) demo_conf 1 False 0 demo_again = Inr (sl', fin)
     \<and> tk_retry (se_talks (sl_session sl' 1) ! 0) = 0 \<and> protocol_read (se_talks (sl_session sl' 1) ! 0) = Some [5]"
proof -
  let ?env = "(demo_ag 0 5)\<lparr>ae_conn := demo_env 0 (\<lambda>_. True) [(0, 0, 0)] 3\<rparr>"
  obtain cm where cm: "ConnsMgr_new 10 (demo_remote, demo_pool) = Some cm" using ConnsMgr_new_ex by blast
  obtain cm' where g: "cm_GetFd (demo_env 0 (\<lambda>_. True) [(0, 0, 0)] 3) (demo_service\<lparr>sv_strategy := SsNormal\<rparr>) [] cm
    = Inr (cm', RpConf demo_remote, (-1, True), [])" using demo_again_connect [OF cm] by blast
  obtain sl' fin where h: "FinishTalk ?env demo_conf 1 False 0 demo_again = Inr (sl', fin)"
    and r: "tk_retry (se_talks (sl_session sl' 1) ! 0) = 0"
    using g cm by (simp add: FinishTalk_def report_talk_def ResetTalk_def talk_connect_def demo_again_def demo_slave_def demo_talk_def
      Let_def slave_close_def set_session_def)
  have "protocol_read (se_talks (sl_session demo_again 1) ! 0) = Some [5]" by (simp add: demo_again_def)
  with retry_keeps_reader [OF h refl refl] h r show ?thesis by auto
qed

end
