(* ===== verification/Agents.thy ===== *)
theory Agents
  imports Agent_Slave Mpsc_Pipe
begin

text \<open>
  The agents, \<^verbatim>\<open>src/agents/\<close>: how a slave is set up, the notifier that wakes it, the group of
  slaves that messages are spread over (\<^verbatim>\<open>agents.h\<close>, \<^verbatim>\<open>agents.cpp\<close>) and the master that accepts
  the connections of clients (\<^verbatim>\<open>agent_master.cpp\<close>).
\<close>

section \<open>Setting up a slave\<close>

definition kThreholdSenderNotify :: nat where "kThreholdSenderNotify = 3"

text \<open>\<^verbatim>\<open>AgentSlave::Init\<close>. The sizes of the pooled objects and of a message header, the place of
  the mailbox's array and the contents of fresh memory are arguments; a mailbox that cannot be
  set up gives \<^term>\<open>None\<close>. Its size is that of the schedulers' mailboxes.\<close>

definition slave_Init ::
  "nat \<Rightarrow> nat \<Rightarrow> nat \<Rightarrow> nat \<Rightarrow> remote \<times> conns_pool \<Rightarrow> 'r ectx \<Rightarrow> ('w, 'r) session \<Rightarrow> conf_normal \<Rightarrow> remote list
     \<Rightarrow> ('w, 'r) slave option outcome" where
  "slave_Init sizeof_ectx sizeof_session offset base empty_slot e0 s0 cn remotes =
     (case ConnsMgr_new (long_conn_keepalive_sec cn) empty_slot of
        None \<Rightarrow> Inl NullDeref
      | Some cm \<Rightarrow> obind (ConfigRemotes remotes cm) (\<lambda>cm.
          case (pipe_Init offset base (size_scheduler_mailbox cn) kMaxSizeMsg kThreholdSenderNotify True :: bool mpsc_pipe option) of
            None \<Rightarrow> Inr None
          | Some _ \<Rightarrow> Inr (Some
              \<lparr>sl_driver = EventsDriver_new False, sl_interest = (\<lambda>_. EvErr), sl_conns = cm,
               sl_ectx_pool = PoolObjs_new sizeof_ectx 0 65536 True True (2 ^ 18), sl_ectx = (\<lambda>_. e0),
               sl_session_pool = PoolObjs_new sizeof_session 0 65536 True True (2 ^ 18), sl_session = (\<lambda>_. s0),
               sl_mailbox = [], num_clients_keepalive = 0, sl_end = False, sl_closed = [], sl_freed_reads = [],
               sl_back = [], sl_new_reqs = []\<rparr>)))"

section \<open>The notifier\<close>

text \<open>The pipe of a sending thread, and what the system calls of \<^verbatim>\<open>Notify\<close> answer.\<close>

record notify_env =
  ne_pipe :: "(fd \<times> fd) option"
  ne_nonblock :: bool
  ne_setspecific :: int
  ne_write :: "fd \<Rightarrow> int"

text \<open>\<^verbatim>\<open>MailboxNotifier::Notify\<close>, called by the sender in the thread \<open>tid\<close>; \<open>c\<close> is the new context.
  The results of \<^verbatim>\<open>RegEvent\<close> and \<^verbatim>\<open>RegEventDel\<close> are not looked at.\<close>

definition Notify ::
  "drv_env \<Rightarrow> notify_env \<Rightarrow> nat \<Rightarrow> nat \<Rightarrow> (nat \<Rightarrow> fd option) \<Rightarrow> ('w, 'r) slave
     \<Rightarrow> (('w, 'r) slave \<times> (nat \<Rightarrow> fd option) \<times> int) outcome" where
  "Notify denv ne c tid keys sl =
     obind (case keys tid of
         Some f \<Rightarrow> Inr (sl, keys, Some f)
       | None \<Rightarrow>
           (case ne_pipe ne of
              None \<Rightarrow> Inr (sl, keys, None)
            | Some (rd, wr) \<Rightarrow>
                if \<not> ne_nonblock ne then Inr (sl, keys, None)
                else let sl = set_ectx c (BuildForMailboxNotify rd (sl_ectx sl c)) sl in
                  obind (drv_RegEvent denv rd AddEvent (Some c) (-1) (sl_driver sl)) (\<lambda>(d, _).
                    let sl = sl\<lparr>sl_driver := d\<rparr> in
                    if ne_setspecific ne \<noteq> 0
                    then obind (drv_RegEventDel denv wr d) (\<lambda>(d, _). Inr (sl\<lparr>sl_driver := d\<rparr>, keys, None))
                    else Inr (sl, keys(tid \<mapsto> wr), Some wr))))
     (\<lambda>(sl, keys', fd).
        Inr (sl, keys', case fd of
          None \<Rightarrow> if ne_pipe ne = None \<or> \<not> ne_nonblock ne then -1 else -2
        | Some f \<Rightarrow> if ne_write ne f = 1 then 0 else -3))"

section \<open>The group of slaves\<close>

text \<open>\<^verbatim>\<open>id % agent_slaves_.size()\<close>: the number is converted to \<^verbatim>\<open>size_t\<close>.\<close>

definition slave_of :: "int \<Rightarrow> nat \<Rightarrow> nat" where
  "slave_of idp n = to_size idp mod n"

definition Agents_SendMsg ::
  "bool \<Rightarrow> int \<Rightarrow> ('w, 'r) msg \<Rightarrow> ('w, 'r) slave list \<Rightarrow> (('w, 'r) slave list \<times> bool) outcome" where
  "Agents_SendMsg room idp m slaves =
     (if slaves = [] then Inl DivByZero
      else let i = slave_of idp (length slaves) in
        case slave_SendMsg room m (slaves ! i) of (sl, ok) \<Rightarrow> Inr (slaves[i := sl], ok))"

text \<open>\<^verbatim>\<open>SendMsgWithRetry\<close> on what the mailbox answers in turn.\<close>

fun SendMsgWithRetry :: "bool list \<Rightarrow> int \<Rightarrow> ('w, 'r) msg \<Rightarrow> ('w, 'r) slave list \<Rightarrow> ('w, 'r) slave list outcome" where
  "SendMsgWithRetry [] idp m slaves = Inl NoReturn"
| "SendMsgWithRetry (room # rooms) idp m slaves =
     obind (Agents_SendMsg room idp m slaves) (\<lambda>(slaves, ok).
       if ok then Inr slaves else SendMsgWithRetry rooms idp m slaves)"

definition BroadcastWithRetry ::
  "(nat \<Rightarrow> bool list) \<Rightarrow> ('w, 'r) msg \<Rightarrow> ('w, 'r) slave list \<Rightarrow> ('w, 'r) slave list outcome" where
  "BroadcastWithRetry rooms m slaves = ofold (\<lambda>i. SendMsgWithRetry (rooms i) (int i) m) [0..<length slaves] slaves"

text \<open>The clients of all slaves are summed up in an \<^verbatim>\<open>int\<close>.\<close>

definition ClientsNotFull :: "conf_normal \<Rightarrow> ('w, 'r) slave list \<Rightarrow> bool" where
  "ClientsNotFull cn slaves \<longleftrightarrow> to_int32 (sum_list (map num_clients_keepalive slaves)) < int (max_num_clients_keepalive cn)"

section \<open>The master\<close>

record 'r master =
  ma_driver :: "nat events_driver"
  ma_ectx :: "nat \<Rightarrow> 'r ectx"
  ma_next :: nat
  ma_deleted :: "nat list"
  ma_closed :: "fd list"
  ma_end :: bool

text \<open>\<^verbatim>\<open>ListenOnAddr_\<close>; \<open>f\<close> is what \<^verbatim>\<open>IOHelper::Listen\<close> returned.\<close>

definition ListenOnAddr :: "drv_env \<Rightarrow> fd \<Rightarrow> listen_addr \<Rightarrow> 'r master \<Rightarrow> ('r master \<times> bool) outcome" where
  "ListenOnAddr denv f la m =
     (if f \<le> 0 then Inr (m, False)
      else let c = ma_next m;
               m = m\<lparr>ma_next := c + 1, ma_ectx := (ma_ectx m)(c := BuildForListen f la (ma_ectx m c))\<rparr>
        in obind (drv_RegEvent denv f AddEvent (Some c) (-1) (ma_driver m)) (\<lambda>(d, ok).
          let m = m\<lparr>ma_driver := d\<rparr>
          in if ok then Inr (m, True) else Inr (m\<lparr>ma_deleted := ma_deleted m @ [c]\<rparr>, False)))"

fun master_Init :: "(nat \<Rightarrow> drv_env) \<Rightarrow> (listen_addr \<Rightarrow> fd) \<Rightarrow> listen_addr list \<Rightarrow> 'r master \<Rightarrow> ('r master \<times> bool) outcome" where
  "master_Init denvs listen [] m = Inr (m, True)"
| "master_Init denvs listen (la # las) m =
     obind (ListenOnAddr (denvs (length las)) (listen la) la m) (\<lambda>(m, ok).
       if ok then master_Init denvs listen las m else Inr (m, False))"

record accept_env =
  ac_fd :: fd
  ac_rand :: int
  ac_sec :: sec
  ac_room :: bool

text \<open>One ready event of \<^verbatim>\<open>CheckEvents_\<close>.\<close>

definition master_event ::
  "accept_env \<Rightarrow> conf_normal \<Rightarrow> drv_event \<Rightarrow> nat \<Rightarrow> 'r master \<times> ('w, 'r) slave list \<Rightarrow> ('r master \<times> ('w, 'r) slave list) outcome" where
  "master_event ac cn ev c s =
     (case s of (m, slaves) \<Rightarrow>
      case ec_data (ma_ectx m c) of
        ListenCtx la \<Rightarrow>
          (let close = m\<lparr>ma_closed := ma_closed m @ [ac_fd ac]\<rparr> in
           if ev \<noteq> EvIn \<or> ac_fd ac = -1 then Inr (m, slaves)
           else if \<not> ClientsNotFull cn slaves then Inr (close, slaves)
           else let rq = BuildMsgReadReq (ac_rand ac) (ac_sec ac) (ac_fd ac) la 0 in
             obind (Agents_SendMsg (ac_room ac) (rq_id_procedure rq) (MsgReadReq rq) slaves) (\<lambda>(slaves, ok).
               Inr (if \<not> ok \<and> ac_fd ac > 0 then close else m, slaves)))
      | _ \<Rightarrow> Inr (m, slaves))"

definition master_CheckEvents ::
  "drv_env \<Rightarrow> (msec \<Rightarrow> int \<times> (u32 \<times> fd) list) \<Rightarrow> (nat \<Rightarrow> accept_env) \<Rightarrow> conf_normal
     \<Rightarrow> 'r master \<times> ('w, 'r) slave list \<Rightarrow> (('r master \<times> ('w, 'r) slave list) \<times> bool) outcome" where
  "master_CheckEvents denv epoll_wait acs cn s =
     (case s of (m, slaves) \<Rightarrow>
      case drv_Wait denv epoll_wait 0 (ma_driver m) of (d, num) \<Rightarrow>
      let m = m\<lparr>ma_driver := d\<rparr> in
      if num > 0 then
        obind (ofold (\<lambda>i s.
            obind (drv_CheckReadyEvent i (ma_driver (fst s))) (\<lambda>(ev, ctx).
              case ctx of None \<Rightarrow> Inl NullDeref | Some c \<Rightarrow> master_event (acs i) cn ev c s))
          [0..<nat num] (m, slaves)) (\<lambda>s. Inr (s, True))
      else Inr ((m, slaves), False))"

text \<open>\<^verbatim>\<open>AgentMaster::Process_\<close>: rounds while there are events, each in its surroundings.\<close>

record master_round =
  mr_driver :: drv_env
  mr_wait :: "msec \<Rightarrow> int \<times> (u32 \<times> fd) list"
  mr_accept :: "nat \<Rightarrow> accept_env"

fun master_Process ::
  "conf_normal \<Rightarrow> master_round list \<Rightarrow> 'r master \<times> ('w, 'r) slave list \<Rightarrow> ('r master \<times> ('w, 'r) slave list) outcome" where
  "master_Process cn [] s = Inl NoReturn"
| "master_Process cn (re # res) s =
     obind (master_CheckEvents (mr_driver re) (mr_wait re) (mr_accept re) cn s) (\<lambda>(s, again).
       if again then master_Process cn res s else Inr s)"

definition master_Stop :: "drv_env \<Rightarrow> 'r master \<Rightarrow> 'r master outcome" where
  "master_Stop denv m =
     obind (drv_ClearAll denv (ma_driver m)) (\<lambda>d.
       if \<not> drv_inited d then Inl NullDeref
       else Inr (m\<lparr>ma_driver := d, ma_end := True, ma_deleted := ma_deleted m @ tmp_all_contexts d\<rparr>))"

section \<open>Rounds of the master\<close>

lemma CheckEvents_quiet:
  assumes "\<And>t. fst (wait t) \<le> 0"
  shows "\<exists>s'. master_CheckEvents denv wait acs cn s = Inr (s', False) \<and> snd s' = snd s"
proof -
  obtain m slaves where s: "s = (m, slaves)" by fastforce
  obtain d num where w: "drv_Wait denv wait 0 (ma_driver m) = (d, num)" by fastforce
  have "num \<le> 0" using w assms [of "to_int32 (drv_Wait_time denv 0 (fst (drv_raii denv (ma_driver m))))"]
    by (auto simp: drv_Wait_def split: prod.splits if_splits)
  then show ?thesis using w s by (simp add: master_CheckEvents_def Let_def)
qed

lemma CheckEvents_not_NoReturn:
  fixes s :: "'r master \<times> ('w, 'r) slave list"
  shows "master_CheckEvents denv wait acs cn s \<noteq> Inl NoReturn"
proof -
  have e: "master_event ac cn ev c s \<noteq> Inl NoReturn" for ac ev c and s :: "'r master \<times> ('w, 'r) slave list"
    by (auto simp: master_event_def Agents_SendMsg_def obind_def Let_def split: prod.splits ectx_data.splits sum.splits if_splits)
  have "obind (drv_CheckReadyEvent i (ma_driver (fst s))) (\<lambda>(ev, ctx).
      case ctx of None \<Rightarrow> Inl NullDeref | Some c \<Rightarrow> master_event (acs i) cn ev c s) \<noteq> Inl NoReturn" for i and s :: "'r master \<times> ('w, 'r) slave list"
  proof -
    have "drv_CheckReadyEvent i (ma_driver (fst s)) \<noteq> Inl NoReturn" by (auto simp: drv_CheckReadyEvent_def Let_def split: prod.splits)
    then show ?thesis using e by (cases "drv_CheckReadyEvent i (ma_driver (fst s))") (simp_all add: split_beta split: option.split)
  qed
  from ofold_not [of "\<lambda>i s. obind (drv_CheckReadyEvent i (ma_driver (fst s))) (\<lambda>(ev, ctx).
      case ctx of None \<Rightarrow> Inl NullDeref | Some c \<Rightarrow> master_event (acs i) cn ev c s)", OF this]
  show ?thesis by (auto simp: master_CheckEvents_def obind_def Let_def split: prod.splits sum.splits)
qed

text \<open>The master's loop returns, at the latest with the first round in which no event is ready.\<close>

lemma master_Process_returns:
  assumes "\<And>t. fst (mr_wait re t) \<le> 0"
  shows "master_Process cn (pre @ re # post) s \<noteq> Inl NoReturn"
proof (induction pre arbitrary: s)
  case Nil
  then show ?case using CheckEvents_quiet [where wait = "mr_wait re", OF assms, of "mr_driver re" "mr_accept re" cn s] by auto
next
  case (Cons r pre)
  then show ?case using CheckEvents_not_NoReturn [of "mr_driver r" "mr_wait r" "mr_accept r" cn s]
    by (cases "master_CheckEvents (mr_driver r) (mr_wait r) (mr_accept r) cn s") (simp_all add: split_beta)
qed

section \<open>Routing\<close>

lemma Agents_SendMsg_cases:
  assumes "Agents_SendMsg room idp m slaves = Inr (slaves', ok)"
  shows "ok = room \<and> slaves \<noteq> [] \<and> (let i = slave_of idp (length slaves) in i < length slaves
    \<and> slaves' = (if room then slaves[i := (slaves ! i)\<lparr>sl_mailbox := sl_mailbox (slaves ! i) @ [m]\<rparr>] else slaves))"
  using assms by (auto simp: Agents_SendMsg_def slave_SendMsg_def slave_of_def Let_def split: if_splits)

text \<open>Everything but the mailboxes stays as it is when a message is sent.\<close>

definition mailboxes :: "('w, 'r) slave list \<Rightarrow> ('w, 'r) msg list list" where
  "mailboxes slaves = map sl_mailbox slaves"

lemma mailboxes_sent:
  "i < length slaves \<Longrightarrow> mailboxes (slaves[i := (slaves ! i)\<lparr>sl_mailbox := sl_mailbox (slaves ! i) @ [m]\<rparr>])
     = (mailboxes slaves)[i := mailboxes slaves ! i @ [m]]"
  by (simp add: mailboxes_def map_update)

lemma clients_sent:
  "i < length slaves \<Longrightarrow> map num_clients_keepalive (slaves[i := (slaves ! i)\<lparr>sl_mailbox := b\<rparr>]) = map num_clients_keepalive slaves"
  by (simp add: map_update list_update_same_conv)

lemma SendMsgWithRetry_Inr:
  assumes "SendMsgWithRetry rooms idp m slaves = Inr slaves'"
  shows "mailboxes slaves' = (mailboxes slaves)[slave_of idp (length slaves) := mailboxes slaves ! slave_of idp (length slaves) @ [m]]"
  using assms
proof (induction rooms)
  case (Cons room rooms)
  then obtain s ok where s: "Agents_SendMsg room idp m slaves = Inr (s, ok)" "(if ok then Inr s else SendMsgWithRetry rooms idp m s) = Inr slaves'"
    by (auto simp: obind_Inr_iff)
  then show ?case
    using Agents_SendMsg_cases [OF s(1)] Cons.IH mailboxes_sent [of "slave_of idp (length slaves)" slaves m]
    by (auto simp: Let_def split: if_splits)
qed simp

text \<open>C24. A message that is retried is delivered exactly once, at the end of the mailbox of the slave
  that its number belongs to, as soon as that mailbox has room once; so all messages of a request
  go to the slave that counts its client.\<close>

theorem SendMsgWithRetry_delivers:
  assumes "slaves \<noteq> []" "True \<in> set rooms"
  shows "\<exists>slaves'. SendMsgWithRetry rooms idp m slaves = Inr slaves' \<and> length slaves' = length slaves
    \<and> (let i = slave_of idp (length slaves) in mailboxes slaves' = (mailboxes slaves)[i := mailboxes slaves ! i @ [m]])
    \<and> map num_clients_keepalive slaves' = map num_clients_keepalive slaves"
  using assms(2)
proof (induction rooms)
  case (Cons room rooms)
  let ?i = "slave_of idp (length slaves)"
  have i: "?i < length slaves" using assms(1) by (simp add: slave_of_def)
  show ?case
  proof (cases room)
    case True
    let ?s = "slaves[?i := (slaves ! ?i)\<lparr>sl_mailbox := sl_mailbox (slaves ! ?i) @ [m]\<rparr>]"
    have "SendMsgWithRetry (room # rooms) idp m slaves = Inr ?s"
      using True assms(1) by (simp add: Agents_SendMsg_def slave_SendMsg_def Let_def)
    then show ?thesis using mailboxes_sent [OF i] clients_sent [OF i] by (simp add: Let_def)
  next
    case False
    then have "SendMsgWithRetry (room # rooms) idp m slaves = SendMsgWithRetry rooms idp m slaves"
      using assms(1) by (simp add: Agents_SendMsg_def slave_SendMsg_def Let_def)
    with Cons False show ?thesis by simp
  qed
qed simp

theorem SendMsgWithRetry_delivers_witness:
  "\<exists>slaves'. SendMsgWithRetry [False, True] 5 MsgConfig [demo_slave, demo_slave] = Inr slaves'
     \<and> mailboxes slaves' = [[], [MsgConfig]]"
proof -
  have i: "slave_of 5 (length [demo_slave, demo_slave]) = 1" by (simp add: slave_of_def to_size_def numeral_2_eq_2 [symmetric])
  have b: "mailboxes [demo_slave, demo_slave] = [[], []]" by (simp add: mailboxes_def demo_slave_def)
  from SendMsgWithRetry_delivers [of "[demo_slave, demo_slave]" "[False, True]" 5 MsgConfig, unfolded i b]
  show ?thesis by (auto simp: Let_def)
qed

text \<open>C8. A connection the master accepts has exactly one owner afterwards: either it is in one
  message at the end of the mailbox of the slave chosen by its number, and was below the limit of
  clients, and is not closed; or it is closed, once, and no mailbox has changed.\<close>

theorem master_accept_owner:
  assumes "master_event ac cn EvIn c (m, slaves) = Inr (m', slaves')" "ec_data (ma_ectx m c) = ListenCtx la" "ac_fd ac > 0"
  shows "(ma_closed m' = ma_closed m @ [ac_fd ac] \<and> mailboxes slaves' = mailboxes slaves)
    \<or> (ma_closed m' = ma_closed m \<and> ClientsNotFull cn slaves
      \<and> (\<exists>i < length slaves. i = slave_of (ac_rand ac) (length slaves)
          \<and> mailboxes slaves' = (mailboxes slaves)[i := mailboxes slaves ! i
              @ [MsgReadReq (BuildMsgReadReq (ac_rand ac) (ac_sec ac) (ac_fd ac) la 0)]]))"
proof (cases "ClientsNotFull cn slaves")
  case False
  then show ?thesis using assms by (auto simp: master_event_def Let_def)
next
  case True
  let ?rq = "BuildMsgReadReq (ac_rand ac) (ac_sec ac) (ac_fd ac) la 0"
  obtain ok where s: "Agents_SendMsg (ac_room ac) (ac_rand ac) (MsgReadReq ?rq) slaves = Inr (slaves', ok)"
    "m' = (if \<not> ok \<and> ac_fd ac > 0 then m\<lparr>ma_closed := ma_closed m @ [ac_fd ac]\<rparr> else m)"
    using assms True by (auto simp: master_event_def Let_def obind_Inr_iff BuildMsgReadReq_def)
  note S = Agents_SendMsg_cases [OF s(1), unfolded Let_def]
  show ?thesis
    using S s(2) assms(3) True mailboxes_sent [of "slave_of (ac_rand ac) (length slaves)" slaves "MsgReadReq ?rq"]
    by (cases "ac_room ac") auto
qed

definition demo_listen :: listen_addr where
  "demo_listen = \<lparr>la_name = ''main'', la_category = PcRapid, la_addr = \<lparr>sin_family = AF_INET, s_addr = 1, sin_port = 80\<rparr>\<rparr>"

definition demo_master :: "byte list master" where
  "demo_master = \<lparr>ma_driver = EventsDriver_new True,
     ma_ectx = (\<lambda>_. \<lparr>ec_fd = 3, ec_timeleft_ms = 0, ec_lasttime_ms = 0, ec_data = ListenCtx demo_listen\<rparr>),
     ma_next = 1, ma_deleted = [], ma_closed = [], ma_end = False\<rparr>"

theorem master_accept_owner_witness:
  "\<exists>m' slaves'. master_event \<lparr>ac_fd = 12, ac_rand = 4, ac_sec = 77, ac_room = True\<rparr> demo_conf EvIn 0 (demo_master, [demo_slave])
       = Inr (m', slaves')
     \<and> ma_closed m' = [] \<and> mailboxes slaves' = [[MsgReadReq (BuildMsgReadReq 4 77 12 demo_listen 0)]]"
proof -
  let ?ac = "\<lparr>ac_fd = 12, ac_rand = 4, ac_sec = 77, ac_room = True\<rparr>"
  have full: "ClientsNotFull demo_conf [demo_slave]" by (simp add: ClientsNotFull_def demo_conf_def demo_slave_def to_int32_small)
  obtain m' slaves' where e: "master_event ?ac demo_conf EvIn 0 (demo_master, [demo_slave]) = Inr (m', slaves')" "ma_closed m' = []"
    using full by (auto simp: master_event_def demo_master_def Agents_SendMsg_def slave_SendMsg_def slave_of_def Let_def)
  have b: "mailboxes [demo_slave] = [[]]" by (simp add: mailboxes_def demo_slave_def)
  from master_accept_owner [OF e(1), of demo_listen] e b show ?thesis by (auto simp: demo_master_def)
qed

end
