(* ===== verification/Biz_Procedure.thy ===== *)
theory Biz_Procedure
  imports Agents
begin

text \<open>
  The procedures that handle requests, \<^verbatim>\<open>src/biz_procedure.h\<close> and \<^verbatim>\<open>src/details/biz_procedure.cpp\<close>,
  and how a pointer is passed to a new context as two integers (\<^verbatim>\<open>src/ctx_helper.h\<close>). The handler a
  procedure runs is the user's code. A procedure keeps the vectors of talks it took from its pool
  and, per service, one connection it may use again.
\<close>

section \<open>Pointers as pairs of integers\<close>

unbundle bit_operations_syntax

definition kLow32Int :: u64 where "kLow32Int = push_bit 32 1 - 1"

text \<open>\<^verbatim>\<open>PtrToInts\<close> and \<^verbatim>\<open>IntsToPtr\<close>; an \<^verbatim>\<open>int\<close> is its 32 bits.\<close>

definition PtrToInts :: "u64 \<Rightarrow> u32 \<times> u32" where
  "PtrToInts p = (ucast (drop_bit 32 p), ucast (p AND kLow32Int))"

definition IntsToPtr :: "u32 \<Rightarrow> u32 \<Rightarrow> u64" where
  "IntsToPtr high low = push_bit 32 (ucast high) OR ucast low"

section \<open>State\<close>

text \<open>The logs hold the protocol objects given back to their pools.\<close>

record ('w, 'r) biz =
  bz_id_procedure :: int
  bz_fd_client :: fd
  bz_starttime_sec :: sec
  bz_protocol_read :: "'r option"
  bz_service_cache :: "(nat \<times> fd \<times> remote_ptr) list"
  bz_pool_talks :: pool_objs
  bz_talks :: "nat \<Rightarrow> ('w, 'r) talk list"
  bz_tmp_talks :: "nat list"
  bz_msg_session :: "('w, 'r) msg_session option"
  bz_write_back_called :: bool
  bz_freed_writes :: "'w list"
  bz_freed_reads :: "'r list"

text \<open>\<^verbatim>\<open>PoolTalks(1, 1024, false, true, 1)\<close> of \<^verbatim>\<open>Init_\<close>; the size of a vector object is 24.\<close>

definition pool_talks_new :: pool_objs where
  "pool_talks_new = PoolObjs_new 24 1 1024 False True 1"

definition Procedure :: "'r msg_new_req \<Rightarrow> ('w, 'r) biz \<Rightarrow> ('w, 'r) biz" where
  "Procedure m b = b\<lparr>bz_id_procedure := nr_id_procedure m, bz_fd_client := nr_fd_client m,
     bz_starttime_sec := nr_starttime_sec m, bz_protocol_read := nr_protocol_read m\<rparr>"

section \<open>Talks\<close>

definition GetTalk :: "('w, 'r) biz \<Rightarrow> (('w, 'r) biz \<times> nat) outcome" where
  "GetTalk b = (case pool_Get True (bz_pool_talks b) of
       (p, None) \<Rightarrow> Inl NullDeref
     | (p, Some v) \<Rightarrow> Inr (b\<lparr>bz_pool_talks := p, bz_tmp_talks := bz_tmp_talks b @ [v]\<rparr>, v))"

text \<open>\<^verbatim>\<open>FreeTalks\<close>.\<close>

definition free_vector :: "nat \<Rightarrow> ('w, 'r) biz \<Rightarrow> ('w, 'r) biz" where
  "free_vector v b = b\<lparr>bz_freed_writes := bz_freed_writes b @ List.map_filter protocol_write (bz_talks b v),
     bz_freed_reads := bz_freed_reads b @ List.map_filter protocol_read (bz_talks b v),
     bz_pool_talks := pool_Free True v (bz_pool_talks b)\<rparr>"

definition FreeTalks :: "('w, 'r) biz \<Rightarrow> ('w, 'r) biz" where
  "FreeTalks b = (fold free_vector (bz_tmp_talks b) b)\<lparr>bz_tmp_talks := []\<rparr>"

section \<open>The service cache\<close>

text \<open>\<^verbatim>\<open>GetFdFromServiceCache\<close> takes the connection out; the remote is only set when there is one.\<close>

definition GetFdFromServiceCache ::
  "service \<Rightarrow> ('w, 'r) biz \<Rightarrow> ('w, 'r) biz \<times> fd \<times> remote_ptr option" where
  "GetFdFromServiceCache svc b =
     (case map_of (bz_service_cache b) (sv_no svc) of
        None \<Rightarrow> (b, 0, None)
      | Some (f, q) \<Rightarrow> (b\<lparr>bz_service_cache := filter (\<lambda>(k, _). k \<noteq> sv_no svc) (bz_service_cache b)\<rparr>, f, Some q))"

text \<open>\<^verbatim>\<open>InsertFdIntoServiceCache\<close>: \<^verbatim>\<open>insert\<close> keeps an entry that is there.\<close>

definition InsertFdIntoServiceCache :: "service \<Rightarrow> fd \<Rightarrow> remote_ptr \<Rightarrow> ('w, 'r) biz \<Rightarrow> ('w, 'r) biz" where
  "InsertFdIntoServiceCache svc f q b = b\<lparr>bz_service_cache := map_insert (sv_no svc) (f, q) (bz_service_cache b)\<rparr>"

definition InvalidFdInServiceCache :: "service \<Rightarrow> ('w, 'r) biz \<Rightarrow> ('w, 'r) biz" where
  "InvalidFdInServiceCache svc b = b\<lparr>bz_service_cache := filter (\<lambda>(k, _). k \<noteq> sv_no svc) (bz_service_cache b)\<rparr>"

section \<open>The end of a procedure\<close>

text \<open>\<^verbatim>\<open>Reset_\<close>: the message goes to the slave of the procedure's number; \<open>tmp\<close> is the message
  object that is used again and again.\<close>

definition biz_Reset ::
  "bool list \<Rightarrow> 'r msg_destruct \<Rightarrow> ('w, 'r) slave list \<Rightarrow> ('w, 'r) biz \<Rightarrow> (('w, 'r) slave list \<times> ('w, 'r) biz) outcome" where
  "biz_Reset rooms tmp slaves b =
     (if bz_protocol_read b = None then Inl AssertFail
      else let m = BuildForDestruct (bz_id_procedure b) (bz_fd_client b) (bz_starttime_sec b) (bz_protocol_read b) (bz_service_cache b) tmp
        in obind (SendMsgWithRetry rooms (bz_id_procedure b) (MsgDestruct m) slaves) (\<lambda>slaves.
          Inr (slaves, (FreeTalks b)\<lparr>bz_service_cache := []\<rparr>)))"

section \<open>Lemmas\<close>

text \<open>A pointer survives the way through the two integer parameters of \<^verbatim>\<open>makecontext\<close>.\<close>

theorem ptr_ints_roundtrip: "(case PtrToInts p of (high, low) \<Rightarrow> IntsToPtr high low) = p"
proof (rule bit_word_eqI)
  fix n
  assume n: "n < LENGTH(64)"
  have mask: "kLow32Int = mask 32" by (simp add: kLow32Int_def mask_eq_exp_minus_1)
  show "bit (case PtrToInts p of (high, low) \<Rightarrow> IntsToPtr high low) n = bit p n"
    using n by (auto simp: PtrToInts_def IntsToPtr_def mask bit_simps)
qed

text \<open>What a vector holds is given back, in order, and the vector returns to its pool.\<close>

lemma FreeTalks_logs:
  "bz_freed_writes (FreeTalks b) = bz_freed_writes b @ concat (map (\<lambda>v. List.map_filter protocol_write (bz_talks b v)) (bz_tmp_talks b))
   \<and> bz_freed_reads (FreeTalks b) = bz_freed_reads b @ concat (map (\<lambda>v. List.map_filter protocol_read (bz_talks b v)) (bz_tmp_talks b))
   \<and> bz_tmp_talks (FreeTalks b) = [] \<and> bz_service_cache (FreeTalks b) = bz_service_cache b"
proof -
  have "bz_freed_writes (fold free_vector vs b) = bz_freed_writes b @ concat (map (\<lambda>v. List.map_filter protocol_write (bz_talks b v)) vs)
    \<and> bz_freed_reads (fold free_vector vs b) = bz_freed_reads b @ concat (map (\<lambda>v. List.map_filter protocol_read (bz_talks b v)) vs)
    \<and> bz_service_cache (fold free_vector vs b) = bz_service_cache b" for vs
    by (induction vs arbitrary: b) (simp_all add: free_vector_def)
  then show ?thesis by (simp add: FreeTalks_def)
qed

text \<open>The connections a destruct message carries are exactly those of the service cache,
  whichever of the two ways they travel.\<close>

lemma BuildForDestruct_cache:
  "(case md_big_cache (BuildForDestruct idp f st r cache tmp) of
      None \<Rightarrow> md_small_cache (BuildForDestruct idp f st r cache tmp) | Some b \<Rightarrow> b) = map snd cache"
  by (simp add: BuildForDestruct_def Let_def)

lemma cache_get_inserted:
  assumes "map_of (bz_service_cache b) (sv_no svc) = None"
  shows "GetFdFromServiceCache svc (InsertFdIntoServiceCache svc f q b) = (b, f, Some q)"
proof -
  have "filter (\<lambda>(k, _). k \<noteq> sv_no svc) (bz_service_cache b) = bz_service_cache b"
    using assms by (force simp: filter_id_conv map_of_eq_None_iff image_iff)
  then show ?thesis
    using assms by (simp add: GetFdFromServiceCache_def InsertFdIntoServiceCache_def map_insert_def map_of_append map_add_def)
qed

end
