(* ===== verification/IO_Basic.thy ===== *)
theory IO_Basic
  imports Biz_Procedure
begin

text \<open>
  The calls a procedure makes, \<^verbatim>\<open>src/io_basic/\<close>. A call builds talks, sends them to the agents in a
  session message and gives up the thread; it goes on when the session has come back. The message
  goes into the mailbox of a slave; what comes back for it is the argument \<open>io_answer\<close>, which the
  slave's model computes. \<^verbatim>\<open>IOBasic\<close> only picks the object of the thread.
\<close>

section \<open>Building and settling talks\<close>

record ('w, 'r) io_env =
  io_me :: nat
  io_ops :: "('w, 'r) proto_ops"
  io_now :: "nat \<Rightarrow> msec"
  io_room :: bool
  io_answer :: "('w, 'r) msg_session \<Rightarrow> ('w, 'r) msg_session"

text \<open>The loop that assigns the talks of a set of services; \<^verbatim>\<open>bufs[i]\<close> past the end is an error of
  the caller, and a read has no buffers at all.\<close>

fun assign_talks ::
  "('w, 'r) io_env \<Rightarrow> talk_category \<Rightarrow> byte list option list option \<Rightarrow> msec \<Rightarrow> nat \<Rightarrow> service list \<Rightarrow> ('w, 'r) biz
     \<Rightarrow> (('w, 'r) biz \<times> ('w, 'r) talk list) outcome" where
  "assign_talks env cat bufs timeo i [] b = Inr (b, [])"
| "assign_talks env cat bufs timeo i (svc # svcs) b =
     (case GetFdFromServiceCache svc b of (b, f, q) \<Rightarrow>
      obind (case bufs of None \<Rightarrow> Inr None | Some bs \<Rightarrow> if i < length bs then Inr (bs ! i) else Inl OutOfRange) (\<lambda>buf.
      obind (Talk_Assign (io_ops env) (io_now env i) i cat (Some svc) (sv_category svc) buf timeo f q) (\<lambda>(t, freed).
      obind (assign_talks env cat bufs timeo (i + 1) svcs (b\<lparr>bz_freed_writes := bz_freed_writes b @ freed\<rparr>)) (\<lambda>(b, ts).
      Inr (b, t # ts)))))"

text \<open>Sending the session and waiting for it; no result when the mailbox is full.\<close>

definition io_exchange ::
  "('w, 'r) io_env \<Rightarrow> nat \<Rightarrow> msec \<Rightarrow> ('w, 'r) slave list \<times> ('w, 'r) biz
     \<Rightarrow> (('w, 'r) slave list \<times> ('w, 'r) biz \<times> ('w, 'r) msg_session option) outcome" where
  "io_exchange env v timeo s =
     (case s of (slaves, b) \<Rightarrow>
      let m = BuildForSessionMsg (io_me env) (bz_talks b v) timeo kOk in
      obind (Agents_SendMsg (io_room env) (bz_id_procedure b) (MsgSession m) slaves) (\<lambda>(slaves, ok).
        if \<not> ok then Inr (slaves, b, None)
        else let a = io_answer env m
          in Inr (slaves, b\<lparr>bz_talks := (bz_talks b)(v := ms_talks a), bz_msg_session := Some a\<rparr>, Some a)))"

text \<open>After a talk its connection is kept for the service, or what was kept is dropped.\<close>

definition settle_talk :: "service \<Rightarrow> ('w, 'r) talk \<Rightarrow> ('w, 'r) biz \<Rightarrow> ('w, 'r) biz outcome" where
  "settle_talk svc t b =
     (if tk_fd t > 0
      then (case tk_remote t of None \<Rightarrow> Inl NullDeref | Some q \<Rightarrow> Inr (InsertFdIntoServiceCache svc (tk_fd t) q b))
      else Inr (InvalidFdInServiceCache svc b))"

section \<open>Sets of services\<close>

text \<open>The common part of the three calls on a set: the talks as they came back, and the result.\<close>

definition io_set ::
  "('w, 'r) io_env \<Rightarrow> talk_category \<Rightarrow> service list \<Rightarrow> byte list option list option \<Rightarrow> msec \<Rightarrow> ('w, 'r) slave list \<times> ('w, 'r) biz
     \<Rightarrow> (('w, 'r) slave list \<times> ('w, 'r) biz \<times> ('w, 'r) talk list option \<times> int) outcome" where
  "io_set env cat svcs bufs timeo s =
     (case s of (slaves, b) \<Rightarrow>
      obind (GetTalk b) (\<lambda>(b, v).
      obind (assign_talks env cat bufs timeo 0 svcs b) (\<lambda>(b, talks).
      obind (io_exchange env v timeo (slaves, b\<lparr>bz_talks := (bz_talks b)(v := talks)\<rparr>)) (\<lambda>(slaves, b, res).
      case res of
        None \<Rightarrow> Inr (slaves, b, None, kQueueBusy)
      | Some a \<Rightarrow>
          if length (ms_talks a) < length svcs then Inl OutOfRange
          else obind (ofold (\<lambda>t b. case tk_service t of None \<Rightarrow> Inl NullDeref | Some svc \<Rightarrow> settle_talk svc t b)
                        (take (length svcs) (ms_talks a)) b) (\<lambda>b.
            Inr (slaves, b, Some (take (length svcs) (ms_talks a)), ms_error a))))))"

text \<open>\<^verbatim>\<open>Write\<close>: the errors are assigned by index to a vector that was only reserved, so that what is
  past its size is lost.\<close>

definition io_Writes ::
  "('w, 'r) io_env \<Rightarrow> service list \<Rightarrow> byte list option list \<Rightarrow> msec \<Rightarrow> int list \<Rightarrow> ('w, 'r) slave list \<times> ('w, 'r) biz
     \<Rightarrow> (('w, 'r) slave list \<times> ('w, 'r) biz \<times> int list \<times> int) outcome" where
  "io_Writes env svcs bufs timeo errors s =
     obind (io_set env TcWriteOnly svcs (Some bufs) timeo s) (\<lambda>(slaves, b, res, ret).
       Inr (slaves, b, (case res of None \<Rightarrow> errors
         | Some ts \<Rightarrow> fold (\<lambda>i es. es[i := tk_error (ts ! i)]) [0..<length ts] errors), ret))"

definition io_responses :: "('w, 'r) talk list option \<Rightarrow> (int \<times> 'r option) list \<Rightarrow> (int \<times> 'r option) list" where
  "io_responses res responses = (case res of None \<Rightarrow> responses | Some ts \<Rightarrow> map (\<lambda>t. (tk_error t, protocol_read t)) ts)"

definition io_Reads ::
  "('w, 'r) io_env \<Rightarrow> service list \<Rightarrow> msec \<Rightarrow> (int \<times> 'r option) list \<Rightarrow> ('w, 'r) slave list \<times> ('w, 'r) biz
     \<Rightarrow> (('w, 'r) slave list \<times> ('w, 'r) biz \<times> (int \<times> 'r option) list \<times> int) outcome" where
  "io_Reads env svcs timeo responses s =
     obind (io_set env TcReadOnly svcs None timeo s) (\<lambda>(slaves, b, res, ret). Inr (slaves, b, io_responses res responses, ret))"

definition io_Talks ::
  "('w, 'r) io_env \<Rightarrow> service list \<Rightarrow> byte list option list \<Rightarrow> msec \<Rightarrow> (int \<times> 'r option) list \<Rightarrow> ('w, 'r) slave list \<times> ('w, 'r) biz
     \<Rightarrow> (('w, 'r) slave list \<times> ('w, 'r) biz \<times> (int \<times> 'r option) list \<times> int) outcome" where
  "io_Talks env svcs bufs timeo responses s =
     obind (io_set env TcWriteAndRead svcs (Some bufs) timeo s) (\<lambda>(slaves, b, res, ret). Inr (slaves, b, io_responses res responses, ret))"

section \<open>One service\<close>

text \<open>A session of one talk. An error of \<^verbatim>\<open>Assign\<close> ends the call, except in a read, which does not
  look at it.\<close>

definition io_one ::
  "('w, 'r) io_env \<Rightarrow> bool \<Rightarrow> talk_category \<Rightarrow> service option \<Rightarrow> protocol_category \<Rightarrow> byte list option \<Rightarrow> msec \<Rightarrow> fd
     \<Rightarrow> remote_ptr option \<Rightarrow> ('w, 'r) slave list \<times> ('w, 'r) biz
     \<Rightarrow> (('w, 'r) slave list \<times> ('w, 'r) biz \<times> ('w, 'r) talk option \<times> int) outcome" where
  "io_one env checked cat svc pcat buf timeo f q s =
     (case s of (slaves, b) \<Rightarrow>
      obind (GetTalk b) (\<lambda>(b, v).
      obind (Talk_Assign (io_ops env) (io_now env 0) 0 cat svc pcat buf timeo f q) (\<lambda>(t, freed).
      let b = b\<lparr>bz_talks := (bz_talks b)(v := [t]), bz_freed_writes := bz_freed_writes b @ freed\<rparr> in
      if checked \<and> tk_error t \<noteq> kOk then Inr (slaves, b, None, tk_error t)
      else obind (io_exchange env v timeo (slaves, b)) (\<lambda>(slaves, b, res).
        case res of
          None \<Rightarrow> Inr (slaves, b, None, kQueueBusy)
        | Some a \<Rightarrow> (case ms_talks a of [] \<Rightarrow> Inl OutOfRange | t # _ \<Rightarrow> Inr (slaves, b, Some t, ms_error a))))))"

definition io_service ::
  "('w, 'r) io_env \<Rightarrow> bool \<Rightarrow> talk_category \<Rightarrow> service \<Rightarrow> byte list option \<Rightarrow> msec \<Rightarrow> ('w, 'r) slave list \<times> ('w, 'r) biz
     \<Rightarrow> (('w, 'r) slave list \<times> ('w, 'r) biz \<times> 'r option \<times> int) outcome" where
  "io_service env checked cat svc buf timeo s =
     (case s of (slaves, b) \<Rightarrow>
      case GetFdFromServiceCache svc b of (b, f, q) \<Rightarrow>
      obind (io_one env checked cat (Some svc) (sv_category svc) buf timeo f q (slaves, b)) (\<lambda>(slaves, b, res, ret).
        case res of
          None \<Rightarrow> Inr (slaves, b, None, ret)
        | Some t \<Rightarrow> obind (settle_talk svc t b) (\<lambda>b. Inr (slaves, b, if ret = kOk then protocol_read t else None, ret))))"

definition io_Write ::
  "('w, 'r) io_env \<Rightarrow> service \<Rightarrow> byte list \<Rightarrow> msec \<Rightarrow> ('w, 'r) slave list \<times> ('w, 'r) biz
     \<Rightarrow> (('w, 'r) slave list \<times> ('w, 'r) biz \<times> int) outcome" where
  "io_Write env svc buf timeo s =
     obind (io_service env True TcWriteOnly svc (Some buf) timeo s) (\<lambda>(slaves, b, _, ret). Inr (slaves, b, ret))"

definition io_Read ::
  "('w, 'r) io_env \<Rightarrow> service \<Rightarrow> msec \<Rightarrow> ('w, 'r) slave list \<times> ('w, 'r) biz
     \<Rightarrow> (('w, 'r) slave list \<times> ('w, 'r) biz \<times> 'r option \<times> int) outcome" where
  "io_Read env svc timeo s = io_service env False TcReadOnly svc None timeo s"

definition io_SimpleTalk ::
  "('w, 'r) io_env \<Rightarrow> service \<Rightarrow> byte list \<Rightarrow> msec \<Rightarrow> ('w, 'r) slave list \<times> ('w, 'r) biz
     \<Rightarrow> (('w, 'r) slave list \<times> ('w, 'r) biz \<times> 'r option \<times> int) outcome" where
  "io_SimpleTalk env svc buf timeo s = io_service env True TcWriteAndRead svc (Some buf) timeo s"

definition io_WriteBack ::
  "('w, 'r) io_env \<Rightarrow> byte list \<Rightarrow> msec \<Rightarrow> ('w, 'r) slave list \<times> ('w, 'r) biz
     \<Rightarrow> (('w, 'r) slave list \<times> ('w, 'r) biz \<times> int) outcome" where
  "io_WriteBack env buf timeo s =
     (case s of (slaves, b) \<Rightarrow>
      let b = b\<lparr>bz_write_back_called := True\<rparr> in
      case bz_protocol_read b of None \<Rightarrow> Inl NullDeref | Some r \<Rightarrow>
      obind (io_one env True TcWriteOnly None (po_rCategory (io_ops env) r) (Some buf) timeo (bz_fd_client b) None (slaves, b))
        (\<lambda>(slaves, b, res, ret).
           case res of
             None \<Rightarrow> Inr (slaves, b, ret)
           | Some t \<Rightarrow> Inr (slaves, if tk_fd t \<le> 0 then b\<lparr>bz_fd_client := -1\<rparr> else b, ret)))"

section \<open>Connections of services\<close>

lemma GetTalk_frame:
  assumes "GetTalk b = Inr (b', v)"
  shows "bz_service_cache b' = bz_service_cache b \<and> bz_id_procedure b' = bz_id_procedure b \<and> bz_tmp_talks b' = bz_tmp_talks b @ [v]
    \<and> bz_freed_writes b' = bz_freed_writes b \<and> bz_talks b' = bz_talks b"
  using assms by (auto simp: GetTalk_def split: prod.splits option.splits)

lemma cache_taken:
  assumes "GetFdFromServiceCache svc b = (b1, f, q)"
  shows "map_of (bz_service_cache b1) (sv_no svc) = None
    \<and> (\<forall>k. k \<noteq> sv_no svc \<longrightarrow> map_of (bz_service_cache b1) k = map_of (bz_service_cache b) k)
    \<and> bz_id_procedure b1 = bz_id_procedure b \<and> bz_tmp_talks b1 = bz_tmp_talks b \<and> bz_freed_writes b1 = bz_freed_writes b"
proof -
  have "map_of (filter (\<lambda>(k, _). k \<noteq> n) m) k = (if k = n then None else map_of m k)" for n k :: nat and m :: "(nat \<times> fd \<times> remote_ptr) list"
    by (induction m) auto
  then show ?thesis using assms by (auto simp: GetFdFromServiceCache_def split: option.splits)
qed

text \<open>A call on one service that was answered.\<close>

lemma io_service_answered:
  assumes "io_service env checked cat svc buf timeo (slaves, b) = Inr (slaves', b', r, ret)"
    "\<And>m. ms_talks (io_answer env m) = [t]" "tk_fd t > 0" "tk_remote t = Some q" "ret = kOk"
  shows "r = protocol_read t \<and> map_of (bz_service_cache b') (sv_no svc) = Some (tk_fd t, q)
    \<and> (\<forall>k. k \<noteq> sv_no svc \<longrightarrow> map_of (bz_service_cache b') k = map_of (bz_service_cache b) k)"
proof -
  obtain b1 f q1 where g: "GetFdFromServiceCache svc b = (b1, f, q1)" by (metis surj_pair)
  obtain slaves2 b2 res where o: "io_one env checked cat (Some svc) (sv_category svc) buf timeo f q1 (slaves, b1) = Inr (slaves2, b2, res, ret)"
    "res = None \<longrightarrow> r = None" "res \<noteq> None \<longrightarrow> settle_talk svc (the res) b2 = Inr b' \<and> r = protocol_read (the res)"
    using assms(1,5) g by (auto simp: io_service_def obind_Inr_iff split: option.splits)
  obtain b0 v where v: "GetTalk b1 = Inr (b0, v)" using o(1) by (auto simp: io_one_def obind_Inr_iff)
  obtain u freed where u: "Talk_Assign (io_ops env) (io_now env 0) 0 cat (Some svc) (sv_category svc) buf timeo f q1 = Inr (u, freed)"
    using o(1) v by (auto simp: io_one_def obind_Inr_iff)
  have "\<not> (checked \<and> tk_error u \<noteq> kOk)" using o(1) v u assms(5) by (auto simp: io_one_def Let_def split: if_splits)
  then have res: "res = Some t \<and> bz_service_cache b2 = bz_service_cache b1"
    using o(1) v u assms(2,5) GetTalk_frame [OF v]
    by (auto simp: io_one_def io_exchange_def Let_def obind_Inr_iff kQueueBusy_def kOk_def split: option.splits if_splits)
  then have "b' = InsertFdIntoServiceCache svc (tk_fd t) q b2" "r = protocol_read t"
    using o(3) assms(3,4) by (auto simp: settle_talk_def)
  then show ?thesis
    using cache_taken [OF g] res by (auto simp: InsertFdIntoServiceCache_def map_insert_def map_add_def split: option.splits)
qed

text \<open>C25. A talk with a service that goes well returns the answer's reader object, and its connection
  is the one the procedure's next talk with that service starts with; the connections kept for other
  services stay.\<close>

theorem simple_talk_reuses_connection:
  assumes "io_SimpleTalk env svc buf timeo (slaves, b) = Inr (slaves', b', r, kOk)"
    "\<And>m. ms_talks (io_answer env m) = [t]" "tk_fd t > 0" "tk_remote t = Some q"
  shows "r = protocol_read t \<and> snd (GetFdFromServiceCache svc b') = (tk_fd t, Some q)
    \<and> (\<forall>k. k \<noteq> sv_no svc \<longrightarrow> map_of (bz_service_cache b') k = map_of (bz_service_cache b) k)"
  using io_service_answered [OF assms(1) [unfolded io_SimpleTalk_def] assms(2-4) refl]
  by (simp add: GetFdFromServiceCache_def)

section \<open>Reads that never read\<close>

lemma Reset_ended:
  assumes "tk_status t = TsEnd"
  shows "\<exists>s'. Session_Reset envs cn sid biz [t] sl = Inr (set_session sid s' sl, False) \<and> se_talks s' = [t]"
  using assms by (auto simp: Session_Reset_def Let_def set_session_def)

text \<open>C38. A read from a service never reads: \<^verbatim>\<open>Assign\<close> ends a talk that has no buffer, so that the
  slave that gets the session finds nothing to do, touches no socket, sends it back with \<^verbatim>\<open>kBroken\<close>
  and does not give the session object back.\<close>

theorem read_always_broken:
  assumes "io_Read env svc timeo (slaves, b) = Inr (slaves', b', r, ret)" "io_room env"
    "m = last (mailboxes slaves' ! slave_of (bz_id_procedure b) (length slaves))" "handle_msg envs cn remotes m sl = Inr sl'"
  shows "\<exists>a. sl_back sl' = sl_back sl @ [a] \<and> ms_error a = kBroken \<and> sl_driver sl' = sl_driver sl
    \<and> sl_session_pool sl' = fst (pool_Get True (sl_session_pool sl))"
proof -
  let ?i = "slave_of (bz_id_procedure b) (length slaves)"
  obtain b1 f q1 where g: "GetFdFromServiceCache svc b = (b1, f, q1)" by (metis surj_pair)
  obtain x where o: "io_one env False TcReadOnly (Some svc) (sv_category svc) None timeo f q1 (slaves, b1) = Inr x" "fst x = slaves'"
    using assms(1) g by (auto simp: io_Read_def io_service_def obind_Inr_iff split: option.splits)
  obtain b0 v where v: "GetTalk b1 = Inr (b0, v)" using o(1) by (auto simp: io_one_def obind_Inr_iff)
  obtain t where t: "Talk_Assign (io_ops env) (io_now env 0) 0 TcReadOnly (Some svc) (sv_category svc) None timeo f q1 = Inr (t, [])"
    "tk_status t = TsEnd" by (simp add: Talk_Assign_def Let_def)
  define ms where "ms = BuildForSessionMsg (io_me env) [t] timeo kOk"
  obtain slaves1 ok where a: "Agents_SendMsg True (bz_id_procedure b0) (MsgSession ms) slaves = Inr (slaves1, ok)"
    using o(1) v t assms(2)
    by (cases "Agents_SendMsg True (bz_id_procedure b0) (MsgSession ms) slaves") (auto simp: io_one_def io_exchange_def Let_def ms_def)
  then have "slaves1 = slaves'"
    using o v t assms(2) by (auto simp: io_one_def io_exchange_def Let_def ms_def split: list.splits if_splits)
  then have "mailboxes slaves' = (mailboxes slaves)[?i := mailboxes slaves ! ?i @ [MsgSession ms]]" "?i < length slaves"
    using Agents_SendMsg_cases [OF a] GetTalk_frame [OF v] cache_taken [OF g]
      mailboxes_sent [of ?i slaves "MsgSession ms"] by (auto simp: Let_def)
  then have m: "m = MsgSession ms" using assms(3) by (simp add: mailboxes_def)
  obtain p sid where p: "pool_Get True (sl_session_pool sl) = (p, Some sid)"
    using assms(4) m by (auto simp: handle_msg_def split: prod.splits option.splits)
  obtain s' where "Session_Reset envs cn sid (ms_biz ms) [t] (sl\<lparr>sl_session_pool := p\<rparr>) = Inr (set_session sid s' (sl\<lparr>sl_session_pool := p\<rparr>), False)"
    using Reset_ended [OF t(2)] by blast
  then show ?thesis
    using assms(4) m p by (auto simp: handle_msg_def ms_def BuildForSessionMsg_def SendBackMsg_def set_session_def split: if_splits)
qed

section \<open>Writers given back twice\<close>

text \<open>When a request cannot be encoded, its writer object is given back to its pool at once and
  a second time when the procedure frees its talks, since the talk still points to it.\<close>

theorem encode_failure_double_free:
  assumes "io_SimpleTalk env svc buf timeo (slaves, b) = Inr (slaves', b', r, ret)"
    "po_GetWrite (io_ops env) (sv_category svc) = Some w" "po_Encode (io_ops env) (po_wReset (io_ops env) buf w) = (w', False)"
    "bz_tmp_talks b = []"
  shows "ret = kEncode \<and> bz_freed_writes (FreeTalks b') = bz_freed_writes b @ [w', w']"
proof -
  obtain b1 f q1 where g: "GetFdFromServiceCache svc b = (b1, f, q1)" by (metis surj_pair)
  obtain t where t: "Talk_Assign (io_ops env) (io_now env 0) 0 TcWriteAndRead (Some svc) (sv_category svc) (Some buf) timeo f q1 = Inr (t, [w'])"
    "tk_error t = kEncode" "protocol_write t = Some w'"
    using assms(2,3) by (simp add: Talk_Assign_def Assign_write_def Let_def)
  obtain b0 v where v: "GetTalk b1 = Inr (b0, v)"
    using assms(1) g by (auto simp: io_SimpleTalk_def io_service_def io_one_def obind_Inr_iff)
  have "b' = b0\<lparr>bz_talks := (bz_talks b0)(v := [t]), bz_freed_writes := bz_freed_writes b0 @ [w']\<rparr> \<and> ret = kEncode"
    using assms(1) g v t by (simp add: io_SimpleTalk_def io_service_def io_one_def Let_def)
  then show ?thesis
    using FreeTalks_logs [of b'] GetTalk_frame [OF v] cache_taken [OF g] assms(4) t(3) by (simp add: List.map_filter_simps)
qed

section \<open>Examples\<close>

definition demo_biz :: "(byte list, byte list) biz" where
  "demo_biz = \<lparr>bz_id_procedure = 4, bz_fd_client = 12, bz_starttime_sec = 0, bz_protocol_read = Some [],
     bz_service_cache = [], bz_pool_talks = pool_talks_new, bz_talks = (\<lambda>_. []), bz_tmp_talks = [], bz_msg_session = None,
     bz_write_back_called = False, bz_freed_writes = [], bz_freed_reads = []\<rparr>"

definition demo_io :: "(byte list, byte list) proto_ops \<Rightarrow> (byte list, byte list) io_env" where
  "demo_io ops = \<lparr>io_me = 7, io_ops = ops, io_now = (\<lambda>_. 5), io_room = True,
     io_answer = (\<lambda>m. m\<lparr>ms_talks := [demo_talk\<lparr>tk_remote := Some (RpConf demo_remote), protocol_read := Some [7]\<rparr>]\<rparr>)\<rparr>"

lemma demo_pool_talks: "\<exists>p v. pool_Get True pool_talks_new = (p, Some v)"
  by (simp add: pool_talks_new_def PoolObjs_new_def pool_Get_def pool_raii_def pool_Init_def pool_AllocABlock_def Let_def)

lemma demo_send: "\<exists>sls. Agents_SendMsg True 4 m [demo_slave] = Inr (sls, True)"
  by (simp add: Agents_SendMsg_def slave_SendMsg_def Let_def)

lemma demo_simple_talk:
  "\<exists>slaves' b'. io_SimpleTalk (demo_io (demo_ops 0)) demo_service [1] 100 ([demo_slave], demo_biz) = Inr (slaves', b', Some [7], kOk)"
  using demo_pool_talks
  by (auto simp: io_SimpleTalk_def io_service_def io_one_def GetFdFromServiceCache_def GetTalk_def demo_biz_def demo_io_def demo_ops_def
    Talk_Assign_def Assign_write_def io_exchange_def Agents_SendMsg_def slave_SendMsg_def Let_def settle_talk_def demo_talk_def BuildForSessionMsg_def)

theorem simple_talk_reuses_connection_witness:
  "\<exists>slaves' b'. io_SimpleTalk (demo_io (demo_ops 0)) demo_service [1] 100 ([demo_slave], demo_biz) = Inr (slaves', b', Some [7], kOk)
     \<and> snd (GetFdFromServiceCache demo_service b') = (9, Some (RpConf demo_remote))"
proof -
  let ?t = "demo_talk\<lparr>tk_remote := Some (RpConf demo_remote), protocol_read := Some [7]\<rparr>"
  have a: "ms_talks (io_answer (demo_io (demo_ops 0)) m) = [?t]" for m by (simp add: demo_io_def)
  obtain slaves' b' where e: "io_SimpleTalk (demo_io (demo_ops 0)) demo_service [1] 100 ([demo_slave], demo_biz) = Inr (slaves', b', Some [7], kOk)"
    using demo_simple_talk by blast
  from simple_talk_reuses_connection [OF e a] e show ?thesis by (auto simp: demo_talk_def)
qed

theorem read_always_broken_witness:
  "\<exists>slaves' b' r ret sl'. io_Read (demo_io (demo_ops 0)) demo_service 100 ([demo_slave], demo_biz) = Inr (slaves', b', r, ret)
     \<and> handle_msg (\<lambda>_. demo_ag 0 5) demo_conf [] (last (mailboxes slaves' ! 0)) demo_slave = Inr sl'
     \<and> map ms_error (sl_back sl') = [kBroken]"
proof -
  let ?i = "slave_of (bz_id_procedure demo_biz) (length [demo_slave])"
  have i: "?i = 0" by (simp add: slave_of_def)
  obtain slaves' b' r ret ts where e: "io_Read (demo_io (demo_ops 0)) demo_service 100 ([demo_slave], demo_biz) = Inr (slaves', b', r, ret)"
    "last (mailboxes slaves' ! 0) = MsgSession \<lparr>ms_biz = 7, ms_talks = [ts], ms_timeo_ms = 100, ms_error = kOk\<rparr>" "tk_status ts = TsEnd"
    using demo_pool_talks
    by (auto simp: io_Read_def io_service_def io_one_def GetFdFromServiceCache_def GetTalk_def demo_biz_def demo_io_def demo_ops_def
      Talk_Assign_def io_exchange_def Agents_SendMsg_def slave_SendMsg_def slave_of_def Let_def settle_talk_def demo_talk_def
      BuildForSessionMsg_def mailboxes_def demo_slave_def)
  have p: "sl_session_pool demo_slave = PoolObjs_new 64 0 65536 True True (2 ^ 18)" by (simp add: demo_slave_def)
  obtain sl' where h: "handle_msg (\<lambda>_. demo_ag 0 5) demo_conf [] (last (mailboxes slaves' ! 0)) demo_slave = Inr sl'"
    using demo_session_pool e(2,3)
    by (auto simp: handle_msg_def p Session_Reset_def Let_def SendBackMsg_def demo_ag_def set_session_def)
  have "io_room (demo_io (demo_ops 0))" "sl_back demo_slave = []" by (simp_all add: demo_io_def demo_slave_def)
  with read_always_broken [OF e(1) this(1) refl, unfolded i, OF h] e h show ?thesis by auto
qed

theorem encode_failure_double_free_witness:
  "\<exists>slaves' b' r. io_SimpleTalk (demo_io ((demo_ops 0)\<lparr>po_Encode := (\<lambda>w. (w, False))\<rparr>)) demo_service [1] 100 ([demo_slave], demo_biz)
       = Inr (slaves', b', r, kEncode)
     \<and> bz_freed_writes (FreeTalks b') = [[1], [1]]"
proof -
  let ?ops = "(demo_ops 0)\<lparr>po_Encode := (\<lambda>w. (w, False))\<rparr>"
  obtain slaves' b' r where e: "io_SimpleTalk (demo_io ?ops) demo_service [1] 100 ([demo_slave], demo_biz) = Inr (slaves', b', r, kEncode)"
    using demo_pool_talks
    by (auto simp: io_SimpleTalk_def io_service_def io_one_def GetFdFromServiceCache_def GetTalk_def demo_biz_def demo_io_def demo_ops_def
      Talk_Assign_def Assign_write_def Let_def)
  have "po_GetWrite (io_ops (demo_io ?ops)) (sv_category demo_service) = Some []"
    "po_Encode (io_ops (demo_io ?ops)) (po_wReset (io_ops (demo_io ?ops)) [1] []) = ([1], False)" "bz_tmp_talks demo_biz = []"
    by (simp_all add: demo_io_def demo_ops_def demo_biz_def)
  from encode_failure_double_free [OF e this] e show ?thesis by (auto simp: demo_biz_def)
qed

end
