(* ===== verification/Schedulers.thy ===== *)
theory Schedulers
  imports IO_Basic
begin

text \<open>
  The schedulers, \<^verbatim>\<open>src/schedulers/\<close>: threads that take messages from a mailbox and start or resume
  procedures. A procedure is a coroutine that runs user code between \<^verbatim>\<open>swapcontext\<close> and its next
  call or its end; what is kept here is which procedure is given the thread, with which message.
  Messages are copied out of the mailbox (\<^verbatim>\<open>Msg::Copy\<close>) into objects of a pool for each category, and wait as such in the
  queue of tasks; it is shown that they are handled in the order of the mailbox, each with the contents it was sent with.
\<close>

section \<open>A scheduler\<close>

definition kMaxTaskProcessedOneTime :: nat where "kMaxTaskProcessedOneTime = 100"

text \<open>The numbers of \<^verbatim>\<open>Msg::Category\<close>; 0 is \<^verbatim>\<open>kInvalid\<close>, the category of an object of the base class.\<close>

fun msg_category :: "('w, 'r) msg \<Rightarrow> nat" where
  "msg_category MsgConfig = 1"
| "msg_category (MsgReadReq _) = 2"
| "msg_category (MsgNewReq _) = 3"
| "msg_category (MsgSession _) = 4"
| "msg_category (MsgDestruct _) = 5"

text \<open>A message object is the number of its pool and its number there; an object of the base class has no content.\<close>

type_synonym msg_ptr = "nat \<times> nat"

datatype ('w, 'r) run = Resumed nat "('w, 'r) msg_session" | Started nat "'r msg_new_req"

record ('w, 'r) scheduler =
  sc_is_req :: bool
  sc_num_case :: nat
  sc_mailbox :: "('w, 'r) msg list"
  sc_task_queue :: "msg_ptr list"
  sc_pool_msgs :: "nat \<Rightarrow> pool_objs"
  sc_msg :: "msg_ptr \<Rightarrow> ('w, 'r) msg option"
  sc_pool_biz :: pool_objs
  sc_biz :: "nat \<Rightarrow> ('w, 'r) biz"
  sc_current :: "nat option"
  sc_end :: bool
  sc_ran :: "('w, 'r) run list"

text \<open>\<^verbatim>\<open>Init\<close>: the mailbox has no threshold for its notifier. The handler of requests is present, or
  the routine with the number of its instances is. A \<^verbatim>\<open>Msg\<close> takes eight bytes. The last component of the state logs
  the procedures given the thread, with the message each was given.\<close>

definition Scheduler_Init ::
  "nat \<Rightarrow> nat \<Rightarrow> nat \<Rightarrow> bool \<Rightarrow> ('w, 'r) biz \<Rightarrow> conf_normal \<Rightarrow> nat option \<Rightarrow> ('w, 'r) scheduler option" where
  "Scheduler_Init offset base sizeof_biz notifier_ok b0 cn routine =
     (if \<not> notifier_ok then None
      else case (pipe_Init offset base (size_scheduler_mailbox cn) kMaxSizeMsg 0 True :: bool mpsc_pipe option) of
        None \<Rightarrow> None
      | Some _ \<Rightarrow> Some \<lparr>sc_is_req = (routine = None), sc_num_case = (case routine of None \<Rightarrow> 0 | Some n \<Rightarrow> n),
          sc_mailbox = [], sc_task_queue = [], sc_pool_msgs = (\<lambda>_. PoolObjs_new 8 0 65536 True True (2 ^ 18)), sc_msg = (\<lambda>_. None),
          sc_pool_biz = PoolObjs_new sizeof_biz 0 65536 True True (2 ^ 18),
          sc_biz = (\<lambda>_. b0), sc_current = None, sc_end = False, sc_ran = []\<rparr>)"

definition Scheduler_SendMsg :: "bool \<Rightarrow> ('w, 'r) msg \<Rightarrow> ('w, 'r) scheduler \<Rightarrow> ('w, 'r) scheduler \<times> bool" where
  "Scheduler_SendMsg room m sc = (if room then (sc\<lparr>sc_mailbox := sc_mailbox sc @ [m]\<rparr>, True) else (sc, False))"

text \<open>The start of \<^verbatim>\<open>Run_\<close>: a scheduler of routines sends itself one request per instance; a message that
  does not fit ends the thread.\<close>

fun start_routines :: "nat \<Rightarrow> (nat \<Rightarrow> bool) \<Rightarrow> 'r msg_new_req \<Rightarrow> ('w, 'r) scheduler \<Rightarrow> ('w, 'r) scheduler \<times> bool" where
  "start_routines 0 rooms junk sc = (sc, True)"
| "start_routines (Suc n) rooms junk sc =
     (case Scheduler_SendMsg (rooms n) (MsgNewReq junk) sc of (sc, ok) \<Rightarrow>
        if ok then start_routines n rooms junk sc else (sc, False))"

definition FreeBizProcedure :: "nat \<Rightarrow> ('w, 'r) scheduler \<Rightarrow> ('w, 'r) scheduler" where
  "FreeBizProcedure i sc = sc\<lparr>sc_pool_biz := pool_Free True i (sc_pool_biz sc)\<rparr>"

text \<open>\<^verbatim>\<open>BizProcedure::Process_\<close>, what a procedure does when it is given the thread for the first time: the
  handler of the user, which calls the operations of \<^verbatim>\<open>IOBasic\<close> on the way, then the end of the procedure. A
  routine has no request, and its end is without \<^verbatim>\<open>Reset_\<close>.\<close>

definition biz_Process ::
  "(('w, 'r) slave list \<times> ('w, 'r) biz \<Rightarrow> (('w, 'r) slave list \<times> ('w, 'r) biz) outcome) \<Rightarrow> bool list \<Rightarrow> 'r msg_destruct \<Rightarrow> nat
     \<Rightarrow> ('w, 'r) slave list \<times> ('w, 'r) scheduler \<Rightarrow> (('w, 'r) slave list \<times> ('w, 'r) scheduler) outcome" where
  "biz_Process handler rooms tmp i s =
     (case s of (slaves, sc) \<Rightarrow>
      if sc_is_req sc \<and> bz_protocol_read (sc_biz sc i) = None then Inl NullDeref
      else obind (handler (slaves, sc_biz sc i)) (\<lambda>(slaves, b).
        obind (if sc_is_req sc then biz_Reset rooms tmp slaves b else Inr (slaves, b)) (\<lambda>(slaves, b).
          Inr (slaves, FreeBizProcedure i (sc\<lparr>sc_biz := (sc_biz sc)(i := b)\<rparr>)))))"

text \<open>One round of the loop that empties the mailbox: an object from the pool of the category, exchanged for one of the class of the message when it is of
  another category, gets the contents of the message and the last place in the queue. \<^verbatim>\<open>new\<close> is taken to succeed.\<close>

definition take_msg :: "('w, 'r) msg \<Rightarrow> ('w, 'r) scheduler \<Rightarrow> ('w, 'r) scheduler outcome" where
  "take_msg m sc =
     (let k = msg_category m in
      case pool_Get True (sc_pool_msgs sc k) of
        (_, None) \<Rightarrow> Inl NullDeref
      | (p, Some i) \<Rightarrow>
          (case (if map_option msg_category (sc_msg sc (k, i)) \<noteq> Some k then (p\<lparr>next_obj := next_obj p + 1\<rparr>, next_obj p) else (p, i)) of (p, i) \<Rightarrow>
             Inr (sc\<lparr>sc_pool_msgs := (sc_pool_msgs sc)(k := p), sc_msg := (sc_msg sc)((k, i) := Some m),
                     sc_task_queue := sc_task_queue sc @ [(k, i)]\<rparr>)))"

fun receive_msgs :: "('w, 'r) msg list \<Rightarrow> ('w, 'r) scheduler \<Rightarrow> ('w, 'r) scheduler outcome" where
  "receive_msgs [] sc = Inr sc"
| "receive_msgs (m # ms) sc = obind (take_msg m sc) (receive_msgs ms)"

definition SelectTask :: "('w, 'r) scheduler \<Rightarrow> msg_ptr option" where
  "SelectTask sc = (case sc_task_queue sc of [] \<Rightarrow> None | o' # _ \<Rightarrow> Some o')"

definition ConsumeTask :: "('w, 'r) scheduler \<Rightarrow> ('w, 'r) scheduler" where
  "ConsumeTask sc = sc\<lparr>sc_task_queue := tl (sc_task_queue sc)\<rparr>"

text \<open>\<^verbatim>\<open>pool_msgs_[msg->category].Free(msg)\<close>\<close>

definition FreeMsg :: "msg_ptr \<Rightarrow> ('w, 'r) scheduler \<Rightarrow> ('w, 'r) scheduler" where
  "FreeMsg x sc =
     (let k = (case sc_msg sc x of None \<Rightarrow> 0 | Some m \<Rightarrow> msg_category m)
      in sc\<lparr>sc_pool_msgs := (sc_pool_msgs sc)(k := pool_Free True (snd x) (sc_pool_msgs sc k))\<rparr>)"

text \<open>One task. Setting the current procedure fails when the thread has no slot for it; then the task
  is consumed without the procedure being run.\<close>

definition run_task :: "bool \<Rightarrow> msg_ptr \<Rightarrow> ('w, 'r) scheduler \<Rightarrow> ('w, 'r) scheduler outcome" where
  "run_task slot x sc =
     (case sc_msg sc x of
        Some (MsgSession ms) \<Rightarrow>
          (let i = ms_biz ms; sc = sc\<lparr>sc_biz := (sc_biz sc)(i := (sc_biz sc i)\<lparr>bz_msg_session := Some ms\<rparr>)\<rparr>
           in Inr (if slot then sc\<lparr>sc_current := Some i, sc_ran := sc_ran sc @ [Resumed i ms]\<rparr> else sc))
      | Some (MsgNewReq nr) \<Rightarrow>
          (case pool_Get True (sc_pool_biz sc) of
             (p, None) \<Rightarrow> Inl NullDeref
           | (p, Some i) \<Rightarrow>
               let sc = sc\<lparr>sc_pool_biz := p, sc_biz := (sc_biz sc)(i := Procedure nr (sc_biz sc i))\<rparr>
               in Inr (if slot then sc\<lparr>sc_current := Some i, sc_ran := sc_ran sc @ [Started i nr]\<rparr> else sc))
      | _ \<Rightarrow> Inr sc)"

fun run_tasks :: "nat \<Rightarrow> nat \<Rightarrow> (nat \<Rightarrow> bool) \<Rightarrow> ('w, 'r) scheduler \<Rightarrow> ('w, 'r) scheduler outcome" where
  "run_tasks 0 i slots sc = Inr sc"
| "run_tasks (Suc n) i slots sc =
     (case SelectTask sc of
        None \<Rightarrow> Inr sc
      | Some x \<Rightarrow> obind (run_task (slots i) x sc) (\<lambda>sc. run_tasks n (i + 1) slots (ConsumeTask (FreeMsg x sc))))"

text \<open>\<^verbatim>\<open>Process_\<close>: the mailbox is emptied into the queue of tasks, then some of them are run.\<close>

definition Scheduler_Process :: "(nat \<Rightarrow> bool) \<Rightarrow> ('w, 'r) scheduler \<Rightarrow> ('w, 'r) scheduler outcome" where
  "Scheduler_Process slots sc =
     obind (receive_msgs (sc_mailbox sc) (sc\<lparr>sc_mailbox := []\<rparr>)) (\<lambda>sc'.
       if sc_mailbox sc = [] \<and> sc_task_queue sc' = [] then Inr sc'
       else run_tasks kMaxTaskProcessedOneTime 0 slots sc')"

section \<open>All schedulers\<close>

record ('w, 'r) schedulers =
  schedulers_req :: "('w, 'r) scheduler list"
  schedulers_routine :: "('w, 'r) scheduler list"

definition SendToOneWorker ::
  "bool \<Rightarrow> 'r msg_new_req \<Rightarrow> ('w, 'r) schedulers \<Rightarrow> (('w, 'r) schedulers \<times> bool) outcome" where
  "SendToOneWorker room m ss =
     (if schedulers_req ss = [] then Inl DivByZero
      else let i = to_size (nr_id_procedure m) mod length (schedulers_req ss) in
        case Scheduler_SendMsg room (MsgNewReq m) (schedulers_req ss ! i) of
          (sc, ok) \<Rightarrow> Inr (ss\<lparr>schedulers_req := (schedulers_req ss)[i := sc]\<rparr>, ok))"

text \<open>What the start is given by its surroundings: sizes and addresses, whether the notifier of each scheduler
  could be set up, and the contents of fresh objects.\<close>

record ('w, 'r) boot_env =
  bt_offset :: nat
  bt_base :: nat
  bt_sizeof_biz :: nat
  bt_sizeof_ectx :: nat
  bt_sizeof_session :: nat
  bt_notifier :: "nat \<Rightarrow> bool"
  bt_biz :: "('w, 'r) biz"
  bt_ectx :: "'r ectx"
  bt_session :: "('w, 'r) session"
  bt_slot :: "remote \<times> conns_pool"

text \<open>\<^verbatim>\<open>Schedulers::Init\<close>; schedulers are counted through both of its loops.\<close>

fun init_each :: "('w, 'r) boot_env \<Rightarrow> conf_normal \<Rightarrow> nat \<Rightarrow> nat option list \<Rightarrow> ('w, 'r) scheduler list \<times> bool" where
  "init_each bt cn i [] = ([], True)"
| "init_each bt cn i (r # rs) =
     (case Scheduler_Init (bt_offset bt) (bt_base bt) (bt_sizeof_biz bt) (bt_notifier bt i) (bt_biz bt) cn r of
        None \<Rightarrow> ([], False)
      | Some s \<Rightarrow> (case init_each bt cn (i + 1) rs of (ss, ok) \<Rightarrow> (s # ss, ok)))"

definition Schedulers_Init ::
  "('w, 'r) boot_env \<Rightarrow> conf_normal \<Rightarrow> bool \<Rightarrow> nat list \<Rightarrow> ('w, 'r) schedulers \<times> bool" where
  "Schedulers_Init bt cn has_req_handler routines =
     (case (if has_req_handler then init_each bt cn 0 (replicate (num_schedulers cn) None) else ([], True)) of (reqs, ok) \<Rightarrow>
      if \<not> ok then (\<lparr>schedulers_req = reqs, schedulers_routine = []\<rparr>, False)
      else case init_each bt cn (length reqs) (map Some routines) of (rs, ok) \<Rightarrow>
        (\<lparr>schedulers_req = reqs, schedulers_routine = rs\<rparr>, ok))"

section \<open>The end of a procedure\<close>

definition destruct_conns :: "'r msg_destruct \<Rightarrow> (fd \<times> remote_ptr) list" where
  "destruct_conns m = (case md_big_cache m of None \<Rightarrow> md_small_cache m | Some b \<Rightarrow> b)"

lemma BuildForDestruct_conns [simp]:
  "destruct_conns (BuildForDestruct idp f t r cache m) = map snd cache"
  "md_fd_client (BuildForDestruct idp f t r cache m) = f" "md_protocol_read (BuildForDestruct idp f t r cache m) = r"
  by (simp_all add: BuildForDestruct_def destruct_conns_def Let_def)

text \<open>C19. When the handler of a request ends, the slave of the request gets one message with the client, the
  reader of the request and exactly the connections that the procedure had kept, whatever their
  number, and the procedure keeps neither talks nor connections. When a routine ends nothing of
  this is done: the object goes back to the pool with its connections, for the next routine.\<close>

theorem procedure_end:
  assumes "handler (slaves, sc_biz sc i) = Inr (slaves1, b)" "biz_Process handler rooms tmp i (slaves, sc) = Inr (slaves', sc')"
  shows "if sc_is_req sc
    then bz_service_cache (sc_biz sc' i) = [] \<and> bz_tmp_talks (sc_biz sc' i) = []
      \<and> (\<exists>m. destruct_conns m = map snd (bz_service_cache b) \<and> md_fd_client m = bz_fd_client b \<and> md_protocol_read m = bz_protocol_read b
        \<and> (let k = slave_of (bz_id_procedure b) (length slaves1)
           in mailboxes slaves' = (mailboxes slaves1)[k := mailboxes slaves1 ! k @ [MsgDestruct m]]))
    else slaves' = slaves1 \<and> sc_biz sc' i = b"
proof (cases "sc_is_req sc")
  case True
  let ?m = "BuildForDestruct (bz_id_procedure b) (bz_fd_client b) (bz_starttime_sec b) (bz_protocol_read b) (bz_service_cache b) tmp"
  have s: "SendMsgWithRetry rooms (bz_id_procedure b) (MsgDestruct ?m) slaves1 = Inr slaves'"
    "sc_biz sc' i = (FreeTalks b)\<lparr>bz_service_cache := []\<rparr>"
    using assms True by (auto simp: biz_Process_def biz_Reset_def FreeBizProcedure_def obind_Inr_iff Let_def split: if_splits)
  from SendMsgWithRetry_Inr [OF s(1)] s(2) True FreeTalks_logs [of b] show ?thesis
    by (auto simp: Let_def intro!: exI [of _ ?m])
next
  case False
  then show ?thesis using assms by (auto simp: biz_Process_def FreeBizProcedure_def)
qed

section \<open>Order of tasks\<close>

text \<open>The waiting messages: their objects are different and in use, and each holds a message of the category of its pool. Objects that were deleted count as in use.\<close>

definition msgs_wf :: "('w, 'r) scheduler \<Rightarrow> bool" where
  "msgs_wf sc \<longleftrightarrow> distinct (sc_task_queue sc)
     \<and> (\<forall>x \<in> set (sc_task_queue sc). map_option msg_category (sc_msg sc x) = Some (fst x))
     \<and> (\<forall>k. \<exists>out. pool_wf out (sc_pool_msgs sc k) \<and> {i. (k, i) \<in> set (sc_task_queue sc)} \<subseteq> out)"

text \<open>The messages that wait, in order.\<close>

definition sc_tasks :: "('w, 'r) scheduler \<Rightarrow> ('w, 'r) msg list" where
  "sc_tasks sc = map (the \<circ> sc_msg sc) (sc_task_queue sc)"

lemma msgs_wf_pool: "msgs_wf sc \<Longrightarrow> \<exists>out. pool_wf out (sc_pool_msgs sc k) \<and> {i. (k, i) \<in> set (sc_task_queue sc)} \<subseteq> out"
  by (simp add: msgs_wf_def)

text \<open>A message is put behind those that wait and disturbs none of them.\<close>

lemma take_msg_ok:
  assumes wf: "msgs_wf sc" and t: "take_msg m sc = Inr sc'"
  shows "msgs_wf sc'" "sc_tasks sc' = sc_tasks sc @ [m]" "sc_mailbox sc' = sc_mailbox sc" "sc_ran sc' = sc_ran sc"
proof -
  let ?k = "msg_category m" and ?q = "sc_task_queue sc"
  obtain out where out: "pool_wf out (sc_pool_msgs sc ?k)" "{i. (?k, i) \<in> set ?q} \<subseteq> out" using msgs_wf_pool [OF wf] by blast
  obtain p i where g: "pool_Get True (sc_pool_msgs sc ?k) = (p, Some i)"
    using t by (auto simp: take_msg_def Let_def split: prod.splits option.splits)
  have i: "i \<notin> out" "pool_wf (insert i out) p" using get_ok [OF out(1) g] by auto
  obtain p' j out' where s': "sc' = sc\<lparr>sc_pool_msgs := (sc_pool_msgs sc)(?k := p'), sc_msg := (sc_msg sc)((?k, j) := Some m), sc_task_queue := ?q @ [(?k, j)]\<rparr>"
    "pool_wf out' p'" "insert j out \<subseteq> out'" "j \<notin> out"
  proof (cases "map_option msg_category (sc_msg sc (?k, i)) = Some ?k")
    case True
    then show thesis using t g i that [where p' = p and j = i and out' = "insert i out"] by (auto simp: take_msg_def Let_def)
  next
    case False
    then show thesis using t g i(1) pool_alloc_wf [OF i(2)] that [where p' = "p\<lparr>next_obj := next_obj p + 1\<rparr>" and j = "next_obj p" and out' = "insert (next_obj p) (insert i out)"]
      by (fastforce simp: take_msg_def Let_def)
  qed
  have new: "(?k, j) \<notin> set ?q" using s'(4) out(2) by auto
  have "\<exists>out. pool_wf out (sc_pool_msgs sc' k) \<and> {i. (k, i) \<in> set (sc_task_queue sc')} \<subseteq> out" for k
  proof (cases "k = ?k")
    case True
    then show ?thesis using s' out(2) by (intro exI [of _ out']) auto
  next
    case False
    then show ?thesis using s'(1) msgs_wf_pool [OF wf, of k] by simp
  qed
  then show "msgs_wf sc'" using wf s'(1) new by (auto simp: msgs_wf_def)
  have "map (the \<circ> (sc_msg sc)((?k, j) := Some m)) ?q = map (the \<circ> sc_msg sc) ?q" using new by auto
  then show "sc_tasks sc' = sc_tasks sc @ [m]" using s'(1) by (simp add: sc_tasks_def)
  show "sc_mailbox sc' = sc_mailbox sc" "sc_ran sc' = sc_ran sc" using s'(1) by simp_all
qed

lemma receive_msgs_ok:
  assumes "msgs_wf sc" "receive_msgs ms sc = Inr sc'"
  shows "msgs_wf sc' \<and> sc_tasks sc' = sc_tasks sc @ ms \<and> sc_mailbox sc' = sc_mailbox sc \<and> sc_ran sc' = sc_ran sc"
  using assms
proof (induction ms arbitrary: sc)
  case (Cons m ms)
  then obtain sc1 where "take_msg m sc = Inr sc1" "receive_msgs ms sc1 = Inr sc'" by (auto simp: obind_Inr_iff)
  then show ?case using take_msg_ok [OF Cons.prems(1)] Cons.IH by fastforce
qed simp

text \<open>A message that has been handled goes back to the pool of its category.\<close>

lemma task_consumed_ok:
  assumes wf: "msgs_wf sc" and q: "sc_task_queue sc = x # xs"
  shows "msgs_wf (ConsumeTask (FreeMsg x sc))" "sc_tasks (ConsumeTask (FreeMsg x sc)) = tl (sc_tasks sc)"
proof -
  obtain k i where x: "x = (k, i)" by (cases x)
  have k: "map_option msg_category (sc_msg sc x) = Some k" using wf q x by (auto simp: msgs_wf_def)
  then have s': "ConsumeTask (FreeMsg x sc) = sc\<lparr>sc_pool_msgs := (sc_pool_msgs sc)(k := pool_Free True i (sc_pool_msgs sc k)), sc_task_queue := xs\<rparr>"
    using q x by (auto simp: ConsumeTask_def FreeMsg_def Let_def)
  have "\<exists>out. pool_wf out (sc_pool_msgs (ConsumeTask (FreeMsg x sc)) j) \<and> {i. (j, i) \<in> set xs} \<subseteq> out" for j
  proof -
    obtain out where out: "pool_wf out (sc_pool_msgs sc j)" "{i. (j, i) \<in> set (x # xs)} \<subseteq> out" using msgs_wf_pool [OF wf, of j] q by auto
    show ?thesis
    proof (cases "j = k")
      case True
      have "(k, i) \<notin> set xs" using wf q x by (auto simp: msgs_wf_def)
      then have "{i. (j, i) \<in> set xs} \<subseteq> out - {i}" using out(2) x True by auto
      moreover have "i \<in> out" using out(2) x True by auto
      ultimately show ?thesis using free_ok [OF out(1), of i] s' True by auto
    next
      case False
      then show ?thesis using out s' by auto
    qed
  qed
  then show "msgs_wf (ConsumeTask (FreeMsg x sc))" using wf q s' by (simp add: msgs_wf_def)
  show "sc_tasks (ConsumeTask (FreeMsg x sc)) = tl (sc_tasks sc)" using s' q by (simp add: sc_tasks_def)
qed

text \<open>The messages that give a procedure the thread, and the message a procedure was given.\<close>

fun runs_task :: "('w, 'r) msg \<Rightarrow> bool" where
  "runs_task (MsgSession _) = True"
| "runs_task (MsgNewReq _) = True"
| "runs_task _ = False"

fun run_msg :: "('w, 'r) run \<Rightarrow> ('w, 'r) msg" where
  "run_msg (Resumed i ms) = MsgSession ms"
| "run_msg (Started i nr) = MsgNewReq nr"

definition run_ok :: "('w, 'r) run \<Rightarrow> bool" where
  "run_ok r \<longleftrightarrow> (case r of Resumed i ms \<Rightarrow> i = ms_biz ms | Started i nr \<Rightarrow> True)"

lemma run_task_frame:
  assumes "run_task slot x sc = Inr sc'" "sc_msg sc x = Some m"
  shows "sc_task_queue sc' = sc_task_queue sc \<and> sc_mailbox sc' = sc_mailbox sc \<and> sc_pool_msgs sc' = sc_pool_msgs sc \<and> sc_msg sc' = sc_msg sc
    \<and> (\<exists>rs. sc_ran sc' = sc_ran sc @ rs \<and> list_all run_ok rs \<and> map run_msg rs = (if slot \<and> runs_task m then [m] else []))"
  using assms by (cases m) (auto simp: run_task_def run_ok_def Let_def split: prod.splits option.splits if_splits)

text \<open>The messages among some that were handled by a procedure, when the slot of the thread can be had for those numbered \<open>slots\<close>.\<close>

definition handled :: "(nat \<Rightarrow> bool) \<Rightarrow> nat \<Rightarrow> ('w, 'r) msg list \<Rightarrow> ('w, 'r) msg list" where
  "handled slots i ms = map snd (filter (\<lambda>(i, m). slots i \<and> runs_task m) (enumerate i ms))"

lemma handled_simps [simp]:
  "handled slots i [] = []" "handled slots i (m # ms) = (if slots i \<and> runs_task m then [m] else []) @ handled slots (i + 1) ms"
  by (simp_all add: handled_def)

lemma run_tasks_order:
  assumes "msgs_wf sc" "run_tasks n i slots sc = Inr sc'"
  shows "msgs_wf sc' \<and> sc_tasks sc' = drop n (sc_tasks sc) \<and> sc_mailbox sc' = sc_mailbox sc
    \<and> (\<exists>rs. sc_ran sc' = sc_ran sc @ rs \<and> list_all run_ok rs \<and> map run_msg rs = handled slots i (take n (sc_tasks sc)))"
  using assms
proof (induction n arbitrary: i sc)
  case (Suc n)
  show ?case
  proof (cases "sc_task_queue sc")
    case Nil
    then show ?thesis using Suc.prems by (simp add: SelectTask_def sc_tasks_def)
  next
    case (Cons x xs)
    then obtain sc1 where r: "run_task (slots i) x sc = Inr sc1" "run_tasks n (i + 1) slots (ConsumeTask (FreeMsg x sc1)) = Inr sc'"
      using Suc.prems(2) by (auto simp: SelectTask_def obind_Inr_iff)
    obtain m where m: "sc_msg sc x = Some m" using Suc.prems(1) Cons by (auto simp: msgs_wf_def)
    note F = run_task_frame [OF r(1) m]
    have wf1: "msgs_wf sc1" "sc_task_queue sc1 = x # xs" using Suc.prems(1) F Cons by (auto simp: msgs_wf_def)
    have t1: "sc_tasks sc1 = m # map (the \<circ> sc_msg sc) xs" "sc_tasks sc = sc_tasks sc1" using F Cons m by (simp_all add: sc_tasks_def)
    have c: "sc_mailbox (ConsumeTask (FreeMsg x sc1)) = sc_mailbox sc" "sc_ran (ConsumeTask (FreeMsg x sc1)) = sc_ran sc1"
      using F by (simp_all add: ConsumeTask_def FreeMsg_def Let_def)
    show ?thesis using Suc.IH [OF task_consumed_ok(1) [OF wf1] r(2)] task_consumed_ok(2) [OF wf1] t1 c F by (auto 0 3)
  qed
qed simp

lemma msg_pool_wf: "\<exists>out. pool_wf out (PoolObjs_new 8 0 65536 True True (2 ^ 18))"
  by (rule exI [of _ "{}"], rule pool_new_wf) simp_all

lemma Scheduler_Init_wf: "Scheduler_Init offset base sizeof_biz notifier_ok b0 cn routine = Some sc \<Longrightarrow> msgs_wf sc"
  using msg_pool_wf by (auto simp: Scheduler_Init_def msgs_wf_def split: if_splits option.splits)

text \<open>C20. A scheduler handles messages strictly in the order they were sent, with the contents they were sent with: a round empties the
  mailbox behind the messages that wait, in objects that are different from theirs, and gives the thread to the procedures of the first hundred of the whole, one after the other in
  that order, the message of a session to the procedure that waits for it; the others are kept in order for the next round.\<close>

theorem scheduler_fifo:
  assumes "msgs_wf sc" "Scheduler_Process slots sc = Inr sc'"
  shows "msgs_wf sc' \<and> sc_mailbox sc' = [] \<and> sc_tasks sc' = drop 100 (sc_tasks sc @ sc_mailbox sc)
    \<and> (\<exists>rs. sc_ran sc' = sc_ran sc @ rs \<and> list_all run_ok rs \<and> map run_msg rs = handled slots 0 (take 100 (sc_tasks sc @ sc_mailbox sc)))"
proof -
  obtain sc1 where r: "receive_msgs (sc_mailbox sc) (sc\<lparr>sc_mailbox := []\<rparr>) = Inr sc1"
    "(if sc_mailbox sc = [] \<and> sc_task_queue sc1 = [] then Inr sc1 else run_tasks 100 0 slots sc1) = Inr sc'"
    using assms(2) unfolding Scheduler_Process_def kMaxTaskProcessedOneTime_def obind_Inr_iff by blast
  have "msgs_wf (sc\<lparr>sc_mailbox := []\<rparr>)" "sc_tasks (sc\<lparr>sc_mailbox := []\<rparr>) = sc_tasks sc" using assms(1) by (simp_all add: msgs_wf_def sc_tasks_def)
  then have R: "msgs_wf sc1" "sc_tasks sc1 = sc_tasks sc @ sc_mailbox sc" "sc_mailbox sc1 = []" "sc_ran sc1 = sc_ran sc"
    using receive_msgs_ok [OF _ r(1)] by auto
  show ?thesis
  proof (cases "sc_mailbox sc = [] \<and> sc_task_queue sc1 = []")
    case True
    then show ?thesis using R r(2) by (simp add: sc_tasks_def)
  next
    case False
    then show ?thesis using run_tasks_order [OF R(1), of 100 0 slots sc'] R r(2) by auto
  qed
qed

definition demo_session_msg :: "nat \<Rightarrow> (byte list, byte list) msg" where
  "demo_session_msg i = MsgSession \<lparr>ms_biz = i, ms_talks = [], ms_timeo_ms = 0, ms_error = kOk\<rparr>"

definition demo_scheduler :: "(byte list, byte list) scheduler" where
  "demo_scheduler = \<lparr>sc_is_req = True, sc_num_case = 0, sc_mailbox = [MsgConfig, demo_session_msg 7, demo_session_msg 8],
     sc_task_queue = [], sc_pool_msgs = (\<lambda>_. PoolObjs_new 8 0 65536 True True (2 ^ 18)), sc_msg = (\<lambda>_. None),
     sc_pool_biz = PoolObjs_new 200 0 65536 True True (2 ^ 18), sc_biz = (\<lambda>_. demo_biz),
     sc_current = None, sc_end = False, sc_ran = []\<rparr>"

text \<open>Only a procedure that cannot be had stops a round.\<close>

lemma receive_msgs_total:
  assumes "\<forall>k. pool_settings (sc_pool_msgs sc k)"
  shows "\<exists>sc'. receive_msgs ms sc = Inr sc'"
  using assms
proof (induction ms arbitrary: sc)
  case (Cons m ms)
  let ?k = "msg_category m"
  obtain p r where g: "pool_Get True (sc_pool_msgs sc ?k) = (p, r)" by fastforce
  from Get_settings [OF this] Cons.prems obtain i where i: "r = Some i" "pool_settings p" by blast
  then obtain sc1 where "take_msg m sc = Inr sc1" "\<forall>k. pool_settings (sc_pool_msgs sc1 k)"
    using g Cons.prems by (cases "map_option msg_category (sc_msg sc (?k, i)) = Some ?k") (auto simp: take_msg_def Let_def)
  then show ?case using Cons.IH by simp
qed simp

lemma run_tasks_total:
  assumes "msgs_wf sc" "\<forall>m \<in> set (sc_tasks sc). \<not> is_MsgNewReq m"
  shows "\<exists>sc'. run_tasks n i slots sc = Inr sc'"
  using assms
proof (induction n arbitrary: i sc)
  case (Suc n)
  show ?case
  proof (cases "sc_task_queue sc")
    case (Cons x xs)
    obtain m where m: "sc_msg sc x = Some m" using Suc.prems(1) Cons by (auto simp: msgs_wf_def)
    then have "\<not> is_MsgNewReq m" using Suc.prems(2) Cons by (simp add: sc_tasks_def)
    then obtain sc1 where r: "run_task (slots i) x sc = Inr sc1" using m by (cases m) (auto simp: run_task_def Let_def)
    note F = run_task_frame [OF r m]
    have wf1: "msgs_wf sc1" "sc_task_queue sc1 = x # xs" using Suc.prems(1) F Cons by (auto simp: msgs_wf_def)
    have "sc_tasks sc1 = sc_tasks sc" using F by (simp add: sc_tasks_def)
    then have "\<forall>m \<in> set (sc_tasks (ConsumeTask (FreeMsg x sc1))). \<not> is_MsgNewReq m"
      using task_consumed_ok(2) [OF wf1] Suc.prems(2) by (metis list.set_sel(2) tl_Nil)
    from Suc.IH [OF task_consumed_ok(1) [OF wf1] this] show ?thesis using r Cons by (simp add: SelectTask_def)
  qed (simp add: SelectTask_def)
qed simp

theorem scheduler_fifo_witness:
  "\<exists>sc'. Scheduler_Process (\<lambda>_. True) demo_scheduler = Inr sc' \<and> sc_task_queue sc' = []
     \<and> map run_msg (sc_ran sc') = [demo_session_msg 7, demo_session_msg 8]"
proof -
  have wf: "msgs_wf demo_scheduler" using msg_pool_wf by (auto simp: demo_scheduler_def msgs_wf_def)
  let ?sc = "demo_scheduler\<lparr>sc_mailbox := []\<rparr>"
  have "\<forall>k. pool_settings (sc_pool_msgs ?sc k)" by (simp add: demo_scheduler_def pool_settings_def PoolObjs_new_def)
  from receive_msgs_total [OF this] obtain sc1 where r: "receive_msgs (sc_mailbox demo_scheduler) ?sc = Inr sc1" by blast
  have "msgs_wf ?sc" using wf by (simp add: msgs_wf_def)
  from receive_msgs_ok [OF this r] have R: "msgs_wf sc1" "sc_tasks sc1 = [MsgConfig, demo_session_msg 7, demo_session_msg 8]"
    by (simp_all add: demo_scheduler_def sc_tasks_def)
  have "sc_task_queue sc1 \<noteq> []" using R(2) by (auto simp: sc_tasks_def)
  then obtain sc' where e: "Scheduler_Process (\<lambda>_. True) demo_scheduler = Inr sc'"
    using run_tasks_total [OF R(1), of kMaxTaskProcessedOneTime 0 "\<lambda>_. True"] R(2) r by (auto simp: Scheduler_Process_def demo_session_msg_def)
  from scheduler_fifo [OF wf e] e show ?thesis by (auto simp: demo_scheduler_def sc_tasks_def demo_session_msg_def)
qed

theorem procedure_end_witness:
  "\<exists>slaves' sc' m. biz_Process (\<lambda>(slaves, b). Inr (slaves, InsertFdIntoServiceCache demo_service 9 (RpConf demo_remote) b)) [False, True]
      \<lparr>md_id_procedure = 0, md_fd_client = 0, md_starttime_sec = 0, md_protocol_read = None, md_small_cache = [], md_big_cache = None\<rparr>
      1 ([demo_slave], demo_scheduler\<lparr>sc_biz := (\<lambda>_. demo_biz\<lparr>bz_protocol_read := Some [1]\<rparr>)\<rparr>) = Inr (slaves', sc')
    \<and> mailboxes slaves' = [[MsgDestruct m]] \<and> destruct_conns m = [(9, RpConf demo_remote)] \<and> bz_service_cache (sc_biz sc' 1) = []"
proof -
  let ?h = "\<lambda>(slaves, b). Inr (slaves, InsertFdIntoServiceCache demo_service 9 (RpConf demo_remote) b)"
  let ?b = "demo_biz\<lparr>bz_protocol_read := Some [1]\<rparr>"
  let ?sc = "demo_scheduler\<lparr>sc_biz := (\<lambda>_. ?b)\<rparr>"
  let ?t = "\<lparr>md_id_procedure = 0, md_fd_client = 0, md_starttime_sec = 0, md_protocol_read = None, md_small_cache = [], md_big_cache = None\<rparr>"
  let ?b' = "InsertFdIntoServiceCache demo_service 9 (RpConf demo_remote) ?b"
  have k: "slave_of x (Suc 0) = 0" for x by (simp add: slave_of_def)
  have "\<exists>slaves'. SendMsgWithRetry [False, True] idp m [demo_slave] = Inr slaves'" for idp and m :: "(byte list, byte list) msg"
    by (simp add: Agents_SendMsg_def slave_SendMsg_def slave_of_def Let_def)
  then obtain s where s: "SendMsgWithRetry [False, True] idp m [demo_slave] = Inr (s idp m)" for idp and m :: "(byte list, byte list) msg"
    by metis
  obtain slaves' sc' where e: "biz_Process ?h [False, True] ?t 1 ([demo_slave], ?sc) = Inr (slaves', sc')"
    by (simp add: biz_Process_def biz_Reset_def InsertFdIntoServiceCache_def demo_scheduler_def s Let_def del: SendMsgWithRetry.simps)
  have h: "?h ([demo_slave], sc_biz ?sc 1) = Inr ([demo_slave], ?b')" by simp
  have c: "map snd (bz_service_cache ?b') = [(9, RpConf demo_remote)]" "mailboxes [demo_slave] = [[]]" "sc_is_req ?sc"
    by (simp_all add: InsertFdIntoServiceCache_def map_insert_def demo_biz_def mailboxes_def demo_slave_def demo_scheduler_def)
  from procedure_end [OF h e] e c show ?thesis by (auto simp: Let_def k)
qed

end
