(* ===== verification/Magneto_Base.thy ===== *)
theory Magneto_Base
  imports Schedulers
begin

text \<open>
  The whole program, \<^verbatim>\<open>src/magneto_base.h\<close>, \<^verbatim>\<open>src/details/magneto_base.cpp\<close> and the agents' side of
  its start (\<^verbatim>\<open>src/agents/details/agents.cpp\<close>). The calls find their services in the current
  configuration and go through \<^verbatim>\<open>IOBasic\<close>; \<^verbatim>\<open>Magneto\<close> (\<^verbatim>\<open>src/magneto.h\<close>) hands them on. Setting up one
  slave, one scheduler and a listening socket are arguments of the start, as the functions of
  \<^verbatim>\<open>slave_Init\<close>, \<^verbatim>\<open>Scheduler_Init\<close> and \<^verbatim>\<open>ListenOnAddr\<close> do it.
\<close>

section \<open>Calls\<close>

text \<open>The current procedure is a null pointer outside of one.\<close>

definition with_set ::
  "conf_services \<Rightarrow> string \<Rightarrow> ('w, 'r) biz option \<Rightarrow> 'x \<Rightarrow> (service list \<Rightarrow> ('w, 'r) biz \<Rightarrow> ('x \<times> int) outcome) \<Rightarrow> ('x \<times> int) outcome" where
  "with_set cs name cur x call =
     (case GetServicesSet cs name of
        None \<Rightarrow> Inr (x, kNotFound)
      | Some svcs \<Rightarrow> (case cur of None \<Rightarrow> Inl NullDeref | Some b \<Rightarrow> call svcs b))"

definition with_service ::
  "conf_services \<Rightarrow> string \<Rightarrow> ('w, 'r) biz option \<Rightarrow> 'x \<Rightarrow> (service \<Rightarrow> ('w, 'r) biz \<Rightarrow> ('x \<times> int) outcome) \<Rightarrow> ('x \<times> int) outcome" where
  "with_service cs name cur x call =
     (case GetService cs name of
        None \<Rightarrow> Inr (x, kNotFound)
      | Some svc \<Rightarrow> (case cur of None \<Rightarrow> Inl NullDeref | Some b \<Rightarrow> call svc b))"

type_synonym ('w, 'r) mb_state = "('w, 'r) slave list \<times> ('w, 'r) biz option"

definition mb_Writes ::
  "('w, 'r) io_env \<Rightarrow> conf_services \<Rightarrow> string \<Rightarrow> byte list option list \<Rightarrow> msec \<Rightarrow> int list \<Rightarrow> ('w, 'r) mb_state
     \<Rightarrow> ((('w, 'r) mb_state \<times> int list) \<times> int) outcome" where
  "mb_Writes env cs name bufs timeo errors s =
     with_set cs name (snd s) (s, errors) (\<lambda>svcs b.
       obind (io_Writes env svcs bufs timeo errors (fst s, b)) (\<lambda>(slaves, b, es, ret). Inr (((slaves, Some b), es), ret)))"

definition mb_Reads ::
  "('w, 'r) io_env \<Rightarrow> conf_services \<Rightarrow> string \<Rightarrow> msec \<Rightarrow> (int \<times> 'r option) list \<Rightarrow> ('w, 'r) mb_state
     \<Rightarrow> ((('w, 'r) mb_state \<times> (int \<times> 'r option) list) \<times> int) outcome" where
  "mb_Reads env cs name timeo rs s =
     with_set cs name (snd s) (s, rs) (\<lambda>svcs b.
       obind (io_Reads env svcs timeo rs (fst s, b)) (\<lambda>(slaves, b, rs, ret). Inr (((slaves, Some b), rs), ret)))"

definition mb_Talks ::
  "('w, 'r) io_env \<Rightarrow> conf_services \<Rightarrow> string \<Rightarrow> byte list option list \<Rightarrow> msec \<Rightarrow> (int \<times> 'r option) list \<Rightarrow> ('w, 'r) mb_state
     \<Rightarrow> ((('w, 'r) mb_state \<times> (int \<times> 'r option) list) \<times> int) outcome" where
  "mb_Talks env cs name bufs timeo rs s =
     with_set cs name (snd s) (s, rs) (\<lambda>svcs b.
       obind (io_Talks env svcs bufs timeo rs (fst s, b)) (\<lambda>(slaves, b, rs, ret). Inr (((slaves, Some b), rs), ret)))"

definition mb_Write ::
  "('w, 'r) io_env \<Rightarrow> conf_services \<Rightarrow> string \<Rightarrow> byte list \<Rightarrow> msec \<Rightarrow> ('w, 'r) mb_state \<Rightarrow> (('w, 'r) mb_state \<times> int) outcome" where
  "mb_Write env cs name buf timeo s =
     with_service cs name (snd s) s (\<lambda>svc b.
       obind (io_Write env svc buf timeo (fst s, b)) (\<lambda>(slaves, b, ret). Inr ((slaves, Some b), ret)))"

definition mb_Read ::
  "('w, 'r) io_env \<Rightarrow> conf_services \<Rightarrow> string \<Rightarrow> msec \<Rightarrow> ('w, 'r) mb_state \<Rightarrow> ((('w, 'r) mb_state \<times> 'r option) \<times> int) outcome" where
  "mb_Read env cs name timeo s =
     with_service cs name (snd s) (s, None) (\<lambda>svc b.
       obind (io_Read env svc timeo (fst s, b)) (\<lambda>(slaves, b, r, ret). Inr (((slaves, Some b), r), ret)))"

definition mb_SimpleTalk ::
  "('w, 'r) io_env \<Rightarrow> conf_services \<Rightarrow> string \<Rightarrow> byte list \<Rightarrow> msec \<Rightarrow> ('w, 'r) mb_state \<Rightarrow> ((('w, 'r) mb_state \<times> 'r option) \<times> int) outcome" where
  "mb_SimpleTalk env cs name buf timeo s =
     with_service cs name (snd s) (s, None) (\<lambda>svc b.
       obind (io_SimpleTalk env svc buf timeo (fst s, b)) (\<lambda>(slaves, b, r, ret). Inr (((slaves, Some b), r), ret)))"

definition mb_WriteBack ::
  "('w, 'r) io_env \<Rightarrow> byte list \<Rightarrow> msec \<Rightarrow> ('w, 'r) mb_state \<Rightarrow> (('w, 'r) mb_state \<times> int) outcome" where
  "mb_WriteBack env buf timeo s =
     (case snd s of None \<Rightarrow> Inl NullDeref
      | Some b \<Rightarrow> obind (io_WriteBack env buf timeo (fst s, b)) (\<lambda>(slaves, b, ret). Inr ((slaves, Some b), ret)))"

definition mb_FreeTalks :: "('w, 'r) mb_state \<Rightarrow> ('w, 'r) mb_state outcome" where
  "mb_FreeTalks s = (case snd s of None \<Rightarrow> Inl NullDeref | Some b \<Rightarrow> Inr (fst s, Some (FreeTalks b)))"

definition mb_GetServiceNames :: "conf_services \<Rightarrow> string \<Rightarrow> string list option" where
  "mb_GetServiceNames cs name = GetServiceNames cs name"

section \<open>Start and end\<close>

record ('w, 'r) agents =
  ag_slaves :: "('w, 'r) slave list"
  ag_master :: "'r master option"

text \<open>\<^verbatim>\<open>Agents::Init\<close>. When a slave cannot be set up there is no master yet.\<close>

fun slaves_Init :: "('w, 'r) boot_env \<Rightarrow> conf_normal \<Rightarrow> remote list \<Rightarrow> nat \<Rightarrow> (('w, 'r) slave list \<times> bool) outcome" where
  "slaves_Init bt cn remotes 0 = Inr ([], True)"
| "slaves_Init bt cn remotes (Suc n) =
     obind (slave_Init (bt_sizeof_ectx bt) (bt_sizeof_session bt) (bt_offset bt) (bt_base bt) (bt_slot bt) (bt_ectx bt) (bt_session bt) cn remotes)
       (\<lambda>r. case r of
          None \<Rightarrow> Inr ([], False)
        | Some sl \<Rightarrow> obind (slaves_Init bt cn remotes n) (\<lambda>(ss, ok). Inr (sl # ss, ok)))"

definition master_new :: "('w, 'r) boot_env \<Rightarrow> 'r master" where
  "master_new bt = \<lparr>ma_driver = EventsDriver_new True, ma_ectx = (\<lambda>_. bt_ectx bt), ma_next = 0, ma_deleted = [],
     ma_closed = [], ma_end = False\<rparr>"

definition Agents_Init ::
  "('w, 'r) boot_env \<Rightarrow> (nat \<Rightarrow> drv_env) \<Rightarrow> (listen_addr \<Rightarrow> fd) \<Rightarrow> conf_normal \<Rightarrow> remote list
     \<Rightarrow> ('w, 'r) agents \<Rightarrow> (('w, 'r) agents \<times> bool) outcome" where
  "Agents_Init bt denvs listen cn remotes ag =
     obind (slaves_Init bt cn remotes (num_agents cn)) (\<lambda>(slaves, ok).
       let ag = ag\<lparr>ag_slaves := ag_slaves ag @ slaves\<rparr> in
       if \<not> ok then Inr (ag, False)
       else obind (master_Init denvs listen (listen_addrs cn) (master_new bt)) (\<lambda>(m, ok).
         Inr (ag\<lparr>ag_master := Some m\<rparr>, ok)))"

text \<open>\<^verbatim>\<open>Agents::Stop\<close>, which the destructor calls, too: the master's pointer is not tested.\<close>

definition Agents_Stop :: "drv_env \<Rightarrow> (nat \<Rightarrow> drv_env) \<Rightarrow> ('w, 'r) agents \<Rightarrow> ('w, 'r) agents outcome" where
  "Agents_Stop denv denvs ag =
     (case ag_master ag of
        None \<Rightarrow> Inl NullDeref
      | Some m \<Rightarrow> obind (master_Stop denv m) (\<lambda>m.
          obind (ofold (\<lambda>i slaves. obind (slave_Stop (denvs i) (slaves ! i)) (\<lambda>sl. Inr (slaves[i := sl])))
                   [0..<length (ag_slaves ag)] (ag_slaves ag)) (\<lambda>slaves.
            Inr (ag\<lparr>ag_master := Some m, ag_slaves := slaves\<rparr>))))"

record ('w, 'r) magneto_base =
  mb_confs :: confs
  mb_schedulers :: "('w, 'r) schedulers"
  mb_agents :: "('w, 'r) agents"

text \<open>\<^verbatim>\<open>MagnetoBase::Init\<close>: \<^term>\<open>None\<close> when it returns false. The label \<^verbatim>\<open>ERROR_HANDLE\<close> deletes the
  agents, if they were made, and with them stops them.\<close>

definition mb_Init ::
  "('w, 'r) boot_env \<Rightarrow> (nat \<Rightarrow> drv_env) \<Rightarrow> (listen_addr \<Rightarrow> fd) \<Rightarrow> drv_env \<Rightarrow> (nat \<Rightarrow> drv_env)
     \<Rightarrow> confs option \<Rightarrow> bool \<Rightarrow> nat list \<Rightarrow> ('w, 'r) magneto_base option outcome" where
  "mb_Init bt lenvs listen denv denvs loaded has_req_handler routines =
     (case loaded of
        None \<Rightarrow> Inr None
      | Some cf \<Rightarrow>
          let fail = (\<lambda>ag. obind (Agents_Stop denv denvs ag) (\<lambda>_. Inr None));
              ag = \<lparr>ag_slaves = [], ag_master = None\<rparr>
          in (case Schedulers_Init bt (cf_normal cf) has_req_handler routines of (ss, ok) \<Rightarrow>
              if \<not> ok then fail ag
              else (case GetConfServices None cf of
                 None \<Rightarrow> Inl NullDeref
               | Some cs \<Rightarrow> obind (Agents_Init bt lenvs listen (cf_normal cf) (cs_remotes cs) ag) (\<lambda>(ag, ok).
                   if \<not> ok then fail ag
                   else Inr (Some \<lparr>mb_confs = cf, mb_schedulers = ss, mb_agents = ag\<rparr>)))))"

section \<open>What the start promises\<close>

text \<open>A mailbox that holds more than one message of the largest size is what a scheduler and a slave need.\<close>

definition mailbox_fits :: "('w, 'r) boot_env \<Rightarrow> conf_normal \<Rightarrow> bool" where
  "mailbox_fits bt cn \<longleftrightarrow> kMaxSizeMsg + bt_offset bt < size_scheduler_mailbox cn"

lemma Scheduler_Init_iff:
  "(\<exists>sc. Scheduler_Init (bt_offset bt) base sz ok b0 cn r = Some sc) \<longleftrightarrow> ok \<and> mailbox_fits bt cn"
  by (auto simp: Scheduler_Init_def pipe_Init_def mailbox_fits_def split: option.splits)

lemma init_each_ok:
  "mailbox_fits bt cn \<Longrightarrow> (\<And>i. bt_notifier bt i) \<Longrightarrow> \<exists>ss. init_each bt cn i rs = (ss, True) \<and> length ss = length rs"
proof (induction bt cn i rs rule: init_each.induct)
  case (2 bt cn i r rs)
  then obtain sc where sc: "Scheduler_Init (bt_offset bt) (bt_base bt) (bt_sizeof_biz bt) (bt_notifier bt i) (bt_biz bt) cn r = Some sc"
    using Scheduler_Init_iff by blast
  with 2 show ?case by fastforce
qed simp

lemma init_each_fail: "\<not> mailbox_fits bt cn \<Longrightarrow> rs \<noteq> [] \<Longrightarrow> \<not> snd (init_each bt cn i rs)"
  using Scheduler_Init_iff [of bt "bt_base bt" "bt_sizeof_biz bt" "bt_notifier bt i" "bt_biz bt" cn "hd rs"]
  by (cases rs) (auto split: option.splits)

lemma Schedulers_Init_ok:
  assumes "mailbox_fits bt cn" "\<And>i. bt_notifier bt i"
  shows "\<exists>ss. Schedulers_Init bt cn has_req routines = (ss, True)
    \<and> length (schedulers_req ss) = (if has_req then num_schedulers cn else 0) \<and> length (schedulers_routine ss) = length routines"
proof -
  obtain reqs where "init_each bt cn 0 (replicate (num_schedulers cn) None) = (reqs, True)" "length reqs = num_schedulers cn"
    using init_each_ok [OF assms] by fastforce
  moreover obtain rs where "init_each bt cn (if has_req then num_schedulers cn else 0) (map Some routines) = (rs, True)"
      "length rs = length routines"
    using init_each_ok [OF assms, of _ "map Some routines"] by fastforce
  ultimately show ?thesis by (cases has_req) (force simp: Schedulers_Init_def)+
qed

lemma slave_Init_iff:
  assumes "length remotes \<le> 100000"
  shows "\<exists>r. slave_Init se ss (bt_offset bt) base slot e0 s0 cn remotes = Inr r \<and> (r \<noteq> None \<longleftrightarrow> mailbox_fits bt cn)"
proof -
  obtain cm where cm: "ConnsMgr_new (long_conn_keepalive_sec cn) slot = Some cm" using ConnsMgr_new_ex by blast
  then obtain cm' where "ConfigRemotes remotes cm = Inr cm'"
    using ConfigRemotes_accepts [of cm remotes] ConnsMgr_new_ok [OF cm] assms by auto
  with cm show ?thesis by (auto simp: slave_Init_def pipe_Init_def mailbox_fits_def)
qed

lemma slave_Init_knows:
  assumes "slave_Init se ss off base slot e0 s0 cn remotes = Inr (Some sl)" "set_has r remotes"
  shows "cm_Get (sl_conns sl) r \<noteq> None"
proof -
  obtain cm where cm: "ConnsMgr_new (long_conn_keepalive_sec cn) slot = Some cm" "ConfigRemotes remotes cm = Inr (sl_conns sl)"
    using assms(1) by (auto simp: slave_Init_def obind_Inr_iff split: option.splits)
  note c = ConfigRemotes_ok [OF ConnsMgr_new_ok(1) [OF cm(1)] cm(2)]
  show ?thesis using c(2) [of r] assms(2) by (simp add: cm_Get_map [OF c(1)])
qed

lemma slaves_Init_knows:
  assumes "slaves_Init bt cn remotes n = Inr (ss, ok)" "set_has r remotes" "sl \<in> set ss"
  shows "cm_Get (sl_conns sl) r \<noteq> None"
  using assms(1,3)
proof (induction n arbitrary: ss ok)
  case (Suc n)
  then show ?case
    using slave_Init_knows [OF _ assms(2), of _ _ _ _ "bt_slot bt"] by (fastforce simp: obind_Inr_iff split: option.splits)
qed simp

lemma slaves_Init_ok:
  assumes "length remotes \<le> 100000" "mailbox_fits bt cn"
  shows "\<exists>ss. slaves_Init bt cn remotes n = Inr (ss, True) \<and> length ss = n"
proof (induction n)
  case (Suc n)
  moreover obtain sl where "slave_Init (bt_sizeof_ectx bt) (bt_sizeof_session bt) (bt_offset bt) (bt_base bt) (bt_slot bt) (bt_ectx bt)
      (bt_session bt) cn remotes = Inr (Some sl)"
    using slave_Init_iff [OF assms(1)] assms(2) by blast
  ultimately show ?case by auto
qed simp

lemma slaves_Init_fail:
  assumes "length remotes \<le> 100000" "\<not> mailbox_fits bt cn" "0 < n"
  shows "slaves_Init bt cn remotes n = Inr ([], False)"
  using slave_Init_iff [OF assms(1), of "bt_sizeof_ectx bt" "bt_sizeof_session bt" bt "bt_base bt" "bt_slot bt" "bt_ectx bt" "bt_session bt" cn]
    assms(2,3)
  by (cases n) auto


lemma mb_Init_ok:
  assumes "mailbox_fits bt (cf_normal cf)" "\<And>i. bt_notifier bt i"
    "GetConfServices None cf = Some cs" "length (cs_remotes cs) \<le> 100000"
    "master_Init lenvs listen (listen_addrs (cf_normal cf)) (master_new bt) = Inr (m, True)"
  obtains ss slaves where
    "mb_Init bt lenvs listen denv denvs (Some cf) has_req routines
       = Inr (Some \<lparr>mb_confs = cf, mb_schedulers = ss, mb_agents = \<lparr>ag_slaves = slaves, ag_master = Some m\<rparr>\<rparr>)"
    "length (schedulers_req ss) = (if has_req then num_schedulers (cf_normal cf) else 0)" "length (schedulers_routine ss) = length routines"
    "slaves_Init bt (cf_normal cf) (cs_remotes cs) (num_agents (cf_normal cf)) = Inr (slaves, True)"
    "length slaves = num_agents (cf_normal cf)"
proof -
  from Schedulers_Init_ok [OF assms(1,2)] slaves_Init_ok [OF assms(4,1)] obtain ss slaves where
    "Schedulers_Init bt (cf_normal cf) has_req routines = (ss, True)"
    "length (schedulers_req ss) = (if has_req then num_schedulers (cf_normal cf) else 0)" "length (schedulers_routine ss) = length routines"
    "slaves_Init bt (cf_normal cf) (cs_remotes cs) (num_agents (cf_normal cf)) = Inr (slaves, True)"
    "length slaves = num_agents (cf_normal cf)"
    by metis
  with assms(3,5) show thesis by (intro that) (simp_all add: mb_Init_def Agents_Init_def Let_def)
qed

text \<open>C23. The program starts: when the mailboxes hold a message, the notifiers and the listening sockets
  can be had and there are no more remotes than the table has room for, \<^verbatim>\<open>Init\<close> succeeds, with as many
  slaves as configured, as many schedulers of requests as configured if there is a handler, one
  scheduler per routine, and the master.\<close>

theorem init_complete:
  assumes "mailbox_fits bt (cf_normal cf)" "\<And>i. bt_notifier bt i"
    "GetConfServices None cf = Some cs" "length (cs_remotes cs) \<le> 100000"
    "master_Init lenvs listen (listen_addrs (cf_normal cf)) (master_new bt) = Inr (m, True)"
  shows "\<exists>mb. mb_Init bt lenvs listen denv denvs (Some cf) has_req routines = Inr (Some mb)
    \<and> length (ag_slaves (mb_agents mb)) = num_agents (cf_normal cf) \<and> ag_master (mb_agents mb) = Some m
    \<and> length (schedulers_req (mb_schedulers mb)) = (if has_req then num_schedulers (cf_normal cf) else 0)
    \<and> length (schedulers_routine (mb_schedulers mb)) = length routines"
  by (rule mb_Init_ok [OF assms, where has_req = has_req and routines = routines and denv = denv and denvs = denvs]) simp

text \<open>C39. A start that fails because the mailbox is too small for a message does not return false: the
  agents are deleted, and their destructor stops a master that was never made.\<close>

theorem init_failure_crashes:
  assumes "\<not> mailbox_fits bt (cf_normal cf)" "GetConfServices None cf = Some cs" "length (cs_remotes cs) \<le> 100000"
    "0 < num_agents (cf_normal cf)"
  shows "mb_Init bt lenvs listen denv denvs (Some cf) has_req routines = Inl NullDeref"
proof (cases "snd (Schedulers_Init bt (cf_normal cf) has_req routines)")
  case False
  then show ?thesis by (auto simp: mb_Init_def Agents_Stop_def Let_def split: prod.splits)
next
  case True
  with slaves_Init_fail [OF assms(3,1,4)] assms(2) show ?thesis
    by (auto simp: mb_Init_def Agents_Init_def Agents_Stop_def Let_def split: prod.splits)
qed

definition demo_boot :: "(byte list, byte list) boot_env" where
  "demo_boot = \<lparr>bt_offset = 8, bt_base = 4096, bt_sizeof_biz = 256, bt_sizeof_ectx = 64, bt_sizeof_session = 64, bt_notifier = (\<lambda>_. True),
     bt_biz = demo_biz, bt_ectx = ma_ectx demo_master 0, bt_session = sl_session demo_slave 0,
     bt_slot = (demo_remote, demo_pool)\<rparr>"

definition demo_confs :: confs where
  "demo_confs = \<lparr>cf_normal = demo_conf\<lparr>size_scheduler_mailbox := 65536\<rparr>, cf_services = \<lparr>dd_delay_sec = 0, dd_to_delete = False,
     dd_obj = Some \<lparr>cs_remotes = [demo_remote], cs_services = [], cs_sets = [], cs_set_names = []\<rparr>,
     dd_version = 0, dd_map = [], dd_deleted = []\<rparr>\<rparr>"

theorem init_complete_witness:
  "\<exists>mb. mb_Init demo_boot (\<lambda>_. drv_demo_env 0) (\<lambda>_. 5) (drv_demo_env 0) (\<lambda>_. drv_demo_env 0) (Some demo_confs) True [3] = Inr (Some mb)
    \<and> length (ag_slaves (mb_agents mb)) = 1 \<and> length (schedulers_req (mb_schedulers mb)) = 2
    \<and> length (schedulers_routine (mb_schedulers mb)) = 1"
proof -
  have "mailbox_fits demo_boot (cf_normal demo_confs)" "bt_notifier demo_boot i"
    "GetConfServices None demo_confs = Some \<lparr>cs_remotes = [demo_remote], cs_services = [], cs_sets = [], cs_set_names = []\<rparr>"
    "master_Init lenvs listen (listen_addrs (cf_normal demo_confs)) (master_new demo_boot) = Inr (master_new demo_boot, True)"
    for i lenvs listen
    by (simp_all add: mailbox_fits_def demo_boot_def demo_confs_def demo_conf_def kMaxSizeMsg_def GetConfServices_def dd_Get_def)
  from init_complete [OF this(1,2,3) _ this(4), where has_req = True and routines = "[3]"]
  have "length [demo_remote] \<le> 100000 \<Longrightarrow> \<exists>mb. mb_Init demo_boot (\<lambda>_. drv_demo_env 0) (\<lambda>_. 5) (drv_demo_env 0) (\<lambda>_. drv_demo_env 0) (Some demo_confs) True [3]
      = Inr (Some mb) \<and> length (ag_slaves (mb_agents mb)) = num_agents (cf_normal demo_confs)
    \<and> length (schedulers_req (mb_schedulers mb)) = num_schedulers (cf_normal demo_confs) \<and> length (schedulers_routine (mb_schedulers mb)) = 1"
    by fastforce
  then show ?thesis by (simp add: demo_confs_def demo_conf_def)
qed

theorem init_failure_crashes_witness:
  "mb_Init demo_boot (\<lambda>_. drv_demo_env 0) (\<lambda>_. 5) (drv_demo_env 0) (\<lambda>_. drv_demo_env 0) (Some (demo_confs\<lparr>cf_normal := demo_conf\<lparr>size_scheduler_mailbox := 4096\<rparr>\<rparr>))
     True [] = Inl NullDeref"
proof -
  let ?cf = "demo_confs\<lparr>cf_normal := demo_conf\<lparr>size_scheduler_mailbox := 4096\<rparr>\<rparr>"
  have "\<not> mailbox_fits demo_boot (cf_normal ?cf)"
    "GetConfServices None ?cf = Some \<lparr>cs_remotes = [demo_remote], cs_services = [], cs_sets = [], cs_set_names = []\<rparr>"
    "0 < num_agents (cf_normal ?cf)"
    by (simp_all add: mailbox_fits_def demo_boot_def demo_confs_def demo_conf_def kMaxSizeMsg_def GetConfServices_def dd_Get_def)
  from init_failure_crashes [OF this(1,2) _ this(3)] show ?thesis by simp
qed

end
