(* ===== verification/Clock.thy ===== *)
theory Clock
  imports Mag_Prelude
begin

text \<open>
  The clock of \<^verbatim>\<open>deps/public-cpp/include/public-cpp/time/time.h\<close>: the time of the last look at the system's clock, which a caller may renew or not. What \<^verbatim>\<open>gettimeofday\<close> answers is an argument. It is shown that
  the times the program sees never run backwards when those of the system do not, and how far they may lag.
\<close>

type_synonym timeval = "int \<times> int"

text \<open>\<^verbatim>\<open>Time::time_\<close>, in microseconds.\<close>

definition UpdateTimer :: "timeval \<Rightarrow> int" where
  "UpdateTimer t = fst t * 1000000 + snd t"

definition look :: "bool \<Rightarrow> timeval \<Rightarrow> int \<Rightarrow> int" where
  "look update t time = (if update \<or> time = 0 then UpdateTimer t else time)"

definition GetCurrentUsec :: "bool \<Rightarrow> timeval \<Rightarrow> int \<Rightarrow> int \<times> int" where
  "GetCurrentUsec update t time = (let time = look update t time in (time, time))"

definition GetCurrentMsec :: "bool \<Rightarrow> timeval \<Rightarrow> int \<Rightarrow> int \<times> int" where
  "GetCurrentMsec update t time = (let time = look update t time in (time, time div 1000))"

definition GetCurrentSec :: "bool \<Rightarrow> timeval \<Rightarrow> int \<Rightarrow> int \<times> int" where
  "GetCurrentSec update t time = (let time = look update t time in (time, time div 1000000))"

text \<open>\<^verbatim>\<open>Timer\<close>: from a start to a stop, both of which look at the clock.\<close>

record timer =
  tm_start :: int
  tm_stop :: int

definition Timer_new :: "int \<Rightarrow> timeval \<Rightarrow> int \<Rightarrow> int \<times> timer" where
  "Timer_new junk t time = (case GetCurrentUsec True t time of (time, s) \<Rightarrow> (time, \<lparr>tm_start = s, tm_stop = junk\<rparr>))"

definition Timer_Start :: "bool \<Rightarrow> timeval \<Rightarrow> int \<times> timer \<Rightarrow> int \<times> timer" where
  "Timer_Start update t s = (case GetCurrentUsec update t (fst s) of (time, n) \<Rightarrow> (time, (snd s)\<lparr>tm_start := n\<rparr>))"

definition Timer_Stop :: "bool \<Rightarrow> timeval \<Rightarrow> int \<times> timer \<Rightarrow> int \<times> timer" where
  "Timer_Stop update t s = (case GetCurrentUsec update t (fst s) of (time, n) \<Rightarrow> (time, (snd s)\<lparr>tm_stop := n\<rparr>))"

definition TimeUs :: "timer \<Rightarrow> int" where
  "TimeUs tm = tm_stop tm - tm_start tm"

section \<open>The program's time\<close>

text \<open>A sequence of looks, each with what the system's clock says and whether it is renewed; the results in milliseconds.\<close>

fun clock_run :: "(bool \<times> timeval) list \<Rightarrow> int \<Rightarrow> int list" where
  "clock_run [] time = []"
| "clock_run ((update, t) # qs) time = (case GetCurrentMsec update t time of (time, ms) \<Rightarrow> ms # clock_run qs time)"

definition system_times :: "(bool \<times> timeval) list \<Rightarrow> int list" where
  "system_times qs = map (UpdateTimer \<circ> snd) qs"

lemma clock_run_bounds:
  assumes "sorted (time # system_times qs)" "0 < time"
  shows "sorted (time div 1000 # clock_run qs time) \<and> length (clock_run qs time) = length qs
    \<and> (\<forall>i < length qs. clock_run qs time ! i \<le> system_times qs ! i div 1000)"
  using assms
proof (induction qs arbitrary: time)
  case (Cons q qs)
  obtain update t where q: "q = (update, t)" by (cases q)
  let ?n = "look update t time"
  have n: "time \<le> ?n" "?n \<le> UpdateTimer t" "0 < ?n" using Cons.prems q by (auto simp: look_def system_times_def)
  have "sorted (?n # system_times qs)" using Cons.prems n(2) q by (auto simp: system_times_def)
  note IH = Cons.IH [OF this n(3)]
  have "time div 1000 \<le> ?n div 1000" "?n div 1000 \<le> UpdateTimer t div 1000" using n by (simp_all add: zdiv_mono1)
  then show ?case using IH q
    by (auto simp: GetCurrentMsec_def Let_def system_times_def nth_Cons split: nat.split intro: order_trans)
qed (simp add: system_times_def)

text \<open>When the system's clock does not run backwards, neither do the times the program sees, and none is ahead of the system's.\<close>

theorem clock_monotone:
  assumes "sorted (system_times ((True, t) # qs))" "0 < UpdateTimer t"
  shows "sorted (clock_run ((True, t) # qs) time)
    \<and> (\<forall>i < length qs. clock_run ((True, t) # qs) time ! Suc i \<le> system_times qs ! i div 1000)"
  using clock_run_bounds [of "UpdateTimer t" qs] assms by (simp add: GetCurrentMsec_def look_def Let_def system_times_def)

end
