(* ===== verification/Lock_Policy.thy ===== *)
theory Lock_Policy
  imports Mag_Prelude
begin

text \<open>
  The locks of \<^verbatim>\<open>deps/public-cpp/include/public-cpp/lock_policy.hpp\<close>. \<^verbatim>\<open>ThreadMutex\<close> and \<^verbatim>\<open>SpinLock\<close> make their mutex at the first call
  of \<^verbatim>\<open>Lock\<close> or \<^verbatim>\<open>Unlock\<close>, whichever thread makes it: the steps of a thread are the test of \<^verbatim>\<open>init_\<close>, making the mutex, setting \<^verbatim>\<open>init_\<close>, and
  taking or giving back the mutex; threads take them in any order. A mutex that is made anew is free. It is shown that the lock
  excludes as long as the mutex is made once, and how two threads that come first together make it twice and both hold the lock.
\<close>

section \<open>Steps\<close>

datatype lock_pc = LkIdle | LkMake | LkFlag | LkTake | LkHeld | LkUMake | LkUFlag | LkGive

text \<open>Each thread is idle, in \<^verbatim>\<open>Lock\<close>, holding the lock, or in \<^verbatim>\<open>Unlock\<close>; \<open>lk_made\<close> counts how often the mutex was made.\<close>

record thread_mutex =
  lk_init :: bool
  lk_owner :: "nat option"
  lk_pc :: "nat \<Rightarrow> lock_pc"
  lk_made :: nat

definition ThreadMutex_new :: thread_mutex where
  "ThreadMutex_new = \<lparr>lk_init = False, lk_owner = None, lk_pc = (\<lambda>_. LkIdle), lk_made = 0\<rparr>"

text \<open>One step of a thread; \<open>ok\<close> is whether \<^verbatim>\<open>pthread_mutex_init\<close> succeeds. There is no step for a thread that waits for the mutex. An idle thread calls
  \<^verbatim>\<open>Lock\<close>, one that holds the lock \<^verbatim>\<open>Unlock\<close>.\<close>

definition lk_step :: "bool \<Rightarrow> nat \<Rightarrow> thread_mutex \<Rightarrow> thread_mutex option" where
  "lk_step ok t s =
     (let to = (\<lambda>pc s. s\<lparr>lk_pc := (lk_pc s)(t := pc)\<rparr>);
          make = (\<lambda>pc back. if ok then to pc (s\<lparr>lk_owner := None, lk_made := lk_made s + 1\<rparr>) else to back s)
      in case lk_pc s t of
        LkIdle \<Rightarrow> Some (to (if lk_init s then LkTake else LkMake) s)
      | LkMake \<Rightarrow> Some (make LkFlag LkIdle)
      | LkFlag \<Rightarrow> Some (to LkTake (s\<lparr>lk_init := True\<rparr>))
      | LkTake \<Rightarrow> if lk_owner s = None then Some (to LkHeld (s\<lparr>lk_owner := Some t\<rparr>)) else None
      | LkHeld \<Rightarrow> Some (to (if lk_init s then LkGive else LkUMake) s)
      | LkUMake \<Rightarrow> Some (make LkUFlag LkIdle)
      | LkUFlag \<Rightarrow> Some (to LkGive (s\<lparr>lk_init := True\<rparr>))
      | LkGive \<Rightarrow> Some (to LkIdle (s\<lparr>lk_owner := None\<rparr>)))"

inductive lk_reach :: "thread_mutex \<Rightarrow> thread_mutex \<Rightarrow> bool" for s0 where
  start: "lk_reach s0 s0"
| step: "lk_reach s0 s \<Longrightarrow> lk_step ok t s = Some s' \<Longrightarrow> lk_reach s0 s'"

text \<open>The threads between a successful \<^verbatim>\<open>Lock\<close> and the end of \<^verbatim>\<open>Unlock\<close>.\<close>

fun holding :: "lock_pc \<Rightarrow> bool" where
  "holding LkHeld = True"
| "holding LkUMake = True"
| "holding LkUFlag = True"
| "holding LkGive = True"
| "holding _ = False"

definition lk_holds :: "thread_mutex \<Rightarrow> nat \<Rightarrow> bool" where
  "lk_holds s t \<longleftrightarrow> holding (lk_pc s t)"

section \<open>Exclusion\<close>

text \<open>As long as the mutex was made at most once: before that nobody is past making it, and afterwards the owner is the thread that holds the lock.\<close>

definition lk_inv :: "thread_mutex \<Rightarrow> bool" where
  "lk_inv s \<longleftrightarrow> (lk_made s = 0 \<longrightarrow> \<not> lk_init s \<and> (\<forall>t. lk_pc s t \<in> {LkIdle, LkMake}))
     \<and> (lk_made s = 1 \<longrightarrow> (\<forall>t. lk_holds s t \<longleftrightarrow> lk_owner s = Some t)
        \<and> (lk_init s \<and> (\<forall>t. lk_pc s t \<notin> {LkFlag, LkUMake, LkUFlag})
           \<or> \<not> lk_init s \<and> (\<exists>t. lk_pc s t = LkFlag \<and> (\<forall>u. u \<noteq> t \<longrightarrow> lk_pc s u \<in> {LkIdle, LkMake}))))"

lemma lk_invI:
  "lk_made s = 0 \<Longrightarrow> \<not> lk_init s \<Longrightarrow> (\<And>t. lk_pc s t = LkIdle \<or> lk_pc s t = LkMake) \<Longrightarrow> lk_inv s"
  "lk_made s = 1 \<Longrightarrow> lk_init s \<Longrightarrow> (\<And>t. lk_holds s t \<longleftrightarrow> lk_owner s = Some t) \<Longrightarrow>
    (\<And>t. lk_pc s t \<notin> {LkFlag, LkUMake, LkUFlag}) \<Longrightarrow> lk_inv s"
  "lk_made s = 1 \<Longrightarrow> \<not> lk_init s \<Longrightarrow> lk_owner s = None \<Longrightarrow> lk_pc s f = LkFlag \<Longrightarrow>
    (\<And>t. t \<noteq> f \<Longrightarrow> lk_pc s t = LkIdle \<or> lk_pc s t = LkMake) \<Longrightarrow> lk_inv s"
  "1 < lk_made s \<Longrightarrow> lk_inv s"
  unfolding lk_inv_def lk_holds_def by (simp_all, blast?) (metis holding.simps(5-7))

lemma lk_inv_cases:
  assumes inv: "lk_inv s"
  obtains (unmade) "lk_made s = 0" "\<not> lk_init s" "\<And>t. lk_pc s t = LkIdle \<or> lk_pc s t = LkMake"
  | (ready) "lk_made s = 1" "lk_init s" "\<And>t. lk_holds s t \<longleftrightarrow> lk_owner s = Some t" "\<And>t. lk_pc s t \<notin> {LkFlag, LkUMake, LkUFlag}"
  | (making) f where "lk_made s = 1" "\<not> lk_init s" "lk_owner s = None" "lk_pc s f = LkFlag"
      "\<And>t. t \<noteq> f \<Longrightarrow> lk_pc s t = LkIdle \<or> lk_pc s t = LkMake"
  | (again) "1 < lk_made s"
proof -
  consider "lk_made s = 0" | "lk_made s = 1" "lk_init s" | "lk_made s = 1" "\<not> lk_init s" | "1 < lk_made s" by linarith
  then show thesis
  proof cases
    case 1
    then show thesis using inv by (intro unmade) (auto simp: lk_inv_def)
  next
    case 2
    then show thesis using inv by (intro ready) (auto simp: lk_inv_def)
  next
    case 3
    then obtain f where f: "lk_pc s f = LkFlag" "\<And>u. u \<noteq> f \<Longrightarrow> lk_pc s u = LkIdle \<or> lk_pc s u = LkMake" "\<And>u. lk_holds s u \<longleftrightarrow> lk_owner s = Some u"
      using inv by (auto simp: lk_inv_def)
    have "lk_owner s = None"
    proof (rule ccontr)
      assume "lk_owner s \<noteq> None"
      then obtain u where "lk_holds s u" using f(3) by blast
      then show False using f(1) f(2) [of u] by (cases "u = f") (auto simp: lk_holds_def)
    qed
    with 3 f show thesis by (intro making) auto
  qed (rule again)
qed

lemma lk_inv_step:
  assumes inv: "lk_inv s" and step: "lk_step ok t s = Some s'"
  shows "lk_inv s'"
  using inv
proof (cases rule: lk_inv_cases)
  case unmade
  have o: "lk_pc s u \<noteq> LkMake \<Longrightarrow> lk_pc s u = LkIdle" for u using unmade(3) [of u] by blast
  show ?thesis
  proof (cases "lk_pc s t = LkMake \<and> ok")
    case True
    then show ?thesis using step unmade(1,2) o by (intro lk_invI(3) [where f = t]) (auto simp: lk_step_def Let_def)
  next
    case False
    then have s': "s' = s\<lparr>lk_pc := (lk_pc s)(t := if lk_pc s t = LkMake then LkIdle else LkMake)\<rparr>"
      using step unmade(2) o [of t] by (cases "lk_pc s t = LkMake") (auto simp: lk_step_def Let_def)
    show ?thesis by (rule lk_invI(1)) (use unmade in \<open>simp_all add: s'\<close>)
  qed
next
  case ready
  show ?thesis
  proof (cases "lk_pc s t = LkMake \<and> ok")
    case True
    then show ?thesis using step ready(1) by (intro lk_invI(4)) (auto simp: lk_step_def Let_def)
  next
    case False
    have h: "holding (lk_pc s u) \<longleftrightarrow> lk_owner s = Some u" for u using ready(3) by (simp add: lk_holds_def)
    obtain pc ow where s': "s' = s\<lparr>lk_owner := ow, lk_pc := (lk_pc s)(t := pc)\<rparr>" "pc \<notin> {LkFlag, LkUMake, LkUFlag}"
      "if holding pc then ow = Some t \<and> lk_owner s \<in> {None, Some t} else ow = (if lk_owner s = Some t then None else lk_owner s)"
    proof (cases "lk_pc s t")
      case LkIdle
      then show ?thesis using step ready(2) h [of t] by (intro that [where ow = "lk_owner s" and pc = LkTake]) (auto simp: lk_step_def Let_def)
    next
      case LkMake
      then show ?thesis using step False h [of t] by (intro that [where ow = "lk_owner s" and pc = LkIdle]) (auto simp: lk_step_def Let_def)
    next
      case LkTake
      then show ?thesis using step by (intro that [where ow = "Some t" and pc = LkHeld]) (auto simp: lk_step_def Let_def split: if_splits)
    next
      case LkHeld
      then show ?thesis using step ready(2) h [of t] by (intro that [where ow = "lk_owner s" and pc = LkGive]) (auto simp: lk_step_def Let_def)
    next
      case LkGive
      then show ?thesis using step h [of t] by (intro that [where ow = None and pc = LkIdle]) (auto simp: lk_step_def Let_def)
    qed (use ready(4) [of t] in auto)
    show ?thesis by (rule lk_invI(2)) (use s' ready h in \<open>auto simp: lk_holds_def split: if_splits\<close>)
  qed
next
  case (making f)
  show ?thesis
  proof (cases "t = f")
    case True
    then have "s' = s\<lparr>lk_init := True, lk_pc := (lk_pc s)(t := LkTake)\<rparr>" using step making(4) by (simp add: lk_step_def Let_def)
    moreover have "\<not> holding (lk_pc s u) \<and> lk_pc s u \<notin> {LkFlag, LkUMake, LkUFlag}" if "u \<noteq> f" for u using making(5) [OF that] by auto
    ultimately show ?thesis using making(1-4) True by (intro lk_invI(2)) (auto simp: lk_holds_def)
  next
    case False
    show ?thesis
    proof (cases "lk_pc s t = LkMake \<and> ok")
      case True
      then show ?thesis using step making(1) by (intro lk_invI(4)) (auto simp: lk_step_def Let_def)
    next
      case no: False
      have o: "lk_pc s u \<noteq> LkMake \<Longrightarrow> u \<noteq> f \<Longrightarrow> lk_pc s u = LkIdle" for u using making(5) [of u] by blast
      have s': "s' = s\<lparr>lk_pc := (lk_pc s)(t := if lk_pc s t = LkMake then LkIdle else LkMake)\<rparr>"
        using step making(2) no o [OF _ False] by (cases "lk_pc s t = LkMake") (auto simp: lk_step_def Let_def)
      show ?thesis by (rule lk_invI(3) [where f = f]) (use making False in \<open>simp_all add: s'\<close>)
    qed
  qed
next
  case again
  then have "1 < lk_made s'" using step by (auto simp: lk_step_def Let_def split: lock_pc.splits if_splits)
  then show ?thesis by (rule lk_invI(4))
qed

lemma lk_reach_inv: "lk_reach ThreadMutex_new s \<Longrightarrow> lk_inv s"
proof (induction rule: lk_reach.induct)
  case start
  show ?case by (simp add: lk_inv_def ThreadMutex_new_def)
qed (rule lk_inv_step)

text \<open>Once the flag is set and nobody is about to make the mutex, it is not made again.\<close>

definition lk_ready :: "thread_mutex \<Rightarrow> bool" where
  "lk_ready s \<longleftrightarrow> lk_init s \<and> (\<forall>t. lk_pc s t \<notin> {LkMake, LkUMake})"

lemma lk_ready_step: "lk_ready s \<Longrightarrow> lk_step ok t s = Some s' \<Longrightarrow> lk_ready s' \<and> lk_made s' = lk_made s"
  by (cases "lk_pc s t") (auto simp: lk_ready_def lk_step_def Let_def split: if_splits)

lemma lk_ready_reach: "lk_reach s0 s \<Longrightarrow> lk_ready s0 \<Longrightarrow> lk_ready s \<and> lk_made s = lk_made s0"
  by (induction rule: lk_reach.induct) (auto dest: lk_ready_step)

lemma lk_reach_trans: "lk_reach s s' \<Longrightarrow> lk_reach s0 s \<Longrightarrow> lk_reach s0 s'"
  by (induction rule: lk_reach.induct) (auto intro: lk_reach.step)

section \<open>Properties\<close>

text \<open>Steps of given threads.\<close>

fun lk_run :: "nat list \<Rightarrow> thread_mutex \<Rightarrow> thread_mutex option" where
  "lk_run [] s = Some s"
| "lk_run (t # ts) s = (case lk_step True t s of None \<Rightarrow> None | Some s' \<Rightarrow> lk_run ts s')"

lemma lk_run_reach: "lk_run ts s = Some s' \<Longrightarrow> lk_reach s0 s \<Longrightarrow> lk_reach s0 s'"
  by (induction ts s rule: lk_run.induct) (auto split: option.splits intro: lk_reach.step)

lemmas lk_eval = ThreadMutex_new_def lk_step_def lk_holds_def lk_ready_def Let_def

lemma lk_excludes:
  assumes "lk_reach ThreadMutex_new s" "lk_made s \<le> 1" "lk_holds s t" "lk_holds s u"
  shows "t = u"
proof -
  note inv = lk_reach_inv [OF assms(1)]
  have "lk_made s \<noteq> 0"
  proof
    assume "lk_made s = 0"
    then have "lk_pc s t \<in> {LkIdle, LkMake}" using inv by (simp add: lk_inv_def)
    then show False using assms(3) by (auto simp: lk_holds_def)
  qed
  then show ?thesis using inv assms by (auto simp: lk_inv_def)
qed

text \<open>C14. A lock that one thread has used before the others come, so that the mutex is made and nobody is about to make it again, excludes from then on: whatever
  steps the threads take in whatever order, at most one holds the lock.\<close>

theorem lock_excludes:
  assumes "lk_reach ThreadMutex_new s0" "lk_made s0 = 1" "lk_ready s0" "lk_reach s0 s" "lk_holds s t" "lk_holds s u"
  shows "t = u"
  by (rule lk_excludes [OF lk_reach_trans [OF assms(4,1)]]) (use lk_ready_reach [OF assms(4,3)] assms(2,5,6) in auto)

theorem lock_excludes_witness:
  "\<exists>s0 s. lk_run [1, 1, 1, 1] ThreadMutex_new = Some s0 \<and> lk_run [2, 1, 1, 2] s0 = Some s \<and> lk_holds s 2 \<and> (\<forall>t. lk_holds s t \<longrightarrow> t = 2)"
proof -
  obtain s0 s where s: "lk_run [1, 1, 1, 1] ThreadMutex_new = Some s0" "lk_run [2, 1, 1, 2] s0 = Some s" "lk_holds s 2" "lk_made s0 = 1" "lk_ready s0"
    by (simp add: lk_eval)
  have "lk_reach ThreadMutex_new s0" "lk_reach s0 s" using s lk_run_reach lk_reach.start by blast+
  from lock_excludes [OF this(1) s(4,5) this(2) _ s(3)] s show ?thesis by blast
qed

text \<open>Two threads that make their first calls together may both find the flag unset; the second then makes the mutex anew while the first holds it, and both
  hold the lock.\<close>

theorem lock_first_use_race:
  "\<exists>s. lk_run [1, 2, 1, 1, 1, 2, 2, 2] ThreadMutex_new = Some s \<and> lk_holds s 1 \<and> lk_holds s 2"
  by (simp add: lk_eval)

end
