(* ===== verification/Thread_Pool.thy ===== *)
theory Thread_Pool
  imports Thread_Privacy Pool_Objs Protocols
begin

text \<open>
  Pools of objects that every thread has of its own, one for each category:
  \<^verbatim>\<open>deps/public-cpp/include/public-cpp/thread_private_pool.hpp\<close>, and the readers and writers of the protocols kept in
  such pools, \<^verbatim>\<open>src/protocols/pool_protocols.h\<close>. A pool makes objects of the base class; \<^verbatim>\<open>Get\<close> exchanges such an object for one
  of the class asked for, and what is given back goes to the pool of its category of the thread that gives it back. The pools of all
  threads share one allocator, which gives out addresses by a counter. It is shown that whoever asks for a protocol gets an object of
  that protocol which nobody else uses, whatever thread gives objects back, and that only objects of the base class are deleted.
\<close>

section \<open>Pools of a thread\<close>

text \<open>The class of the pool: the category and the size of \<^verbatim>\<open>Father\<close>.\<close>

record tq_class =
  tc_base :: nat
  tc_sizeof :: nat

text \<open>\<^verbatim>\<open>pools_\<close>, \<^verbatim>\<open>num_objs_\<close>, the next address, what \<^verbatim>\<open>GetCategory\<close> answers for each object, and the objects deleted by
  \<^verbatim>\<open>Get\<close>.\<close>

record thread_pool =
  tq_pools :: "pool_objs thread_privacy"
  tq_num_objs :: u64
  tq_next :: nat
  tq_category :: "nat \<Rightarrow> nat"
  tq_deleted :: "nat list"

text \<open>What a call depends on: the environment of \<^verbatim>\<open>ThreadPrivacy::Get\<close>, and whether \<^verbatim>\<open>new Son\<close> succeeds.\<close>

record tq_env =
  tq_tp :: tp_env
  tq_new :: bool

definition default_pool :: "tq_class \<Rightarrow> pool_objs" where
  "default_pool cls = PoolObjs_new (tc_sizeof cls) 0 65536 True True (2 ^ 18)"

definition ThreadPrivatePool_new :: "tq_class \<Rightarrow> thread_pool" where
  "ThreadPrivatePool_new cls = \<lparr>tq_pools = ThreadPrivacy_new (default_pool cls), tq_num_objs = 0, tq_next = 1,
     tq_category = (\<lambda>_. tc_base cls), tq_deleted = []\<rparr>"

text \<open>An operation on one of the pools; the objects it makes are of the base class.\<close>

definition pool_on :: "tq_class \<Rightarrow> nat \<Rightarrow> (pool_objs \<Rightarrow> pool_objs \<times> 'r) \<Rightarrow> thread_pool \<Rightarrow> thread_pool \<times> 'r" where
  "pool_on cls pl f s =
     (case f ((tp_obj (tq_pools s) pl)\<lparr>next_obj := tq_next s\<rparr>) of (p, r) \<Rightarrow>
        (s\<lparr>tq_pools := (tq_pools s)\<lparr>tp_obj := (tp_obj (tq_pools s))(pl := p)\<rparr>, tq_next := next_obj p,
           tq_category := (\<lambda>x. if tq_next s \<le> x \<and> x < next_obj p then tc_base cls else tq_category s x)\<rparr>, r))"

text \<open>\<^verbatim>\<open>ThreadPrivatePool::Get<Son>\<close>, where \<open>k\<close> is the category of \<^verbatim>\<open>Son\<close>: the null pointer when the new object cannot be
  allocated.\<close>

definition tq_Get :: "tq_class \<Rightarrow> tq_env \<Rightarrow> nat \<Rightarrow> nat \<Rightarrow> thread_pool \<Rightarrow> (thread_pool \<times> nat option) outcome" where
  "tq_Get cls env t k s =
     (case tp_Get (tq_tp env) t k (default_pool cls) (tq_pools s) of
        (_, None) \<Rightarrow> Inl NullDeref
      | (q, Some (pl, _)) \<Rightarrow>
          (case pool_on cls pl (pool_Get True) (s\<lparr>tq_num_objs := tq_num_objs s + 1, tq_pools := q\<rparr>) of
             (_, None) \<Rightarrow> Inl NullDeref
           | (s, Some son) \<Rightarrow>
               if tq_category s son = k then Inr (s, Some son)
               else let s = s\<lparr>tq_deleted := tq_deleted s @ [son]\<rparr>
                    in if tq_new env
                       then Inr (s\<lparr>tq_next := tq_next s + 1, tq_category := (tq_category s)(tq_next s := k)\<rparr>, Some (tq_next s))
                       else Inr (s, None)))"

definition tq_Free :: "tq_class \<Rightarrow> tq_env \<Rightarrow> nat \<Rightarrow> nat \<Rightarrow> thread_pool \<Rightarrow> thread_pool outcome" where
  "tq_Free cls env t son s =
     (case tp_Get (tq_tp env) t (tq_category s son) (default_pool cls) (tq_pools s) of
        (_, None) \<Rightarrow> Inl NullDeref
      | (q, Some (pl, _)) \<Rightarrow>
          Inr (fst (pool_on cls pl (\<lambda>p. (pool_Free True son p, ())) (s\<lparr>tq_num_objs := tq_num_objs s - 1, tq_pools := q\<rparr>))))"

section \<open>Readers and writers of the protocols\<close>

text \<open>The numbers of the enumeration \<^verbatim>\<open>Protocol::Category\<close>.\<close>

definition category_no :: "bool \<Rightarrow> protocol_category \<Rightarrow> nat" where
  "category_no thrift c =
     (case c of PcRapid \<Rightarrow> 0 | PcPing \<Rightarrow> 1 | PcRedis \<Rightarrow> 2 | PcThrift \<Rightarrow> 3
      | PcHttp \<Rightarrow> if thrift then 4 else 3 | PcInvalid \<Rightarrow> if thrift then 5 else 4)"

record pool_protocols =
  pool_protocol_write :: thread_pool
  pool_protocol_read :: thread_pool

text \<open>The base classes \<^verbatim>\<open>ProtocolWrite\<close>, a table of virtual functions, and \<^verbatim>\<open>ProtocolRead\<close>, with a \<^verbatim>\<open>ReqInfo\<close> besides.\<close>

definition ProtocolWrite_class :: "bool \<Rightarrow> tq_class" where
  "ProtocolWrite_class thrift = \<lparr>tc_base = category_no thrift PcInvalid, tc_sizeof = 8\<rparr>"

definition ProtocolRead_class :: "bool \<Rightarrow> tq_class" where
  "ProtocolRead_class thrift = \<lparr>tc_base = category_no thrift PcInvalid, tc_sizeof = 16\<rparr>"

definition pp_GetWrite :: "bool \<Rightarrow> tq_env \<Rightarrow> nat \<Rightarrow> protocol_category \<Rightarrow> pool_protocols \<Rightarrow> (pool_protocols \<times> nat option) outcome" where
  "pp_GetWrite thrift env t c pp =
     (if category_served thrift c
      then obind (tq_Get (ProtocolWrite_class thrift) env t (category_no thrift c) (pool_protocol_write pp)) (\<lambda>(s, r).
        Inr (pp\<lparr>pool_protocol_write := s\<rparr>, r))
      else Inr (pp, None))"

definition pp_GetRead :: "bool \<Rightarrow> tq_env \<Rightarrow> nat \<Rightarrow> protocol_category \<Rightarrow> pool_protocols \<Rightarrow> (pool_protocols \<times> nat option) outcome" where
  "pp_GetRead thrift env t c pp =
     (if category_served thrift c
      then obind (tq_Get (ProtocolRead_class thrift) env t (category_no thrift c) (pool_protocol_read pp)) (\<lambda>(s, r).
        Inr (pp\<lparr>pool_protocol_read := s\<rparr>, r))
      else Inr (pp, None))"

definition pp_FreeWrite :: "bool \<Rightarrow> tq_env \<Rightarrow> nat \<Rightarrow> nat option \<Rightarrow> pool_protocols \<Rightarrow> pool_protocols outcome" where
  "pp_FreeWrite thrift env t protocol pp =
     (case protocol of
        None \<Rightarrow> Inl NullDeref
      | Some son \<Rightarrow> obind (tq_Free (ProtocolWrite_class thrift) env t son (pool_protocol_write pp)) (\<lambda>s.
          Inr (pp\<lparr>pool_protocol_write := s\<rparr>)))"

definition pp_FreeRead :: "bool \<Rightarrow> tq_env \<Rightarrow> nat \<Rightarrow> nat option \<Rightarrow> pool_protocols \<Rightarrow> pool_protocols outcome" where
  "pp_FreeRead thrift env t protocol pp =
     (case protocol of
        None \<Rightarrow> Inl NullDeref
      | Some son \<Rightarrow> obind (tq_Free (ProtocolRead_class thrift) env t son (pool_protocol_read pp)) (\<lambda>s.
          Inr (pp\<lparr>pool_protocol_read := s\<rparr>)))"

section \<open>Invariant\<close>

text \<open>The free objects of a thread under a number, and what is not free there.\<close>

definition tq_free :: "thread_pool \<Rightarrow> nat \<Rightarrow> nat \<Rightarrow> nat set" where
  "tq_free s t no = (case held (tq_pools s) t no of None \<Rightarrow> {} | Some pl \<Rightarrow> set (pool_stack (tp_obj (tq_pools s) pl)))"

definition tq_busy :: "thread_pool \<Rightarrow> nat set \<Rightarrow> nat \<Rightarrow> nat \<Rightarrow> nat set" where
  "tq_busy s out t no = out \<union> set (tq_deleted s) \<union> (\<Union>(u, m) \<in> - {(t, no)}. tq_free s u m)"

text \<open>Every pool is well-formed when all that is elsewhere counts as in use; the free objects are of the category of their pool
  or of the base class, and what was deleted was of the base class.\<close>

definition tq_wf :: "tq_class \<Rightarrow> nat set \<Rightarrow> thread_pool \<Rightarrow> bool" where
  "tq_wf cls out s \<longleftrightarrow> 0 < tc_sizeof cls \<and> tp_wf (tq_pools s) \<and> 1 \<le> tq_next s
     \<and> out \<inter> set (tq_deleted s) = {} \<and> out \<union> set (tq_deleted s) \<subseteq> {1..<tq_next s}
     \<and> (\<forall>x \<in> set (tq_deleted s). tq_category s x = tc_base cls)
     \<and> (\<forall>t no pl. held (tq_pools s) t no = Some pl \<longrightarrow>
          pool_wf (tq_busy s out t no) ((tp_obj (tq_pools s) pl)\<lparr>next_obj := tq_next s\<rparr>) \<and> pool_settings (tp_obj (tq_pools s) pl)
          \<and> (\<forall>x \<in> tq_free s t no. tq_category s x \<in> {no, tc_base cls}))"

lemma default_settings [simp]: "pool_settings (default_pool cls)" "pool_stack (default_pool cls) = []"
  by (simp_all add: pool_settings_def default_pool_def PoolObjs_new_def pool_stack_def)

lemma default_pool_wf:
  assumes "0 < tc_sizeof cls" "1 \<le> k" "X \<subseteq> {1..<k}"
  shows "pool_wf X ((default_pool cls)\<lparr>next_obj := k\<rparr>)"
proof -
  have "0 < (65536 + tc_sizeof cls - 1) div tc_sizeof cls" using assms(1) by (simp add: div_greater_zero_iff)
  then show ?thesis using assms by (simp add: pool_wf_def pool_shape_def pool_stack_def default_pool_def PoolObjs_new_def)
qed

section \<open>Operations keep the invariant\<close>

lemma tq_wfD:
  assumes "tq_wf cls out s" "held (tq_pools s) t no = Some pl"
  shows "pool_wf (tq_busy s out t no) ((tp_obj (tq_pools s) pl)\<lparr>next_obj := tq_next s\<rparr>)" "pool_settings (tp_obj (tq_pools s) pl)"
    "tq_free s t no = set (pool_stack (tp_obj (tq_pools s) pl))" "\<And>x. x \<in> tq_free s t no \<Longrightarrow> tq_category s x \<in> {no, tc_base cls}"
  using assms by (auto simp: tq_wf_def tq_free_def)

lemma tq_free_wf:
  assumes "tq_wf cls out s"
  shows "tq_free s t no \<inter> tq_busy s out t no = {}" "tq_free s t no \<subseteq> {1..<tq_next s}"
proof -
  have "tq_free s t no \<inter> tq_busy s out t no = {} \<and> tq_free s t no \<subseteq> {1..<tq_next s}"
  proof (cases "held (tq_pools s) t no")
    case (Some pl)
    show ?thesis using tq_wfD(1) [OF assms Some] unfolding tq_wfD(3) [OF assms Some] by (simp add: pool_wf_def)
  qed (simp add: tq_free_def)
  then show "tq_free s t no \<inter> tq_busy s out t no = {}" "tq_free s t no \<subseteq> {1..<tq_next s}" by auto
qed

lemma tq_busy_range: "tq_wf cls out s \<Longrightarrow> tq_busy s out t no \<subseteq> {1..<tq_next s}"
  using tq_free_wf(2) [of cls out s] unfolding tq_busy_def tq_wf_def by blast

lemma tq_free_disjoint:
  assumes "tq_wf cls out s" "(u, m) \<noteq> (t, no)"
  shows "tq_free s t no \<inter> tq_free s u m = {}"
  using tq_free_wf(1) [OF assms(1), of t no] assms(2) by (auto simp: tq_busy_def)

text \<open>The pool of a thread is found or made.\<close>

lemma pool_acquired:
  assumes wf: "tq_wf cls out s" and get: "tp_Get env t no (default_pool cls) (tq_pools s) = (q, Some (pl, fresh))"
  shows "tq_wf cls out (s\<lparr>tq_num_objs := k, tq_pools := q\<rparr>)" "held q t no = Some pl"
proof -
  let ?s = "s\<lparr>tq_num_objs := k, tq_pools := q\<rparr>"
  have tp: "tp_wf (tq_pools s)" using wf by (simp add: tq_wf_def)
  note h = tp_Get_held [OF tp get] and o = tp_Get_obj [OF get]
  have same: "held q u m = Some x \<Longrightarrow> (u, m) \<noteq> (t, no) \<or> \<not> fresh \<Longrightarrow> held (tq_pools s) u m = Some x \<and> tp_obj q x = tp_obj (tq_pools s) x" for u m x
    using h(2,6) h(5) [of u m] o by (cases "(u, m) = (t, no)") auto
  have fr: "tq_free ?s u m = tq_free s u m" for u m
  proof (cases "(u, m) = (t, no)")
    case True
    then show ?thesis using h(2,3,4,6) o by (cases fresh) (auto simp: tq_free_def)
  next
    case False
    then have "held q u m = held (tq_pools s) u m" "held (tq_pools s) u m \<noteq> Some pl" using h(5) [OF False] by auto
    then show ?thesis using o by (cases "held (tq_pools s) u m") (simp_all add: tq_free_def)
  qed
  then have busy: "tq_busy ?s out u m = tq_busy s out u m" for u m by (simp add: tq_busy_def)
  have "pool_wf (tq_busy s out u m) ((tp_obj q x)\<lparr>next_obj := tq_next s\<rparr>) \<and> pool_settings (tp_obj q x)
      \<and> (\<forall>y \<in> tq_free s u m. tq_category s y \<in> {m, tc_base cls})" if x: "held q u m = Some x" for u m x
  proof (cases "(u, m) \<noteq> (t, no) \<or> \<not> fresh")
    case True
    then show ?thesis using same [OF x True] tq_wfD(1,2,4) [OF wf, of u m x] by auto
  next
    case False
    then have "tp_obj q x = default_pool cls" "tq_free s u m = {}" using h(2,3) o x by (auto simp: tq_free_def)
    then show ?thesis using default_pool_wf [OF _ _ tq_busy_range [OF wf]] wf by (auto simp: tq_wf_def)
  qed
  then show "tq_wf cls out ?s" using wf h(1) fr busy unfolding tq_wf_def by simp
  show "held q t no = Some pl" by (rule h(2))
qed

text \<open>One pool is replaced: what it holds now, and what is in use now, was in it or in use before or is new.\<close>

lemma pool_replaced:
  assumes wf: "tq_wf cls out s" and pl: "held (tq_pools s) t no = Some pl" and p: "pool_wf X p" "pool_settings p" "tq_next s \<le> next_obj p"
    and X: "X = out' \<union> (tq_busy s {} t no)"
    and moved: "out' \<union> set (pool_stack p) \<subseteq> out \<union> tq_free s t no \<union> {tq_next s..<next_obj p}"
    and cat: "\<And>x. x \<in> set (pool_stack p) \<Longrightarrow> x < tq_next s \<Longrightarrow> tq_category s x \<in> {no, tc_base cls}"
  shows "tq_wf cls out' (s\<lparr>tq_pools := (tq_pools s)\<lparr>tp_obj := (tp_obj (tq_pools s))(pl := p)\<rparr>, tq_next := next_obj p,
      tq_category := (\<lambda>x. if tq_next s \<le> x \<and> x < next_obj p then tc_base cls else tq_category s x)\<rparr>)" (is "tq_wf cls out' ?s")
proof -
  have tp: "tp_wf (tq_pools s)" and d: "out \<inter> set (tq_deleted s) = {}" "out \<union> set (tq_deleted s) \<subseteq> {1..<tq_next s}" "1 \<le> tq_next s"
    using wf by (auto simp: tq_wf_def)
  have h: "held (tq_pools ?s) = held (tq_pools s)" by (simp add: held_def fun_eq_iff)
  have one: "held (tq_pools s) u m = Some pl \<Longrightarrow> (u, m) = (t, no)" for u m using tp pl by (auto simp: tp_wf_def)
  have fr: "tq_free ?s u m = (if (u, m) = (t, no) then set (pool_stack p) else tq_free s u m)" for u m
  proof (cases "(u, m) = (t, no)")
    case True
    then show ?thesis using pl h by (simp add: tq_free_def)
  next
    case False
    then have "held (tq_pools s) u m \<noteq> Some pl" using one by blast
    then show ?thesis using False h by (cases "held (tq_pools s) u m") (auto simp: tq_free_def)
  qed
  have range: "set (pool_stack p) \<union> X \<subseteq> {1..<next_obj p}" using p(1) by (auto simp: pool_wf_def)
  have disj: "set (pool_stack p) \<inter> X = {}" using p(1) by (simp add: pool_wf_def)
  have "pool_wf (tq_busy ?s out' u m) ((tp_obj (tq_pools ?s) x)\<lparr>next_obj := next_obj p\<rparr>) \<and> pool_settings (tp_obj (tq_pools ?s) x)
      \<and> (\<forall>y \<in> tq_free ?s u m. tq_category ?s y \<in> {m, tc_base cls})" if x: "held (tq_pools s) u m = Some x" for u m x
  proof (cases "(u, m) = (t, no)")
    case True
    then have "tq_busy ?s out' u m = X" using X fr by (auto simp: tq_busy_def)
    moreover have "tq_category ?s y \<in> {no, tc_base cls}" if "y \<in> set (pool_stack p)" for y
      using cat [OF that] range that by (cases "y < tq_next s") auto
    ultimately show ?thesis using True x pl p fr by auto
  next
    case False
    then have x': "tp_obj (tq_pools ?s) x = tp_obj (tq_pools s) x" using one x by auto
    note old = tq_wfD [OF wf x]
    have sub: "tq_free s u m \<subseteq> X" using X False by (auto simp: tq_busy_def)
    have rng: "y < tq_next s" if "y \<in> tq_free s u m" for y using tq_free_wf(2) [OF wf, of u m] that by auto
    have "tq_free s u m \<inter> tq_busy ?s out' u m = {}"
    proof (rule ccontr)
      assume "tq_free s u m \<inter> tq_busy ?s out' u m \<noteq> {}"
      then obtain y where y: "y \<in> tq_free s u m" "y \<in> tq_busy ?s out' u m" by blast
      then consider "y \<in> out' \<union> set (pool_stack p)" | "y \<in> tq_busy s out u m"
        using fr by (fastforce simp: tq_busy_def split: if_splits)
      then show False
      proof cases
        case 1
        then have "y \<in> out \<union> tq_free s t no" using moved rng [OF y(1)] by auto
        then show False using y(1) tq_free_disjoint [OF wf False] tq_free_wf(1) [OF wf, of u m] by (auto simp: tq_busy_def)
      next
        case 2
        then show False using old(1,3) y(1) by (auto simp: pool_wf_def)
      qed
    qed
    moreover have "tq_free ?s a b \<subseteq> {1..<next_obj p}" for a b
    proof (cases "(a, b) = (t, no)")
      case False
      then have "tq_free ?s a b = tq_free s a b" using fr by auto
      then show ?thesis using tq_free_wf(2) [OF wf, of a b] p(3) by auto
    qed (use fr range in auto)
    then have "tq_busy ?s out' u m \<subseteq> {1..<next_obj p}" using range X d p(3) unfolding tq_busy_def by fastforce
    ultimately have "pool_wf (tq_busy ?s out' u m) ((tp_obj (tq_pools s) x)\<lparr>next_obj := next_obj p\<rparr>)"
      using pool_wf_later [OF old(1), of "tq_busy ?s out' u m" "next_obj p"] p(3) old(3) by simp
    then show ?thesis using x' old(2,4) fr False rng by auto
  qed
  moreover have "tq_free s t no \<inter> set (tq_deleted s) = {}" using tq_free_wf(1) [OF wf, of t no] by (auto simp: tq_busy_def)
  then have "out' \<inter> set (tq_deleted s) = {}" using moved d by fastforce
  moreover have "out' \<subseteq> {1..<next_obj p}" "set (tq_deleted s) \<subseteq> {1..<next_obj p}" using range X d p(3) by auto
  ultimately show ?thesis using wf h d p(3) tp unfolding tq_wf_def by (auto simp: tp_wf_def)
qed

text \<open>The whole operations.\<close>

lemma tq_drop: "tq_wf cls (insert x out) s \<Longrightarrow> x \<notin> out \<Longrightarrow> tq_category s x = tc_base cls \<Longrightarrow> tq_wf cls out (s\<lparr>tq_deleted := tq_deleted s @ [x]\<rparr>)"
proof -
  let ?s = "s\<lparr>tq_deleted := tq_deleted s @ [x]\<rparr>"
  have "tq_free ?s = tq_free s" by (simp add: tq_free_def fun_eq_iff split: option.split)
  then have "tq_busy ?s out t no = tq_busy s (insert x out) t no" for t no by (auto simp: tq_busy_def)
  then show "tq_wf cls (insert x out) s \<Longrightarrow> x \<notin> out \<Longrightarrow> tq_category s x = tc_base cls \<Longrightarrow> tq_wf cls out ?s"
    using \<open>tq_free ?s = tq_free s\<close> by (auto simp: tq_wf_def)
qed

lemma tq_alloc:
  assumes wf: "tq_wf cls out s"
  shows "tq_wf cls (insert (tq_next s) out) (s\<lparr>tq_next := tq_next s + 1, tq_category := (tq_category s)(tq_next s := k)\<rparr>)" (is "tq_wf cls _ ?s")
proof -
  have fr: "tq_free ?s = tq_free s" by (simp add: tq_free_def fun_eq_iff split: option.split)
  then have busy: "tq_busy ?s (insert (tq_next s) out) t no = insert (tq_next s) (tq_busy s out t no)" for t no by (auto simp: tq_busy_def)
  have "pool_wf (insert (tq_next s) (tq_busy s out t no)) ((tp_obj (tq_pools s) pl)\<lparr>next_obj := tq_next s + 1\<rparr>)"
    if h: "held (tq_pools s) t no = Some pl" for t no pl
    using pool_wf_later [OF tq_wfD(1) [OF wf h], of "insert (tq_next s) (tq_busy s out t no)" "tq_next s + 1"]
      tq_busy_range [OF wf, of t no] tq_free_wf [OF wf, of t no] wf tq_wfD(3) [OF wf h] by (force simp: tq_wf_def)
  moreover have "tq_category ?s x \<in> {no, tc_base cls}" if "x \<in> tq_free s t no" "held (tq_pools s) t no = Some pl" for t no x pl
    using tq_wfD(4) [OF wf that(2,1)] tq_free_wf(2) [OF wf, of t no] that(1) by auto
  moreover have "tq_next s \<notin> out \<union> set (tq_deleted s)" "out \<union> set (tq_deleted s) \<subseteq> {1..<tq_next s + 1}" using wf by (auto simp: tq_wf_def)
  ultimately show ?thesis using wf fr busy unfolding tq_wf_def by auto
qed

lemma pool_on_get:
  assumes wf: "tq_wf cls out s" and pl: "held (tq_pools s) t no = Some pl"
  shows "\<exists>s' obj. pool_on cls pl (pool_Get True) s = (s', Some obj) \<and> tq_wf cls (insert obj out) s' \<and> obj \<notin> out \<and> obj \<notin> set (tq_deleted s')
    \<and> tq_deleted s' = tq_deleted s \<and> tq_num_objs s' = tq_num_objs s \<and> tq_category s' obj \<in> {no, tc_base cls}
    \<and> (\<forall>x < tq_next s. tq_category s' x = tq_category s x)"
proof -
  let ?p = "(tp_obj (tq_pools s) pl)\<lparr>next_obj := tq_next s\<rparr>"
  note old = tq_wfD [OF wf pl]
  obtain p obj where g: "pool_Get True ?p = (p, Some obj)" "pool_wf (insert obj (tq_busy s out t no)) p" "obj \<notin> tq_busy s out t no"
    "pool_settings p" "tq_next s \<le> next_obj p" "insert obj (set (pool_stack p)) \<subseteq> tq_free s t no \<union> {tq_next s..<next_obj p}"
    using settings_get [OF old(1)] old(2,3) by auto
  have X: "insert obj (tq_busy s out t no) = insert obj out \<union> tq_busy s {} t no" by (auto simp: tq_busy_def)
  have "tq_category s x \<in> {no, tc_base cls}" if "x \<in> set (pool_stack p)" "x < tq_next s" for x using that g(6) old(4) [of x] by auto
  then have "tq_wf cls (insert obj out) (fst (pool_on cls pl (pool_Get True) s))"
    using pool_replaced [OF wf pl g(2,4,5) X] g(6) by (simp add: pool_on_def g(1)) blast
  moreover have "tq_category s obj \<in> {no, tc_base cls} \<or> tq_next s \<le> obj \<and> obj < next_obj p" using g(6) old(4) by auto
  moreover have "obj \<notin> out" "obj \<notin> set (tq_deleted s)" using g(3) by (auto simp: tq_busy_def)
  ultimately show ?thesis using g(1) by (auto simp: pool_on_def)
qed

lemma tq_Get_ok:
  assumes wf: "tq_wf cls out s" and get: "tq_Get cls env t k s = Inr (s', r)"
  shows "tq_num_objs s' = tq_num_objs s + 1" "\<And>x. x \<in> out \<Longrightarrow> tq_category s' x = tq_category s x"
    "case r of None \<Rightarrow> tq_wf cls out s' | Some obj \<Rightarrow> tq_wf cls (insert obj out) s' \<and> obj \<notin> out \<and> tq_category s' obj = k"
proof -
  obtain q pl fresh where q: "tp_Get (tq_tp env) t k (default_pool cls) (tq_pools s) = (q, Some (pl, fresh))"
    using get by (auto simp: tq_Get_def split: prod.splits option.splits)
  let ?s = "s\<lparr>tq_num_objs := tq_num_objs s + 1, tq_pools := q\<rparr>"
  note a = pool_acquired(1) [OF wf q, of "tq_num_objs s + 1"] pool_acquired(2) [OF wf q]
  obtain s1 obj where g: "pool_on cls pl (pool_Get True) ?s = (s1, Some obj)" "tq_wf cls (insert obj out) s1" "obj \<notin> out"
    "tq_num_objs s1 = tq_num_objs s + 1" "tq_category s1 obj \<in> {k, tc_base cls}" "\<forall>x < tq_next s. tq_category s1 x = tq_category s x"
    using pool_on_get [OF a(1), of t k pl] a(2) by auto
  have out: "x < tq_next s" if "x \<in> out" for x using that wf by (auto simp: tq_wf_def)
  have new: "tq_next s1 \<notin> out" using g(2) by (auto simp: tq_wf_def)
  let ?d = "s1\<lparr>tq_deleted := tq_deleted s1 @ [obj]\<rparr>"
  let ?n = "?d\<lparr>tq_next := tq_next s1 + 1, tq_category := (tq_category s1)(tq_next s1 := k)\<rparr>"
  have d: "tq_wf cls out ?d" if "tq_category s1 obj \<noteq> k" using tq_drop [OF g(2,3)] g(5) that by simp
  then have n: "tq_wf cls (insert (tq_next s1) out) ?n" if "tq_category s1 obj \<noteq> k" using tq_alloc [OF d, of k] that by simp
  have "s' = s1 \<and> r = Some obj \<and> tq_category s1 obj = k \<or> tq_category s1 obj \<noteq> k \<and> s' = ?d \<and> r = None
      \<or> tq_category s1 obj \<noteq> k \<and> s' = ?n \<and> r = Some (tq_next s1)"
    using get q g(1) by (auto simp: tq_Get_def Let_def split: if_splits)
  then show "tq_num_objs s' = tq_num_objs s + 1" "\<And>x. x \<in> out \<Longrightarrow> tq_category s' x = tq_category s x"
    "case r of None \<Rightarrow> tq_wf cls out s' | Some obj \<Rightarrow> tq_wf cls (insert obj out) s' \<and> obj \<notin> out \<and> tq_category s' obj = k"
    using g d n out new by auto
qed

lemma tq_Free_ok:
  assumes wf: "tq_wf cls out s" and free: "tq_Free cls env t son s = Inr s'" and son: "son \<in> out"
  shows "tq_wf cls (out - {son}) s'" "tq_num_objs s' = tq_num_objs s - 1" "\<And>x. x \<in> out \<Longrightarrow> tq_category s' x = tq_category s x"
proof -
  let ?k = "tq_category s son"
  obtain q pl fresh where q: "tp_Get (tq_tp env) t ?k (default_pool cls) (tq_pools s) = (q, Some (pl, fresh))"
    using free by (auto simp: tq_Free_def split: prod.splits option.splits)
  let ?s = "s\<lparr>tq_num_objs := tq_num_objs s - 1, tq_pools := q\<rparr>"
  let ?p = "pool_Free True son ((tp_obj (tq_pools ?s) pl)\<lparr>next_obj := tq_next ?s\<rparr>)"
  note a = pool_acquired(1) [OF wf q, of "tq_num_objs s - 1"] pool_acquired(2) [OF wf q]
  have pl: "held (tq_pools ?s) t ?k = Some pl" using a(2) by simp
  note old = tq_wfD [OF a(1) pl]
  have busy: "son \<in> tq_busy ?s out t ?k" using son by (simp add: tq_busy_def)
  have p: "pool_wf (tq_busy ?s out t ?k - {son}) ?p" "pool_settings ?p" "next_obj ?p = tq_next ?s"
    "set (pool_stack ?p) \<subseteq> insert son (tq_free ?s t ?k)"
    using settings_free [OF old(1) _ busy] old(2,3) by auto
  have "son \<notin> tq_busy ?s {} t ?k"
  proof
    assume "son \<in> tq_busy ?s {} t ?k"
    then obtain u m where "son \<in> set (tq_deleted s) \<or> son \<in> tq_free ?s u m" by (auto simp: tq_busy_def)
    then show False using son a(1) tq_free_wf(1) [OF a(1), of u m] by (auto simp: tq_wf_def tq_busy_def)
  qed
  then have X: "tq_busy ?s out t ?k - {son} = (out - {son}) \<union> tq_busy ?s {} t ?k" by (auto simp: tq_busy_def)
  have "tq_category s x \<in> {?k, tc_base cls}" if "x \<in> set (pool_stack ?p)" for x using that p(4) old(4) [of x] by auto
  then have "tq_wf cls (out - {son}) (fst (pool_on cls pl (\<lambda>p. (pool_Free True son p, ())) ?s))"
    using pool_replaced [OF a(1) pl p(1,2) _ X] p(3,4) son by (simp add: pool_on_def) blast
  then show "tq_wf cls (out - {son}) s'" "tq_num_objs s' = tq_num_objs s - 1" "\<And>x. x \<in> out \<Longrightarrow> tq_category s' x = tq_category s x"
    using free q p(3) by (auto simp: tq_Free_def pool_on_def)
qed

text \<open>Seen through the interface of a pool, with a call that crashes as one that changes nothing.\<close>

definition tq_try_get :: "tq_class \<Rightarrow> tq_env \<Rightarrow> nat \<Rightarrow> nat \<Rightarrow> thread_pool \<Rightarrow> thread_pool \<times> nat option" where
  "tq_try_get cls env t k s = (case tq_Get cls env t k s of Inl _ \<Rightarrow> (s, None) | Inr x \<Rightarrow> x)"

definition tq_try_free :: "tq_class \<Rightarrow> tq_env \<Rightarrow> nat \<Rightarrow> nat \<Rightarrow> thread_pool \<Rightarrow> thread_pool" where
  "tq_try_free cls env t son s = (case tq_Free cls env t son s of Inl _ \<Rightarrow> s | Inr s' \<Rightarrow> s')"

lemma tq_wf_less:
  assumes "tq_wf cls out s" "out' \<subseteq> out"
  shows "tq_wf cls out' s"
proof -
  have "tq_busy s out' t no \<subseteq> tq_busy s out t no" for t no using assms(2) by (auto simp: tq_busy_def)
  then have "pool_wf (tq_busy s out' t no) p" if "pool_wf (tq_busy s out t no) p" for p t no
    using that unfolding pool_wf_def by blast
  then show ?thesis using assms unfolding tq_wf_def by blast
qed

interpretation tq: obj_pool "tq_wf cls" "tq_try_get cls env t k" "tq_try_free cls env t" for cls env t k
proof
  fix out s s' and son :: nat
  assume wf: "tq_wf cls out s"
  show "tq_try_get cls env t k s = (s', None) \<Longrightarrow> tq_wf cls out s'"
    using tq_Get_ok(3) [OF wf, of env t k] wf by (fastforce simp: tq_try_get_def split: sum.splits)
  show "tq_try_get cls env t k s = (s', Some son) \<Longrightarrow> son \<notin> out \<and> tq_wf cls (insert son out) s'"
    using tq_Get_ok(3) [OF wf, of env t k] by (fastforce simp: tq_try_get_def split: sum.splits)
  show "son \<in> out \<Longrightarrow> tq_wf cls (out - {son}) (tq_try_free cls env t son s)"
    using tq_Free_ok(1) [OF wf, of env t son] tq_wf_less [OF wf] by (auto simp: tq_try_free_def split: sum.splits)
qed

section \<open>Runs\<close>

text \<open>The states of the pools under calls of any threads, where only what is in use is given back, by any thread; with the objects
  in use and the number of calls that got the null pointer.\<close>

inductive tq_reach :: "tq_class \<Rightarrow> thread_pool \<Rightarrow> nat set \<Rightarrow> nat \<Rightarrow> bool" for cls where
  start: "tq_reach cls (ThreadPrivatePool_new cls) {} 0"
| get: "tq_reach cls s out n \<Longrightarrow> tq_Get cls env t k s = Inr (s', Some son) \<Longrightarrow> tq_reach cls s' (insert son out) n"
| get_null: "tq_reach cls s out n \<Longrightarrow> tq_Get cls env t k s = Inr (s', None) \<Longrightarrow> tq_reach cls s' out (n + 1)"
| free: "tq_reach cls s out n \<Longrightarrow> son \<in> out \<Longrightarrow> tq_Free cls env t son s = Inr s' \<Longrightarrow> tq_reach cls s' (out - {son}) n"

lemma tq_wf_new: "0 < tc_sizeof cls \<Longrightarrow> tq_wf cls {} (ThreadPrivatePool_new cls)"
  using tp_wf_new [of "default_pool cls"] by (simp add: tq_wf_def ThreadPrivatePool_new_def ThreadPrivacy_new_def held_def)

lemma tq_reach_wf:
  assumes "tq_reach cls s out n" "0 < tc_sizeof cls"
  shows "tq_wf cls out s \<and> finite out \<and> tq_num_objs s = of_nat (card out + n)"
  using assms
proof (induction rule: tq_reach.induct)
  case start
  then show ?case using tq_wf_new by (simp add: ThreadPrivatePool_new_def)
next
  case (get s out n env t k s' son)
  then show ?case using tq_Get_ok(1,3) [of cls out s env t k s' "Some son"] by simp
next
  case (get_null s out n env t k s')
  then show ?case using tq_Get_ok(1,3) [of cls out s env t k s' None] by simp
next
  case (free s out n son env t s')
  then have "card out = Suc (card (out - {son}))" by (metis card.remove)
  then show ?case using free tq_Free_ok(1,2) [of cls out s env t son s'] by simp
qed

text \<open>Calls in which every allocation succeeds and the lock is had.\<close>

definition tq_ready :: "tq_env \<Rightarrow> bool" where
  "tq_ready env \<longleftrightarrow> te_key (tq_tp env) \<and> te_new_vector (tq_tp env) \<and> te_setspecific (tq_tp env) \<and> te_new_object (tq_tp env)
     \<and> True \<in> set (take kMaxTimesTryLock (te_lock (tq_tp env))) \<and> tq_new env"

lemma tp_Get_ready: "tq_ready env \<Longrightarrow> \<exists>s' pl fresh. tp_Get (tq_tp env) t no tpl s = (s', Some (pl, fresh))"
  by (auto simp: tq_ready_def tp_Get_def tp_Get1_def Let_def split: option.splits)

lemma tq_Get_ready:
  assumes wf: "tq_wf cls out s" and env: "tq_ready env"
  shows "\<exists>s' son. tq_Get cls env t k s = Inr (s', Some son)"
proof -
  obtain q pl fresh where q: "tp_Get (tq_tp env) t k (default_pool cls) (tq_pools s) = (q, Some (pl, fresh))"
    using tp_Get_ready [OF env, of t k "default_pool cls" "tq_pools s"] by blast
  have "held (tq_pools (s\<lparr>tq_num_objs := tq_num_objs s + 1, tq_pools := q\<rparr>)) t k = Some pl" using pool_acquired(2) [OF wf q] by simp
  from pool_on_get [OF pool_acquired(1) [OF wf q] this] show ?thesis using q env by (auto simp: tq_Get_def tq_ready_def Let_def)
qed

text \<open>A request, after any run.\<close>

lemma tq_Get_typed:
  assumes run: "tq_reach cls s out n" and env: "tq_ready env" and sz: "0 < tc_sizeof cls"
  shows "\<exists>s' w. tq_Get cls env t k s = Inr (s', Some w) \<and> w \<notin> out \<and> tq_category s' w = k
     \<and> (\<forall>x \<in> out. tq_category s' x = tq_category s x)
     \<and> w \<notin> set (tq_deleted s') \<and> (\<forall>x \<in> set (tq_deleted s'). tq_category s' x = tc_base cls)
     \<and> tq_num_objs s' = of_nat (card (insert w out) + n)"
proof -
  have wf: "tq_wf cls out s" using tq_reach_wf [OF run sz] by simp
  obtain s' w where g: "tq_Get cls env t k s = Inr (s', Some w)" using tq_Get_ready [OF wf env] by blast
  note ok = tq_Get_ok [OF wf g]
  have "tq_num_objs s' = of_nat (card (insert w out) + n)" using tq_reach_wf [OF tq_reach.get [OF run g] sz] by simp
  moreover have "w \<notin> set (tq_deleted s')" "\<forall>x \<in> set (tq_deleted s'). tq_category s' x = tc_base cls"
    using ok(3) by (auto simp: tq_wf_def)
  ultimately show ?thesis using g ok by simp
qed

text \<open>A writer given back is what the same thread gets at its next request for that protocol, unless its pool has no block left.\<close>

lemma Free_Get_reuses:
  assumes wf: "tq_wf cls out s" and free: "tq_Free cls env t son s = Inr s'" and son: "son \<in> out" and env: "tq_ready env'"
    and room: "\<And>pl. held (tq_pools s) t (tq_category s son) = Some pl \<Longrightarrow> num_blocks_alloc (tp_obj (tq_pools s) pl) < 2 ^ 18"
  shows "\<exists>s''. tq_Get cls env' t (tq_category s son) s' = Inr (s'', Some son) \<and> tq_deleted s'' = tq_deleted s"
proof -
  let ?k = "tq_category s son"
  obtain q pl fresh where q: "tp_Get (tq_tp env) t ?k (default_pool cls) (tq_pools s) = (q, Some (pl, fresh))"
    using free by (auto simp: tq_Free_def split: prod.splits option.splits)
  let ?s = "s\<lparr>tq_num_objs := tq_num_objs s - 1, tq_pools := q\<rparr>"
  let ?p = "(tp_obj q pl)\<lparr>next_obj := tq_next s, pool_inited := True\<rparr>"
  let ?f = "pool_Free True son ((tp_obj q pl)\<lparr>next_obj := tq_next s\<rparr>)"
  note a = pool_acquired(1) [OF wf q, of "tq_num_objs s - 1"] pool_acquired(2) [OF wf q]
  have tp: "tp_wf (tq_pools s)" using wf by (simp add: tq_wf_def)
  have pl: "held (tq_pools ?s) t ?k = Some pl" using a(2) by simp
  note old = tq_wfD(1,2) [OF a(1) pl, simplified]
  have raii: "pool_raii ((tp_obj q pl)\<lparr>next_obj := tq_next s\<rparr>) = (?p, True)" using settings_raii old(2) by (metis settings_upd)
  then have f: "?f = pool_Free True son ?p" by (simp add: pool_Free_def pool_raii_def)
  have pwf: "pool_wf (tq_busy ?s out t ?k) ?p" using old(1) by (simp add: pool_wf_def)
  have blocks: "num_blocks_alloc ?p < max_num_blocks ?p"
    using room tp_Get_held(6) [OF tp q] tp_Get_obj [OF q] old(2)
    by (cases fresh) (auto simp: pool_settings_def default_pool_def PoolObjs_new_def)
  have st: "pool_stack ?f = pool_stack ?p @ [son]"
    using pool_lifo [of "tq_busy ?s out t ?k" ?p] pwf blocks old(2) son f
    by (simp add: pool_settings_def tq_busy_def)
  have s': "tq_pools s' = q\<lparr>tp_obj := (tp_obj q)(pl := ?f)\<rparr>" "tq_next s' = next_obj ?f" "tq_deleted s' = tq_deleted s"
    using free q by (auto simp: tq_Free_def pool_on_def)
  note wf' = tq_Free_ok [OF wf free son]
  have h': "held (tq_pools s') t ?k = Some pl" using s'(1) a(2) by (simp add: held_def)
  have "tp_wf (tq_pools s')" using wf'(1) by (simp add: tq_wf_def)
  moreover obtain q' pl' fresh' where q': "tp_Get (tq_tp env') t ?k (default_pool cls) (tq_pools s') = (q', Some (pl', fresh'))"
    using tp_Get_ready [OF env, of t ?k "default_pool cls" "tq_pools s'"] by blast
  ultimately have pl': "pl' = pl" "tp_obj q' pl = ?f" using tp_Get_held(3,6) [OF _ q'] tp_Get_obj [OF q'] h' s'(1) by auto
  have fwf: "pool_wf (tq_busy s' (out - {son}) t ?k) (?f\<lparr>next_obj := tq_next s'\<rparr>)"
    using tq_wfD(1) [OF wf'(1) h'] s'(1) by simp
  have "pool_inited ?f" using raii by (auto simp: pool_Free_def pool_store_def Let_def)
  then obtain p2 where p2: "pool_Get True (?f\<lparr>next_obj := tq_next s'\<rparr>) = (p2, Some son)" "next_obj p2 = tq_next s'"
    using get_pop [OF fwf] st by auto
  then show ?thesis using q' pl' s'(3) wf'(3) [OF son] by (simp add: tq_Get_def pool_on_def)
qed

section \<open>Properties\<close>

text \<open>C11. Whatever threads have asked for writers and given writers back, in any order and also when a writer is given back by another thread
  than the one that got it, a request for a protocol the program serves is answered with a writer of that protocol: one that nobody uses and that was not
  deleted. The writers in use keep their protocols, only objects of the base class have been deleted, and the counter is the number of writers in
  use, besides the requests that found no memory.\<close>

theorem pp_GetWrite_typed:
  assumes "tq_reach (ProtocolWrite_class thrift) (pool_protocol_write pp) out n" "tq_ready env" "category_served thrift c"
  shows "\<exists>pp' w. pp_GetWrite thrift env t c pp = Inr (pp', Some w) \<and> w \<notin> out
     \<and> tq_category (pool_protocol_write pp') w = category_no thrift c
     \<and> (\<forall>x \<in> out. tq_category (pool_protocol_write pp') x = tq_category (pool_protocol_write pp) x)
     \<and> w \<notin> set (tq_deleted (pool_protocol_write pp'))
     \<and> (\<forall>x \<in> set (tq_deleted (pool_protocol_write pp')). tq_category (pool_protocol_write pp') x = category_no thrift PcInvalid)
     \<and> tq_num_objs (pool_protocol_write pp') = of_nat (card (insert w out) + n)"
  using tq_Get_typed [OF assms(1,2), of t "category_no thrift c"] assms(3)
  by (auto simp: pp_GetWrite_def ProtocolWrite_class_def)

text \<open>The same for readers.\<close>

lemma pp_GetRead_typed:
  assumes "tq_reach (ProtocolRead_class thrift) (pool_protocol_read pp) out n" "tq_ready env" "category_served thrift c"
  shows "\<exists>pp' r. pp_GetRead thrift env t c pp = Inr (pp', Some r) \<and> r \<notin> out
     \<and> tq_category (pool_protocol_read pp') r = category_no thrift c
     \<and> (\<forall>x \<in> out. tq_category (pool_protocol_read pp') x = tq_category (pool_protocol_read pp) x)
     \<and> r \<notin> set (tq_deleted (pool_protocol_read pp'))
     \<and> (\<forall>x \<in> set (tq_deleted (pool_protocol_read pp')). tq_category (pool_protocol_read pp') x = category_no thrift PcInvalid)
     \<and> tq_num_objs (pool_protocol_read pp') = of_nat (card (insert r out) + n)"
  using tq_Get_typed [OF assms(1,2), of t "category_no thrift c"] assms(3)
  by (auto simp: pp_GetRead_def ProtocolRead_class_def)

definition tq_demo_env :: tq_env where
  "tq_demo_env = \<lparr>tq_tp = tp_demo_env, tq_new = True\<rparr>"

definition tq_demo :: pool_protocols where
  "tq_demo = \<lparr>pool_protocol_write = ThreadPrivatePool_new (ProtocolWrite_class True),
     pool_protocol_read = ThreadPrivatePool_new (ProtocolRead_class True)\<rparr>"

theorem pp_GetWrite_typed_witness:
  "\<exists>pp' w. pp_GetWrite True tq_demo_env 1 PcRedis tq_demo = Inr (pp', Some w)
     \<and> tq_category (pool_protocol_write pp') w = 2 \<and> tq_num_objs (pool_protocol_write pp') = 1"
proof -
  have "tq_reach (ProtocolWrite_class True) (pool_protocol_write tq_demo) {} 0" by (simp add: tq_demo_def tq_reach.start)
  moreover have "tq_ready tq_demo_env" using tp_demo_lock by (simp add: tq_ready_def tq_demo_env_def tp_demo_env_def)
  moreover have "category_served True PcRedis" by (simp add: category_served_def)
  ultimately show ?thesis using pp_GetWrite_typed [of True tq_demo "{}" 0 tq_demo_env PcRedis 1] by (auto simp: category_no_def)
qed

end
