(* ===== verification/Ip_Addr.thy ===== *)
theory Ip_Addr
  imports Redis_Parser
begin

text \<open>
  \<^verbatim>\<open>IOHelper::IpToInt\<close> of \<^verbatim>\<open>deps/public-cpp/include/public-cpp/io_helper.h\<close>, which reads an address in dotted notation, and \<^verbatim>\<open>SetNonBlock\<close>. It is shown that
  every address that is written out is read back, and what a result says about a text.
\<close>

section \<open>Reading an address\<close>

text \<open>\<^verbatim>\<open>strchr\<close>: the text from the first occurrence of the character on, if there is one.\<close>

definition strchr :: "string \<Rightarrow> char \<Rightarrow> string option" where
  "strchr s c = (case dropWhile (\<lambda>x. x \<noteq> c) s of [] \<Rightarrow> None | r \<Rightarrow> Some r)"

text \<open>The loop of \<^verbatim>\<open>IpToInt\<close> at its round \<open>i\<close>; \<^verbatim>\<open>ipint\<close> keeps what was added before a text is refused.\<close>

function ip_loop :: "nat \<Rightarrow> string \<Rightarrow> u32 \<Rightarrow> u32 \<times> bool" where
  "ip_loop i cur ipint =
     (if i < 4 then
        (let segvalue = atoi cur
         in if segvalue > 255 \<or> segvalue < 0 then (ipint, False)
            else let ipint = ipint + of_int segvalue * push_bit ((3 - i) * 8) 1
                 in case strchr cur (CHR ''.'') of
                      None \<Rightarrow> (ipint, i = 3)
                    | Some r \<Rightarrow> ip_loop (i + 1) (tl r) ipint)
      else (ipint, True))"
  by pat_completeness auto
termination by (relation "measure (\<lambda>(i, _). 4 - i)") auto

declare ip_loop.simps [simp del]

definition IpToInt :: "string \<Rightarrow> u32 \<times> bool" where
  "IpToInt ipstr = ip_loop 0 ipstr 0"

text \<open>\<^verbatim>\<open>SetNonBlock\<close>, on what \<^verbatim>\<open>fcntl\<close> returns for \<^verbatim>\<open>F_GETFL\<close> and for \<^verbatim>\<open>F_SETFL\<close> with the given flags.\<close>

definition O_NONBLOCK :: u32 where "O_NONBLOCK = 0x800"

definition SetNonBlock :: "u32 \<Rightarrow> (u32 \<Rightarrow> u32) \<Rightarrow> bool" where
  "SetNonBlock getfl setfl = (getfl \<noteq> -1 \<and> setfl (or getfl O_NONBLOCK) \<noteq> -1)"

section \<open>Addresses written out are read back\<close>

definition dotted :: "nat \<Rightarrow> nat \<Rightarrow> nat \<Rightarrow> nat \<Rightarrow> string" where
  "dotted a b c d = dec a @ CHR ''.'' # dec b @ CHR ''.'' # dec c @ CHR ''.'' # dec d"

lemma not_digit_dot: "\<not> is_digit (CHR ''.'')" by (simp add: is_digit_def)

lemma atoi_dec:
  assumes "n < 256" "rest = [] \<or> \<not> is_digit (hd rest)"
  shows "atoi (dec n @ rest) = int n"
proof -
  obtain c cs where d: "dec n = c # cs" by (cases "dec n") auto
  then have c: "is_digit c" using dec_digits [of n] by auto
  have tw: "takeWhile is_digit (dec n @ rest) = dec n"
    using assms(2) dec_digits [of n] by (cases rest) (auto simp: takeWhile_append)
  have "to_int32 (int n) = int n" using assms(1) by (simp add: to_int32_small)
  moreover have "digits_val (dec n @ rest) = int n"
    using digits_val_dec [of n] tw dec_digits [of n] by (simp add: digits_val_def takeWhile_eq_all_conv [THEN iffD2])
  ultimately show ?thesis using digit_not [OF c] d by (simp add: atoi_def)
qed

lemma strchr_dec: "strchr (dec n @ CHR ''.'' # r) (CHR ''.'') = Some (CHR ''.'' # r)" "strchr (dec n) (CHR ''.'') = None"
proof -
  have "\<forall>c \<in> set (dec n). c \<noteq> CHR ''.''" using dec_digits [of n] not_digit_dot by auto
  then show "strchr (dec n @ CHR ''.'' # r) (CHR ''.'') = Some (CHR ''.'' # r)" "strchr (dec n) (CHR ''.'') = None"
    by (simp_all add: strchr_def dropWhile_append2 dropWhile_eq_Nil_conv [THEN iffD2])
qed

lemma ip_seg:
  assumes "n < 256" "i < 4"
  shows "ip_loop i (dec n @ CHR ''.'' # r) acc = ip_loop (i + 1) r (acc + of_nat (n * 2 ^ ((3 - i) * 8)))"
  using atoi_dec [OF assms(1), of "CHR ''.'' # r"] strchr_dec(1) assms
  by (subst ip_loop.simps) (simp add: not_digit_dot Let_def push_bit_eq_mult)

lemma ip_last: "n < 256 \<Longrightarrow> ip_loop 3 (dec n) acc = (acc + of_nat n, True)"
  using atoi_dec [of n "[]"] strchr_dec(2) by (subst ip_loop.simps) (simp add: Let_def)

text \<open>Every address in dotted notation is read as its number, the first part in the highest byte.\<close>

theorem IpToInt_dotted:
  assumes "a < 256" "b < 256" "c < 256" "d < 256"
  shows "IpToInt (dotted a b c d) = (of_nat (a * 2 ^ 24 + b * 2 ^ 16 + c * 2 ^ 8 + d), True)"
  using assms by (simp add: IpToInt_def dotted_def ip_seg ip_last add.assoc flip: numeral_3_eq_3)

theorem IpToInt_dotted_witness: "IpToInt ''10.0.255.7'' = (0x0A00FF07, True)"
proof -
  have "dotted 10 0 255 7 = ''10.0.255.7''" by code_simp
  with IpToInt_dotted [of 10 0 255 7] show ?thesis by simp
qed

text \<open>Texts that are not addresses are accepted, too: what follows the digits of a part is passed over, and so is what follows the fourth part.\<close>

lemma IpToInt_lenient: "IpToInt ''1x.2y..4.5.6'' = (0x01020004, True)"
  by code_simp

end
