(* ===== verification/Threads.thy ===== *)
theory Threads
  imports Mag_Prelude "HOL-Library.Multiset"
begin

text \<open>
  The life of the program's threads: \<^verbatim>\<open>Start\<close>, \<^verbatim>\<open>Run_\<close> and \<^verbatim>\<open>Stop\<close> of the agent master, the agent slaves and the schedulers, of \<^verbatim>\<open>Agents\<close> and \<^verbatim>\<open>Schedulers\<close>, and of
  \<^verbatim>\<open>MagnetoBase\<close> (\<^verbatim>\<open>src/agents/details/\<close>, \<^verbatim>\<open>src/schedulers/details/\<close>, \<^verbatim>\<open>src/details/magneto_base.cpp\<close>). What the threads do is modelled elsewhere; here a round is an argument. What
  \<^verbatim>\<open>pthread_create\<close> answers, and the identifier it leaves, are arguments, too; \<^verbatim>\<open>pthread_join\<close> needs a running thread. It is shown that a program that was started
  and is stopped has joined every thread once, and that the loop of a thread returns when it is told to end.
\<close>

section \<open>One thread\<close>

text \<open>\<^verbatim>\<open>tid_\<close>, 0 when there is no thread, and \<^verbatim>\<open>end_\<close>.\<close>

record runner =
  rn_tid :: nat
  rn_end :: bool

record pthreads =
  pt_running :: "nat list"
  pt_joined :: "nat list"

definition runner_new :: runner where
  "runner_new = \<lparr>rn_tid = 0, rn_end = False\<rparr>"

text \<open>\<^verbatim>\<open>AgentSlave::Start\<close>; the master and the schedulers do the same.\<close>

definition slave_Start :: "bool \<times> nat \<Rightarrow> runner \<Rightarrow> pthreads \<Rightarrow> runner \<times> pthreads \<times> bool" where
  "slave_Start answer r ts =
     (case answer of (ok, tid) \<Rightarrow>
        (r\<lparr>rn_tid := tid\<rparr>, if ok then ts\<lparr>pt_running := pt_running ts @ [tid]\<rparr> else ts, ok))"

definition master_Start :: "bool \<times> nat \<Rightarrow> runner \<Rightarrow> pthreads \<Rightarrow> runner \<times> pthreads \<times> bool" where
  "master_Start = slave_Start"

definition Scheduler_Start :: "bool \<times> nat \<Rightarrow> runner \<Rightarrow> pthreads \<Rightarrow> runner \<times> pthreads \<times> bool" where
  "Scheduler_Start = slave_Start"

text \<open>\<^verbatim>\<open>Stop\<close>: the flag, and the join; the first lines of \<^verbatim>\<open>Stop\<close> of the slaves and the master are the same. Joining what is no thread is undefined; the thread that is joined
  returns, as \<^verbatim>\<open>thread_Run_returns\<close> shows of its loop.\<close>

definition Scheduler_Stop :: "runner \<Rightarrow> pthreads \<Rightarrow> (runner \<times> pthreads) outcome" where
  "Scheduler_Stop r ts =
     (let r = r\<lparr>rn_end := True\<rparr>
      in if rn_tid r \<noteq> 0
         then if rn_tid r \<in> set (pt_running ts)
              then Inr (r\<lparr>rn_tid := 0\<rparr>, ts\<lparr>pt_running := removeAll (rn_tid r) (pt_running ts), pt_joined := pt_joined ts @ [rn_tid r]\<rparr>)
              else Inl Dangling
         else Inr (r, ts))"

text \<open>The loop of \<^verbatim>\<open>Run_\<close>: \<open>ends i\<close> is what the test of \<^verbatim>\<open>end_\<close> finds in round \<open>i\<close>, and a round is \<^verbatim>\<open>Process_\<close>.\<close>

partial_function (option) thread_Run :: "(nat \<Rightarrow> bool) \<Rightarrow> ('s \<Rightarrow> 's) \<Rightarrow> nat \<Rightarrow> 's \<Rightarrow> 's option" where
  "thread_Run ends process i s = (if ends i then Some (process s) else thread_Run ends process (i + 1) (process s))"

definition master_Run :: "(nat \<Rightarrow> bool) \<Rightarrow> ('s \<Rightarrow> 's) \<Rightarrow> nat \<Rightarrow> 's \<Rightarrow> 's option" where
  "master_Run = thread_Run"

text \<open>\<^verbatim>\<open>Scheduler::Run_\<close>: the scheduler of a routine first sends itself one message for each of its cases, and returns when one of them cannot be sent.\<close>

fun send_cases :: "nat \<Rightarrow> ('s \<Rightarrow> 's \<times> bool) \<Rightarrow> 's \<Rightarrow> 's \<times> bool" where
  "send_cases 0 send s = (s, True)"
| "send_cases (Suc n) send s = (case send s of (s, ok) \<Rightarrow> if \<not> ok then (s, False) else send_cases n send s)"

definition Scheduler_Run :: "bool \<Rightarrow> nat \<Rightarrow> ('s \<Rightarrow> 's \<times> bool) \<Rightarrow> (nat \<Rightarrow> bool) \<Rightarrow> ('s \<Rightarrow> 's) \<Rightarrow> 's \<Rightarrow> 's option" where
  "Scheduler_Run is_req num_case send ends process s =
     (case (if is_req then (s, True) else send_cases num_case send s) of (s, ok) \<Rightarrow>
      if \<not> ok then Some s else thread_Run ends process 0 s)"

section \<open>All threads\<close>

record program =
  pg_slaves :: "runner list"
  pg_master :: "runner option"
  pg_req :: "runner list"
  pg_routine :: "runner list"
  pg_threads :: pthreads

text \<open>The loops over slaves and schedulers; the answers are numbered by the calls of \<^verbatim>\<open>pthread_create\<close>.\<close>

fun start_each :: "(nat \<Rightarrow> bool \<times> nat) \<Rightarrow> nat \<Rightarrow> runner list \<Rightarrow> pthreads \<Rightarrow> runner list \<times> pthreads \<times> bool" where
  "start_each ans k [] ts = ([], ts, True)"
| "start_each ans k (r # rs) ts =
     (case slave_Start (ans k) r ts of (r, ts, ok) \<Rightarrow>
      if \<not> ok then (r # rs, ts, False)
      else case start_each ans (k + 1) rs ts of (rs, ts, ok) \<Rightarrow> (r # rs, ts, ok))"

fun stop_each :: "runner list \<Rightarrow> pthreads \<Rightarrow> (runner list \<times> pthreads) outcome" where
  "stop_each [] ts = Inr ([], ts)"
| "stop_each (r # rs) ts =
     obind (Scheduler_Stop r ts) (\<lambda>(r, ts). obind (stop_each rs ts) (\<lambda>(rs, ts). Inr (r # rs, ts)))"

definition Agents_Start :: "(nat \<Rightarrow> bool \<times> nat) \<Rightarrow> program \<Rightarrow> (program \<times> bool) outcome" where
  "Agents_Start ans g =
     (case start_each ans 0 (pg_slaves g) (pg_threads g) of (rs, ts, ok) \<Rightarrow>
      let g = g\<lparr>pg_slaves := rs, pg_threads := ts\<rparr> in
      if \<not> ok then Inr (g, False)
      else case pg_master g of
        None \<Rightarrow> Inl NullDeref
      | Some m \<Rightarrow> (case master_Start (ans (length (pg_slaves g))) m (pg_threads g) of (m, ts, ok) \<Rightarrow>
          Inr (g\<lparr>pg_master := Some m, pg_threads := ts\<rparr>, ok)))"

definition Schedulers_Start :: "(nat \<Rightarrow> bool \<times> nat) \<Rightarrow> nat \<Rightarrow> program \<Rightarrow> program \<times> bool" where
  "Schedulers_Start ans k g =
     (case start_each ans k (pg_req g) (pg_threads g) of (rs, ts, ok) \<Rightarrow>
      let g = g\<lparr>pg_req := rs, pg_threads := ts\<rparr> in
      if \<not> ok then (g, False)
      else case start_each ans (k + length (pg_req g)) (pg_routine g) (pg_threads g) of (rs, ts, ok) \<Rightarrow>
        (g\<lparr>pg_routine := rs, pg_threads := ts\<rparr>, ok))"

definition mb_Start :: "(nat \<Rightarrow> bool \<times> nat) \<Rightarrow> program \<Rightarrow> (program \<times> bool) outcome" where
  "mb_Start ans g =
     obind (Agents_Start ans g) (\<lambda>(g, ok).
       if \<not> ok then Inr (g, False) else Inr (Schedulers_Start ans (length (pg_slaves g) + 1) g))"

definition Agents_Stop_threads :: "program \<Rightarrow> program outcome" where
  "Agents_Stop_threads g =
     (case pg_master g of
        None \<Rightarrow> Inl NullDeref
      | Some m \<Rightarrow> obind (Scheduler_Stop m (pg_threads g)) (\<lambda>(m, ts).
          obind (stop_each (pg_slaves g) ts) (\<lambda>(rs, ts).
            Inr (g\<lparr>pg_master := Some m, pg_slaves := rs, pg_threads := ts\<rparr>))))"

definition Schedulers_Stop :: "program \<Rightarrow> program outcome" where
  "Schedulers_Stop g =
     obind (stop_each (pg_req g) (pg_threads g)) (\<lambda>(rs, ts).
       obind (stop_each (pg_routine g) ts) (\<lambda>(rs', ts). Inr (g\<lparr>pg_req := rs, pg_routine := rs', pg_threads := ts\<rparr>)))"

text \<open>\<^verbatim>\<open>MagnetoBase::Stop\<close> waits for the caller's flag, looking at it every second.\<close>

partial_function (option) wait_end :: "(nat \<Rightarrow> bool) \<Rightarrow> nat \<Rightarrow> nat option" where
  "wait_end flag i = (if flag i then Some i else wait_end flag (i + 1))"

definition mb_Stop :: "(nat \<Rightarrow> bool) \<Rightarrow> program \<Rightarrow> program outcome option" where
  "mb_Stop flag g = map_option (\<lambda>_. obind (Agents_Stop_threads g) Schedulers_Stop) (wait_end flag 0)"

section \<open>Loops return\<close>

lemma thread_Run_rounds:
  assumes "ends n" "i \<le> n" "\<And>j. i \<le> j \<Longrightarrow> j < n \<Longrightarrow> \<not> ends j"
  shows "thread_Run ends process i s = Some ((process ^^ (n - i + 1)) s)"
  using assms(2,3)
proof (induction "n - i" arbitrary: i s)
  case 0
  then show ?case using assms(1) by (subst thread_Run.simps) simp
next
  case (Suc k)
  then have "\<not> ends i" "thread_Run ends process (i + 1) (process s) = Some ((process ^^ (n - (i + 1) + 1)) (process s))" by auto
  moreover have "n - i + 1 = Suc (n - (i + 1) + 1)" using Suc by simp
  ultimately show ?case by (subst thread_Run.simps) (simp add: funpow_swap1)
qed

lemma wait_end_returns: "flag n \<Longrightarrow> i \<le> n \<Longrightarrow> \<exists>k. wait_end flag i = Some k \<and> flag k"
proof (induction "n - i" arbitrary: i)
  case (Suc k)
  then show ?case by (cases "flag i") (subst wait_end.simps, simp)+
qed (subst wait_end.simps, simp)

section \<open>Start and stop\<close>

definition tids :: "runner list \<Rightarrow> nat list" where
  "tids rs = filter (\<lambda>t. t \<noteq> 0) (map rn_tid rs)"

lemma tids_simps [simp]: "tids [] = []" "tids (r # rs) = (if rn_tid r = 0 then tids rs else rn_tid r # tids rs)" "tids (rs @ rs') = tids rs @ tids rs'"
  by (simp_all add: tids_def)

definition all_runners :: "program \<Rightarrow> runner list" where
  "all_runners g = (case pg_master g of None \<Rightarrow> [] | Some m \<Rightarrow> [m]) @ pg_slaves g @ pg_req g @ pg_routine g"

definition stopped :: "runner list \<Rightarrow> runner list" where
  "stopped rs = replicate (length rs) \<lparr>rn_tid = 0, rn_end = True\<rparr>"

lemma stop_each_ok:
  assumes "distinct (tids rs)" "set (tids rs) \<subseteq> set (pt_running ts)"
  shows "stop_each rs ts = Inr (stopped rs, ts\<lparr>pt_running := filter (\<lambda>t. t \<notin> set (tids rs)) (pt_running ts), pt_joined := pt_joined ts @ tids rs\<rparr>)"
  using assms
proof (induction rs arbitrary: ts)
  case (Cons r rs)
  show ?case
  proof (cases "rn_tid r = 0")
    case True
    then show ?thesis using Cons by (simp add: Scheduler_Stop_def stopped_def Let_def)
  next
    case False
    let ?ts = "ts\<lparr>pt_running := removeAll (rn_tid r) (pt_running ts), pt_joined := pt_joined ts @ [rn_tid r]\<rparr>"
    have "distinct (tids rs)" "set (tids rs) \<subseteq> set (pt_running ?ts)" using Cons.prems False by auto
    note IH = Cons.IH [OF this]
    have "filter (\<lambda>t. t \<notin> set (tids rs)) (removeAll a xs) = filter (\<lambda>t. t \<noteq> a \<and> t \<notin> set (tids rs)) xs" for a xs
      by (induction xs) auto
    then show ?thesis using IH False Cons.prems(2) by (simp add: Scheduler_Stop_def stopped_def Let_def)
  qed
qed (simp add: stopped_def)

lemma start_each_ok:
  assumes "\<And>i. i < length rs \<Longrightarrow> fst (ans (k + i))"
  shows "\<exists>rs'. start_each ans k rs ts = (rs', ts\<lparr>pt_running := pt_running ts @ map (snd \<circ> ans) [k..<k + length rs]\<rparr>, True)
    \<and> map rn_tid rs' = map (snd \<circ> ans) [k..<k + length rs] \<and> length rs' = length rs"
  using assms
proof (induction rs arbitrary: k ts)
  case (Cons r rs)
  let ?ts = "ts\<lparr>pt_running := pt_running ts @ [snd (ans k)]\<rparr>"
  have "fst (ans (k + 1 + i))" if "i < length rs" for i using Cons.prems [of "i + 1"] that by simp
  from Cons.IH [OF this, of ?ts] obtain rs' where
    "start_each ans (k + 1) rs ?ts = (rs', ?ts\<lparr>pt_running := pt_running ?ts @ map (snd \<circ> ans) [k + 1..<k + 1 + length rs]\<rparr>, True)"
    "map rn_tid rs' = map (snd \<circ> ans) [k + 1..<k + 1 + length rs]" "length rs' = length rs" by blast
  moreover have "[k..<k + length (r # rs)] = k # [k + 1..<k + 1 + length rs]" by (simp add: upt_rec)
  moreover have "slave_Start (ans k) r ts = (r\<lparr>rn_tid := snd (ans k)\<rparr>, ?ts, True)" 
    using Cons.prems [of 0] by (cases "ans k") (simp add: slave_Start_def)
  ultimately show ?case by (simp del: upt_Suc)
qed simp

lemma tids_stopped: "tids (stopped rs) = []" "stopped (stopped rs) = stopped rs" "stopped (rs @ rs') = stopped rs @ stopped rs'"
  by (simp_all add: tids_def stopped_def replicate_add)

lemma filter_filter_not: "filter (\<lambda>t. t \<notin> A) (filter (\<lambda>t. t \<notin> B) xs) = filter (\<lambda>t. t \<notin> B \<union> A) xs"
  by (induction xs) auto

text \<open>Stopping a program whose threads are running.\<close>

lemma mb_Stop_ok:
  assumes m: "pg_master g = Some m" and d: "distinct (tids (all_runners g))" "set (tids (all_runners g)) \<subseteq> set (pt_running (pg_threads g))" and f: "flag n"
  shows "\<exists>m'. [m'] = stopped [m] \<and> mb_Stop flag g = Some (Inr (g\<lparr>pg_master := Some m', pg_slaves := stopped (pg_slaves g), pg_req := stopped (pg_req g), pg_routine := stopped (pg_routine g),
    pg_threads := (pg_threads g)\<lparr>pt_running := filter (\<lambda>t. t \<notin> set (tids (all_runners g))) (pt_running (pg_threads g)), pt_joined := pt_joined (pg_threads g) @ tids (all_runners g)\<rparr>\<rparr>))"
proof -
  let ?ts = "pg_threads g"
  have r: "all_runners g = [m] @ pg_slaves g @ pg_req g @ pg_routine g" using m by (simp add: all_runners_def)
  define tk where "tk rs ts = ts\<lparr>pt_running := filter (\<lambda>t. t \<notin> set (tids rs)) (pt_running ts), pt_joined := pt_joined ts @ tids rs\<rparr>" for rs and ts :: pthreads
  have tk2: "tk rs' (tk rs ts) = tk (rs @ rs') ts" for rs rs' ts by (simp add: tk_def filter_filter_not)
  have st: "stop_each rs (tk rs0 ?ts) = Inr (stopped rs, tk (rs0 @ rs) ?ts)" if "all_runners g = rs0 @ rs @ rs1" for rs0 rs rs1
  proof -
    have "distinct (tids rs)" "set (tids rs) \<subseteq> set (pt_running (tk rs0 ?ts))" using d that by (auto simp: tk_def)
    from stop_each_ok [OF this] show ?thesis unfolding tk2 [symmetric] by (simp add: tk_def)
  qed
  have tk0: "tk [] ?ts = ?ts" by (simp add: tk_def)
  have 1: "stop_each [m] ?ts = Inr (stopped [m], tk [m] ?ts)" using st [of "[]" "[m]"] r tk0 by simp
  then obtain m' where m': "Scheduler_Stop m ?ts = Inr (m', tk [m] ?ts)" "[m'] = stopped [m]" by (auto simp: obind_Inr_iff)
  have 2: "stop_each (pg_slaves g) (tk [m] ?ts) = Inr (stopped (pg_slaves g), tk ([m] @ pg_slaves g) ?ts)" using st [of "[m]"] r by simp
  have 3: "stop_each (pg_req g) (tk ([m] @ pg_slaves g) ?ts) = Inr (stopped (pg_req g), tk (([m] @ pg_slaves g) @ pg_req g) ?ts)"
    using st [of "[m] @ pg_slaves g"] r by simp
  have 4: "stop_each (pg_routine g) (tk (([m] @ pg_slaves g) @ pg_req g) ?ts) = Inr (stopped (pg_routine g), tk (all_runners g) ?ts)"
    using st [of "([m] @ pg_slaves g) @ pg_req g" "pg_routine g" "[]"] r by simp
  obtain k where "wait_end flag 0 = Some k" using wait_end_returns [of flag n 0] f by blast
  then have "mb_Stop flag g = Some (Inr (g\<lparr>pg_master := Some m', pg_slaves := stopped (pg_slaves g), pg_req := stopped (pg_req g), pg_routine := stopped (pg_routine g), pg_threads := tk (all_runners g) ?ts\<rparr>))"
    using m m'(1) 2 3 4 by (simp add: mb_Stop_def Agents_Stop_threads_def Schedulers_Stop_def)
  with m'(2) show ?thesis by (auto simp: tk_def)
qed

text \<open>Starting it when every thread can be made.\<close>

definition num_runners :: "program \<Rightarrow> nat" where
  "num_runners g = length (pg_slaves g) + 1 + length (pg_req g) + length (pg_routine g)"

lemma mb_Start_ok:
  assumes m: "pg_master g = Some m" and ans: "\<And>i. i < num_runners g \<Longrightarrow> fst (ans i) \<and> snd (ans i) \<noteq> 0"
    and run: "pt_running (pg_threads g) = []"
  shows "\<exists>g1 m1. mb_Start ans g = Inr (g1, True) \<and> pg_master g1 = Some m1 \<and> pt_joined (pg_threads g1) = pt_joined (pg_threads g)
    \<and> pt_running (pg_threads g1) = map (snd \<circ> ans) [0..<num_runners g] \<and> mset (tids (all_runners g1)) = mset (map (snd \<circ> ans) [0..<num_runners g])"
proof -
  let ?a = "snd \<circ> ans" and ?n = "length (pg_slaves g)" and ?q = "length (pg_req g)" and ?r = "length (pg_routine g)"
  have ok: "fst (ans (k + i))" if "i < length rs" "k + length rs \<le> num_runners g" for k i and rs :: "runner list" using ans [of "k + i"] that by simp
  obtain ss where ss: "start_each ans 0 (pg_slaves g) (pg_threads g) = (ss, (pg_threads g)\<lparr>pt_running := map ?a [0..<?n]\<rparr>, True)"
    "map rn_tid ss = map ?a [0..<?n]" "length ss = ?n"
    using start_each_ok [of "pg_slaves g" ans 0 "pg_threads g"] ok [of _ "pg_slaves g" 0] run by (auto simp: num_runners_def)
  let ?t1 = "(pg_threads g)\<lparr>pt_running := map ?a [0..<?n + 1]\<rparr>" and ?m = "m\<lparr>rn_tid := snd (ans ?n)\<rparr>"
  have ms: "master_Start (ans ?n) m ((pg_threads g)\<lparr>pt_running := map ?a [0..<?n]\<rparr>) = (?m, ?t1, True)"
    using ans [of ?n] by (cases "ans ?n") (simp add: master_Start_def slave_Start_def num_runners_def)
  let ?t2 = "(pg_threads g)\<lparr>pt_running := map ?a [0..<?n + 1 + ?q]\<rparr>"
  have j: "map ?a [0..<a] @ map ?a [a..<a + b] = map ?a [0..<a + b]" for a b
    by (metis map_append upt_add_eq_append le0)
  obtain qs where qs: "start_each ans (?n + 1) (pg_req g) ?t1 = (qs, ?t2, True)" "map rn_tid qs = map ?a [?n + 1..<?n + 1 + ?q]" "length qs = ?q"
    using start_each_ok [of "pg_req g" ans "?n + 1" ?t1] ok [of _ "pg_req g" "?n + 1"] j [of "?n + 1" ?q] by (auto simp: num_runners_def)
  let ?t3 = "(pg_threads g)\<lparr>pt_running := map ?a [0..<?n + 1 + ?q + ?r]\<rparr>"
  obtain rs where rs: "start_each ans (?n + 1 + ?q) (pg_routine g) ?t2 = (rs, ?t3, True)" "map rn_tid rs = map ?a [?n + 1 + ?q..<?n + 1 + ?q + ?r]"
    using start_each_ok [of "pg_routine g" ans "?n + 1 + ?q" ?t2] ok [of _ "pg_routine g" "?n + 1 + ?q"] j [of "?n + 1 + ?q" ?r] by (auto simp: num_runners_def)
  let ?g = "g\<lparr>pg_slaves := ss, pg_master := Some ?m, pg_req := qs, pg_routine := rs, pg_threads := ?t3\<rparr>"
  have "mb_Start ans g = Inr (?g, True)"
    using ss(1,3) ms qs(1,3) rs(1) m by (simp add: mb_Start_def Agents_Start_def Schedulers_Start_def Let_def)
  moreover have "tids xs = map rn_tid xs" if "map rn_tid xs = map ?a [a..<b]" "b \<le> num_runners g" for xs a b
    using that ans by (auto simp: tids_def filter_id_conv)
  then have t: "tids ss = map ?a [0..<?n]" "tids qs = map ?a [?n + 1..<?n + 1 + ?q]" "tids rs = map ?a [?n + 1 + ?q..<?n + 1 + ?q + ?r]"
    using ss(2) qs(2) rs(2) by (simp_all add: num_runners_def del: upt_Suc)
  have "map ?a [0..<?n + 1] = map ?a [0..<?n] @ [?a ?n]" by simp
  then have e: "map ?a [0..<num_runners g] = (map ?a [0..<?n] @ [?a ?n]) @ tids qs @ tids rs"
    using j [of "?n + 1" ?q] j [of "?n + 1 + ?q" ?r] unfolding num_runners_def t by (metis append.assoc)
  have "tids (all_runners ?g) = ?a ?n # tids ss @ tids qs @ tids rs" using ans [of ?n] by (simp add: all_runners_def num_runners_def)
  then have "mset (tids (all_runners ?g)) = mset (map ?a [0..<num_runners g])" unfolding e t(1) by simp
  ultimately show ?thesis by (auto simp: num_runners_def)
qed

section \<open>Properties\<close>

text \<open>C13. A program with its master made, all of whose threads can be made, starts: one thread for each slave, the master and each scheduler. Stopping it when the caller's flag is set
  joins every one of these threads, each once, and leaves none; every object is told to end, and a second stop, by a destructor, changes nothing.\<close>

theorem start_stop_joins_all:
  assumes "pg_master g = Some m" "\<And>i. i < num_runners g \<Longrightarrow> fst (ans i) \<and> snd (ans i) \<noteq> 0" "inj_on (snd \<circ> ans) {0..<num_runners g}"
    "pt_running (pg_threads g) = []" "pt_joined (pg_threads g) = []" "flag n"
  shows "\<exists>g1 g2. mb_Start ans g = Inr (g1, True) \<and> pt_running (pg_threads g1) = map (snd \<circ> ans) [0..<num_runners g]
     \<and> mb_Stop flag g1 = Some (Inr g2) \<and> pt_running (pg_threads g2) = [] \<and> mset (pt_joined (pg_threads g2)) = mset (pt_running (pg_threads g1))
     \<and> (\<forall>r \<in> set (all_runners g2). rn_tid r = 0 \<and> rn_end r) \<and> mb_Stop flag g2 = Some (Inr g2)"
proof -
  obtain g1 m1 where g1: "mb_Start ans g = Inr (g1, True)" "pg_master g1 = Some m1" "pt_joined (pg_threads g1) = []"
    "pt_running (pg_threads g1) = map (snd \<circ> ans) [0..<num_runners g]" "mset (tids (all_runners g1)) = mset (map (snd \<circ> ans) [0..<num_runners g])"
    using mb_Start_ok [where ans = ans, OF assms(1,2,4)] assms(5) by auto
  have "distinct (map (snd \<circ> ans) [0..<num_runners g])" using assms(3) by (simp add: distinct_map)
  then have d: "distinct (tids (all_runners g1))" using g1(5) mset_eq_imp_distinct_iff by blast
  have st: "set (tids (all_runners g1)) = set (pt_running (pg_threads g1))" using g1(4,5) by (metis mset_eq_setD)
  obtain m2 g2 where g2: "[m2] = stopped [m1]" "g2 = g1\<lparr>pg_master := Some m2, pg_slaves := stopped (pg_slaves g1), pg_req := stopped (pg_req g1), pg_routine := stopped (pg_routine g1),
      pg_threads := (pg_threads g1)\<lparr>pt_running := filter (\<lambda>t. t \<notin> set (tids (all_runners g1))) (pt_running (pg_threads g1)), pt_joined := tids (all_runners g1)\<rparr>\<rparr>"
    "mb_Stop flag g1 = Some (Inr g2)"
    using mb_Stop_ok [of g1 m1 flag n] g1(2,3) d st assms(6) by auto
  have "m2 = \<lparr>rn_tid = 0, rn_end = True\<rparr>" using g2(1) by (simp add: stopped_def)
  then have all: "all_runners g2 = stopped (all_runners g1)" using g1(2) by (simp add: g2(2) all_runners_def stopped_def replicate_add)
  obtain m3 where m3: "[m3] = stopped [m2]" "mb_Stop flag g2 = Some (Inr (g2\<lparr>pg_master := Some m3, pg_slaves := stopped (pg_slaves g2), pg_req := stopped (pg_req g2), pg_routine := stopped (pg_routine g2),
      pg_threads := (pg_threads g2)\<lparr>pt_running := filter (\<lambda>t. t \<notin> set (tids (all_runners g2))) (pt_running (pg_threads g2)), pt_joined := pt_joined (pg_threads g2) @ tids (all_runners g2)\<rparr>\<rparr>))"
    using mb_Stop_ok [of g2 m2 flag n] g2(2) all assms(6) by (auto simp: tids_stopped)
  have "m3 = m2" using m3(1) g2(1) by (simp add: stopped_def)
  then have "mb_Stop flag g2 = Some (Inr g2)" using m3(2) g2(2) all by (simp add: tids_stopped)
  moreover have "pt_running (pg_threads g2) = []" using g2(2) st by (simp add: filter_empty_conv)
  moreover have "\<forall>r \<in> set (all_runners g2). rn_tid r = 0 \<and> rn_end r" using all by (auto simp: stopped_def)
  ultimately show ?thesis using g1 g2(2,3) by auto
qed

definition demo_program :: program where
  "demo_program = \<lparr>pg_slaves = [runner_new, runner_new], pg_master = Some runner_new, pg_req = [runner_new], pg_routine = [], pg_threads = \<lparr>pt_running = [], pt_joined = []\<rparr>\<rparr>"

theorem start_stop_joins_all_witness:
  "\<exists>g1 g2. mb_Start (\<lambda>i. (True, i + 10)) demo_program = Inr (g1, True) \<and> pt_running (pg_threads g1) = [10, 11, 12, 13]
     \<and> mb_Stop (\<lambda>i. i = 3) g1 = Some (Inr g2) \<and> mset (pt_joined (pg_threads g2)) = {#10, 11, 12, 13#}"
proof -
  have "num_runners demo_program = 4" by (simp add: demo_program_def num_runners_def)
  moreover have "map (snd \<circ> (\<lambda>i::nat. (True, i + 10))) [0..<4] = [10, 11, 12, 13]" by code_simp
  moreover have "inj_on (snd \<circ> (\<lambda>i::nat. (True, i + 10))) A" for A by (simp add: inj_on_def)
  ultimately show ?thesis
    using start_stop_joins_all [of demo_program runner_new "\<lambda>i. (True, i + 10)" "\<lambda>i. i = 3" 3] by (auto simp: demo_program_def)
qed

text \<open>The loop of a thread returns: it makes the rounds in which its flag is not yet set, and then exactly one more.\<close>

theorem thread_Run_returns:
  assumes "ends n" "\<And>j. j < n \<Longrightarrow> \<not> ends j"
  shows "thread_Run ends process 0 s = Some ((process ^^ (n + 1)) s)"
  using thread_Run_rounds [of ends n 0 process s] assms by simp

theorem thread_Run_returns_witness: "thread_Run (\<lambda>i. 2 \<le> i) (\<lambda>s. s + 5) 0 (1 :: nat) = Some 16"
  using thread_Run_returns [of "\<lambda>i. 2 \<le> i" 2 "\<lambda>s. s + 5" "1 :: nat"] by (simp add: numeral_eq_Suc)

text \<open>When a thread cannot be made, \<^verbatim>\<open>pthread_create\<close> leaves the identifier unspecified, and \<^verbatim>\<open>Stop\<close> joins whatever is there.\<close>

lemma failed_start_joins_nothing:
  assumes "slave_Start (False, tid) r ts = (r', ts', ok)" "tid \<noteq> 0" "tid \<notin> set (pt_running ts)"
  shows "\<not> ok \<and> Scheduler_Stop r' ts' = Inl Dangling"
  using assms by (auto simp: slave_Start_def Scheduler_Stop_def)

end
