(* ===== verification/Facade.thy ===== *)
theory Facade
  imports Magneto_Base Thread_Privacy Threads
begin

text \<open>
  From a call of the library's user to the procedure it belongs to: \<^verbatim>\<open>Magneto\<close> (\<^verbatim>\<open>src/magneto.h\<close>, \<^verbatim>\<open>src/details/magneto.cpp\<close>), the current procedure of a thread
  (\<^verbatim>\<open>BizProcedure::SetCurrentBizProcedure\<close>, \<^verbatim>\<open>GetCurrentBizProcedure\<close> in \<^verbatim>\<open>src/biz_procedure.h\<close>) and \<^verbatim>\<open>IOBasic\<close> (\<^verbatim>\<open>src/io_basic/io_basic.h\<close>), which works with an object per
  thread, all of them over \<^verbatim>\<open>ThreadPrivacy\<close>. It is shown that a call works on the procedure its own thread was given last, whatever other threads do.
\<close>

section \<open>The current procedure\<close>

text \<open>The content of a slot is a pointer to a procedure, \<^term>\<open>None\<close> for the null pointer; a slot just made holds \<open>junk\<close>, since \<^verbatim>\<open>new BizProcedure*\<close> sets nothing.\<close>

type_synonym biz_slots = "nat option thread_privacy"

definition SetCurrentBizProcedure :: "tp_env \<Rightarrow> nat option \<Rightarrow> nat \<Rightarrow> nat \<Rightarrow> biz_slots \<Rightarrow> biz_slots \<times> bool" where
  "SetCurrentBizProcedure env junk t b s =
     (case tp_Get env t 0 junk s of
        (s, None) \<Rightarrow> (s, False)
      | (s, Some (cell, _)) \<Rightarrow> (s\<lparr>tp_obj := (tp_obj s)(cell := Some b)\<rparr>, True))"

definition GetCurrentBizProcedure :: "tp_env \<Rightarrow> nat option \<Rightarrow> nat \<Rightarrow> biz_slots \<Rightarrow> biz_slots \<times> nat option" where
  "GetCurrentBizProcedure env junk t s =
     (case tp_Get env t 0 junk s of
        (s, None) \<Rightarrow> (s, None)
      | (s, Some (cell, _)) \<Rightarrow> (s, tp_obj s cell))"

section \<open>IOBasic\<close>

text \<open>Every call of \<^verbatim>\<open>IOBasic\<close> takes the thread's own \<^verbatim>\<open>IOBasicTPD\<close>, a copy of \<^verbatim>\<open>tmp_io_basic_\<close>, and calls its method through the pointer.\<close>

type_synonym io_slots = "unit thread_privacy"

definition through_io :: "tp_env \<Rightarrow> nat \<Rightarrow> ('s \<Rightarrow> 'x outcome) \<Rightarrow> io_slots \<times> 's \<Rightarrow> (io_slots \<times> 'x) outcome" where
  "through_io env t call s =
     (case tp_Get env t 0 () (fst s) of
        (_, None) \<Rightarrow> Inl NullDeref
      | (q, Some _) \<Rightarrow> obind (call (snd s)) (\<lambda>x. Inr (q, x)))"

definition IOBasic_Writes where
  "IOBasic_Writes tenv t env svcs bufs timeo errors = through_io tenv t (io_Writes env svcs bufs timeo errors)"

definition IOBasic_Reads where
  "IOBasic_Reads tenv t env svcs timeo responses = through_io tenv t (io_Reads env svcs timeo responses)"

definition IOBasic_Talks where
  "IOBasic_Talks tenv t env svcs bufs timeo responses = through_io tenv t (io_Talks env svcs bufs timeo responses)"

definition IOBasic_Write where
  "IOBasic_Write tenv t env svc buf timeo = through_io tenv t (io_Write env svc buf timeo)"

definition IOBasic_Read where
  "IOBasic_Read tenv t env svc timeo = through_io tenv t (io_Read env svc timeo)"

definition IOBasic_SimpleTalk where
  "IOBasic_SimpleTalk tenv t env svc buf timeo = through_io tenv t (io_SimpleTalk env svc buf timeo)"

definition IOBasic_WriteBack where
  "IOBasic_WriteBack tenv t env buf timeo = through_io tenv t (io_WriteBack env buf timeo)"

definition IOBasic_FreeTalks :: "tp_env \<Rightarrow> nat \<Rightarrow> io_slots \<times> ('w, 'r) biz \<Rightarrow> (io_slots \<times> ('w, 'r) biz) outcome" where
  "IOBasic_FreeTalks tenv t = through_io tenv t (\<lambda>b. Inr (FreeTalks b))"

section \<open>Magneto\<close>

text \<open>What a call sees: whether \<^verbatim>\<open>Init\<close> has made the \<^verbatim>\<open>MagnetoBase\<close>, the slots of current procedures and of \<^verbatim>\<open>IOBasicTPD\<close>s, the procedures and the slaves.\<close>

record ('w, 'r) magneto =
  mg_base :: bool
  mg_current :: biz_slots
  mg_io :: io_slots
  mg_biz :: "nat \<Rightarrow> ('w, 'r) biz"
  mg_slaves :: "('w, 'r) slave list"

text \<open>The environments of the two calls of \<^verbatim>\<open>ThreadPrivacy::Get\<close>, and what a new slot holds.\<close>

record mg_env =
  me_current :: tp_env
  me_io :: tp_env
  me_junk :: "nat option"

text \<open>A call of \<^verbatim>\<open>MagnetoBase\<close> by a thread, after the services have been found: the current procedure, \<^verbatim>\<open>IOBasic\<close>, and the effects on procedure and slaves.\<close>

definition in_thread ::
  "mg_env \<Rightarrow> nat \<Rightarrow> (('w, 'r) mb_state \<Rightarrow> (('w, 'r) mb_state \<times> 'x) outcome) \<Rightarrow> ('w, 'r) magneto \<Rightarrow> (('w, 'r) magneto \<times> 'x) outcome" where
  "in_thread me t call g =
     (case GetCurrentBizProcedure (me_current me) (me_junk me) t (mg_current g) of
        (s, cur) \<Rightarrow>
          obind (through_io (me_io me) t call (mg_io g, (mg_slaves g, map_option (mg_biz g) cur))) (\<lambda>(q, (slaves, b), x).
            Inr (g\<lparr>mg_current := s, mg_io := q, mg_slaves := slaves,
                   mg_biz := (case (cur, b) of (Some i, Some b) \<Rightarrow> (mg_biz g)(i := b) | _ \<Rightarrow> mg_biz g)\<rparr>, x)))"

text \<open>The methods of \<^verbatim>\<open>Magneto\<close>. Before \<^verbatim>\<open>Init\<close> the pointer is null. \<^verbatim>\<open>Start\<close> and \<^verbatim>\<open>Stop\<close> act on the threads.\<close>

definition magneto_GetServiceNames :: "conf_services \<Rightarrow> string \<Rightarrow> ('w, 'r) magneto \<Rightarrow> string list option outcome" where
  "magneto_GetServiceNames cs name g = (if mg_base g then Inr (mb_GetServiceNames cs name) else Inl NullDeref)"

definition magneto_Writes where
  "magneto_Writes me t env cs name bufs timeo errors g =
     (if \<not> mg_base g then Inl NullDeref
      else if GetServicesSet cs name = None then Inr (g, errors, kNotFound)
      else in_thread me t (\<lambda>s. obind (mb_Writes env cs name bufs timeo errors s) (\<lambda>((s, es), ret). Inr (s, es, ret))) g)"

definition magneto_Reads where
  "magneto_Reads me t env cs name timeo rs g =
     (if \<not> mg_base g then Inl NullDeref
      else if GetServicesSet cs name = None then Inr (g, rs, kNotFound)
      else in_thread me t (\<lambda>s. obind (mb_Reads env cs name timeo rs s) (\<lambda>((s, rs), ret). Inr (s, rs, ret))) g)"

definition magneto_Talks where
  "magneto_Talks me t env cs name bufs timeo rs g =
     (if \<not> mg_base g then Inl NullDeref
      else if GetServicesSet cs name = None then Inr (g, rs, kNotFound)
      else in_thread me t (\<lambda>s. obind (mb_Talks env cs name bufs timeo rs s) (\<lambda>((s, rs), ret). Inr (s, rs, ret))) g)"

definition magneto_Write where
  "magneto_Write me t env cs name buf timeo g =
     (if \<not> mg_base g then Inl NullDeref
      else if GetService cs name = None then Inr (g, kNotFound)
      else in_thread me t (mb_Write env cs name buf timeo) g)"

definition magneto_Read where
  "magneto_Read me t env cs name timeo g =
     (if \<not> mg_base g then Inl NullDeref
      else if GetService cs name = None then Inr (g, None, kNotFound)
      else in_thread me t (\<lambda>s. obind (mb_Read env cs name timeo s) (\<lambda>((s, r), ret). Inr (s, r, ret))) g)"

definition magneto_SimpleTalk where
  "magneto_SimpleTalk me t env cs name buf timeo g =
     (if \<not> mg_base g then Inl NullDeref
      else if GetService cs name = None then Inr (g, None, kNotFound)
      else in_thread me t (\<lambda>s. obind (mb_SimpleTalk env cs name buf timeo s) (\<lambda>((s, r), ret). Inr (s, r, ret))) g)"

definition magneto_WriteBack where
  "magneto_WriteBack me t env buf timeo g =
     (if \<not> mg_base g then Inl NullDeref else in_thread me t (mb_WriteBack env buf timeo) g)"

definition magneto_FreeTalks :: "mg_env \<Rightarrow> nat \<Rightarrow> ('w, 'r) magneto \<Rightarrow> ('w, 'r) magneto outcome" where
  "magneto_FreeTalks me t g =
     (if \<not> mg_base g then Inl NullDeref
      else obind (in_thread me t (\<lambda>s. obind (mb_FreeTalks s) (\<lambda>s. Inr (s, ()))) g) (\<lambda>(g, _). Inr g))"

definition magneto_Start :: "('w, 'r) magneto \<Rightarrow> (nat \<Rightarrow> bool \<times> nat) \<Rightarrow> program \<Rightarrow> (program \<times> bool) outcome" where
  "magneto_Start g ans pg = (if mg_base g then mb_Start ans pg else Inl NullDeref)"

definition magneto_Stop :: "('w, 'r) magneto \<Rightarrow> (nat \<Rightarrow> bool) \<Rightarrow> program \<Rightarrow> program outcome option" where
  "magneto_Stop g flag pg = (if mg_base g then mb_Stop flag pg else Some (Inl NullDeref))"

section \<open>Whose procedure\<close>

definition current_is :: "biz_slots \<Rightarrow> nat \<Rightarrow> nat \<Rightarrow> bool" where
  "current_is s t b \<longleftrightarrow> tp_wf s \<and> (\<exists>cell. held s t 0 = Some cell \<and> tp_obj s cell = Some b)"

text \<open>Threads set and ask for their current procedures in any order.\<close>

datatype cur_op = CurSet tp_env "nat option" nat nat | CurGet tp_env "nat option" nat

fun cur_step :: "cur_op \<Rightarrow> biz_slots \<Rightarrow> biz_slots" where
  "cur_step (CurSet env junk t b) s = fst (SetCurrentBizProcedure env junk t b s)"
| "cur_step (CurGet env junk t) s = fst (GetCurrentBizProcedure env junk t s)"

definition cur_run :: "cur_op list \<Rightarrow> biz_slots \<Rightarrow> biz_slots" where
  "cur_run ops s = fold cur_step ops s"

fun sets_of :: "cur_op \<Rightarrow> nat option" where
  "sets_of (CurSet env junk t b) = Some t"
| "sets_of (CurGet env junk t) = None"

lemma tp_wf_obj: "tp_wf (s\<lparr>tp_obj := f\<rparr>) = tp_wf s" "held (s\<lparr>tp_obj := f\<rparr>) = held s"
proof -
  show "held (s\<lparr>tp_obj := f\<rparr>) = held s" by (simp add: held_def fun_eq_iff)
  then show "tp_wf (s\<lparr>tp_obj := f\<rparr>) = tp_wf s" by (simp add: tp_wf_def)
qed

lemma Set_current:
  assumes wf: "tp_wf s" and set: "SetCurrentBizProcedure env junk t b s = (s', ok)"
  shows "tp_wf s'" "ok \<Longrightarrow> current_is s' t b" "u \<noteq> t \<Longrightarrow> current_is s u c \<Longrightarrow> current_is s' u c"
proof -
  obtain s1 r where g: "tp_Get env t 0 junk s = (s1, r)" by fastforce
  note fr = tp_Get_frame [OF wf g]
  have "tp_wf s' \<and> (ok \<longrightarrow> current_is s' t b) \<and> (u \<noteq> t \<longrightarrow> current_is s u c \<longrightarrow> current_is s' u c)"
  proof (cases r)
    case None
    then show ?thesis using set g fr by (auto simp: SetCurrentBizProcedure_def current_is_def)
  next
    case (Some x)
    obtain cell fresh where x: "x = (cell, fresh)" by fastforce
    note h = tp_Get_held(2) [OF wf g [unfolded Some x]]
    have s': "s' = s1\<lparr>tp_obj := (tp_obj s1)(cell := Some b)\<rparr>" "ok" using set g Some x by (auto simp: SetCurrentBizProcedure_def)
    have "current_is s' u c" if c: "u \<noteq> t" "current_is s u c"
    proof -
      obtain w where w: "held s u 0 = Some w" "tp_obj s w = Some c" using c(2) by (auto simp: current_is_def)
      then have "held s1 u 0 = Some w" "tp_obj s1 w = Some c" using fr by auto
      moreover have "w \<noteq> cell" using calculation(1) h fr c(1) by (auto simp: tp_wf_def)
      ultimately show ?thesis using s' fr by (auto simp: current_is_def tp_wf_obj)
    qed
    then show ?thesis using s' fr h by (auto simp: current_is_def tp_wf_obj)
  qed
  then show "tp_wf s'" "ok \<Longrightarrow> current_is s' t b" "u \<noteq> t \<Longrightarrow> current_is s u c \<Longrightarrow> current_is s' u c" by auto
qed

lemma Get_current:
  assumes wf: "tp_wf s" and get: "GetCurrentBizProcedure env junk t s = (s', r)"
  shows "tp_wf s'" "current_is s u c \<Longrightarrow> current_is s' u c" "current_is s t c \<Longrightarrow> r = Some c"
proof -
  obtain s1 x where g: "tp_Get env t 0 junk s = (s1, x)" by fastforce
  note fr = tp_Get_frame [OF wf g]
  have s': "s' = s1" using get g by (auto simp: GetCurrentBizProcedure_def split: option.splits)
  show "tp_wf s'" "current_is s u c \<Longrightarrow> current_is s' u c" using fr s' by (auto simp: current_is_def)
  assume "current_is s t c"
  then obtain cell where cell: "held s t 0 = Some cell" "tp_obj s cell = Some c" by (auto simp: current_is_def)
  then have "tp_init s" "tp_specific s t \<noteq> None" using wf by (auto simp: tp_wf_def held_def)
  then have "x = Some (cell, False)" using g cell(1) by (auto simp: tp_Get_def tp_Get1_def held_def split: option.splits if_splits)
  then show "r = Some c" using get g fr cell by (auto simp: GetCurrentBizProcedure_def)
qed

lemma cur_step_keeps:
  assumes "tp_wf s"
  shows "tp_wf (cur_step op s)" "sets_of op \<noteq> Some t \<Longrightarrow> current_is s t b \<Longrightarrow> current_is (cur_step op s) t b"
  using Set_current [OF assms] Get_current [OF assms] by (cases op; fastforce simp: prod_eq_iff intro: prod.collapse)+

lemma cur_run_wf: "tp_wf s \<Longrightarrow> tp_wf (cur_run ops s)"
  unfolding cur_run_def by (induction ops arbitrary: s) (simp_all add: cur_step_keeps(1))

lemma cur_run_keeps: "tp_wf s \<Longrightarrow> \<forall>op \<in> set ops. sets_of op \<noteq> Some t \<Longrightarrow> current_is s t b \<Longrightarrow> current_is (cur_run ops s) t b"
  unfolding cur_run_def by (induction ops arbitrary: s) (auto simp: cur_step_keeps)

text \<open>The calls of the user, and what comes back.\<close>

datatype 'r mg_call =
    CallWrites string "byte list option list" msec "int list"
  | CallReads string msec "(int \<times> 'r option) list"
  | CallTalks string "byte list option list" msec "(int \<times> 'r option) list"
  | CallWrite string "byte list" msec
  | CallRead string msec
  | CallSimpleTalk string "byte list" msec
  | CallWriteBack "byte list" msec
  | CallFreeTalks

datatype 'r mg_reply = GotErrors "int list" int | GotResponses "(int \<times> 'r option) list" int | GotReader "'r option" int | GotRet int | GotNone

fun mg_do :: "mg_env \<Rightarrow> nat \<Rightarrow> ('w, 'r) io_env \<Rightarrow> conf_services \<Rightarrow> 'r mg_call \<Rightarrow> ('w, 'r) magneto \<Rightarrow> (('w, 'r) magneto \<times> 'r mg_reply) outcome" where
  "mg_do me t env cs (CallWrites name bufs timeo es) g = obind (magneto_Writes me t env cs name bufs timeo es g) (\<lambda>(g, es, ret). Inr (g, GotErrors es ret))"
| "mg_do me t env cs (CallReads name timeo rs) g = obind (magneto_Reads me t env cs name timeo rs g) (\<lambda>(g, rs, ret). Inr (g, GotResponses rs ret))"
| "mg_do me t env cs (CallTalks name bufs timeo rs) g = obind (magneto_Talks me t env cs name bufs timeo rs g) (\<lambda>(g, rs, ret). Inr (g, GotResponses rs ret))"
| "mg_do me t env cs (CallWrite name buf timeo) g = obind (magneto_Write me t env cs name buf timeo g) (\<lambda>(g, ret). Inr (g, GotRet ret))"
| "mg_do me t env cs (CallRead name timeo) g = obind (magneto_Read me t env cs name timeo g) (\<lambda>(g, r, ret). Inr (g, GotReader r ret))"
| "mg_do me t env cs (CallSimpleTalk name buf timeo) g = obind (magneto_SimpleTalk me t env cs name buf timeo g) (\<lambda>(g, r, ret). Inr (g, GotReader r ret))"
| "mg_do me t env cs (CallWriteBack buf timeo) g = obind (magneto_WriteBack me t env buf timeo g) (\<lambda>(g, ret). Inr (g, GotRet ret))"
| "mg_do me t env cs CallFreeTalks g = obind (magneto_FreeTalks me t g) (\<lambda>g. Inr (g, GotNone))"

text \<open>What such a call is to do for one procedure: the operation of \<^verbatim>\<open>IOBasicTPD\<close>, or nothing when the name is not configured.\<close>

definition found :: "'a option \<Rightarrow> 's \<times> 'b \<Rightarrow> 'r mg_reply \<Rightarrow> ('a \<Rightarrow> ('s \<times> 'b \<times> 'r mg_reply) outcome) \<Rightarrow> ('s \<times> 'b \<times> 'r mg_reply) outcome" where
  "found x s none call = (case x of None \<Rightarrow> Inr (fst s, snd s, none) | Some v \<Rightarrow> call v)"

fun io_do :: "('w, 'r) io_env \<Rightarrow> conf_services \<Rightarrow> 'r mg_call \<Rightarrow> ('w, 'r) slave list \<times> ('w, 'r) biz \<Rightarrow> (('w, 'r) slave list \<times> ('w, 'r) biz \<times> 'r mg_reply) outcome" where
  "io_do env cs (CallWrites name bufs timeo es) s = found (GetServicesSet cs name) s (GotErrors es kNotFound)
     (\<lambda>svcs. obind (io_Writes env svcs bufs timeo es s) (\<lambda>(sls, b, es, ret). Inr (sls, b, GotErrors es ret)))"
| "io_do env cs (CallReads name timeo rs) s = found (GetServicesSet cs name) s (GotResponses rs kNotFound)
     (\<lambda>svcs. obind (io_Reads env svcs timeo rs s) (\<lambda>(sls, b, rs, ret). Inr (sls, b, GotResponses rs ret)))"
| "io_do env cs (CallTalks name bufs timeo rs) s = found (GetServicesSet cs name) s (GotResponses rs kNotFound)
     (\<lambda>svcs. obind (io_Talks env svcs bufs timeo rs s) (\<lambda>(sls, b, rs, ret). Inr (sls, b, GotResponses rs ret)))"
| "io_do env cs (CallWrite name buf timeo) s = found (GetService cs name) s (GotRet kNotFound)
     (\<lambda>svc. obind (io_Write env svc buf timeo s) (\<lambda>(sls, b, ret). Inr (sls, b, GotRet ret)))"
| "io_do env cs (CallRead name timeo) s = found (GetService cs name) s (GotReader None kNotFound)
     (\<lambda>svc. obind (io_Read env svc timeo s) (\<lambda>(sls, b, r, ret). Inr (sls, b, GotReader r ret)))"
| "io_do env cs (CallSimpleTalk name buf timeo) s = found (GetService cs name) s (GotReader None kNotFound)
     (\<lambda>svc. obind (io_SimpleTalk env svc buf timeo s) (\<lambda>(sls, b, r, ret). Inr (sls, b, GotReader r ret)))"
| "io_do env cs (CallWriteBack buf timeo) s = obind (io_WriteBack env buf timeo s) (\<lambda>(sls, b, ret). Inr (sls, b, GotRet ret))"
| "io_do env cs CallFreeTalks s = Inr (fst s, FreeTalks (snd s), GotNone)"

lemma through_io_Inr: "through_io env t call s = Inr (q, y) \<Longrightarrow> call (snd s) = Inr y"
  by (auto simp: through_io_def obind_Inr_iff split: prod.splits option.splits)

lemma in_thread_own:
  assumes "current_is (mg_current g) t b" "in_thread me t call g = Inr (g', x)"
  shows "\<exists>b'. call (mg_slaves g, Some (mg_biz g b)) = Inr ((mg_slaves g', b'), x)
    \<and> mg_biz g' = (case b' of None \<Rightarrow> mg_biz g | Some b' \<Rightarrow> (mg_biz g)(b := b'))"
proof -
  have "tp_wf (mg_current g)" using assms(1) by (simp add: current_is_def)
  then obtain s where "GetCurrentBizProcedure (me_current me) (me_junk me) t (mg_current g) = (s, Some b)"
    using Get_current(3) [OF _ _ assms(1)] by (metis surj_pair)
  then obtain q sls b' where c: "through_io (me_io me) t call (mg_io g, mg_slaves g, Some (mg_biz g b)) = Inr (q, (sls, b'), x)"
    "g' = g\<lparr>mg_current := s, mg_io := q, mg_slaves := sls, mg_biz := (case (Some b, b') of (Some i, Some b) \<Rightarrow> (mg_biz g)(i := b) | _ \<Rightarrow> mg_biz g)\<rparr>"
    using assms(2) by (auto simp: in_thread_def obind_Inr_iff simp del: option.case)
  then show ?thesis using through_io_Inr [OF c(1)] by (cases b') auto
qed

lemmas mg_unfold = magneto_Writes_def magneto_Reads_def magneto_Talks_def magneto_Write_def magneto_Read_def magneto_SimpleTalk_def magneto_WriteBack_def
  magneto_FreeTalks_def mb_Writes_def mb_Reads_def mb_Talks_def mb_Write_def mb_Read_def mb_SimpleTalk_def mb_WriteBack_def mb_FreeTalks_def
  with_set_def with_service_def found_def obind_Inr_iff

lemma mg_do_own:
  assumes "current_is (mg_current g) t b" "mg_do me t env cs call g = Inr (g', x)"
  shows "\<exists>b'. io_do env cs call (mg_slaves g, mg_biz g b) = Inr (mg_slaves g', b', x) \<and> mg_biz g' = (mg_biz g)(b := b')"
proof (cases call)
  case (CallWrites name bufs timeo es)
  then show ?thesis using assms by (cases "GetServicesSet cs name") (auto simp: mg_unfold split: if_splits dest!: in_thread_own)
next
  case (CallReads name timeo rs)
  then show ?thesis using assms by (cases "GetServicesSet cs name") (auto simp: mg_unfold split: if_splits dest!: in_thread_own)
next
  case (CallTalks name bufs timeo rs)
  then show ?thesis using assms by (cases "GetServicesSet cs name") (auto simp: mg_unfold split: if_splits dest!: in_thread_own)
next
  case (CallWrite name buf timeo)
  then show ?thesis using assms by (cases "GetService cs name") (auto simp: mg_unfold split: if_splits dest!: in_thread_own)
next
  case (CallRead name timeo)
  then show ?thesis using assms by (cases "GetService cs name") (auto simp: mg_unfold split: if_splits dest!: in_thread_own)
next
  case (CallSimpleTalk name buf timeo)
  then show ?thesis using assms by (cases "GetService cs name") (auto simp: mg_unfold split: if_splits dest!: in_thread_own)
next
  case (CallWriteBack buf timeo)
  then show ?thesis using assms by (auto simp: mg_unfold split: if_splits dest!: in_thread_own)
next
  case CallFreeTalks
  then show ?thesis using assms by (auto simp: mg_unfold split: if_splits dest!: in_thread_own)
qed

text \<open>C12. A thread was given a procedure, after threads had set and asked for procedures in any way, and other threads have gone on doing so since. Every call of \<^verbatim>\<open>Magneto\<close> in that thread,
  \<^verbatim>\<open>Write\<close>, \<^verbatim>\<open>Read\<close> and \<^verbatim>\<open>Talks\<close> with a set of services, \<^verbatim>\<open>Write\<close>, \<^verbatim>\<open>Read\<close> and \<^verbatim>\<open>SimpleTalk\<close> with one, \<^verbatim>\<open>WriteBack\<close> and \<^verbatim>\<open>FreeTalks\<close>, then works
  on that procedure: what it returns and does to the slaves is what the operation of \<^verbatim>\<open>IOBasicTPD\<close> does for it, or the error for a name that is not configured, and no other procedure is touched.\<close>

theorem call_on_own_procedure:
  assumes "SetCurrentBizProcedure senv junk t b (cur_run ops0 (ThreadPrivacy_new junk0)) = (s, True)" "\<forall>op \<in> set ops. sets_of op \<noteq> Some t"
    "mg_current g = cur_run ops s" "mg_do me t env cs call g = Inr (g', x)"
  shows "\<exists>b'. io_do env cs call (mg_slaves g, mg_biz g b) = Inr (mg_slaves g', b', x) \<and> mg_biz g' = (mg_biz g)(b := b')"
proof -
  have wf: "tp_wf (cur_run ops0 (ThreadPrivacy_new junk0))" by (rule cur_run_wf [OF tp_wf_new])
  note set = Set_current(1,2) [OF wf assms(1)]
  have "current_is (mg_current g) t b" using cur_run_keeps [OF set(1) assms(2)] set assms(3) by auto
  from mg_do_own [OF this assms(4)] show ?thesis .
qed

definition demo_mg :: "(byte list, byte list) magneto" where
  "demo_mg = \<lparr>mg_base = True, mg_current = cur_run [CurGet tp_demo_env None 2] (fst (SetCurrentBizProcedure tp_demo_env None 1 6 (ThreadPrivacy_new None))),
     mg_io = ThreadPrivacy_new (), mg_biz = (\<lambda>_. demo_biz), mg_slaves = [demo_slave]\<rparr>"

definition demo_cs :: conf_services where
  "demo_cs = \<lparr>cs_remotes = [], cs_services = [(''s'', demo_service)], cs_sets = [], cs_set_names = []\<rparr>"

theorem call_on_own_procedure_witness:
  "\<exists>g' b'. mg_do \<lparr>me_current = tp_demo_env, me_io = tp_demo_env, me_junk = None\<rparr> 1 (demo_io (demo_ops 0)) demo_cs (CallSimpleTalk ''s'' [1] 100) demo_mg = Inr (g', GotReader (Some [7]) kOk)
     \<and> io_SimpleTalk (demo_io (demo_ops 0)) demo_service [1] 100 ([demo_slave], demo_biz) = Inr (mg_slaves g', b', Some [7], kOk) \<and> mg_biz g' = (mg_biz demo_mg)(6 := b')"
proof -
  let ?s = "fst (SetCurrentBizProcedure tp_demo_env None 1 6 (ThreadPrivacy_new None))"
  obtain sls b' where talk: "io_SimpleTalk (demo_io (demo_ops 0)) demo_service [1] 100 ([demo_slave], demo_biz) = Inr (sls, b', Some [7], kOk)"
    using demo_simple_talk by blast
  have set: "SetCurrentBizProcedure tp_demo_env None 1 6 (cur_run [] (ThreadPrivacy_new None)) = (?s, True)"
    by (simp add: cur_run_def SetCurrentBizProcedure_def tp_Get_def tp_Get1_def tp_demo_env_def ThreadPrivacy_new_def tp_demo_lock Let_def)
  note s = Set_current(1,2) [OF cur_run_wf [OF tp_wf_new] set]
  have c: "current_is (mg_current demo_mg) 1 6" "tp_wf (mg_current demo_mg)"
    using cur_run_keeps [OF s(1), of "[CurGet tp_demo_env None 2]" 1 6] s(2) cur_run_wf [OF s(1)] by (simp_all add: demo_mg_def)
  obtain s' where cur: "GetCurrentBizProcedure tp_demo_env None 1 (mg_current demo_mg) = (s', Some 6)"
    using Get_current(3) [OF c(2) _ c(1)] by (metis surj_pair)
  obtain q x where io: "tp_Get tp_demo_env 1 0 () (ThreadPrivacy_new ()) = (q, Some x)"
    by (simp add: tp_Get_def tp_Get1_def tp_demo_env_def ThreadPrivacy_new_def tp_demo_lock Let_def)
  have svc: "GetService demo_cs ''s'' = Some demo_service" by (simp add: GetService_def demo_cs_def)
  obtain g' where g': "magneto_SimpleTalk \<lparr>me_current = tp_demo_env, me_io = tp_demo_env, me_junk = None\<rparr> 1 (demo_io (demo_ops 0)) demo_cs ''s'' [1] 100 demo_mg = Inr (g', Some [7], kOk)"
    using talk cur io svc by (auto simp: magneto_SimpleTalk_def in_thread_def through_io_def mb_SimpleTalk_def with_service_def demo_mg_def)
  have "mg_current demo_mg = cur_run [CurGet tp_demo_env None 2] ?s" by (simp add: demo_mg_def)
  moreover have d: "mg_do \<lparr>me_current = tp_demo_env, me_io = tp_demo_env, me_junk = None\<rparr> 1 (demo_io (demo_ops 0)) demo_cs (CallSimpleTalk ''s'' [1] 100) demo_mg = Inr (g', GotReader (Some [7]) kOk)"
    using g' by simp
  ultimately obtain b2 where "io_do (demo_io (demo_ops 0)) demo_cs (CallSimpleTalk ''s'' [1] 100) (mg_slaves demo_mg, mg_biz demo_mg 6) = Inr (mg_slaves g', b2, GotReader (Some [7]) kOk)"
    "mg_biz g' = (mg_biz demo_mg)(6 := b2)"
    using call_on_own_procedure [OF set, of "[CurGet tp_demo_env None 2]" demo_mg] by fastforce
  with d show ?thesis using svc by (auto simp: found_def obind_Inr_iff demo_mg_def)
qed

end
