(* ===== verification/Spec2Isabelle.thy ===== *)
theory Spec2Isabelle
  imports Mag_Prelude Timer_Heap Events_Driver Close_Hashmap Pool_Objs Thread_Privacy Mpsc_Pipe Mpsc_Wait Mpsc_Concurrent Mpsc_Layout Mpsc_Fifo
    Byte_Order Protocols Protocol_Rapid Redis_Parser Protocol_Thrift
    Talk_Model Conns_Pool Conns_Mgr Json_Val Confs Session_Model Agent_Slave Agents Biz_Procedure IO_Basic Schedulers Magneto_Base
    Clock Lock_Policy Thread_Pool Ip_Addr Threads Facade
begin

text \<open>
  A verification development of magneto, a C++ framework for network services: clients' requests are
  read by agents, handled by coroutines that talk to other services, and answered.

  \<^bold>\<open>The program.\<close> \<^verbatim>\<open>MagnetoBase\<close> starts from two configuration files. The agent master accepts connections and
  hands each to an agent slave, through the slave's mailbox. A slave waits on an epoll driver with
  timeouts; it reads requests, hands complete ones to a scheduler, and carries out the sessions of
  running procedures: groups of talks with remote services, over connections that its connection
  manager pools, with retries. A scheduler takes messages from its mailbox and starts or resumes
  procedures; a procedure runs the user's handler, whose calls (\<^verbatim>\<open>IOBasic\<close>) send a session to the slave of
  the procedure and suspend it until the session comes back. When a procedure ends, its connections
  and its client go back to the slave.

  \<^bold>\<open>The theories\<close>, from the bottom up; the files are below \<^verbatim>\<open>deps/public-cpp/include/public-cpp/\<close> (P) and
  \<^verbatim>\<open>src/\<close> (S).
  \<^item> \<^verbatim>\<open>Mag_Prelude\<close>: type names, error numbers (\<^verbatim>\<open>S/error_no.h\<close>), the outcome type of code that can crash, shared lemmas.
  \<^item> \<^verbatim>\<open>Timer_Heap\<close> (\<^verbatim>\<open>P/heap.hpp\<close>): the heap with handles; refinement of a priority queue with addressable entries.
  \<^item> \<^verbatim>\<open>Events_Driver\<close> (\<^verbatim>\<open>P/events_driver.hpp\<close>): registration, waiting, timeouts; refinement to maps of deadlines and contexts.
  \<^item> \<^verbatim>\<open>Close_Hashmap\<close> (\<^verbatim>\<open>P/close_hashmap.hpp\<close>): open addressing; refinement of a map, and when it refuses.
  \<^item> \<^verbatim>\<open>Pool_Objs\<close> (\<^verbatim>\<open>P/pool_objs/\<close>): the object pool as a stack; no object is handed out twice.
  \<^item> \<^verbatim>\<open>Thread_Privacy\<close> (\<^verbatim>\<open>P/thread_privacy/\<close>): objects of a thread; no two threads or numbers share one.
  \<^item> \<^verbatim>\<open>Clock\<close> (\<^verbatim>\<open>P/time/time.h\<close>), \<^verbatim>\<open>Lock_Policy\<close> (\<^verbatim>\<open>P/lock_policy.hpp\<close>): the clock that is looked at on request; a lock that makes its mutex at the
    first use, in steps of any number of threads: when it excludes, and how two first users both get it.
  \<^item> \<^verbatim>\<open>Thread_Pool\<close> (\<^verbatim>\<open>P/thread_private_pool.hpp\<close>, \<^verbatim>\<open>S/protocols/pool_protocols.h\<close>): readers and writers kept in pools of each thread and category; an object
    handed out is of the protocol asked for and used by nobody else. It composes \<^verbatim>\<open>Thread_Privacy\<close> and \<^verbatim>\<open>Pool_Objs\<close>.
  \<^item> \<^verbatim>\<open>Mpsc_Pipe\<close>, \<^verbatim>\<open>Mpsc_Wait\<close> (\<^verbatim>\<open>P/mpsc_fixed_pipe/\<close>): the mailbox, a ring of bytes with packed paces; refinement of a FIFO queue; receiving with a timeout.
  \<^item> \<^verbatim>\<open>Mpsc_Concurrent\<close>, \<^verbatim>\<open>Mpsc_Layout\<close>, \<^verbatim>\<open>Mpsc_Fifo\<close>: the same code cut at its accesses to shared memory, any number of senders and the receiver
    interleaved; three races that lose or corrupt messages, and that without them it is a FIFO queue which loses nothing. The
    invariant places the messages on an unrolled ring and says what each sender knows at each place of \<^verbatim>\<open>SendMsg_\<close>. A call that nobody interrupts returns and appends to the queue.
  \<^item> \<^verbatim>\<open>Byte_Order\<close>, \<^verbatim>\<open>Protocols\<close>, \<^verbatim>\<open>Protocol_Rapid\<close>, \<^verbatim>\<open>Redis_Parser\<close>, \<^verbatim>\<open>Protocol_Thrift\<close> (\<^verbatim>\<open>S/protocols/\<close>, \<^verbatim>\<open>P/buffer.hpp\<close>): addresses, categories, ping, the
    rapid and thrift protocols with their resumable readers, the redis protocol with encoder and parser; round trips. \<^verbatim>\<open>Ip_Addr\<close> (\<^verbatim>\<open>P/io_helper.h\<close>) reads dotted addresses.
  \<^item> \<^verbatim>\<open>Talk_Model\<close> (\<^verbatim>\<open>S/model.h\<close>), \<^verbatim>\<open>Conns_Pool\<close> and \<^verbatim>\<open>Conns_Mgr\<close> (\<^verbatim>\<open>S/conns_mgr/\<close>): remotes, services, talks; idle connections
    with health marks; the choice of a remote; invariant over all reachable states of the manager.
  \<^item> \<^verbatim>\<open>Json_Val\<close> (\<^verbatim>\<open>P/jsontype/\<close>), \<^verbatim>\<open>Confs\<close> (\<^verbatim>\<open>S/confs/\<close>, \<^verbatim>\<open>P/delay_del_ptr.hpp\<close>): configuration values, files and versions.
  \<^item> \<^verbatim>\<open>Session_Model\<close> (\<^verbatim>\<open>S/event_ctx.h\<close>, \<^verbatim>\<open>S/msg.h\<close>, \<^verbatim>\<open>S/session.h\<close>): event contexts, messages, sessions on the state of a slave.
  \<^item> \<^verbatim>\<open>Agent_Slave\<close>, \<^verbatim>\<open>Agents\<close> (\<^verbatim>\<open>S/agents/\<close>): the handlers of a slave, its rounds; routing, the master, the notifier.
  \<^item> \<^verbatim>\<open>Biz_Procedure\<close> (\<^verbatim>\<open>S/biz_procedure.h\<close>, \<^verbatim>\<open>S/ctx_helper.h\<close>), \<^verbatim>\<open>IO_Basic\<close> (\<^verbatim>\<open>S/io_basic/\<close>), \<^verbatim>\<open>Schedulers\<close> (\<^verbatim>\<open>S/schedulers/\<close>), \<^verbatim>\<open>Magneto_Base\<close>
    (\<^verbatim>\<open>S/magneto_base.h\<close>): procedures, the calls of a handler, the task queue, the calls by name and the start.
  \<^item> \<^verbatim>\<open>Threads\<close>: \<^verbatim>\<open>Start\<close>, \<^verbatim>\<open>Run_\<close> and \<^verbatim>\<open>Stop\<close> of master, slaves, schedulers and the program: every thread that is started is joined once.
  \<^item> \<^verbatim>\<open>Facade\<close> (\<^verbatim>\<open>S/magneto.h\<close>, \<^verbatim>\<open>S/io_basic/io_basic.h\<close>): the calls of the user; each works on the procedure its own thread was given.

  \<^bold>\<open>How code is modelled.\<close> A class is a record, an operation a function from state to state with the
  source's name (\<^verbatim>\<open>drv_\<close>, \<^verbatim>\<open>heap_\<close>, \<^verbatim>\<open>pool_\<close>, \<^verbatim>\<open>pipe_\<close>, \<^verbatim>\<open>cm_\<close>, \<^verbatim>\<open>pc_\<close>, \<^verbatim>\<open>io_\<close>, \<^verbatim>\<open>mb_\<close> in front where names are shared). Pointers
  into pools are numbers; a run that dereferences a null pointer, divides by zero, leaves a vector or
  fails an assertion is an \<open>Inl\<close> of the type \<open>outcome\<close>. What the kernel, the clock, random numbers, the
  allocator and the binary part of public-cpp answer is an argument (\<open>drv_env\<close>, \<open>conn_env\<close>, \<open>ag_env\<close>, \<open>io_env\<close>, ...).
  Descriptors that are closed, objects given back and messages sent are logged in the state, so that
  statements such as closed exactly once can be made. Virtual functions of protocols are a record of
  functions. Machine words are kept where they matter: pace words and size words of the pipe, byte
  order, lengths of messages, \<^verbatim>\<open>size_t\<close> conversions of configured numbers.

  \<^bold>\<open>Loops.\<close> Loops over containers are structural recursion. Loops that may not end are
  \<open>partial_function (option)\<close> (timeouts, publishing in the pipe, the rapid reader, upward and downward
  moves in the heap are shown to return); the probe sequence of the hash map and the walk over its slots take one unit
  of fuel per slot, which is enough since each step visits another slot. Retried sends run on a list
  of answers of the mailbox; a list without a success gives \<open>NoReturn\<close>.

  \<^bold>\<open>Interfaces as locales.\<close> The handlers of an event on a talk share a contract (\<open>session_handler\<close>,
  interpreted for connecting, reading and writing); the priority queue, map and queue contracts of the
  library components are locales interpreted on their models in the theories that provide them.

  \<^bold>\<open>What is shown\<close>: every operation of the library components keeps its invariant and implements its
  abstract specification; talks end, and their descriptors and readers have one owner through every
  event; sessions are reported once; retries avoid failed remotes; messages are delivered in order;
  protocols read back what they write; a configuration that loads is consistent and after a start
  every slave can reach every configured remote. Where the code does not do what it means to, the
  behaviour is stated and proved as it is.

  \<^bold>\<open>Not modelled\<close>: outside the pipe and the lock threads are not interleaved inside an operation (operations of different threads can
  be put in any order), and memory is sequentially consistent; the stacks and contexts of coroutines; \<^verbatim>\<open>SpinLock\<close>, whose steps are those of \<^verbatim>\<open>ThreadMutex\<close>. The
  slaves and sessions log the protocol objects they give back and do not go through the pools of \<^verbatim>\<open>Thread_Pool\<close>; the counted references of configuration values are values. The binary protocol of the thrift library is an argument. The parser and printer of
  configuration values, the default notifier, the destructor of \<^verbatim>\<open>ThreadPrivacy\<close> and the non-blocking reads and writes come in binary form. Statistics, logging, signal masks and macros have no
  state of their own; slices are lists of bytes; examples and tests use the framework.
\<close>

section \<open>From the configuration to the connections\<close>

text \<open>C1. After a start from configuration files every slave has a pool of connections for every remote of
  every configured service, and every name looks up a service that \<^verbatim>\<open>BuildServices\<close> has checked: the
  set of remotes that the configuration collects is the one the connection managers are set up with.\<close>

theorem started_slaves_know_remotes:
  assumes "Confs_Init thrift ia junk kNumRemotes now files = Some cf"
    "mailbox_fits bt (cf_normal cf)" "\<And>i. bt_notifier bt i"
    "master_Init lenvs listen (listen_addrs (cf_normal cf)) (master_new bt) = Inr (m, True)"
  shows "\<exists>mb cs. mb_Init bt lenvs listen denv denvs (Some cf) has_req routines = Inr (Some mb)
    \<and> GetConfServices None (mb_confs mb) = Some cs \<and> ag_slaves (mb_agents mb) \<noteq> []
    \<and> list_all (\<lambda>sl. list_all (\<lambda>(name, svc). list_all (\<lambda>r. cm_Get (sl_conns sl) r \<noteq> None) (sv_remotes svc)) (cs_services cs))
        (ag_slaves (mb_agents mb))"
proof -
  obtain cs where cs: "GetConfServices None cf = Some cs"
    "ConfServices_Init thrift ia (cf_normal cf) kNumRemotes (files ''services.conf'') = Some cs" "0 < num_agents (cf_normal cf)"
    using Confs_Init_services [OF assms(1)] by blast
  have wf: "services_wf kNumRemotes cs" using ConfServices_Init_wf [OF cs(2)] by simp
  then have few: "length (cs_remotes cs) \<le> 100000" by (simp add: services_wf_def kNumRemotes_def)
  obtain ss slaves where s: "mb_Init bt lenvs listen denv denvs (Some cf) has_req routines
       = Inr (Some \<lparr>mb_confs = cf, mb_schedulers = ss, mb_agents = \<lparr>ag_slaves = slaves, ag_master = Some m\<rparr>\<rparr>)"
    "slaves_Init bt (cf_normal cf) (cs_remotes cs) (num_agents (cf_normal cf)) = Inr (slaves, True)"
    "length slaves = num_agents (cf_normal cf)"
    by (rule mb_Init_ok [OF assms(2,3) cs(1) few assms(4)])
  have "cm_Get (sl_conns sl) r \<noteq> None" if "sl \<in> set slaves" "(name, svc) \<in> set (cs_services cs)" "r \<in> set (sv_remotes svc)" for sl name svc r
  proof -
    have "set_has r (cs_remotes cs)"
      using wf that by (fastforce simp: services_wf_def service_wf_def list_all_iff set_has_def)
    from slaves_Init_knows [OF s(2) this that(1)] show ?thesis .
  qed
  then show ?thesis using s cs by (fastforce simp: list_all_iff)
qed

text \<open>The files of a small installation.\<close>

definition demo_files :: "string \<Rightarrow> json option" where
  "demo_files name =
     (if name = ''services.conf'' then Some demo_services
      else if name = ''normal.conf'' then Some (JDict [(''num_schedulers'', JInt 2), (''num_agents'', JInt 3),
        (''client_keepalive_sec'', JInt 60), (''max_num_clients_keepalive'', JInt 100), (''long_conn_keepalive_sec'', JInt 60),
        (''ctimeo_ms'', JInt 10), (''wtimeo_ms'', JInt 10), (''rtimeo_ms'', JInt 10), (''listen_addrs'', JDict []),
        (''size_scheduler_mailbox'', JInt 65536), (''size_agent_mailbox'', JInt 65536), (''size_stack'', JInt 65536),
        (''low_latency'', JInt 0), (''default_long_conns'', JInt 5), (''default_weight'', JInt 1)])
      else None)"

definition demo_cn :: conf_normal where
  "demo_cn = demo_conf\<lparr>num_agents := 3, size_scheduler_mailbox := 65536, size_agent_mailbox := 65536\<rparr>"

lemma demo_files_normal: "ConfNormal_Init False ia junk (demo_files ''normal.conf'') = Some demo_cn"
  by (simp add: ConfNormal_Init_def demo_files_def IsDict_def IsInt_def json_get_def conf_int_def demo_cn_def demo_conf_def)

lemma demo_files_services: "ConfServices_Init False (\<lambda>_. 0x0100007F) demo_cn kNumRemotes (demo_files ''services.conf'') \<noteq> None"
  by (simp add: ConfServices_Init_def demo_files_def demo_services_def IsDict_def IsStr_def IsList_def IsInt_def json_get_def BuildService_def
      ParseServiceTag_def GetCategory_def BuildRemote_def Addr_Assign_def INADDR_NONE_def int_or_def Let_def map_insert_def kNumRemotes_def)

theorem started_slaves_know_remotes_witness:
  "\<exists>cf mb cs. Confs_Init False (\<lambda>_. 0x0100007F) \<lparr>sin_family = AF_INET, s_addr = 1, sin_port = 80\<rparr> kNumRemotes 0 demo_files = Some cf
    \<and> mb_Init demo_boot (\<lambda>_. drv_demo_env 0) (\<lambda>_. 5) (drv_demo_env 0) (\<lambda>_. drv_demo_env 0) (Some cf) True [] = Inr (Some mb)
    \<and> GetConfServices None (mb_confs mb) = Some cs \<and> ag_slaves (mb_agents mb) \<noteq> []
    \<and> list_all (\<lambda>sl. list_all (\<lambda>(name, svc). list_all (\<lambda>r. cm_Get (sl_conns sl) r \<noteq> None) (sv_remotes svc)) (cs_services cs))
        (ag_slaves (mb_agents mb))"
proof -
  obtain cf where cf: "Confs_Init False (\<lambda>_. 0x0100007F) \<lparr>sin_family = AF_INET, s_addr = 1, sin_port = 80\<rparr> kNumRemotes 0 demo_files = Some cf"
    "cf_normal cf = demo_cn"
    using demo_files_services by (auto simp: Confs_Init_def demo_files_normal versioned_Load_def)
  have m: "mailbox_fits demo_boot (cf_normal cf)" "bt_notifier demo_boot i"
    "master_Init (\<lambda>_. drv_demo_env 0) (\<lambda>_. 5) (listen_addrs (cf_normal cf)) (master_new demo_boot) = Inr (master_new demo_boot, True)" for i
    by (simp_all add: cf(2) demo_cn_def demo_conf_def mailbox_fits_def demo_boot_def kMaxSizeMsg_def)
  from started_slaves_know_remotes [OF cf(1) m] cf(1) show ?thesis by blast
qed

end
